(* ===== verification/Prelude.thy ===== *)
theory Prelude
  imports Main "HOL-Library.Word"
begin

text \<open>
  Shared vocabulary of the development: the C integer types as machine words, the outcome type
  of kernel code (a returned value and state, or the reason why the code stopped), little-endian
  byte encodings, and the byte-addressed memory that \<^verbatim>\<open>kernel/string.c\<close>, the page tables and the
  copy routines work on.
\<close>

unbundle bit_operations_syntax

type_synonym uchar = "8 word"
type_synonym ushort = "16 word"
type_synonym uint = "32 word"
type_synonym uint64 = "64 word"

named_theorems outcome_simps
  \<open>equations that run the sequencing operators of an outcome\<close>

named_theorems mem_simps
  \<open>reads of a byte memory after writes\<close>

section \<open>Outcomes\<close>

text \<open>
  Wait channels. A channel is the address of a kernel object; the constructors name the
  addresses that the source passes to \<^verbatim>\<open>sleep\<close> and \<^verbatim>\<open>wakeup\<close>.
\<close>

datatype chan =
    Ch_null              \<comment> \<open>the null pointer, on which nobody sleeps\<close>
  | Ch_proc nat          \<comment> \<open>\<open>struct proc *p\<close> (wait)\<close>
  | Ch_ticks             \<comment> \<open>\<open>&ticks\<close>\<close>
  | Ch_log               \<comment> \<open>\<open>&log\<close>\<close>
  | Ch_cons_r            \<comment> \<open>\<open>&cons.r\<close>\<close>
  | Ch_uart_tx_r         \<comment> \<open>\<open>&uart_tx_r\<close>\<close>
  | Ch_disk_free         \<comment> \<open>\<open>&disk.free[0]\<close>\<close>
  | Ch_buf nat           \<comment> \<open>\<open>struct buf *b\<close>\<close>
  | Ch_buf_lock nat      \<comment> \<open>\<open>&b->lock\<close>\<close>
  | Ch_inode_lock nat    \<comment> \<open>\<open>&ip->lock\<close>\<close>
  | Ch_pipe_nread uint64 \<comment> \<open>\<open>&pi->nread\<close>\<close>
  | Ch_pipe_nwrite uint64 \<comment> \<open>\<open>&pi->nwrite\<close>\<close>

text \<open>
  Why a run of kernel code stopped before returning: \<^verbatim>\<open>panic\<close> with its message, a spin on a lock
  that another CPU holds, a context switch (\<^verbatim>\<open>swtch\<close>) that gives up the CPU, or an access through
  a null pointer.
\<close>

datatype stop = Panic string | Spin | Swtch | Fault

type_synonym ('s, 'a) out = "(stop \<times> 's) + ('a \<times> 's)"

definition ret :: "'a \<Rightarrow> 's \<Rightarrow> ('s, 'a) out" where
  "ret a s = Inr (a, s)"

definition panic :: "string \<Rightarrow> 's \<Rightarrow> ('s, 'a) out" where
  "panic msg s = Inl (Panic msg, s)"

definition bnd :: "('s, 'a) out \<Rightarrow> ('a \<Rightarrow> 's \<Rightarrow> ('s, 'b) out) \<Rightarrow> ('s, 'b) out" where
  "bnd m f = (case m of Inl e \<Rightarrow> Inl e | Inr (a, s) \<Rightarrow> f a s)"

lemma bnd_ret [simp, outcome_simps]: "bnd (ret a s) f = f a s"
  by (simp add: bnd_def ret_def)

lemma bnd_Inr [simp, outcome_simps]: "bnd (Inr (a, s)) f = f a s"
  by (simp add: bnd_def)

lemma bnd_Inl [simp, outcome_simps]: "bnd (Inl e) f = Inl e"
  by (simp add: bnd_def)

lemma bnd_panic [simp, outcome_simps]: "bnd (panic m s) f = panic m s"
  by (simp add: bnd_def panic_def)

lemma ret_eq_Inr [simp]: "ret a s = Inr (b, t) \<longleftrightarrow> a = b \<and> s = t"
  by (simp add: ret_def)

lemma ret_eq_ret [simp]: "ret a s = ret b t \<longleftrightarrow> a = b \<and> s = t"
  by (simp add: ret_def)

lemma ret_not_Inl [simp]: "ret a s \<noteq> Inl e" "Inl e \<noteq> ret a s"
  by (simp_all add: ret_def)

lemma panic_not_Inr [simp]: "panic m s \<noteq> Inr x" "Inr x \<noteq> panic m s"
  by (simp_all add: panic_def)

lemma panic_not_ret [simp]: "panic m s \<noteq> ret a t" "ret a t \<noteq> panic m s"
  by (simp_all add: panic_def ret_def)

lemma panic_eq_Inl [simp]: "panic m s = Inl e \<longleftrightarrow> e = (Panic m, s)"
  by (auto simp: panic_def)

lemma bnd_eq_Inr:
  "bnd m f = Inr r \<longleftrightarrow> (\<exists>a s. m = Inr (a, s) \<and> f a s = Inr r)"
  by (auto simp: bnd_def split: sum.splits)

lemma bnd_eq_ret:
  "bnd m f = ret b t \<longleftrightarrow> (\<exists>a s. m = ret a s \<and> f a s = ret b t)"
  by (auto simp: bnd_def ret_def split: sum.splits)

lemma ret_eq_bnd:
  "ret b t = bnd m f \<longleftrightarrow> (\<exists>a s. m = ret a s \<and> f a s = ret b t)"
  by (metis bnd_eq_ret)

lemma bnd_assoc: "bnd (bnd m f) g = bnd m (\<lambda>a s. bnd (f a s) g)"
  by (auto simp: bnd_def split: sum.splits)

lemma bnd_cong [fundef_cong]:
  "m = m' \<Longrightarrow> (\<And>a s. m' = Inr (a, s) \<Longrightarrow> f a s = f' a s) \<Longrightarrow> bnd m f = bnd m' f'"
  by (auto simp: bnd_def split: sum.splits)

text \<open>
  \<open>post Q m\<close>: if the code returns, its result and final state satisfy \<open>Q\<close>. \<open>stops m\<close> reads
  the reason a run stopped for.
\<close>

definition post :: "('a \<Rightarrow> 's \<Rightarrow> bool) \<Rightarrow> ('s, 'a) out \<Rightarrow> bool" where
  "post Q m = (case m of Inl _ \<Rightarrow> True | Inr (a, s) \<Rightarrow> Q a s)"

lemma post_simps [simp]:
  "post Q (ret a s) = Q a s"
  "post Q (Inr (a, s)) = Q a s"
  "post Q (panic m s)"
  "post Q (Inl e)"
  by (simp_all add: post_def ret_def panic_def)

lemma post_bnd: "post Q (bnd m f) = post (\<lambda>a s. post Q (f a s)) m"
  by (auto simp: post_def bnd_def split: sum.splits)

lemma post_mono: "post P m \<Longrightarrow> (\<And>a s. P a s \<Longrightarrow> Q a s) \<Longrightarrow> post Q m"
  by (auto simp: post_def split: sum.splits)

lemma post_bndI: "post P m \<Longrightarrow> (\<And>a s. P a s \<Longrightarrow> post Q (f a s)) \<Longrightarrow> post Q (bnd m f)"
  unfolding post_bnd by (rule post_mono)

lemma postD: "post Q m \<Longrightarrow> m = Inr (a, s) \<Longrightarrow> Q a s"
  by simp

text \<open>\<open>wp Q m\<close>: the code does return, and its result and final state satisfy \<open>Q\<close>.\<close>

definition wp :: "('a \<Rightarrow> 's \<Rightarrow> bool) \<Rightarrow> ('s, 'a) out \<Rightarrow> bool" where
  "wp Q m = (case m of Inl _ \<Rightarrow> False | Inr (a, s) \<Rightarrow> Q a s)"

lemma wp_simps [simp]:
  "wp Q (ret a s) = Q a s"
  "wp Q (Inr (a, s)) = Q a s"
  "\<not> wp Q (panic m s)"
  "\<not> wp Q (Inl e)"
  by (simp_all add: wp_def ret_def panic_def)

lemma wp_bnd [simp]: "wp Q (bnd m f) = wp (\<lambda>a s. wp Q (f a s)) m"
  by (auto simp: wp_def bnd_def split: sum.splits)

lemma wp_mono: "wp P m \<Longrightarrow> (\<And>a s. P a s \<Longrightarrow> Q a s) \<Longrightarrow> wp Q m"
  by (auto simp: wp_def split: sum.splits)

lemma wp_iff: "wp Q m \<longleftrightarrow> (\<exists>a s. m = ret a s \<and> Q a s)"
  by (auto simp: wp_def ret_def split: sum.splits)

lemma wp_post: "wp Q m \<Longrightarrow> post Q m"
  by (auto simp: wp_def post_def split: sum.splits)

text \<open>
  \<open>fin m\<close>: the state in which a run ends, whether it returned or stopped. \<open>keeps v s m\<close>: the view \<open>v\<close> of
  the state is the same at the end of the run \<open>m\<close> as in \<open>s\<close>.
\<close>

definition fin :: "('s, 'a) out \<Rightarrow> 's" where
  "fin m = (case m of Inl (_, s) \<Rightarrow> s | Inr (_, s) \<Rightarrow> s)"

lemma fin_simps [simp]: "fin (ret a s) = s" "fin (Inr (a, s)) = s" "fin (Inl (e, s)) = s" "fin (panic msg s) = s"
  by (simp_all add: fin_def ret_def panic_def)

definition keeps :: "('s \<Rightarrow> 'v) \<Rightarrow> 's \<Rightarrow> ('s, 'a) out \<Rightarrow> bool" where
  "keeps v s m \<longleftrightarrow> v (fin m) = v s"

lemma keeps_simps [simp]:
  "keeps v s (ret a t) \<longleftrightarrow> v t = v s" "keeps v s (Inl (e, t)) \<longleftrightarrow> v t = v s" "keeps v s (panic msg t) \<longleftrightarrow> v t = v s"
  by (simp_all add: keeps_def)

lemma keeps_bnd:
  "keeps v s m \<Longrightarrow> (\<And>a t. m = Inr (a, t) \<Longrightarrow> keeps v t (f a t)) \<Longrightarrow> keeps v s (bnd m f)"
  by (auto simp: keeps_def bnd_def fin_def split: sum.splits)

lemma keeps_trans: "keeps v t m \<Longrightarrow> v t = v s \<Longrightarrow> keeps v s m"
  by (simp add: keeps_def)

section \<open>Little-endian encodings\<close>

primrec le_word :: "uchar list \<Rightarrow> 'a::len word" where
  "le_word [] = 0"
| "le_word (b # bs) = ucast b OR push_bit 8 (le_word bs)"

primrec le_bytes :: "nat \<Rightarrow> 'a::len word \<Rightarrow> uchar list" where
  "le_bytes 0 v = []"
| "le_bytes (Suc k) v = ucast v # le_bytes k (drop_bit 8 v)"

lemma length_le_bytes [simp]: "length (le_bytes k v) = k"
  by (induction k arbitrary: v) auto

lemma take_bit_8_split:
  "take_bit (8 + n) v = ucast (ucast v :: uchar) OR push_bit 8 (take_bit n (drop_bit 8 v))"
  for v :: "'a::len word"
  by (rule bit_word_eqI) (auto simp: bit_simps)

lemma le_word_le_bytes: "le_word (le_bytes k v) = take_bit (8 * k) v" for v :: "'a::len word"
proof (induction k arbitrary: v)
  case (Suc k)
  have "take_bit (8 * Suc k) v = take_bit (8 + 8 * k) v" by simp
  with Suc show ?case by (simp only: take_bit_8_split le_bytes.simps le_word.simps)
qed simp

lemma le_bytes_16 [simp]: "le_word (le_bytes 2 (v :: ushort)) = v"
  by (simp add: le_word_le_bytes take_bit_word_eq_self)

lemma le_bytes_32 [simp]: "le_word (le_bytes 4 (v :: uint)) = v"
  by (simp add: le_word_le_bytes take_bit_word_eq_self)

lemma le_bytes_64 [simp]: "le_word (le_bytes 8 (v :: uint64)) = v"
  by (simp add: le_word_le_bytes take_bit_word_eq_self)

lemma le_word_replicate_0 [simp]: "le_word (replicate n 0) = 0"
  by (induction n) auto

lemma le_bytes_0 [simp]: "le_bytes n 0 = replicate n 0"
  by (induction n) auto

section \<open>Byte memory\<close>

type_synonym mem = "uint64 \<Rightarrow> uchar"

definition ld_bytes :: "mem \<Rightarrow> uint64 \<Rightarrow> nat \<Rightarrow> uchar list" where
  "ld_bytes m a n = map (\<lambda>i. m (a + of_nat i)) [0..<n]"

primrec st_bytes :: "mem \<Rightarrow> uint64 \<Rightarrow> uchar list \<Rightarrow> mem" where
  "st_bytes m a [] = m"
| "st_bytes m a (b # bs) = st_bytes (m(a := b)) (a + 1) bs"

definition ld64 :: "mem \<Rightarrow> uint64 \<Rightarrow> uint64" where
  "ld64 m a = le_word (ld_bytes m a 8)"

definition st64 :: "mem \<Rightarrow> uint64 \<Rightarrow> uint64 \<Rightarrow> mem" where
  "st64 m a v = st_bytes m a (le_bytes 8 v)"

lemma length_ld_bytes [simp]: "length (ld_bytes m a n) = n"
  by (simp add: ld_bytes_def)

lemma unat_sub_1: "x \<noteq> (a :: 'a::len word) \<Longrightarrow> unat (x - (a + 1)) = unat (x - a) - 1"
proof -
  assume "x \<noteq> a"
  then have "unat (x - a) \<noteq> 0" by (simp add: unat_eq_zero)
  moreover have "x - (a + 1) = (x - a) - 1" by simp
  ultimately show ?thesis by (metis unat_minus_one unat_0)
qed

lemma st_bytes_apply:
  "length bs \<le> 2 ^ 64 \<Longrightarrow>
   st_bytes m a bs x = (if unat (x - a) < length bs then bs ! unat (x - a) else m x)"
proof (induction bs arbitrary: m a)
  case (Cons b bs)
  show ?case
  proof (cases "x = a")
    case True
    have "unat (- (1 :: uint64)) = 2 ^ 64 - 1"
      by (simp add: unsigned_minus_1_eq_mask mask_eq_exp_minus_1)
    with True Cons show ?thesis by simp
  next
    case False
    then have "unat (x - a) \<noteq> 0" by (simp add: unat_eq_zero)
    then obtain k where k: "unat (x - a) = Suc k" by (cases "unat (x - a)") auto
    with False have "unat (x - (a + 1)) = k" by (simp add: unat_sub_1)
    with Cons k False show ?thesis by simp
  qed
qed simp


lemma st_bytes_outside: "length bs \<le> 2 ^ 64 \<Longrightarrow> length bs \<le> unat (x - a) \<Longrightarrow> st_bytes m a bs x = m x"
  by (simp add: st_bytes_apply)

lemma ld_bytes_nth [simp]: "i < n \<Longrightarrow> ld_bytes m a n ! i = m (a + of_nat i)"
  by (simp add: ld_bytes_def)

lemma ld_bytes_cong: "(\<And>i. i < n \<Longrightarrow> m (a + of_nat i) = m' (a + of_nat i)) \<Longrightarrow> ld_bytes m a n = ld_bytes m' a n"
  by (simp add: ld_bytes_def)

lemma ld_st_bytes_same: "length bs \<le> 2 ^ 64 \<Longrightarrow> ld_bytes (st_bytes m a bs) a (length bs) = bs"
  by (rule nth_equalityI) (simp_all add: st_bytes_apply unat_of_nat)

text \<open>Aligned addresses: \<open>a\<close> is a multiple of \<open>2 ^ n\<close>.\<close>

definition aligned :: "nat \<Rightarrow> 'a::len word \<Rightarrow> bool" where
  "aligned n a \<longleftrightarrow> take_bit n a = 0"

lemma take_bit_less: "a < 2 ^ n \<Longrightarrow> take_bit n a = a" for a :: "'a::len word"
  by (simp add: mod_word_less take_bit_eq_mod)

lemma aligned_bit: "aligned n a \<Longrightarrow> k < n \<Longrightarrow> \<not> bit a k"
  unfolding aligned_def by (metis bit_take_bit_iff bit_0_eq bot_apply bot_bool_def)

lemma aligned_unat: "aligned n a \<longleftrightarrow> 2 ^ n dvd unat a" for a :: "'a::len word"
proof -
  have "aligned n a \<longleftrightarrow> unat (take_bit n a) = 0" by (simp add: aligned_def unat_eq_zero)
  then show ?thesis by (simp add: unsigned_take_bit_eq take_bit_eq_0_iff)
qed

lemma add_of_nat_or: "aligned n a \<Longrightarrow> i < 2 ^ n \<Longrightarrow> a + of_nat i = a OR of_nat i"
  for a :: "'a::len word"
proof (rule disjunctive_add_eq_or, rule bit_word_eqI)
  fix k assume a: "aligned n a" and i: "i < 2 ^ n" and "k < LENGTH('a)"
  have "bit (of_nat i :: 'a word) k \<Longrightarrow> k < n"
    using i by (metis bit_take_bit_iff bit_of_nat_iff take_bit_nat_eq_self)
  then show "bit (a AND of_nat i) k = bit (0 :: 'a word) k"
    using aligned_bit [OF a] by (auto simp: bit_and_iff)
qed

lemma aligned_offset_inj:
  fixes a b :: "'a::len word"
  assumes "aligned n a" "aligned n b" "i < 2 ^ n" "j < 2 ^ n" "a + of_nat i = b + of_nat j"
  shows "a = b"
proof (rule bit_word_eqI)
  fix k assume "k < LENGTH('a)"
  have *: "bit (of_nat m :: 'a word) k \<Longrightarrow> m < 2 ^ n \<Longrightarrow> k < n" for m
    by (metis bit_take_bit_iff bit_of_nat_iff take_bit_nat_eq_self)
  from assms have eq: "a OR of_nat i = b OR of_nat j" by (simp add: add_of_nat_or)
  show "bit a k = bit b k"
  proof (cases "k < n")
    case True
    with assms(1,2) show ?thesis by (simp add: aligned_bit)
  next
    case False
    with * assms(3,4) have "\<not> bit (of_nat i :: 'a word) k" "\<not> bit (of_nat j :: 'a word) k" by auto
    with arg_cong [OF eq, of "\<lambda>w. bit w k"] show ?thesis by (simp add: bit_or_iff)
  qed
qed

lemma unat_offset_aligned:
  fixes a b :: uint64
  assumes "aligned n a" "aligned n b" "a \<noteq> b" "i < 2 ^ n"
  shows "2 ^ n \<le> unat (a + of_nat i - b)"
proof (rule ccontr)
  assume "\<not> ?thesis"
  then have j: "unat (a + of_nat i - b) < 2 ^ n" by simp
  have "a + of_nat i = b + of_nat (unat (a + of_nat i - b))" by simp
  from aligned_offset_inj [OF assms(1,2,4) j this] assms(3) show False by simp
qed

lemma ld64_st64_same [mem_simps]: "ld64 (st64 m a v) a = v"
  using ld_st_bytes_same [of "le_bytes 8 v" m a] by (simp add: ld64_def st64_def)

lemma ld64_st64_other [mem_simps]:
  assumes "aligned 3 a" "aligned 3 b" "a \<noteq> b"
  shows "ld64 (st64 m a v) b = ld64 m b"
proof -
  have "ld_bytes (st64 m a v) b 8 = ld_bytes m b 8"
  proof (rule ld_bytes_cong)
    fix i :: nat assume "i < 8"
    with unat_offset_aligned [of 3 b a i] assms have "8 \<le> unat (b + of_nat i - a)" by simp
    then show "st64 m a v (b + of_nat i) = m (b + of_nat i)"
      by (simp add: st64_def st_bytes_outside)
  qed
  then show ?thesis by (simp add: ld64_def)
qed

end
