(* ===== verification/Machine.thy ===== *)
theory Machine
  imports Prelude
begin

text \<open>
  Compile-time constants (\<^verbatim>\<open>kernel/param.h\<close>, \<^verbatim>\<open>kernel/memlayout.h\<close>), the Sv39 page macros of
  \<^verbatim>\<open>kernel/riscv.h\<close>, and the per-hart state with the spin locks of \<^verbatim>\<open>kernel/spinlock.c\<close>.
  A hart is identified by its \<^verbatim>\<open>tp\<close> register; \<^verbatim>\<open>intr_get\<close> reads the interrupt-enable bit of the
  running hart.
\<close>

section \<open>Parameters\<close>

definition NPROC :: nat where "NPROC = 64"
definition NCPU :: nat where "NCPU = 8"
definition NOFILE :: nat where "NOFILE = 16"
definition NFILE :: nat where "NFILE = 100"
definition NINODE :: nat where "NINODE = 50"
definition NDEV :: int where "NDEV = 10"
definition ROOTDEV :: uint where "ROOTDEV = 1"
definition MAXARG :: nat where "MAXARG = 32"
definition MAXOPBLOCKS :: nat where "MAXOPBLOCKS = 10"
definition LOGSIZE :: nat where "LOGSIZE = MAXOPBLOCKS * 3"
definition NBUF :: nat where "NBUF = MAXOPBLOCKS * 3"
definition FSSIZE :: nat where "FSSIZE = 1000"
definition MAXPATH :: nat where "MAXPATH = 128"

section \<open>Pages and page-table entries\<close>

definition PGSIZE :: uint64 where "PGSIZE = 4096"
definition PGSHIFT :: nat where "PGSHIFT = 12"

definition PGROUNDUP :: "uint64 \<Rightarrow> uint64" where
  "PGROUNDUP sz = (sz + PGSIZE - 1) AND NOT (PGSIZE - 1)"

definition PGROUNDDOWN :: "uint64 \<Rightarrow> uint64" where
  "PGROUNDDOWN a = a AND NOT (PGSIZE - 1)"

definition PTE_V :: uint64 where "PTE_V = push_bit 0 1"
definition PTE_R :: uint64 where "PTE_R = push_bit 1 1"
definition PTE_W :: uint64 where "PTE_W = push_bit 2 1"
definition PTE_X :: uint64 where "PTE_X = push_bit 3 1"
definition PTE_U :: uint64 where "PTE_U = push_bit 4 1"

definition PA2PTE :: "uint64 \<Rightarrow> uint64" where
  "PA2PTE pa = push_bit 10 (drop_bit 12 pa)"

definition PTE2PA :: "uint64 \<Rightarrow> uint64" where
  "PTE2PA pte = push_bit 12 (drop_bit 10 pte)"

definition PTE_FLAGS :: "uint64 \<Rightarrow> uint64" where
  "PTE_FLAGS pte = pte AND 0x3FF"

definition PXMASK :: uint64 where "PXMASK = 0x1FF"

definition PXSHIFT :: "nat \<Rightarrow> nat" where
  "PXSHIFT level = PGSHIFT + 9 * level"

definition PX :: "nat \<Rightarrow> uint64 \<Rightarrow> uint64" where
  "PX level va = drop_bit (PXSHIFT level) va AND PXMASK"

definition MAXVA :: uint64 where "MAXVA = push_bit (9 + 9 + 9 + 12 - 1) 1"

definition SATP_SV39 :: uint64 where "SATP_SV39 = push_bit 60 8"

definition MAKE_SATP :: "uint64 \<Rightarrow> uint64" where
  "MAKE_SATP pagetable = SATP_SV39 OR drop_bit 12 pagetable"

definition KERNBASE :: uint64 where "KERNBASE = 0x80000000"
definition PHYSTOP :: uint64 where "PHYSTOP = KERNBASE + 128 * 1024 * 1024"
definition TRAMPOLINE :: uint64 where "TRAMPOLINE = MAXVA - PGSIZE"
definition TRAPFRAME :: uint64 where "TRAPFRAME = TRAMPOLINE - PGSIZE"
definition KSTACK :: "nat \<Rightarrow> uint64" where
  "KSTACK p = TRAMPOLINE - (of_nat p + 1) * 2 * PGSIZE"
definition UART0 :: uint64 where "UART0 = 0x10000000"
definition VIRTIO0 :: uint64 where "VIRTIO0 = 0x10001000"
definition PLIC :: uint64 where "PLIC = 0x0c000000"

lemmas page_consts = PGSIZE_def PGSHIFT_def PXMASK_def PXSHIFT_def MAXVA_def KERNBASE_def
  PHYSTOP_def TRAMPOLINE_def TRAPFRAME_def

lemmas pte_flags = PTE_V_def PTE_R_def PTE_W_def PTE_X_def PTE_U_def

lemma NOT_low12: "NOT (PGSIZE - 1) = NOT (mask 12)"
  by (simp add: PGSIZE_def mask_eq_exp_minus_1)

lemma PGROUNDDOWN_bits: "bit (PGROUNDDOWN a) k \<longleftrightarrow> bit a k \<and> 12 \<le> k"
  by (auto simp: PGROUNDDOWN_def NOT_low12 bit_simps dest: bit_imp_le_length)

lemma aligned_PGROUNDDOWN [simp]: "aligned 12 (PGROUNDDOWN a)"
  unfolding aligned_def by (rule bit_word_eqI) (simp add: bit_take_bit_iff PGROUNDDOWN_bits)

lemma PGROUNDUP_DOWN: "PGROUNDUP a = PGROUNDDOWN (a + PGSIZE - 1)"
  by (simp add: PGROUNDUP_def PGROUNDDOWN_def)

lemma aligned_PGROUNDUP [simp]: "aligned 12 (PGROUNDUP a)"
  by (simp add: PGROUNDUP_DOWN)

lemma PGROUNDDOWN_aligned: "aligned 12 a \<Longrightarrow> PGROUNDDOWN a = a"
  by (rule bit_word_eqI) (metis PGROUNDDOWN_bits aligned_bit not_less)

lemma aligned_mod: "aligned 12 a \<longleftrightarrow> a mod PGSIZE = 0" for a :: uint64
  by (simp add: aligned_def take_bit_eq_mod PGSIZE_def)

lemma PGROUNDDOWN_mod: "PGROUNDDOWN a = a - a mod PGSIZE"
proof -
  have "a = PGROUNDDOWN a + take_bit 12 a"
  proof -
    have "PGROUNDDOWN a + take_bit 12 a = PGROUNDDOWN a OR take_bit 12 a"
      by (rule disjunctive_add_eq_or, rule bit_word_eqI) (simp add: bit_simps PGROUNDDOWN_bits)
    also have "\<dots> = a"
      by (rule bit_word_eqI) (auto simp: bit_simps PGROUNDDOWN_bits)
    finally show ?thesis ..
  qed
  then show ?thesis by (simp add: take_bit_eq_mod PGSIZE_def algebra_simps)
qed

lemma unat_PGROUNDDOWN: "unat (PGROUNDDOWN a) = 4096 * (unat a div 4096)"
proof -
  have "unat (a mod PGSIZE) = unat a mod 4096" by (simp add: unat_mod_distrib PGSIZE_def)
  moreover have "unat a mod 4096 \<le> unat a" by (rule mod_less_eq_dividend)
  ultimately have "unat (PGROUNDDOWN a) = unat a - unat a mod 4096"
    by (simp add: PGROUNDDOWN_mod unat_sub word_le_nat_alt)
  then show ?thesis by (simp add: minus_mod_eq_mult_div)
qed

lemma PTE_PA_roundtrip: "aligned 12 pa \<Longrightarrow> pa < 2 ^ 54 \<Longrightarrow> PTE2PA (PA2PTE pa) = pa"
proof (rule bit_word_eqI)
  fix k assume a: "aligned 12 pa" and lt: "pa < 2 ^ 54" and k: "k < LENGTH(64)"
  from lt have "take_bit 54 pa = pa"
    by (rule take_bit_less)
  then have hi: "bit pa k \<Longrightarrow> k < 54"
    by (metis bit_take_bit_iff)
  show "bit (PTE2PA (PA2PTE pa)) k = bit pa k"
  proof (cases "12 \<le> k")
    case True
    with k hi show ?thesis by (auto simp: PTE2PA_def PA2PTE_def bit_simps)
  next
    case False
    with aligned_bit [OF a, of k] show ?thesis by (simp add: PTE2PA_def bit_simps)
  qed
qed

lemma round_up_bounds:
  fixes x q :: nat
  shows "x \<le> x + 4095 - (x + 4095) mod 4096"
    and "x \<le> q \<Longrightarrow> 4096 dvd q \<Longrightarrow> x + 4095 - (x + 4095) mod 4096 \<le> q"
proof -
  have "(x + 4095) mod 4096 < 4096" by simp
  then show "x \<le> x + 4095 - (x + 4095) mod 4096" by linarith
  assume "x \<le> q" "4096 dvd q"
  then obtain k where q: "q = 4096 * k" by (elim dvdE)
  with \<open>x \<le> q\<close> have "(x + 4095) div 4096 < k + 1" by (intro less_mult_imp_div_less) simp
  then show "x + 4095 - (x + 4095) mod 4096 \<le> q" using q by (simp add: minus_mod_eq_mult_div)
qed

lemma unat_PGROUNDUP:
  assumes "unat a + 4095 < 2 ^ 64"
  shows "unat (PGROUNDUP a) = unat a + 4095 - (unat a + 4095) mod 4096"
proof -
  have e: "a + PGSIZE - 1 = a + 4095" by (simp add: PGSIZE_def)
  have u: "unat (a + 4095) = unat a + 4095" using assms unat_add_lem [of a 4095] by simp
  have "unat (a + 4095) mod 4096 \<le> unat (a + 4095)" by (rule mod_less_eq_dividend)
  then have "unat (a + 4095 - (a + 4095) mod 4096) = unat (a + 4095) - unat (a + 4095) mod 4096"
    by (simp add: unat_sub word_le_nat_alt unat_mod_distrib)
  then show ?thesis unfolding PGROUNDUP_DOWN e PGROUNDDOWN_mod u by (simp add: PGSIZE_def u)
qed

lemma PGROUNDUP_bounds:
  assumes "unat a \<le> unat b" "4096 dvd unat b"
  shows "a \<le> PGROUNDUP a \<and> PGROUNDUP a \<le> b \<and> (\<forall>q. 4096 dvd unat q \<longrightarrow> a \<le> q \<longrightarrow> PGROUNDUP a \<le> q)"
proof -
  have "unat b < 2 ^ 64" using unsigned_less [of b, where ?'a = nat] by simp
  with assms have "unat a + 4095 < 2 ^ 64" by (elim dvdE) simp
  from unat_PGROUNDUP [OF this] show ?thesis
    using assms round_up_bounds [of "unat a"] by (simp add: word_le_nat_alt)
qed

end
