(* ===== verification/Spinlock.thy ===== *)
theory Spinlock
  imports Machine
begin

text \<open>
  Per-hart state (\<^verbatim>\<open>struct cpu\<close>) and the spin locks of \<^verbatim>\<open>kernel/spinlock.c\<close>. The base record
  \<open>machine\<close> holds the harts; every other component of the kernel extends it, so the operations
  below run unchanged on the whole kernel state. A lock is named by its record field: the
  selector \<open>g\<close> and the update \<open>u\<close> of the field that stores the \<^verbatim>\<open>struct spinlock\<close>.
\<close>

section \<open>State\<close>

record ctxt =
  ra :: uint64
  sp :: uint64
  s0 :: uint64
  s1 :: uint64
  s2 :: uint64
  s3 :: uint64
  s4 :: uint64
  s5 :: uint64
  s6 :: uint64
  s7 :: uint64
  s8 :: uint64
  s9 :: uint64
  s10 :: uint64
  s11 :: uint64

text \<open>\<open>intr\<close> is the SIE bit of the hart's \<^verbatim>\<open>sstatus\<close> register (\<^verbatim>\<open>intr_get\<close>).\<close>

record cpu =
  cpu_proc :: "nat option"
  cpu_context :: ctxt
  noff :: int
  intena :: bool
  intr :: bool

record spinlock =
  locked :: bool
  lk_name :: string
  lk_cpu :: "nat option"

record machine =
  tp :: nat
  cpus :: "nat \<Rightarrow> cpu"

definition cpuid :: "'a machine_scheme \<Rightarrow> nat" where
  "cpuid s = tp s"

definition mycpu :: "'a machine_scheme \<Rightarrow> cpu" where
  "mycpu s = cpus s (cpuid s)"

definition set_mycpu :: "cpu \<Rightarrow> 'a machine_scheme \<Rightarrow> 'a machine_scheme" where
  "set_mycpu c s = s\<lparr>cpus := (cpus s)(cpuid s := c)\<rparr>"

definition intr_get :: "'a machine_scheme \<Rightarrow> bool" where
  "intr_get s = intr (mycpu s)"

definition intr_on :: "'a machine_scheme \<Rightarrow> 'a machine_scheme" where
  "intr_on s = set_mycpu ((mycpu s)\<lparr>intr := True\<rparr>) s"

definition intr_off :: "'a machine_scheme \<Rightarrow> 'a machine_scheme" where
  "intr_off s = set_mycpu ((mycpu s)\<lparr>intr := False\<rparr>) s"

section \<open>Interrupt nesting\<close>

definition push_off :: "'a machine_scheme \<Rightarrow> 'a machine_scheme" where
  "push_off s =
     (let old = intr_get s;
          s = intr_off s;
          s = (if noff (mycpu s) = 0 then set_mycpu ((mycpu s)\<lparr>intena := old\<rparr>) s else s)
      in set_mycpu ((mycpu s)\<lparr>noff := noff (mycpu s) + 1\<rparr>) s)"

definition pop_off :: "'a machine_scheme \<Rightarrow> ('a machine_scheme, unit) out" where
  "pop_off s =
     (if intr_get s then panic ''pop_off - interruptible'' s
      else if noff (mycpu s) < 1 then panic ''pop_off'' s
      else let s = set_mycpu ((mycpu s)\<lparr>noff := noff (mycpu s) - 1\<rparr>) s
           in if noff (mycpu s) = 0 \<and> intena (mycpu s) then ret () (intr_on s) else ret () s)"

section \<open>Locks\<close>

definition initlock :: "string \<Rightarrow> spinlock \<Rightarrow> spinlock" where
  "initlock name lk = lk\<lparr>lk_name := name, locked := False, lk_cpu := None\<rparr>"

definition holding :: "spinlock \<Rightarrow> 'a machine_scheme \<Rightarrow> bool" where
  "holding lk s \<longleftrightarrow> locked lk \<and> lk_cpu lk = Some (cpuid s)"

definition acquire ::
  "('a machine_scheme \<Rightarrow> spinlock) \<Rightarrow>
   ((spinlock \<Rightarrow> spinlock) \<Rightarrow> 'a machine_scheme \<Rightarrow> 'a machine_scheme) \<Rightarrow>
   'a machine_scheme \<Rightarrow> ('a machine_scheme, unit) out" where
  "acquire g u s =
     (let s = push_off s
      in if holding (g s) s then panic ''acquire'' s
         else if locked (g s) then Inl (Spin, s)
         else let s = u (locked_update (\<lambda>_. True)) s
              in ret () (u (lk_cpu_update (\<lambda>_. Some (cpuid s))) s))"

definition release ::
  "('a machine_scheme \<Rightarrow> spinlock) \<Rightarrow>
   ((spinlock \<Rightarrow> spinlock) \<Rightarrow> 'a machine_scheme \<Rightarrow> 'a machine_scheme) \<Rightarrow>
   'a machine_scheme \<Rightarrow> ('a machine_scheme, unit) out" where
  "release g u s =
     (if \<not> holding (g s) s then panic ''release'' s
      else let s = u (lk_cpu_update (\<lambda>_. None)) s;
               s = u (locked_update (\<lambda>_. False)) s
           in pop_off s)"

text \<open>
  A hart is \<^emph>\<open>steady\<close> when its nesting bookkeeping matches its interrupt flag: outside every
  critical section the saved flag equals the current one (\<^verbatim>\<open>push_off\<close> overwrites it anyway), and
  inside one interrupts are off. A lock is \<^emph>\<open>free\<close> when nobody holds it.
\<close>

definition steady :: "cpu \<Rightarrow> bool" where
  "steady c \<longleftrightarrow> (if noff c = 0 then intena c = intr c else 0 < noff c \<and> \<not> intr c)"

definition quiet :: "'a machine_scheme \<Rightarrow> bool" where
  "quiet s \<longleftrightarrow> steady (mycpu s)"

definition free_lock :: "spinlock \<Rightarrow> bool" where
  "free_lock lk \<longleftrightarrow> \<not> locked lk \<and> lk_cpu lk = None"

definition push_cpu :: "cpu \<Rightarrow> cpu" where
  "push_cpu c = c\<lparr>intr := False, intena := (if noff c = 0 then intr c else intena c), noff := noff c + 1\<rparr>"

lemma push_off_eq: "push_off s = s\<lparr>cpus := (cpus s)(tp s := push_cpu (cpus s (tp s)))\<rparr>"
  by (simp add: push_off_def Let_def intr_get_def intr_off_def set_mycpu_def mycpu_def cpuid_def
      push_cpu_def)

lemma steady_push_cpu [simp]: "steady c \<Longrightarrow> steady (push_cpu c)"
  by (auto simp: steady_def push_cpu_def split: if_splits)

lemma cpu_proc_push [simp]: "cpu_proc (push_cpu c) = cpu_proc c"
  by (simp add: push_cpu_def)

lemma noff_push [simp]: "noff (push_cpu c) = noff c + 1"
  by (simp add: push_cpu_def)

lemma steady_noff: "steady c \<Longrightarrow> 0 \<le> noff c"
  by (auto simp: steady_def split: if_splits)

definition pop_cpu :: "cpu \<Rightarrow> cpu" where
  "pop_cpu c = (if noff c = 1 \<and> intena c then c\<lparr>noff := noff c - 1, intr := True\<rparr> else c\<lparr>noff := noff c - 1\<rparr>)"

definition in_section :: "cpu \<Rightarrow> bool" where
  "in_section c \<longleftrightarrow> \<not> intr c \<and> 1 \<le> noff c"

lemma pop_off_eq:
  "in_section (cpus s (tp s)) \<Longrightarrow> pop_off s = ret () (s\<lparr>cpus := (cpus s)(tp s := pop_cpu (cpus s (tp s)))\<rparr>)"
  by (auto simp: pop_off_def intr_get_def intr_on_def set_mycpu_def mycpu_def cpuid_def
      pop_cpu_def in_section_def Let_def)

lemma in_section_push [simp]: "steady c \<Longrightarrow> in_section (push_cpu c)"
  by (auto simp: in_section_def push_cpu_def steady_noff)

text \<open>Leaving the section that \<^verbatim>\<open>push_off\<close> opened restores the hart exactly.\<close>

lemma pop_push_cpu [simp]: "steady c \<Longrightarrow> pop_cpu (push_cpu c) = c"
  by (auto simp: pop_cpu_def push_cpu_def steady_def split: if_splits)

lemma free_lock_reset [simp]: "free_lock lk \<Longrightarrow> lk\<lparr>locked := False, lk_cpu := None\<rparr> = lk"
  by (simp add: free_lock_def)

lemma free_lock_reset' [simp]: "free_lock lk \<Longrightarrow> lk\<lparr>lk_cpu := None, locked := False\<rparr> = lk"
  by (simp add: free_lock_def)


section \<open>The contract of a lock field\<close>

text \<open>
  What the kernel relies on when it brackets code with \<^verbatim>\<open>acquire\<close> and \<^verbatim>\<open>release\<close>. The laws say
  that \<open>g\<close> and \<open>u\<close> are the selector and update of one field that is not part of the harts.
\<close>

locale lock_field =
  fixes g :: "'a machine_scheme \<Rightarrow> spinlock"
    and u :: "(spinlock \<Rightarrow> spinlock) \<Rightarrow> 'a machine_scheme \<Rightarrow> 'a machine_scheme"
  assumes get_update: "g (u f s) = f (g s)"
    and update_update: "u f (u h s) = u (\<lambda>x. f (h x)) s"
    and update_get: "u f s = u (\<lambda>_. f (g s)) s"
    and update_same: "u (\<lambda>_. g s) s = s"
    and get_cpus: "g (cpus_update c s) = g s"
    and update_cpus: "cpus_update c (u f s) = u f (cpus_update c s)"
    and cpus_update_field: "cpus (u f s) = cpus s"
    and tp_update_field: "tp (u f s) = tp s"
begin

definition enter :: "'a machine_scheme \<Rightarrow> 'a machine_scheme" where
  "enter s = u (\<lambda>l. l\<lparr>locked := True, lk_cpu := Some (tp s)\<rparr>) (push_off s)"

lemma acquire_free:
  assumes "\<not> locked (g s)"
  shows "acquire g u s = ret () (enter s)"
  using assms
  by (simp add: acquire_def enter_def push_off_eq holding_def Let_def get_cpus get_update
      update_update cpus_update_field tp_update_field cpuid_def)

lemma acquire_busy:
  assumes "locked (g s)" "lk_cpu (g s) \<noteq> Some (tp s)"
  shows "acquire g u s = Inl (Spin, push_off s)"
  using assms by (simp add: acquire_def push_off_eq holding_def Let_def get_cpus cpuid_def)

lemma acquire_twice:
  assumes "holding (g s) s"
  shows "acquire g u s = panic ''acquire'' (push_off s)"
  using assms by (simp add: acquire_def push_off_eq holding_def Let_def get_cpus cpuid_def)

lemma release_held:
  assumes "locked (g t)" "lk_cpu (g t) = Some (tp t)" "in_section (cpus t (tp t))"
  shows "release g u t =
    ret () (u (\<lambda>l. l\<lparr>lk_cpu := None, locked := False\<rparr>)
      (t\<lparr>cpus := (cpus t)(tp t := pop_cpu (cpus t (tp t)))\<rparr>))"
proof -
  let ?t = "u (\<lambda>l. l\<lparr>lk_cpu := None, locked := False\<rparr>) t"
  have "u (locked_update (\<lambda>_. False)) (u (lk_cpu_update (\<lambda>_. None)) t) = ?t"
    by (simp add: update_update)
  moreover have "pop_off ?t = ret () (?t\<lparr>cpus := (cpus t)(tp t := pop_cpu (cpus t (tp t)))\<rparr>)"
    using pop_off_eq [of ?t] assms(3) by (simp add: cpus_update_field tp_update_field)
  ultimately show ?thesis
    using assms(1,2) by (simp add: release_def holding_def cpuid_def Let_def update_cpus)
qed

lemma release_not_held: "\<not> holding (g t) t \<Longrightarrow> release g u t = panic ''release'' t"
  by (simp add: release_def)

text \<open>
  Code between \<^verbatim>\<open>acquire\<close> and \<^verbatim>\<open>release\<close> that neither touches the lock nor the hart can be
  read as running outside the section: move it out with \<open>enter\<close>, then leave.
\<close>

lemma quiet_enter [simp]: "quiet s \<Longrightarrow> quiet (enter s)"
  by (simp add: quiet_def mycpu_def cpuid_def enter_def push_off_eq cpus_update_field tp_update_field)

lemma tp_enter [simp]: "tp (enter s) = tp s"
  by (simp add: enter_def push_off_eq tp_update_field)

lemma cpu_proc_enter [simp]: "cpu_proc (cpus (enter s) h) = cpu_proc (cpus s h)"
  by (simp add: enter_def push_off_eq cpus_update_field)

lemma release_enter:
  assumes "quiet s" "free_lock (g s)"
  shows "release g u (enter s) = ret () s"
proof -
  have "u (\<lambda>l. l\<lparr>lk_cpu := None, locked := False\<rparr>) s = s"
    using assms(2) update_get [of "\<lambda>l. l\<lparr>lk_cpu := None, locked := False\<rparr>" s] by (simp add: update_same)
  with assms show ?thesis
    by (simp add: quiet_def mycpu_def cpuid_def enter_def release_held get_update cpus_update_field
        tp_update_field push_off_eq update_cpus update_update)
qed

text \<open>An empty critical section on a free lock of a steady hart changes nothing.\<close>

lemma critical_section:
  assumes "quiet s" "free_lock (g s)"
  shows "bnd (acquire g u s) (\<lambda>_ t. release g u t) = ret () s"
  using assms by (simp add: acquire_free free_lock_def release_enter)

end

section \<open>Harts competing for a lock\<close>

text \<open>
  The same code at the granularity at which harts interleave: one rule per memory access of
  \<^verbatim>\<open>acquire\<close> (disable interrupts and check \<^verbatim>\<open>holding\<close>, the atomic swap, the store of
  \<^verbatim>\<open>lk->cpu\<close>) and of \<^verbatim>\<open>release\<close> (check and clear \<^verbatim>\<open>lk->cpu\<close>, the atomic store of 0,
  \<^verbatim>\<open>pop_off\<close>). A program counter per hart says where it stands.
\<close>

datatype lock_pc = Outside | Trying | Swapped | Critical | Cleared | Popping

record lock_sys = machine +
  the_lock :: spinlock
  pcs :: "nat \<Rightarrow> lock_pc"

inductive lock_step :: "lock_sys \<Rightarrow> lock_sys \<Rightarrow> bool" where
  begin_acquire:
    "pcs s h = Outside \<Longrightarrow> t = push_off (s\<lparr>tp := h\<rparr>) \<Longrightarrow> \<not> holding (the_lock t) t \<Longrightarrow>
     lock_step s (t\<lparr>pcs := (pcs s)(h := Trying)\<rparr>)"
| swap_busy:
    "pcs s h = Trying \<Longrightarrow> locked (the_lock s) \<Longrightarrow> lock_step s (s\<lparr>tp := h\<rparr>)"
| swap_free:
    "pcs s h = Trying \<Longrightarrow> \<not> locked (the_lock s) \<Longrightarrow>
     lock_step s (s\<lparr>tp := h, the_lock := (the_lock s)\<lparr>locked := True\<rparr>, pcs := (pcs s)(h := Swapped)\<rparr>)"
| set_cpu:
    "pcs s h = Swapped \<Longrightarrow>
     lock_step s (s\<lparr>tp := h, the_lock := (the_lock s)\<lparr>lk_cpu := Some h\<rparr>, pcs := (pcs s)(h := Critical)\<rparr>)"
| begin_release:
    "pcs s h = Critical \<Longrightarrow> holding (the_lock s) (s\<lparr>tp := h\<rparr>) \<Longrightarrow>
     lock_step s (s\<lparr>tp := h, the_lock := (the_lock s)\<lparr>lk_cpu := None\<rparr>, pcs := (pcs s)(h := Cleared)\<rparr>)"
| clear_lock:
    "pcs s h = Cleared \<Longrightarrow>
     lock_step s (s\<lparr>tp := h, the_lock := (the_lock s)\<lparr>locked := False\<rparr>, pcs := (pcs s)(h := Popping)\<rparr>)"
| end_release:
    "pcs s h = Popping \<Longrightarrow> pop_off (s\<lparr>tp := h\<rparr>) = ret () t \<Longrightarrow>
     lock_step s (t\<lparr>pcs := (pcs s)(h := Outside)\<rparr>)"

definition lock_start :: "lock_sys \<Rightarrow> bool" where
  "lock_start s \<longleftrightarrow> free_lock (the_lock s) \<and> (\<forall>h. pcs s h = Outside \<and> steady (cpus s h))"

inductive lock_reachable :: "lock_sys \<Rightarrow> bool" where
  start: "lock_start s \<Longrightarrow> lock_reachable s"
| step: "lock_reachable s \<Longrightarrow> lock_step s t \<Longrightarrow> lock_reachable t"

definition owner :: "lock_pc \<Rightarrow> bool" where
  "owner p \<longleftrightarrow> p = Swapped \<or> p = Critical \<or> p = Cleared"

definition hart_inv :: "lock_pc \<Rightarrow> cpu \<Rightarrow> bool" where
  "hart_inv p c \<longleftrightarrow> (if p = Outside then steady c else \<exists>c0. steady c0 \<and> c = push_cpu c0)"

definition owned_by :: "nat option \<Rightarrow> lock_sys \<Rightarrow> bool" where
  "owned_by o1 s \<longleftrightarrow>
     (\<forall>h. owner (pcs s h) \<longleftrightarrow> o1 = Some h) \<and>
     (locked (the_lock s) \<longleftrightarrow> o1 \<noteq> None) \<and>
     (\<forall>h. lk_cpu (the_lock s) = Some h \<longleftrightarrow> pcs s h = Critical) \<and>
     (\<forall>h. hart_inv (pcs s h) (cpus s h))"

definition lock_inv :: "lock_sys \<Rightarrow> bool" where
  "lock_inv s \<longleftrightarrow> (\<exists>o1. owned_by o1 s)"

lemma lock_inv_start: "lock_start s \<Longrightarrow> owned_by None s"
  by (auto simp: lock_start_def owned_by_def owner_def hart_inv_def free_lock_def)

lemma hart_inv_Outside: "hart_inv Outside c \<Longrightarrow> hart_inv Trying (push_cpu c)"
  by (auto simp: hart_inv_def)

lemma hart_inv_move: "hart_inv p c \<Longrightarrow> p \<noteq> Outside \<Longrightarrow> q \<noteq> Outside \<Longrightarrow> hart_inv q c"
  by (auto simp: hart_inv_def)

lemma hart_inv_pop: "hart_inv p c \<Longrightarrow> p \<noteq> Outside \<Longrightarrow> in_section c \<and> hart_inv Outside (pop_cpu c)"
  by (auto simp: hart_inv_def)

lemma owned_by_owner: "owned_by o1 s \<Longrightarrow> owner (pcs s h) \<Longrightarrow> o1 = Some h"
  by (simp add: owned_by_def)

lemma owned_by_not_owner: "owned_by o1 s \<Longrightarrow> \<not> owner (pcs s h) \<Longrightarrow> o1 \<noteq> Some h"
  by (auto simp: owned_by_def)

lemma owned_by_hart: "owned_by o1 s \<Longrightarrow> hart_inv (pcs s h) (cpus s h)"
  by (simp add: owned_by_def)

lemma owned_by_step:
  assumes "lock_step s t" "owned_by o1 s"
  shows "\<exists>o2. owned_by o2 t"
  using assms(1)
proof (cases rule: lock_step.cases)
  case (begin_acquire h u)
  with owned_by_not_owner [OF assms(2), of h] have "o1 \<noteq> Some h" by (simp add: owner_def)
  with begin_acquire assms(2) owned_by_hart [OF assms(2), of h] have "owned_by o1 t"
    by (auto simp: owned_by_def push_off_eq owner_def hart_inv_Outside)
  then show ?thesis ..
next
  case (swap_busy h)
  with assms(2) show ?thesis by (auto simp: owned_by_def)
next
  case (swap_free h)
  with owned_by_hart [OF assms(2), of h] have "hart_inv Swapped (cpus s h)" by (auto intro: hart_inv_move)
  with swap_free assms(2) have "owned_by (Some h) t" by (auto simp: owned_by_def owner_def)
  then show ?thesis ..
next
  case (set_cpu h)
  with owned_by_hart [OF assms(2), of h] have i: "hart_inv Critical (cpus s h)" by (auto intro: hart_inv_move)
  from set_cpu owned_by_owner [OF assms(2), of h] have "o1 = Some h" by (simp add: owner_def)
  with i set_cpu assms(2) have "owned_by (Some h) t" by (auto simp: owned_by_def owner_def)
  then show ?thesis ..
next
  case (begin_release h)
  with owned_by_hart [OF assms(2), of h] have i: "hart_inv Cleared (cpus s h)" by (auto intro: hart_inv_move)
  from begin_release owned_by_owner [OF assms(2), of h] have "o1 = Some h" by (simp add: owner_def)
  with i begin_release assms(2) have "owned_by (Some h) t" by (auto simp: owned_by_def owner_def)
  then show ?thesis ..
next
  case (clear_lock h)
  with owned_by_hart [OF assms(2), of h] have i: "hart_inv Popping (cpus s h)" by (auto intro: hart_inv_move)
  from clear_lock owned_by_owner [OF assms(2), of h] have "o1 = Some h" by (simp add: owner_def)
  with i clear_lock assms(2) have "owned_by None t" by (auto simp: owned_by_def owner_def)
  then show ?thesis ..
next
  case (end_release h u)
  with owned_by_hart [OF assms(2), of h] have i: "in_section (cpus s h)" "hart_inv Outside (pop_cpu (cpus s h))"
    by (auto dest: hart_inv_pop)
  with end_release have "u = s\<lparr>tp := h, cpus := (cpus s)(h := pop_cpu (cpus s h))\<rparr>"
    by (simp add: pop_off_eq)
  moreover from end_release owned_by_not_owner [OF assms(2), of h] have "o1 \<noteq> Some h"
    by (simp add: owner_def)
  ultimately have "owned_by o1 t" using i end_release assms(2) by (auto simp: owned_by_def owner_def)
  then show ?thesis ..
qed

lemma lock_reachable_inv: "lock_reachable s \<Longrightarrow> lock_inv s"
  unfolding lock_inv_def
  by (induction rule: lock_reachable.induct) (blast intro: lock_inv_start owned_by_step)+

text \<open>The step relation and the sequential \<^verbatim>\<open>acquire\<close> and \<^verbatim>\<open>release\<close> describe the same code.\<close>

interpretation lsys: lock_field the_lock the_lock_update
  by unfold_locales simp_all

lemma acquire_is_three_steps:
  assumes "pcs s (tp s) = Outside" "free_lock (the_lock s)"
  obtains t1 t2 t3 where "lock_step s t1" "lock_step t1 t2" "lock_step t2 t3"
    "acquire the_lock the_lock_update s = ret () (t3\<lparr>pcs := pcs s\<rparr>)"
proof -
  let ?h = "tp s"
  let ?t1 = "(push_off (s\<lparr>tp := ?h\<rparr>))\<lparr>pcs := (pcs s)(?h := Trying)\<rparr>"
  let ?t2 = "?t1\<lparr>tp := ?h, the_lock := (the_lock ?t1)\<lparr>locked := True\<rparr>, pcs := (pcs ?t1)(?h := Swapped)\<rparr>"
  let ?t3 = "?t2\<lparr>tp := ?h, the_lock := (the_lock ?t2)\<lparr>lk_cpu := Some ?h\<rparr>, pcs := (pcs ?t2)(?h := Critical)\<rparr>"
  have "lock_step s ?t1"
    by (rule begin_acquire) (use assms in \<open>simp_all add: holding_def free_lock_def push_off_eq\<close>)
  moreover have "lock_step ?t1 ?t2"
    by (rule swap_free) (use assms in \<open>simp_all add: free_lock_def push_off_eq\<close>)
  moreover have "lock_step ?t2 ?t3"
    by (rule set_cpu) simp
  moreover have "acquire the_lock the_lock_update s = ret () (?t3\<lparr>pcs := pcs s\<rparr>)"
    using assms by (simp add: lsys.acquire_free free_lock_def lsys.enter_def push_off_eq)
  ultimately show ?thesis by (rule that)
qed

text \<open>The owner of a lock can always go on, to the next of its steps and finally out of the critical section.\<close>

fun steps_left :: "lock_pc \<Rightarrow> nat" where
  "steps_left Swapped = 3"
| "steps_left Critical = 2"
| "steps_left Cleared = 1"
| "steps_left p = 0"

lemma owner_step:
  assumes "lock_reachable s" "owner (pcs s g)"
  shows "\<exists>t. lock_step s t \<and> (\<forall>h. h \<noteq> g \<longrightarrow> pcs t h = pcs s h) \<and> steps_left (pcs s g) = Suc (steps_left (pcs t g)) \<and>
    (owner (pcs t g) \<or> \<not> locked (the_lock t))"
proof -
  obtain o1 where o1: "owned_by o1 s" using lock_reachable_inv [OF assms(1)] lock_inv_def by blast
  from assms(2) consider "pcs s g = Swapped" | "pcs s g = Critical" | "pcs s g = Cleared" by (auto simp: owner_def)
  then show ?thesis
  proof cases
    case 1
    let ?t = "s\<lparr>tp := g, the_lock := (the_lock s)\<lparr>lk_cpu := Some g\<rparr>, pcs := (pcs s)(g := Critical)\<rparr>"
    have "lock_step s ?t" by (rule set_cpu [OF 1])
    with 1 show ?thesis by (intro exI [of _ ?t] conjI) (simp_all add: owner_def)
  next
    case 2
    have "holding (the_lock s) (s\<lparr>tp := g\<rparr>)" using o1 2 owned_by_owner [OF o1 assms(2)] by (simp add: owned_by_def holding_def cpuid_def)
    then have "lock_step s (s\<lparr>tp := g, the_lock := (the_lock s)\<lparr>lk_cpu := None\<rparr>, pcs := (pcs s)(g := Cleared)\<rparr>)" (is "lock_step s ?t")
      by (rule begin_release [OF 2])
    with 2 show ?thesis by (intro exI [of _ ?t] conjI) (simp_all add: owner_def)
  next
    case 3
    let ?t = "s\<lparr>tp := g, the_lock := (the_lock s)\<lparr>locked := False\<rparr>, pcs := (pcs s)(g := Popping)\<rparr>"
    have "lock_step s ?t" by (rule clear_lock [OF 3])
    with 3 show ?thesis by (intro exI [of _ ?t] conjI) (simp_all add: owner_def)
  qed
qed

lemma owner_leaves:
  "lock_reachable s \<Longrightarrow> owner (pcs s g) \<Longrightarrow> pcs s h = Trying \<Longrightarrow>
   \<exists>t. lock_step\<^sup>*\<^sup>* s t \<and> lock_reachable t \<and> pcs t h = Trying \<and> \<not> locked (the_lock t)"
proof (induction "steps_left (pcs s g)" arbitrary: s)
  case 0
  then show ?case by (auto simp: owner_def)
next
  case (Suc n)
  have gh: "h \<noteq> g" using Suc.prems(2,3) by (auto simp: owner_def)
  obtain t where t: "lock_step s t" "pcs t h = Trying" "n = steps_left (pcs t g)" "owner (pcs t g) \<or> \<not> locked (the_lock t)"
    using owner_step [OF Suc.prems(1,2)] Suc(2) Suc.prems(3) gh by auto
  have r: "lock_reachable t" by (rule lock_reachable.step [OF Suc.prems(1) t(1)])
  show ?case
  proof (cases "locked (the_lock t)")
    case True
    then obtain u where "lock_step\<^sup>*\<^sup>* t u" "lock_reachable u \<and> pcs u h = Trying \<and> \<not> locked (the_lock u)"
      using Suc(1) [OF t(3) r _ t(2)] t(4) by blast
    then show ?thesis using converse_rtranclp_into_rtranclp [of lock_step, OF t(1)] by blast
  qed (use r t in blast)
qed

text \<open>
  C11. No deadlock: from every reachable state, a hart that waits for the lock can enter the critical section, by
  steps of its own and of the hart that has the lock.
\<close>

theorem spinlock_can_enter:
  assumes "lock_reachable s" "pcs s h = Trying"
  shows "\<exists>t. lock_step\<^sup>*\<^sup>* s t \<and> lock_reachable t \<and> pcs t h = Critical"
proof -
  obtain o1 where o1: "owned_by o1 s" using lock_reachable_inv [OF assms(1)] lock_inv_def by blast
  have "\<exists>t. lock_step\<^sup>*\<^sup>* s t \<and> lock_reachable t \<and> pcs t h = Trying \<and> \<not> locked (the_lock t)"
  proof (cases o1)
    case None
    then show ?thesis using assms o1 by (intro exI [of _ s]) (simp add: owned_by_def)
  next
    case (Some g)
    then have "owner (pcs s g)" using o1 by (simp add: owned_by_def)
    then show ?thesis by (rule owner_leaves [OF assms(1) _ assms(2)])
  qed
  then obtain t where t: "lock_step\<^sup>*\<^sup>* s t" "lock_reachable t" "pcs t h = Trying" "\<not> locked (the_lock t)" by blast
  let ?u = "t\<lparr>tp := h, the_lock := (the_lock t)\<lparr>locked := True\<rparr>, pcs := (pcs t)(h := Swapped)\<rparr>"
  let ?v = "?u\<lparr>tp := h, the_lock := (the_lock ?u)\<lparr>lk_cpu := Some h\<rparr>, pcs := (pcs ?u)(h := Critical)\<rparr>"
  have u: "lock_step t ?u" by (rule swap_free [OF t(3,4)])
  have v: "lock_step ?u ?v" by (rule set_cpu) simp
  have "lock_step\<^sup>*\<^sup>* s ?v" using t(1) u v by (meson rtranclp.rtrancl_into_rtrancl)
  moreover have "lock_reachable ?v" by (rule lock_reachable.step [OF lock_reachable.step [OF t(2) u] v])
  ultimately show ?thesis by (intro exI [of _ ?v]) simp
qed

text \<open>
  C2. Spin locks exclude each other under every interleaving of harts: at most one hart is inside
  the critical section, it is the recorded holder and runs with interrupts off, and none of the
  panics of \<^verbatim>\<open>acquire\<close>, \<^verbatim>\<open>release\<close> and \<^verbatim>\<open>pop_off\<close> can happen.
\<close>

theorem spinlock_mutual_exclusion:
  assumes "lock_reachable s"
  shows "(pcs s h = Critical \<and> pcs s k = Critical \<longrightarrow> h = k) \<and>
    (pcs s h = Critical \<longrightarrow> holding (the_lock s) (s\<lparr>tp := h\<rparr>) \<and> \<not> intr (cpus s h)) \<and>
    (pcs s h = Outside \<longrightarrow> \<not> holding (the_lock s) (s\<lparr>tp := h\<rparr>)) \<and>
    (pcs s h = Popping \<longrightarrow> (\<exists>t. pop_off (s\<lparr>tp := h\<rparr>) = ret () t))"
proof -
  from assms obtain o1 where o1: "owned_by o1 s"
    using lock_reachable_inv lock_inv_def by blast
  have "pcs s h = Critical \<Longrightarrow> pcs s k = Critical \<Longrightarrow> h = k"
    using owned_by_owner [OF o1] by (metis option.inject owner_def)
  moreover have "pcs s h = Critical \<Longrightarrow> holding (the_lock s) (s\<lparr>tp := h\<rparr>) \<and> \<not> intr (cpus s h)"
    using o1 owned_by_hart [OF o1, of h]
    by (auto simp: owned_by_def holding_def cpuid_def owner_def hart_inv_def push_cpu_def)
  moreover have "pcs s h = Outside \<Longrightarrow> \<not> holding (the_lock s) (s\<lparr>tp := h\<rparr>)"
    using o1 by (auto simp: owned_by_def holding_def cpuid_def)
  moreover have "pcs s h = Popping \<Longrightarrow> \<exists>t. pop_off (s\<lparr>tp := h\<rparr>) = ret () t"
    using hart_inv_pop [OF owned_by_hart [OF o1, of h]] by (auto simp: pop_off_eq)
  ultimately show ?thesis by blast
qed

definition zero_ctxt :: ctxt where
  "zero_ctxt = \<lparr>ra = 0, sp = 0, s0 = 0, s1 = 0, s2 = 0, s3 = 0, s4 = 0, s5 = 0, s6 = 0, s7 = 0,
     s8 = 0, s9 = 0, s10 = 0, s11 = 0\<rparr>"

definition boot_cpu :: cpu where
  "boot_cpu = \<lparr>cpu_proc = None, cpu_context = zero_ctxt, noff = 0, intena = False, intr = False\<rparr>"

definition new_lock :: "string \<Rightarrow> spinlock" where
  "new_lock name = \<lparr>locked = False, lk_name = name, lk_cpu = None\<rparr>"

lemma free_new_lock [simp]: "free_lock (new_lock n)"
  by (simp add: free_lock_def new_lock_def)

lemma steady_boot_cpu [simp]: "steady boot_cpu"
  by (simp add: steady_def boot_cpu_def)

definition two_harts :: lock_sys where
  "two_harts = \<lparr>tp = 0, cpus = (\<lambda>_. boot_cpu), the_lock = new_lock ''lk'', pcs = (\<lambda>_. Outside)\<rparr>"

text \<open>Hart 0 has the lock, and hart 1 waits for it.\<close>

lemma contended:
  obtains t where "lock_reachable t" "pcs t 0 = Critical" "pcs t 1 = Trying"
proof -
  let ?h = "0 :: nat"
  let ?t1 = "(push_off (two_harts\<lparr>tp := ?h\<rparr>))\<lparr>pcs := (pcs two_harts)(?h := Trying)\<rparr>"
  let ?t2 = "?t1\<lparr>tp := ?h, the_lock := (the_lock ?t1)\<lparr>locked := True\<rparr>, pcs := (pcs ?t1)(?h := Swapped)\<rparr>"
  let ?t3 = "?t2\<lparr>tp := ?h, the_lock := (the_lock ?t2)\<lparr>lk_cpu := Some ?h\<rparr>, pcs := (pcs ?t2)(?h := Critical)\<rparr>"
  let ?t4 = "(push_off (?t3\<lparr>tp := 1\<rparr>))\<lparr>pcs := (pcs ?t3)(1 := Trying)\<rparr>"
  have "lock_reachable two_harts"
    by (rule start) (simp add: lock_start_def two_harts_def)
  moreover have "lock_step two_harts ?t1"
    by (rule begin_acquire) (simp_all add: two_harts_def holding_def new_lock_def push_off_eq)
  moreover have "lock_step ?t1 ?t2"
    by (rule swap_free) (simp_all add: two_harts_def new_lock_def push_off_eq)
  moreover have "lock_step ?t2 ?t3"
    by (rule set_cpu) simp
  moreover have "lock_step ?t3 ?t4"
    by (rule begin_acquire) (simp_all add: two_harts_def holding_def new_lock_def push_off_eq cpuid_def)
  ultimately have "lock_reachable ?t4" by (blast intro: lock_reachable.step)
  then show ?thesis by (rule that) simp_all
qed

theorem spinlock_mutual_exclusion_witness:
  "\<exists>t. lock_reachable t \<and> pcs t 0 = Critical \<and> holding (the_lock t) (t\<lparr>tp := 0\<rparr>) \<and> pcs t 1 \<noteq> Critical"
proof -
  obtain t where t: "lock_reachable t" "pcs t 0 = Critical" "pcs t 1 = Trying" by (rule contended)
  from spinlock_mutual_exclusion [OF t(1), of 0 1] t show ?thesis by auto
qed

theorem spinlock_can_enter_witness:
  "\<exists>s t. pcs s 0 = Critical \<and> pcs s 1 = Trying \<and> lock_step\<^sup>*\<^sup>* s t \<and> pcs t 1 = Critical"
proof -
  obtain t where t: "lock_reachable t" "pcs t 0 = Critical" "pcs t 1 = Trying" by (rule contended)
  with spinlock_can_enter [OF t(1,3)] show ?thesis by blast
qed

end
