(* ===== verification/CString.thy ===== *)
theory CString
  imports Prelude
begin

text \<open>
  \<^verbatim>\<open>kernel/string.c\<close>. The routines that only read take a character pointer as the function from
  offsets to bytes that it denotes (\<open>p i\<close> is \<^verbatim>\<open>p[i]\<close>); character arrays that the kernel stores
  inside other objects (a process name, a directory entry, a disk block) are such functions too.
  \<^verbatim>\<open>memset\<close> and \<^verbatim>\<open>memmove\<close> work on the byte memory, where source and destination may overlap.
\<close>

type_synonym cptr = "nat \<Rightarrow> uchar"

section \<open>Filling and copying memory\<close>

primrec memset_loop :: "mem \<Rightarrow> uint64 \<Rightarrow> uchar \<Rightarrow> nat \<Rightarrow> mem" where
  "memset_loop m dst c 0 = m"
| "memset_loop m dst c (Suc i) = (memset_loop m dst c i)(dst + of_nat i := c)"

definition memset :: "mem \<Rightarrow> uint64 \<Rightarrow> uchar \<Rightarrow> uint \<Rightarrow> mem" where
  "memset m dst c n = memset_loop m dst c (unat n)"

primrec copy_up :: "mem \<Rightarrow> uint64 \<Rightarrow> uint64 \<Rightarrow> nat \<Rightarrow> mem" where
  "copy_up m d s 0 = m"
| "copy_up m d s (Suc n) = copy_up (m(d := m s)) (d + 1) (s + 1) n"

primrec copy_down :: "mem \<Rightarrow> uint64 \<Rightarrow> uint64 \<Rightarrow> nat \<Rightarrow> mem" where
  "copy_down m d s 0 = m"
| "copy_down m d s (Suc n) = copy_down (m(d - 1 := m (s - 1))) (d - 1) (s - 1) n"

definition memmove :: "mem \<Rightarrow> uint64 \<Rightarrow> uint64 \<Rightarrow> uint \<Rightarrow> mem" where
  "memmove m dst src n =
     (if n = 0 then m
      else if src < dst \<and> dst < src + ucast n
      then copy_down m (dst + ucast n) (src + ucast n) (unat n)
      else copy_up m dst src (unat n))"

definition memcpy :: "mem \<Rightarrow> uint64 \<Rightarrow> uint64 \<Rightarrow> uint \<Rightarrow> mem" where
  "memcpy m dst src n = memmove m dst src n"

section \<open>Comparing and copying strings\<close>

fun memcmp :: "cptr \<Rightarrow> cptr \<Rightarrow> nat \<Rightarrow> int" where
  "memcmp p q 0 = 0"
| "memcmp p q (Suc n) =
     (if p 0 \<noteq> q 0 then uint (p 0) - uint (q 0)
      else memcmp (\<lambda>i. p (Suc i)) (\<lambda>i. q (Suc i)) n)"

fun strncmp :: "cptr \<Rightarrow> cptr \<Rightarrow> nat \<Rightarrow> int" where
  "strncmp p q 0 = 0"
| "strncmp p q (Suc n) =
     (if p 0 \<noteq> 0 \<and> p 0 = q 0 then strncmp (\<lambda>i. p (Suc i)) (\<lambda>i. q (Suc i)) n
      else uint (p 0) - uint (q 0))"

fun strncpy_pad :: "cptr \<Rightarrow> nat \<Rightarrow> nat \<Rightarrow> cptr" where
  "strncpy_pad s i 0 = s"
| "strncpy_pad s i (Suc n) = strncpy_pad (s(i := 0)) (Suc i) n"

fun strncpy_copy :: "cptr \<Rightarrow> cptr \<Rightarrow> nat \<Rightarrow> nat \<Rightarrow> cptr" where
  "strncpy_copy s t i 0 = s"
| "strncpy_copy s t i (Suc n) =
     (let s = s(i := t i)
      in if t i \<noteq> 0 then strncpy_copy s t (Suc i) n else strncpy_pad s (Suc i) n)"

definition strncpy :: "cptr \<Rightarrow> cptr \<Rightarrow> int \<Rightarrow> cptr" where
  "strncpy s t n = strncpy_copy s t 0 (nat n)"

text \<open>\<open>safestrcpy_loop s t i n\<close>: \<open>n\<close> more bytes may be copied before the terminator is stored.\<close>

fun safestrcpy_loop :: "cptr \<Rightarrow> cptr \<Rightarrow> nat \<Rightarrow> nat \<Rightarrow> cptr" where
  "safestrcpy_loop s t i 0 = s(i := 0)"
| "safestrcpy_loop s t i (Suc n) =
     (let s = s(i := t i)
      in if t i \<noteq> 0 then safestrcpy_loop s t (Suc i) n else s(Suc i := 0))"

definition safestrcpy :: "cptr \<Rightarrow> cptr \<Rightarrow> int \<Rightarrow> cptr" where
  "safestrcpy s t n = (if n \<le> 0 then s else safestrcpy_loop s t 0 (nat (n - 1)))"

partial_function (option) strlen_from :: "cptr \<Rightarrow> nat \<Rightarrow> nat option" where
  "strlen_from s n = (if s n = 0 then Some n else strlen_from s (Suc n))"

definition strlen :: "cptr \<Rightarrow> nat option" where
  "strlen s = strlen_from s 0"

section \<open>Properties\<close>

lemma memset_loop_apply:
  "n \<le> 2 ^ 64 \<Longrightarrow> memset_loop m dst c n x = (if unat (x - dst) < n then c else m x)"
proof (induction n)
  case (Suc n)
  have "x = dst + of_nat n \<longleftrightarrow> unat (x - dst) = n"
    using Suc.prems by (auto simp: unat_of_nat)
  with Suc show ?case by (auto simp: less_Suc_eq)
qed simp

lemma memset_apply [mem_simps]:
  "memset m dst c n = (\<lambda>x. if unat (x - dst) < unat n then c else m x)"
proof -
  have "unat n < 2 ^ 32" using unsigned_less [of n, where ?'a = nat] by simp
  then show ?thesis by (auto simp: memset_def memset_loop_apply)
qed


text \<open>
  Copying upwards is right when no byte is overwritten before it is read; copying downwards when
  none is overwritten after a later one was written.
\<close>

lemma copy_up_apply:
  "n \<le> 2 ^ 64 \<Longrightarrow> (\<And>i j. i < j \<Longrightarrow> j < n \<Longrightarrow> s + of_nat j \<noteq> d + of_nat i) \<Longrightarrow>
   copy_up m d s n x = (if unat (x - d) < n then m (s + (x - d)) else m x)"
proof (induction n arbitrary: m d s)
  case (Suc n)
  let ?m = "m(d := m s)"
  have ih: "copy_up ?m (d + 1) (s + 1) n x =
      (if unat (x - (d + 1)) < n then ?m (s + 1 + (x - (d + 1))) else ?m x)"
  proof (rule Suc.IH)
    show "n \<le> 2 ^ 64" using Suc.prems(1) by simp
    fix i j assume "i < j" "j < n"
    then have "s + of_nat (Suc j) \<noteq> d + of_nat (Suc i)" by (intro Suc.prems(2)) auto
    then show "s + 1 + of_nat j \<noteq> d + 1 + of_nat i" by (simp add: algebra_simps)
  qed
  show ?case
  proof (cases "x = d")
    case True
    have "unat (- (1 :: uint64)) = 2 ^ 64 - 1"
      by (simp add: unsigned_minus_1_eq_mask mask_eq_exp_minus_1)
    with True ih Suc.prems(1) show ?thesis by simp
  next
    case False
    then have "unat (x - d) \<noteq> 0" by (simp add: unat_eq_zero)
    then obtain k where k: "unat (x - d) = Suc k" by (cases "unat (x - d)") auto
    with False have k1: "unat (x - (d + 1)) = k" by (simp add: unat_sub_1)
    have "of_nat (unat (x - d)) = x - d" by simp
    with k have "of_nat (Suc k) = x - d" by simp
    with Suc.prems(2) [of 0 "Suc k"] have "k < n \<Longrightarrow> s + (x - d) \<noteq> d" by simp
    with False ih k k1 show ?thesis by auto
  qed
qed simp

lemma copy_down_apply:
  "n \<le> 2 ^ 64 \<Longrightarrow> (\<And>i j. i < j \<Longrightarrow> j < n \<Longrightarrow> s + of_nat i \<noteq> d + of_nat j) \<Longrightarrow>
   copy_down m (d + of_nat n) (s + of_nat n) n x = (if unat (x - d) < n then m (s + (x - d)) else m x)"
proof (induction n arbitrary: m)
  case (Suc n)
  let ?m = "m(d + of_nat n := m (s + of_nat n))"
  have ih: "copy_down ?m (d + of_nat n) (s + of_nat n) n x =
      (if unat (x - d) < n then ?m (s + (x - d)) else ?m x)"
    using Suc.prems by (intro Suc.IH) auto
  have x: "x = d + of_nat n \<longleftrightarrow> unat (x - d) = n"
    using Suc.prems(1) by (auto simp: unat_of_nat)
  have "unat (x - d) < n \<Longrightarrow> s + (x - d) \<noteq> d + of_nat n"
    using Suc.prems(2) [of "unat (x - d)" n] by simp
  with ih x show ?case by (auto simp: less_Suc_eq algebra_simps)
qed simp


lemma unat_ucast_uint [simp]: "unat (ucast (n :: uint) :: uint64) = unat n"
proof -
  have "unat n < 2 ^ 64" using unsigned_less [of n, where ?'a = nat] by simp
  then show ?thesis by (simp add: unsigned_ucast_eq take_bit_nat_eq_self)
qed

lemma of_nat_unat_ucast: "of_nat (unat n) = (ucast n :: uint64)" for n :: uint
  by (simp add: word_unat_eq_iff)

lemma add_of_nat_eq_iff:
  fixes a b :: uint64
  assumes "unat a + i < 2 ^ 64" "unat b + j < 2 ^ 64"
  shows "a + of_nat i = b + of_nat j \<longleftrightarrow> unat a + i = unat b + j"
proof -
  have "unat (a + of_nat i) = unat a + i" "unat (b + of_nat j) = unat b + j"
    using assms by (simp_all add: unat_word_ariths unat_of_nat)
  then show ?thesis by (metis word_unat_eq_iff)
qed

lemma memmove_apply:
  assumes "unat src + unat n < 2 ^ 64" "unat dst + unat n < 2 ^ 64"
  shows "memmove m dst src n = (\<lambda>x. if unat (x - dst) < unat n then m (src + (x - dst)) else m x)"
proof (rule ext)
  fix x
  have n: "unat n \<le> 2 ^ 64" using assms by simp
  have sn: "unat (src + ucast n) = unat src + unat n"
    using assms by (simp add: unat_word_ariths)
  show "memmove m dst src n x = (if unat (x - dst) < unat n then m (src + (x - dst)) else m x)"
  proof (cases "n = 0 \<or> src < dst \<and> dst < src + ucast n")
    case True
    then have "copy_down m (dst + of_nat (unat n)) (src + of_nat (unat n)) (unat n) x =
        (if unat (x - dst) < unat n then m (src + (x - dst)) else m x)"
      by (intro copy_down_apply [OF n]) (use assms in \<open>auto simp: add_of_nat_eq_iff word_less_nat_alt\<close>)
    with True show ?thesis by (auto simp: memmove_def of_nat_unat_ucast)
  next
    case False
    then have "unat dst \<le> unat src \<or> unat src + unat n \<le> unat dst"
      using sn by (auto simp: word_less_nat_alt)
    then have "copy_up m dst src (unat n) x =
        (if unat (x - dst) < unat n then m (src + (x - dst)) else m x)"
      by (intro copy_up_apply [OF n]) (use assms in \<open>auto simp: add_of_nat_eq_iff\<close>)
    with False show ?thesis by (auto simp: memmove_def)
  qed
qed

text \<open>
  \<^verbatim>\<open>memmove\<close> copies as if the whole source were read before anything is written, for any
  overlap of the two regions, as long as neither region wraps around the address space.
\<close>

lemma memmove_correct:
  assumes "unat src + unat n < 2 ^ 64" "unat dst + unat n < 2 ^ 64"
  shows "memmove m dst src n = (\<lambda>x. if unat (x - dst) < unat n then m (src + (x - dst)) else m x)"
  using assms by (rule memmove_apply)

text \<open>The string a pointer denotes, cut off after at most \<open>n\<close> bytes.\<close>

primrec cstr :: "cptr \<Rightarrow> nat \<Rightarrow> uchar list" where
  "cstr p 0 = []"
| "cstr p (Suc n) = (if p 0 = 0 then [] else p 0 # cstr (\<lambda>i. p (Suc i)) n)"

text \<open>
  \<^verbatim>\<open>strncmp\<close> returns 0 exactly when the two strings, each cut off after \<open>n\<close> bytes, are equal.
\<close>

lemma strncmp_eq_0: "strncmp p q n = 0 \<longleftrightarrow> cstr p n = cstr q n"
  by (induction p q n rule: strncmp.induct) (auto dest: unsigned_word_eqI simp: unsigned_eq_0_iff)

lemma strncpy_pad_apply: "strncpy_pad s i n k = (if i \<le> k \<and> k < i + n then 0 else s k)"
  by (induction n arbitrary: s i) auto

lemma strncpy_copy_apply:
  "strncpy_copy s t i n k =
     (if i \<le> k \<and> k < i + n then (if \<exists>j. i \<le> j \<and> j < k \<and> t j = 0 then 0 else t k) else s k)"
proof (induction n arbitrary: s i)
  case (Suc n)
  show ?case
  proof (cases "t i = 0")
    case True
    then show ?thesis by (auto simp: strncpy_pad_apply Let_def)
  next
    case False
    with Suc have "strncpy_copy s t i (Suc n) k =
        (if Suc i \<le> k \<and> k < Suc i + n then (if \<exists>j. Suc i \<le> j \<and> j < k \<and> t j = 0 then 0 else t k)
         else (s(i := t i)) k)"
      by (simp add: Let_def)
    moreover have "(\<exists>j. Suc i \<le> j \<and> j < k \<and> t j = 0) \<longleftrightarrow> (\<exists>j. i \<le> j \<and> j < k \<and> t j = 0)"
      using False by (metis Suc_leD Suc_leI le_neq_implies_less)
    ultimately show ?thesis by auto
  qed
qed auto

text \<open>
  \<^verbatim>\<open>strncpy\<close> writes exactly \<open>n\<close> bytes: the source up to and including its terminator, then
  zeros; a source of \<open>n\<close> or more characters leaves the copy unterminated.
\<close>

theorem strncpy_correct:
  "strncpy s t n k =
     (if k < nat n then (if \<exists>j<k. t j = 0 then 0 else t k) else s k)"
  by (simp add: strncpy_def strncpy_copy_apply)

lemma safestrcpy_loop_correct:
  "let r = safestrcpy_loop s t i n; l = length (cstr (\<lambda>j. t (i + j)) n)
   in (\<forall>k<l. r (i + k) = t (i + k)) \<and> r (i + l) = 0 \<and> (\<forall>k. k < i \<or> i + n < k \<longrightarrow> r k = s k)"
proof (induction n arbitrary: s i)
  case (Suc n)
  show ?case
  proof (cases "t i = 0")
    case True
    then show ?thesis by (simp add: Let_def)
  next
    case False
    define r where "r = safestrcpy_loop (s(i := t i)) t (Suc i) n"
    define l where "l = length (cstr (\<lambda>j. t (Suc i + j)) n)"
    from Suc [of "s(i := t i)" "Suc i", folded r_def l_def] have
      r: "\<And>k. k < l \<Longrightarrow> r (Suc i + k) = t (Suc i + k)" "r (Suc i + l) = 0"
        "\<And>k. k < Suc i \<or> Suc i + n < k \<Longrightarrow> r k = (s(i := t i)) k"
      by (auto simp: Let_def)
    have "r (i + k) = t (i + k)" if "k < Suc l" for k
      using that r(1) [of "k - 1"] r(3) [of i] by (cases k) auto
    moreover have "safestrcpy_loop s t i (Suc n) = r"
      using False by (simp add: r_def Let_def)
    moreover have "length (cstr (\<lambda>j. t (i + j)) (Suc n)) = Suc l"
      using False by (simp add: l_def)
    ultimately show ?thesis using r by (simp add: Let_def del: safestrcpy_loop.simps cstr.simps)
  qed
qed simp

text \<open>
  C31. \<^verbatim>\<open>safestrcpy\<close> into a buffer of \<open>n > 0\<close> bytes copies the source (at most \<open>n - 1\<close> characters of
  it), always terminates the copy inside the buffer, and writes nothing outside it.
\<close>

theorem safestrcpy_correct:
  assumes "0 < n"
  shows "(\<forall>k < length (cstr t (nat n - 1)). safestrcpy s t n k = t k) \<and>
    safestrcpy s t n (length (cstr t (nat n - 1))) = 0 \<and>
    length (cstr t (nat n - 1)) < nat n \<and>
    (\<forall>k \<ge> nat n. safestrcpy s t n k = s k)"
proof -
  have len: "length (cstr p j) \<le> j" for p j by (induction j arbitrary: p) auto
  have "nat (n - 1) = nat n - 1" by simp
  with assms safestrcpy_loop_correct [of s t 0 "nat n - 1"] len [of t "nat n - 1"] show ?thesis
    by (auto simp: safestrcpy_def Let_def nat_diff_distrib)
qed

theorem safestrcpy_correct_witness:
  "safestrcpy (\<lambda>_. 7) (\<lambda>i. of_nat i + 65) 4 3 = 0 \<and> safestrcpy (\<lambda>_. 7) (\<lambda>i. of_nat i + 65) 4 4 = 7"
  using safestrcpy_correct [of 4 "\<lambda>i. of_nat i + 65" "\<lambda>_. 7"] by (simp add: numeral_3_eq_3)

lemma strlen_from_raw:
  "strlen_from s n = Some l \<Longrightarrow> n \<le> l \<and> s l = 0 \<and> (\<forall>k. n \<le> k \<and> k < l \<longrightarrow> s k \<noteq> 0)"
proof (rule strlen_from.raw_induct
    [where P = "\<lambda>s n l. n \<le> l \<and> s l = 0 \<and> (\<forall>k. n \<le> k \<and> k < l \<longrightarrow> s k \<noteq> 0)"])
  fix f s n l
  assume ih: "\<And>s n l. f s n = Some l \<Longrightarrow> n \<le> l \<and> s l = 0 \<and> (\<forall>k. n \<le> k \<and> k < l \<longrightarrow> s k \<noteq> 0)"
    and eq: "(if s n = 0 then Some n else f s (Suc n)) = Some l"
  then show "n \<le> l \<and> s l = 0 \<and> (\<forall>k. n \<le> k \<and> k < l \<longrightarrow> s k \<noteq> 0)"
    by (metis Suc_leD Suc_leI le_neq_implies_less linorder_not_le option.inject)
qed

lemma strlen_from_returns: "s (n + d) = 0 \<Longrightarrow> \<exists>l. strlen_from s n = Some l"
proof (induction d arbitrary: n)
  case 0
  then show ?case by (simp add: strlen_from.simps)
next
  case (Suc d)
  then have "\<exists>l. strlen_from s (Suc n) = Some l" by simp
  then show ?case by (subst strlen_from.simps) simp
qed

text \<open>
  \<^verbatim>\<open>strlen\<close> returns exactly on terminated strings, and returns the index of the first
  terminator.
\<close>

theorem strlen_correct:
  "strlen s = (if \<exists>l. s l = 0 then Some (LEAST l. s l = 0) else None)"
proof (cases "\<exists>l. s l = 0")
  case True
  then obtain l where "strlen_from s 0 = Some l" using strlen_from_returns [of s 0] by auto
  moreover from strlen_from_raw [OF this] have "(LEAST l. s l = 0) = l"
    by (intro Least_equality) (auto simp: linorder_not_le [symmetric])
  ultimately show ?thesis using True by (simp add: strlen_def)
next
  case False
  then have "strlen_from s 0 \<noteq> Some l" for l using strlen_from_raw by blast
  with False show ?thesis by (cases "strlen_from s 0") (auto simp: strlen_def)
qed

end
