(* ===== verification/Sched.thy ===== *)
theory Sched
  imports Spinlock CString
begin

text \<open>
  The process table (\<^verbatim>\<open>struct proc\<close> of \<^verbatim>\<open>kernel/proc.h\<close>) and the part of \<^verbatim>\<open>kernel/proc.c\<close> that
  schedules: \<^verbatim>\<open>myproc\<close>, \<^verbatim>\<open>allocpid\<close>, \<^verbatim>\<open>scheduler\<close>, \<^verbatim>\<open>sched\<close>, \<^verbatim>\<open>yield\<close>, \<^verbatim>\<open>sleep\<close>, \<^verbatim>\<open>wakeup\<close>,
  \<^verbatim>\<open>kill\<close>. A pointer to a process is its index in the table. Code that calls \<^verbatim>\<open>swtch\<close> is cut
  there: the part before it stops with \<open>Swtch\<close>, the part after it is a definition of its own. The
  saved registers themselves are assembly state and are not tracked.
\<close>

section \<open>State\<close>

datatype procstate = UNUSED | USED | SLEEPING | RUNNABLE | RUNNING | ZOMBIE

record proc =
  p_lock :: spinlock
  p_state :: procstate
  p_chan :: "chan option"
  p_killed :: int
  p_xstate :: int
  p_pid :: int
  p_parent :: "nat option"
  p_kstack :: uint64
  p_sz :: uint64
  p_pagetable :: uint64
  p_trapframe :: uint64
  p_context :: ctxt
  p_ofile :: "nat \<Rightarrow> nat option"
  p_cwd :: "nat option"
  p_name :: cptr
  p_priority :: int

record pstate = machine +
  procs :: "nat \<Rightarrow> proc"
  initproc :: "nat option"
  nextpid :: int
  pid_lock :: spinlock
  wait_lock :: spinlock
  ticks :: uint
  tickslock :: spinlock

definition upd_proc :: "nat \<Rightarrow> (proc \<Rightarrow> proc) \<Rightarrow> 'a pstate_scheme \<Rightarrow> 'a pstate_scheme" where
  "upd_proc i h s = s\<lparr>procs := (procs s)(i := h (procs s i))\<rparr>"

text \<open>The lock field \<^verbatim>\<open>proc[i].lock\<close>: its selector and its update.\<close>

definition p_lk :: "nat \<Rightarrow> 'a pstate_scheme \<Rightarrow> spinlock" where
  "p_lk i s = p_lock (procs s i)"

definition p_lku :: "nat \<Rightarrow> (spinlock \<Rightarrow> spinlock) \<Rightarrow> 'a pstate_scheme \<Rightarrow> 'a pstate_scheme" where
  "p_lku i f s = upd_proc i (\<lambda>p. p\<lparr>p_lock := f (p_lock p)\<rparr>) s"

interpretation plock: lock_field "p_lk i" "p_lku i" for i
  by unfold_locales (auto simp: p_lk_def p_lku_def upd_proc_def fun_upd_idem)

interpretation pidlock: lock_field pid_lock pid_lock_update
  by unfold_locales simp_all

interpretation waitlock: lock_field wait_lock wait_lock_update
  by unfold_locales simp_all

interpretation ticklock: lock_field tickslock tickslock_update
  by unfold_locales simp_all

section \<open>Operations\<close>

definition procinit_one :: "nat \<Rightarrow> proc \<Rightarrow> proc" where
  "procinit_one i p = p\<lparr>p_lock := initlock ''proc'' (p_lock p), p_kstack := KSTACK i\<rparr>"

definition procinit :: "'a pstate_scheme \<Rightarrow> 'a pstate_scheme" where
  "procinit s =
     (let s = s\<lparr>pid_lock := initlock ''nextpid'' (pid_lock s)\<rparr>;
          s = s\<lparr>wait_lock := initlock ''wait_lock'' (wait_lock s)\<rparr>
      in fold (\<lambda>i. upd_proc i (procinit_one i)) [0..<NPROC] s)"

definition myproc :: "'a machine_scheme \<Rightarrow> ('a machine_scheme, nat option) out" where
  "myproc s =
     (let s = push_off s;
          p = cpu_proc (mycpu s)
      in bnd (pop_off s) (\<lambda>_ s. ret p s))"

text \<open>\<open>curproc f\<close>: code \<open>f\<close> that dereferences the result of \<^verbatim>\<open>myproc()\<close>.\<close>

definition curproc :: "(nat \<Rightarrow> 'a machine_scheme \<Rightarrow> ('a machine_scheme, 'b) out) \<Rightarrow>
    'a machine_scheme \<Rightarrow> ('a machine_scheme, 'b) out" where
  "curproc f s = bnd (myproc s) (\<lambda>p s. case p of None \<Rightarrow> Inl (Fault, s) | Some p \<Rightarrow> f p s)"

definition allocpid :: "'a pstate_scheme \<Rightarrow> ('a pstate_scheme, int) out" where
  "allocpid s =
     bnd (acquire pid_lock pid_lock_update s) (\<lambda>_ s.
       let pid = nextpid s;
           s = s\<lparr>nextpid := nextpid s + 1\<rparr>
       in bnd (release pid_lock pid_lock_update s) (\<lambda>_ s. ret pid s))"

subsection \<open>Switching\<close>

definition sched :: "'a pstate_scheme \<Rightarrow> ('a pstate_scheme, unit) out" where
  "sched s = curproc (\<lambda>p s.
     if \<not> holding (p_lk p s) s then panic ''sched p->lock'' s
     else if noff (mycpu s) \<noteq> 1 then panic ''sched locks'' s
     else if p_state (procs s p) = RUNNING then panic ''sched running'' s
     else if intr_get s then panic ''sched interruptible'' s
     else Inl (Swtch, s)) s"

text \<open>What \<^verbatim>\<open>sched\<close> does once it is switched back to; \<open>i\<close> is the \<^verbatim>\<open>intena\<close> it saved.\<close>

definition sched_return :: "bool \<Rightarrow> 'a machine_scheme \<Rightarrow> 'a machine_scheme" where
  "sched_return i s = set_mycpu ((mycpu s)\<lparr>intena := i\<rparr>) s"

definition yield :: "'a pstate_scheme \<Rightarrow> ('a pstate_scheme, unit) out" where
  "yield s = curproc (\<lambda>p s.
     bnd (acquire (p_lk p) (p_lku p) s) (\<lambda>_ s.
       let s = upd_proc p (\<lambda>q. q\<lparr>p_state := RUNNABLE\<rparr>) s
       in bnd (sched s) (\<lambda>_ s. release (p_lk p) (p_lku p) s))) s"

definition yield_return :: "nat \<Rightarrow> bool \<Rightarrow> 'a pstate_scheme \<Rightarrow> ('a pstate_scheme, unit) out" where
  "yield_return p i s = release (p_lk p) (p_lku p) (sched_return i s)"

definition sleep ::
  "chan \<Rightarrow> ('a pstate_scheme \<Rightarrow> spinlock) \<Rightarrow>
   ((spinlock \<Rightarrow> spinlock) \<Rightarrow> 'a pstate_scheme \<Rightarrow> 'a pstate_scheme) \<Rightarrow>
   'a pstate_scheme \<Rightarrow> ('a pstate_scheme, unit) out" where
  "sleep ch g u s = curproc (\<lambda>p s.
     bnd (acquire (p_lk p) (p_lku p) s) (\<lambda>_ s.
     bnd (release g u s) (\<lambda>_ s.
       let s = upd_proc p (\<lambda>q. q\<lparr>p_chan := Some ch\<rparr>) s;
           s = upd_proc p (\<lambda>q. q\<lparr>p_state := SLEEPING\<rparr>) s
       in bnd (sched s) (\<lambda>_ s.
            let s = upd_proc p (\<lambda>q. q\<lparr>p_chan := None\<rparr>) s
            in bnd (release (p_lk p) (p_lku p) s) (\<lambda>_ s. acquire g u s))))) s"

definition sleep_return ::
  "nat \<Rightarrow> bool \<Rightarrow> ('a pstate_scheme \<Rightarrow> spinlock) \<Rightarrow>
   ((spinlock \<Rightarrow> spinlock) \<Rightarrow> 'a pstate_scheme \<Rightarrow> 'a pstate_scheme) \<Rightarrow>
   'a pstate_scheme \<Rightarrow> ('a pstate_scheme, unit) out" where
  "sleep_return p i g u s =
     (let s = sched_return i s;
          s = upd_proc p (\<lambda>q. q\<lparr>p_chan := None\<rparr>) s
      in bnd (release (p_lk p) (p_lku p) s) (\<lambda>_ s. acquire g u s))"

fun wakeup_loop :: "chan \<Rightarrow> nat list \<Rightarrow> 'a pstate_scheme \<Rightarrow> ('a pstate_scheme, unit) out" where
  "wakeup_loop ch [] s = ret () s"
| "wakeup_loop ch (p # ps) s =
     bnd (myproc s) (\<lambda>me s.
       if Some p \<noteq> me then
         bnd (acquire (p_lk p) (p_lku p) s) (\<lambda>_ s.
           let s = (if p_state (procs s p) = SLEEPING \<and> p_chan (procs s p) = Some ch
                    then upd_proc p (\<lambda>q. q\<lparr>p_state := RUNNABLE\<rparr>) s else s)
           in bnd (release (p_lk p) (p_lku p) s) (\<lambda>_ s. wakeup_loop ch ps s))
       else wakeup_loop ch ps s)"

definition wakeup :: "chan \<Rightarrow> 'a pstate_scheme \<Rightarrow> ('a pstate_scheme, unit) out" where
  "wakeup ch s = wakeup_loop ch [0..<NPROC] s"

fun kill_loop :: "int \<Rightarrow> nat list \<Rightarrow> 'a pstate_scheme \<Rightarrow> ('a pstate_scheme, int) out" where
  "kill_loop pid [] s = ret (-1) s"
| "kill_loop pid (p # ps) s =
     bnd (acquire (p_lk p) (p_lku p) s) (\<lambda>_ s.
       if p_pid (procs s p) = pid then
         let s = upd_proc p (\<lambda>q. q\<lparr>p_killed := 1\<rparr>) s;
             s = (if p_state (procs s p) = SLEEPING
                  then upd_proc p (\<lambda>q. q\<lparr>p_state := RUNNABLE\<rparr>) s else s)
         in bnd (release (p_lk p) (p_lku p) s) (\<lambda>_ s. ret 0 s)
       else bnd (release (p_lk p) (p_lku p) s) (\<lambda>_ s. kill_loop pid ps s))"

definition kill :: "int \<Rightarrow> 'a pstate_scheme \<Rightarrow> ('a pstate_scheme, int) out" where
  "kill pid s = kill_loop pid [0..<NPROC] s"

subsection \<open>The scheduler\<close>

fun scheduler_scan :: "nat list \<Rightarrow> 'a pstate_scheme \<Rightarrow> ('a pstate_scheme, unit) out" where
  "scheduler_scan [] s = ret () s"
| "scheduler_scan (p # ps) s =
     bnd (acquire (p_lk p) (p_lku p) s) (\<lambda>_ s.
       if p_state (procs s p) = RUNNABLE then
         let s = upd_proc p (\<lambda>q. q\<lparr>p_state := RUNNING\<rparr>) s
         in Inl (Swtch, set_mycpu ((mycpu s)\<lparr>cpu_proc := Some p\<rparr>) s)
       else bnd (release (p_lk p) (p_lku p) s) (\<lambda>_ s. scheduler_scan ps s))"

text \<open>The part of the loop body after \<^verbatim>\<open>swtch\<close> returns, and the rest of the pass.\<close>

definition scheduler_return :: "nat \<Rightarrow> 'a pstate_scheme \<Rightarrow> ('a pstate_scheme, unit) out" where
  "scheduler_return p s =
     (let s = set_mycpu ((mycpu s)\<lparr>cpu_proc := None\<rparr>) s
      in bnd (release (p_lk p) (p_lku p) s) (\<lambda>_ s. scheduler_scan [Suc p..<NPROC] s))"

text \<open>One round of \<^verbatim>\<open>for(;;)\<close>.\<close>

definition scheduler_pass :: "'a pstate_scheme \<Rightarrow> ('a pstate_scheme, unit) out" where
  "scheduler_pass s = scheduler_scan [0..<NPROC] (intr_on s)"

definition scheduler_start :: "'a pstate_scheme \<Rightarrow> 'a pstate_scheme" where
  "scheduler_start s = set_mycpu ((mycpu s)\<lparr>cpu_proc := None\<rparr>) s"


section \<open>Lemmas\<close>

text \<open>The process running on this hart.\<close>

definition cur :: "'a machine_scheme \<Rightarrow> nat option" where
  "cur s = cpu_proc (cpus s (tp s))"

lemma myproc_quiet [simp]: "quiet s \<Longrightarrow> myproc s = ret (cur s) s"
  by (simp add: myproc_def Let_def push_off_eq mycpu_def cpuid_def pop_off_eq quiet_def cur_def)

lemma curproc_quiet [simp]: "quiet s \<Longrightarrow> cur s = Some p \<Longrightarrow> curproc f s = f p s"
  by (simp add: curproc_def)

lemma curproc_none: "quiet s \<Longrightarrow> cur s = None \<Longrightarrow> curproc f s = Inl (Fault, s)"
  by (simp add: curproc_def)

lemma upd_proc_simps [simp]:
  "cpus (upd_proc i h s) = cpus s" "tp (upd_proc i h s) = tp s"
  "procs (upd_proc i h s) j = (if j = i then h (procs s i) else procs s j)"
  "initproc (upd_proc i h s) = initproc s" "nextpid (upd_proc i h s) = nextpid s"
  "pid_lock (upd_proc i h s) = pid_lock s" "wait_lock (upd_proc i h s) = wait_lock s"
  "ticks (upd_proc i h s) = ticks s" "tickslock (upd_proc i h s) = tickslock s"
  "quiet (upd_proc i h s) = quiet s" "cur (upd_proc i h s) = cur s"
  by (simp_all add: upd_proc_def quiet_def mycpu_def cpuid_def cur_def)

lemma upd_proc_twice [simp]: "upd_proc i h (upd_proc i k s) = upd_proc i (\<lambda>p. h (k p)) s"
  by (simp add: upd_proc_def)

lemma upd_proc_id: "h (procs s i) = procs s i \<Longrightarrow> upd_proc i h s = s"
  by (simp add: upd_proc_def fun_upd_idem)

lemma plock_enter_fields [simp]:
  "p_state (procs (plock.enter i s) j) = p_state (procs s j)"
  "p_chan (procs (plock.enter i s) j) = p_chan (procs s j)"
  "p_killed (procs (plock.enter i s) j) = p_killed (procs s j)"
  "p_pid (procs (plock.enter i s) j) = p_pid (procs s j)"
  "p_parent (procs (plock.enter i s) j) = p_parent (procs s j)"
  "p_lk j (plock.enter i s) = (if i = j then (p_lk i s)\<lparr>locked := True, lk_cpu := Some (tp s)\<rparr> else p_lk j s)"
  by (auto simp: plock.enter_def p_lku_def p_lk_def push_off_eq upd_proc_def)

text \<open>
  A field update of \<^verbatim>\<open>proc[i]\<close> other than its lock commutes with taking that lock.
\<close>

definition lock_indep :: "(proc \<Rightarrow> proc) \<Rightarrow> bool" where
  "lock_indep h \<longleftrightarrow> (\<forall>p l. h (p\<lparr>p_lock := l\<rparr>) = (h p)\<lparr>p_lock := l\<rparr> \<and> p_lock (h p) = p_lock p)"

lemma plock_enter_upd: "lock_indep h \<Longrightarrow> upd_proc i h (plock.enter i s) = plock.enter i (upd_proc i h s)"
  by (simp add: plock.enter_def p_lku_def push_off_eq upd_proc_def lock_indep_def)

lemma p_lk_upd: "lock_indep h \<Longrightarrow> p_lk j (upd_proc i h s) = p_lk j s"
  by (auto simp: p_lk_def lock_indep_def)

lemma plock_section:
  assumes "quiet s" "free_lock (p_lk i s)" "lock_indep h"
  shows "bnd (acquire (p_lk i) (p_lku i) s) (\<lambda>_ t. release (p_lk i) (p_lku i) (upd_proc i h t)) =
    ret () (upd_proc i h s)"
proof -
  from assms have "plock.enter i (upd_proc i h s) = upd_proc i h (plock.enter i s)"
    by (simp add: plock_enter_upd)
  moreover have "release (p_lk i) (p_lku i) (plock.enter i (upd_proc i h s)) = ret () (upd_proc i h s)"
    using assms by (intro plock.release_enter) (simp_all add: p_lk_upd)
  ultimately show ?thesis using assms by (simp add: plock.acquire_free free_lock_def)
qed

lemma lock_indep_simps [simp]:
  "lock_indep (\<lambda>q. q\<lparr>p_state := st\<rparr>)" "lock_indep (\<lambda>q. q\<lparr>p_killed := k\<rparr>)"
  "lock_indep (\<lambda>q. q\<lparr>p_priority := n\<rparr>)" "lock_indep (\<lambda>q. q)"
  "lock_indep (\<lambda>q. q\<lparr>p_killed := k, p_state := st\<rparr>)"
  by (simp_all add: lock_indep_def)

subsection \<open>Waking up\<close>

definition wake1 :: "chan \<Rightarrow> proc \<Rightarrow> proc" where
  "wake1 ch q = (if p_state q = SLEEPING \<and> p_chan q = Some ch then q\<lparr>p_state := RUNNABLE\<rparr> else q)"

lemma lock_indep_wake1 [simp]: "lock_indep (wake1 ch)"
  by (auto simp: lock_indep_def wake1_def)

definition locks_free :: "nat set \<Rightarrow> 'a pstate_scheme \<Rightarrow> bool" where
  "locks_free I s \<longleftrightarrow> (\<forall>i \<in> I. free_lock (p_lk i s))"

definition wake_all :: "chan \<Rightarrow> nat set \<Rightarrow> 'a pstate_scheme \<Rightarrow> 'a pstate_scheme" where
  "wake_all ch I s = s\<lparr>procs := (\<lambda>i. if i \<in> I then wake1 ch (procs s i) else procs s i)\<rparr>"

lemma wake_all_empty [simp]: "wake_all ch {} s = s"
  by (simp add: wake_all_def)

lemma wakeup_loop_eq:
  assumes "distinct ps" "quiet s" "locks_free (set ps - {p. Some p = cur s}) s"
  shows "wakeup_loop ch ps s = ret () (wake_all ch (set ps - {p. Some p = cur s}) s)"
  using assms
proof (induction ps arbitrary: s)
  case (Cons p ps)
  show ?case
  proof (cases "Some p = cur s")
    case True
    then have "set (p # ps) - {p. Some p = cur s} = set ps - {p. Some p = cur s}" by auto
    with Cons True show ?thesis by simp
  next
    case False
    let ?s = "upd_proc p (wake1 ch) s"
    have fr: "free_lock (p_lk p s)" using Cons.prems False by (simp add: locks_free_def)
    have sec: "bnd (acquire (p_lk p) (p_lku p) s) (\<lambda>_ t. release (p_lk p) (p_lku p) (upd_proc p (wake1 ch) t)) =
        ret () ?s"
      using Cons.prems fr by (intro plock_section) simp_all
    have upd: "(if p_state (procs t p) = SLEEPING \<and> p_chan (procs t p) = Some ch
        then upd_proc p (\<lambda>q. q\<lparr>p_state := RUNNABLE\<rparr>) t else t) = upd_proc p (wake1 ch) t" for t :: "'a pstate_scheme"
      by (auto simp: upd_proc_def wake1_def fun_upd_idem)
    have "wakeup_loop ch (p # ps) s =
        bnd (bnd (acquire (p_lk p) (p_lku p) s) (\<lambda>_ t. release (p_lk p) (p_lku p) (upd_proc p (wake1 ch) t)))
          (\<lambda>_ s. wakeup_loop ch ps s)"
      using Cons.prems False by (simp add: upd bnd_assoc)
    also have "\<dots> = wakeup_loop ch ps ?s" by (simp add: sec)
    also have "\<dots> = ret () (wake_all ch (set ps - {p. Some p = cur s}) ?s)"
      using Cons.IH [of ?s] Cons.prems by (simp add: locks_free_def p_lk_upd)
    also have "wake_all ch (set ps - {p. Some p = cur s}) ?s = wake_all ch (set (p # ps) - {p. Some p = cur s}) s"
      using False Cons.prems by (auto simp: wake_all_def upd_proc_def fun_eq_iff)
    finally show ?thesis .
  qed
qed simp


text \<open>
  C29. \<^verbatim>\<open>wakeup(chan)\<close>, called without any process lock, makes exactly the processes that sleep on
  \<open>chan\<close> runnable (the caller itself apart), changes nothing else, and returns.
\<close>

theorem wakeup_correct:
  assumes "quiet s" "\<forall>p < NPROC. Some p \<noteq> cur s \<longrightarrow> free_lock (p_lk p s)"
  shows "wakeup ch s = ret () (s\<lparr>procs := (\<lambda>p.
    if p < NPROC \<and> Some p \<noteq> cur s \<and> p_state (procs s p) = SLEEPING \<and> p_chan (procs s p) = Some ch
    then (procs s p)\<lparr>p_state := RUNNABLE\<rparr> else procs s p)\<rparr>)"
proof -
  have "wakeup ch s = ret () (wake_all ch (set [0..<NPROC] - {p. Some p = cur s}) s)"
    unfolding wakeup_def using assms by (intro wakeup_loop_eq) (auto simp: locks_free_def)
  then show ?thesis by (auto simp: wake_all_def wake1_def intro!: arg_cong [where f = "\<lambda>x. s\<lparr>procs := x\<rparr>"])
qed

subsection \<open>Killing\<close>

definition kill1 :: "proc \<Rightarrow> proc" where
  "kill1 q = q\<lparr>p_killed := 1, p_state := (if p_state q = SLEEPING then RUNNABLE else p_state q)\<rparr>"

lemma lock_indep_kill1 [simp]: "lock_indep kill1"
  by (auto simp: lock_indep_def kill1_def)

lemma kill_loop_eq:
  assumes "quiet s" "locks_free (set ps) s"
  shows "kill_loop pid ps s =
    (case List.find (\<lambda>p. p_pid (procs s p) = pid) ps of
       None \<Rightarrow> ret (-1) s | Some p \<Rightarrow> ret 0 (upd_proc p kill1 s))"
  using assms
proof (induction ps)
  case (Cons p ps)
  have fr: "free_lock (p_lk p s)" using Cons.prems by (simp add: locks_free_def)
  have rel: "release (p_lk p) (p_lku p) (plock.enter p s) = ret () s"
    using Cons.prems fr by (simp add: plock.release_enter)
  have kil: "release (p_lk p) (p_lku p) (upd_proc p kill1 (plock.enter p s)) = ret () (upd_proc p kill1 s)"
    using Cons.prems fr plock_section [of s p kill1] by (simp add: plock.acquire_free free_lock_def)
  have upd: "p_state (procs t p) = SLEEPING \<Longrightarrow>
        upd_proc p (\<lambda>q. q\<lparr>p_killed := 1, p_state := RUNNABLE\<rparr>) t = upd_proc p kill1 t"
      "p_state (procs t p) \<noteq> SLEEPING \<Longrightarrow> upd_proc p (\<lambda>q. q\<lparr>p_killed := 1\<rparr>) t = upd_proc p kill1 t"
    for t :: "'a pstate_scheme"
    by (simp_all add: upd_proc_def kill1_def)
  have "locks_free (set ps) s" using Cons.prems by (simp add: locks_free_def)
  with Cons.IH Cons.prems(1) fr rel kil upd show ?case
    by (simp add: plock.acquire_free free_lock_def Let_def)
qed simp

lemma find_upt:
  "List.find P [0..<n] = (if \<exists>i<n. P i then Some (LEAST i. i < n \<and> P i) else None)"
proof (induction n)
  case (Suc n)
  have find_app: "List.find P (xs @ ys) = (case List.find P xs of None \<Rightarrow> List.find P ys | r \<Rightarrow> r)" for xs ys
    by (induction xs) auto
  show ?case
  proof (cases "\<exists>i<n. P i")
    case True
    then obtain i where "i < n \<and> P i" by auto
    then have "(LEAST i. i < n \<and> P i) < n \<and> P (LEAST i. i < n \<and> P i)" by (rule LeastI)
    then have "(LEAST i. i < Suc n \<and> P i) = (LEAST i. i < n \<and> P i)"
      by (intro Least_equality) (auto intro: Least_le simp: less_Suc_eq)
    with True Suc show ?thesis by (auto simp: find_app less_Suc_eq)
  next
    case False
    then have "P n \<Longrightarrow> (LEAST i. i < Suc n \<and> P i) = n"
      by (intro Least_equality) (auto simp: less_Suc_eq)
    with False Suc show ?thesis by (auto simp: find_app less_Suc_eq)
  qed
qed simp

text \<open>
  \<^verbatim>\<open>kill(pid)\<close> returns -1 and changes nothing when no slot has that pid; otherwise it returns 0
  and marks the first such slot killed, waking it if it sleeps.
\<close>

lemma kill_correct:
  assumes "quiet s" "\<forall>p < NPROC. free_lock (p_lk p s)"
  shows "kill pid s =
    (if \<exists>p < NPROC. p_pid (procs s p) = pid
     then ret 0 (upd_proc (LEAST p. p < NPROC \<and> p_pid (procs s p) = pid)
       (\<lambda>q. q\<lparr>p_killed := 1, p_state := (if p_state q = SLEEPING then RUNNABLE else p_state q)\<rparr>) s)
     else ret (-1) s)"
  unfolding kill_def using assms
  by (simp add: kill_loop_eq locks_free_def find_upt kill1_def [abs_def])

subsection \<open>The scheduler\<close>

lemma scheduler_scan_eq:
  assumes "quiet s" "locks_free (set ps) s"
  shows "scheduler_scan ps s =
    (case List.find (\<lambda>p. p_state (procs s p) = RUNNABLE) ps of
       None \<Rightarrow> ret () s
     | Some p \<Rightarrow> let t = plock.enter p (upd_proc p (\<lambda>q. q\<lparr>p_state := RUNNING\<rparr>) s)
                 in Inl (Swtch, set_mycpu ((mycpu t)\<lparr>cpu_proc := Some p\<rparr>) t))"
  using assms
proof (induction ps)
  case (Cons p ps)
  have fr: "free_lock (p_lk p s)" using Cons.prems by (simp add: locks_free_def)
  have rel: "release (p_lk p) (p_lku p) (plock.enter p s) = ret () s"
    using Cons.prems fr by (simp add: plock.release_enter)
  have "locks_free (set ps) s" using Cons.prems by (simp add: locks_free_def)
  with Cons.IH Cons.prems(1) fr rel show ?case
    by (simp add: plock.acquire_free free_lock_def Let_def plock_enter_upd)
qed simp



subsection \<open>Sleeping\<close>

lemma cpus_procs_swap: "cpus_update f (procs_update h s) = procs_update h (cpus_update f s)"
  for s :: "'a pstate_scheme"
  by simp

text \<open>
  A lock that can be handed to \<^verbatim>\<open>sleep\<close>: a lock field that is not part of the process table.
\<close>

locale sleep_lock = lock_field g u
  for g :: "'a pstate_scheme \<Rightarrow> spinlock"
    and u :: "(spinlock \<Rightarrow> spinlock) \<Rightarrow> 'a pstate_scheme \<Rightarrow> 'a pstate_scheme" +
  assumes get_procs: "g (s\<lparr>procs := c\<rparr>) = g s"
    and update_procs: "(u f s)\<lparr>procs := c\<rparr> = u f (s\<lparr>procs := c\<rparr>)"
    and procs_update_field: "procs (u f s) = procs s"
begin

lemma upd_proc_enter: "upd_proc p h (enter s) = enter (upd_proc p h s)"
  by (simp add: enter_def push_off_eq upd_proc_def update_procs procs_update_field update_cpus
      tp_update_field cpus_procs_swap)

lemma enter_swap: "plock.enter p (enter s) = enter (plock.enter p s)"
  by (simp add: enter_def plock.enter_def push_off_eq p_lku_def upd_proc_def update_procs procs_update_field
      update_cpus cpus_update_field tp_update_field cpus_procs_swap)

lemma procs_enter [simp]: "procs (enter s) = procs s"
  by (simp add: enter_def push_off_eq procs_update_field)

lemma get_upd_proc [simp]: "g (upd_proc p h s) = g s"
  by (simp add: upd_proc_def get_procs)

lemma get_plock_enter [simp]: "g (plock.enter p s) = g s"
  by (simp add: plock.enter_def push_off_eq p_lku_def get_cpus)

lemma sleep_enter:
  assumes "quiet s" "noff (cpus s (tp s)) = 0" "cur s = Some p" "free_lock (g s)" "free_lock (p_lk p s)"
  shows "sleep ch g u (enter s) =
    Inl (Swtch, plock.enter p (upd_proc p (\<lambda>q. q\<lparr>p_chan := Some ch, p_state := SLEEPING\<rparr>) s))"
proof -
  let ?h = "\<lambda>q. q\<lparr>p_chan := Some ch, p_state := SLEEPING\<rparr>"
  let ?t = "plock.enter p (upd_proc p ?h s)"
  have cur: "cur (enter s) = Some p" using assms(3) by (simp add: cur_def)
  have "p_lk p (enter s) = p_lk p s" by (simp add: p_lk_def)
  with assms have acq: "acquire (p_lk p) (p_lku p) (enter s) = ret () (enter (plock.enter p s))"
    by (simp add: plock.acquire_free free_lock_def enter_swap)
  have rel: "release g u (enter (plock.enter p s)) = ret () (plock.enter p s)"
    using assms by (intro release_enter) simp_all
  have upd: "upd_proc p ?h (plock.enter p s) = ?t"
    by (rule plock_enter_upd) (simp add: lock_indep_def)
  have "cpus ?t (tp ?t) = push_cpu (cpus s (tp s))"
    by (simp add: plock.enter_def push_off_eq p_lku_def upd_proc_def)
  then have "sched ?t = Inl (Swtch, ?t)"
    using assms by (simp add: sched_def curproc_quiet [of ?t p] cur_def holding_def cpuid_def mycpu_def
        intr_get_def push_cpu_def p_lk_upd lock_indep_def)
  with assms cur acq rel upd show ?thesis by (simp add: sleep_def Let_def)
qed

end

interpretation wait_sleep: sleep_lock wait_lock wait_lock_update
  by unfold_locales simp_all

interpretation tick_sleep: sleep_lock tickslock tickslock_update
  by unfold_locales simp_all


text \<open>
  \<^verbatim>\<open>sleep(chan, lk)\<close>, called with only \<open>lk\<close> held, reaches the context switch with \<open>lk\<close> free
  again, the caller SLEEPING on \<open>chan\<close> and its process lock held by this hart: between the release of
  \<open>lk\<close> and the switch nobody can see the caller in another state. No other process changes.
\<close>

lemma sleep_correct:
  assumes "sleep_lock g u" "quiet s" "noff (cpus s (tp s)) = 0" "cur s = Some p"
    "free_lock (g s)" "free_lock (p_lk p s)" "acquire g u s = ret () t"
  shows "\<exists>t'. sleep ch g u t = Inl (Swtch, t') \<and> g t' = g s \<and> holding (p_lk p t') t' \<and>
    p_state (procs t' p) = SLEEPING \<and> p_chan (procs t' p) = Some ch \<and>
    noff (cpus t' (tp t')) = 1 \<and> \<not> intr (cpus t' (tp t')) \<and> (\<forall>q. q \<noteq> p \<longrightarrow> procs t' q = procs s q)"
proof -
  from assms(1) have lf: "lock_field g u" by (simp add: sleep_lock_def)
  have "t = lock_field.enter u s"
    using lock_field.acquire_free [OF lf, of s] assms by (simp add: free_lock_def)
  let ?t = "plock.enter p (upd_proc p (\<lambda>q. q\<lparr>p_chan := Some ch, p_state := SLEEPING\<rparr>) s)"
  from assms \<open>t = _\<close> have "sleep ch g u t = Inl (Swtch, ?t)"
    by (simp add: sleep_lock.sleep_enter)
  moreover have "g ?t = g s"
    using assms(1) by (simp add: sleep_lock.get_upd_proc sleep_lock.get_plock_enter)
  moreover have "holding (p_lk p ?t) ?t \<and> p_state (procs ?t p) = SLEEPING \<and> p_chan (procs ?t p) = Some ch \<and>
      noff (cpus ?t (tp ?t)) = 1 \<and> \<not> intr (cpus ?t (tp ?t)) \<and> (\<forall>q. q \<noteq> p \<longrightarrow> procs ?t q = procs s q)"
    using assms(3) by (simp add: holding_def cpuid_def p_lk_def plock.enter_def p_lku_def push_off_eq
        upd_proc_def push_cpu_def)
  ultimately show ?thesis by blast
qed

text \<open>
  A small process table for concrete runs: process 1 runs on hart 0, process 3 sleeps on the ticks
  channel, process 5 is runnable; the other slots are unused.
\<close>

definition proc0 :: proc where
  "proc0 = \<lparr>p_lock = new_lock ''proc'', p_state = UNUSED, p_chan = None, p_killed = 0, p_xstate = 0, p_pid = 0,
     p_parent = None, p_kstack = 0, p_sz = 0, p_pagetable = 0, p_trapframe = 0, p_context = zero_ctxt,
     p_ofile = (\<lambda>_. None), p_cwd = None, p_name = (\<lambda>_. 0), p_priority = 0\<rparr>"

definition procs0 :: "nat \<Rightarrow> proc" where
  "procs0 = (\<lambda>_. proc0)
     (1 := proc0\<lparr>p_state := RUNNING, p_pid := 1\<rparr>,
      3 := proc0\<lparr>p_state := SLEEPING, p_chan := Some Ch_ticks, p_pid := 7\<rparr>,
      5 := proc0\<lparr>p_state := RUNNABLE, p_pid := 9\<rparr>)"

definition pstate0 :: pstate where
  "pstate0 = \<lparr>tp = 0, cpus = (\<lambda>_. boot_cpu)(0 := boot_cpu\<lparr>cpu_proc := Some 1\<rparr>), procs = procs0,
     initproc = Some 1, nextpid = 10, pid_lock = new_lock ''nextpid'', wait_lock = new_lock ''wait_lock'',
     ticks = 0, tickslock = new_lock ''time''\<rparr>"

lemma pstate0_simps [simp]:
  "quiet pstate0" "cur pstate0 = Some 1" "free_lock (p_lk p pstate0)" "free_lock (tickslock pstate0)"
  "procs pstate0 = procs0" "tp pstate0 = 0" "noff (cpus pstate0 0) = 0"
  by (simp_all add: pstate0_def quiet_def mycpu_def cpuid_def cur_def p_lk_def procs0_def proc0_def steady_def
      boot_cpu_def)

theorem wakeup_correct_witness:
  "wakeup Ch_ticks pstate0 = ret () (pstate0\<lparr>procs := procs0(3 := (procs0 3)\<lparr>p_state := RUNNABLE\<rparr>)\<rparr>)"
proof -
  have "(\<lambda>p. if p < NPROC \<and> Some p \<noteq> Some 1 \<and> p_state (procs0 p) = SLEEPING \<and> p_chan (procs0 p) = Some Ch_ticks
      then (procs0 p)\<lparr>p_state := RUNNABLE\<rparr> else procs0 p) = procs0(3 := (procs0 3)\<lparr>p_state := RUNNABLE\<rparr>)"
    by (auto simp: procs0_def proc0_def NPROC_def)
  with wakeup_correct [of pstate0 Ch_ticks, unfolded pstate0_simps] show ?thesis by simp
qed


section \<open>What the scheduling primitives leave alone\<close>

text \<open>
  A view \<open>v\<close> of the state that depends neither on the harts nor on the process table is the same after
  every run of the primitives, however the run ends.
\<close>

definition sched_indep :: "('a pstate_scheme \<Rightarrow> 'v) \<Rightarrow> bool" where
  "sched_indep v \<longleftrightarrow> (\<forall>s f. v (cpus_update f s) = v s) \<and> (\<forall>s f. v (procs_update f s) = v s)"

definition lock_indep_view :: "('a pstate_scheme \<Rightarrow> 'v) \<Rightarrow>
    ((spinlock \<Rightarrow> spinlock) \<Rightarrow> 'a pstate_scheme \<Rightarrow> 'a pstate_scheme) \<Rightarrow> bool" where
  "lock_indep_view v u \<longleftrightarrow> (\<forall>s f. v (u f s) = v s)"

lemma view_push_off: "sched_indep v \<Longrightarrow> v (push_off s) = v s"
  by (simp add: push_off_eq sched_indep_def)

lemma view_set_mycpu: "sched_indep v \<Longrightarrow> v (set_mycpu c s) = v s"
  by (simp add: set_mycpu_def sched_indep_def)

lemma view_upd_proc: "sched_indep v \<Longrightarrow> v (upd_proc i h s) = v s"
  by (simp add: upd_proc_def sched_indep_def)

lemma lock_indep_p_lku: "sched_indep v \<Longrightarrow> lock_indep_view v (p_lku i)"
  by (simp add: lock_indep_view_def p_lku_def view_upd_proc)

lemma keeps_pop_off: "sched_indep v \<Longrightarrow> keeps v s (pop_off s)"
  by (simp add: pop_off_def Let_def intr_on_def view_set_mycpu)

lemma keeps_acquire: "sched_indep v \<Longrightarrow> lock_indep_view v u \<Longrightarrow> keeps v s (acquire g u s)"
  by (simp add: acquire_def Let_def view_push_off lock_indep_view_def)

lemma keeps_release: "sched_indep v \<Longrightarrow> lock_indep_view v u \<Longrightarrow> keeps v s (release g u s)"
  by (auto simp: release_def Let_def lock_indep_view_def intro!: keeps_trans [OF keeps_pop_off])

lemma keeps_myproc: "sched_indep v \<Longrightarrow> keeps v s (myproc s)"
  unfolding myproc_def Let_def
  by (intro keeps_bnd keeps_trans [OF keeps_pop_off]) (auto simp: view_push_off)

lemma keeps_curproc: "sched_indep v \<Longrightarrow> (\<And>p t. v t = v s \<Longrightarrow> keeps v t (f p t)) \<Longrightarrow> keeps v s (curproc f s)"
  unfolding curproc_def
proof (rule keeps_bnd)
  assume v: "sched_indep v" and f: "\<And>p t. v t = v s \<Longrightarrow> keeps v t (f p t)"
  show m: "keeps v s (myproc s)" by (rule keeps_myproc [OF v])
  fix a t assume "myproc s = Inr (a, t)"
  with m have "v t = v s" by (simp add: keeps_def)
  with f show "keeps v t (case a of None \<Rightarrow> Inl (Fault, t) | Some p \<Rightarrow> f p t)" by (cases a) auto
qed

lemma keeps_sched: "sched_indep v \<Longrightarrow> keeps v s (sched s)"
  unfolding sched_def by (rule keeps_curproc) auto

lemma keeps_sleep:
  assumes "sched_indep v" "lock_indep_view v u"
  shows "keeps v s (sleep ch g u s)"
  unfolding sleep_def Let_def
  by (intro keeps_curproc keeps_bnd keeps_acquire keeps_release keeps_sched lock_indep_p_lku assms
      keeps_trans [OF keeps_bnd] keeps_trans [OF keeps_sched] keeps_trans [OF keeps_release])
    (auto simp: view_upd_proc assms)

lemma keeps_wakeup_loop: "sched_indep v \<Longrightarrow> keeps v s (wakeup_loop ch ps s)"
proof (induction ps arbitrary: s)
  case (Cons p ps)
  show ?case
    unfolding wakeup_loop.simps Let_def
    by (intro keeps_bnd keeps_myproc Cons.prems)
      (auto simp: view_upd_proc Cons intro!: keeps_bnd keeps_acquire lock_indep_p_lku keeps_release
        keeps_trans [OF keeps_release] Cons.IH)
qed simp

lemma keeps_wakeup: "sched_indep v \<Longrightarrow> keeps v s (wakeup ch s)"
  unfolding wakeup_def by (rule keeps_wakeup_loop)

lemmas keeps_sched_rules = keeps_acquire keeps_release keeps_myproc keeps_curproc keeps_sched keeps_sleep keeps_wakeup

end
