(* ===== verification/Sleeplock.thy ===== *)
theory Sleeplock
  imports Sched
begin

text \<open>
  \<^verbatim>\<open>kernel/sleeplock.c\<close>. A sleep lock is a field of some kernel object; like a spin lock it is named by
  the selector \<open>g\<close> and update \<open>u\<close> of that field, and \<open>ch\<close> is its address as a wait channel.
\<close>

record sleeplock =
  sl_locked :: bool
  sl_lk :: spinlock
  sl_name :: string
  sl_pid :: int

definition initsleeplock :: "string \<Rightarrow> sleeplock \<Rightarrow> sleeplock" where
  "initsleeplock name lk =
     lk\<lparr>sl_lk := initlock ''sleep lock'' (sl_lk lk), sl_name := name, sl_locked := False, sl_pid := 0\<rparr>"

text \<open>The inner spin lock \<^verbatim>\<open>lk->lk\<close> as a lock field.\<close>

definition inner :: "('a \<Rightarrow> sleeplock) \<Rightarrow> 'a \<Rightarrow> spinlock" where
  "inner g s = sl_lk (g s)"

definition inner_update ::
  "((sleeplock \<Rightarrow> sleeplock) \<Rightarrow> 'a \<Rightarrow> 'a) \<Rightarrow> (spinlock \<Rightarrow> spinlock) \<Rightarrow> 'a \<Rightarrow> 'a" where
  "inner_update u f s = u (\<lambda>l. l\<lparr>sl_lk := f (sl_lk l)\<rparr>) s"

text \<open>
  The \<^verbatim>\<open>while\<close> loop of \<^verbatim>\<open>acquiresleep\<close> from its test on. A process that goes to sleep stops at the
  context switch; \<open>acquiresleep_return\<close> is what it does when it runs again.
\<close>

definition acquiresleep_loop ::
  "('a pstate_scheme \<Rightarrow> sleeplock) \<Rightarrow> ((sleeplock \<Rightarrow> sleeplock) \<Rightarrow> 'a pstate_scheme \<Rightarrow> 'a pstate_scheme) \<Rightarrow>
   chan \<Rightarrow> 'a pstate_scheme \<Rightarrow> ('a pstate_scheme, unit) out" where
  "acquiresleep_loop g u ch s =
     (if sl_locked (g s) then sleep ch (inner g) (inner_update u) s
      else let s = u (\<lambda>l. l\<lparr>sl_locked := True\<rparr>) s
           in curproc (\<lambda>p s.
                let s = u (\<lambda>l. l\<lparr>sl_pid := p_pid (procs s p)\<rparr>) s
                in release (inner g) (inner_update u) s) s)"

definition acquiresleep ::
  "('a pstate_scheme \<Rightarrow> sleeplock) \<Rightarrow> ((sleeplock \<Rightarrow> sleeplock) \<Rightarrow> 'a pstate_scheme \<Rightarrow> 'a pstate_scheme) \<Rightarrow>
   chan \<Rightarrow> 'a pstate_scheme \<Rightarrow> ('a pstate_scheme, unit) out" where
  "acquiresleep g u ch s =
     bnd (acquire (inner g) (inner_update u) s) (\<lambda>_ s. acquiresleep_loop g u ch s)"

definition acquiresleep_return ::
  "('a pstate_scheme \<Rightarrow> sleeplock) \<Rightarrow> ((sleeplock \<Rightarrow> sleeplock) \<Rightarrow> 'a pstate_scheme \<Rightarrow> 'a pstate_scheme) \<Rightarrow>
   chan \<Rightarrow> nat \<Rightarrow> bool \<Rightarrow> 'a pstate_scheme \<Rightarrow> ('a pstate_scheme, unit) out" where
  "acquiresleep_return g u ch p i s =
     bnd (sleep_return p i (inner g) (inner_update u) s) (\<lambda>_ s. acquiresleep_loop g u ch s)"

definition releasesleep ::
  "('a pstate_scheme \<Rightarrow> sleeplock) \<Rightarrow> ((sleeplock \<Rightarrow> sleeplock) \<Rightarrow> 'a pstate_scheme \<Rightarrow> 'a pstate_scheme) \<Rightarrow>
   chan \<Rightarrow> 'a pstate_scheme \<Rightarrow> ('a pstate_scheme, unit) out" where
  "releasesleep g u ch s =
     bnd (acquire (inner g) (inner_update u) s) (\<lambda>_ s.
       let s = u (\<lambda>l. l\<lparr>sl_locked := False\<rparr>) s;
           s = u (\<lambda>l. l\<lparr>sl_pid := 0\<rparr>) s
       in bnd (wakeup ch s) (\<lambda>_ s. release (inner g) (inner_update u) s))"

definition holdingsleep ::
  "('a pstate_scheme \<Rightarrow> sleeplock) \<Rightarrow> ((sleeplock \<Rightarrow> sleeplock) \<Rightarrow> 'a pstate_scheme \<Rightarrow> 'a pstate_scheme) \<Rightarrow>
   'a pstate_scheme \<Rightarrow> ('a pstate_scheme, bool) out" where
  "holdingsleep g u s =
     bnd (acquire (inner g) (inner_update u) s) (\<lambda>_ s.
     bnd (if sl_locked (g s) then curproc (\<lambda>p s. ret (sl_pid (g s) = p_pid (procs s p)) s) s else ret False s)
       (\<lambda>r s. bnd (release (inner g) (inner_update u) s) (\<lambda>_ s. ret r s)))"

section \<open>The contract of a sleep-lock field\<close>

locale sleeplock_field =
  fixes g :: "'a pstate_scheme \<Rightarrow> sleeplock"
    and u :: "(sleeplock \<Rightarrow> sleeplock) \<Rightarrow> 'a pstate_scheme \<Rightarrow> 'a pstate_scheme"
  assumes get_update: "g (u f s) = f (g s)"
    and update_update: "u f (u h s) = u (\<lambda>x. f (h x)) s"
    and update_get: "u f s = u (\<lambda>_. f (g s)) s"
    and update_same: "u (\<lambda>_. g s) s = s"
    and get_cpus: "g (cpus_update c s) = g s"
    and update_cpus: "cpus_update c (u f s) = u f (cpus_update c s)"
    and cpus_update_field: "cpus (u f s) = cpus s"
    and tp_update_field: "tp (u f s) = tp s"
    and get_procs: "g (s\<lparr>procs := c'\<rparr>) = g s"
    and update_procs: "(u f s)\<lparr>procs := c'\<rparr> = u f (s\<lparr>procs := c'\<rparr>)"
    and procs_update_field: "procs (u f s) = procs s"
begin

lemma inner_sleep_lock: "sleep_lock (inner g) (inner_update u)"
proof (unfold_locales; unfold inner_def inner_update_def)
  show "u (\<lambda>l. l\<lparr>sl_lk := f (sl_lk l)\<rparr>) s = u (\<lambda>l. l\<lparr>sl_lk := f (sl_lk (g s))\<rparr>) s" for f s
    by (subst (1 2) update_get) simp
  show "u (\<lambda>l. l\<lparr>sl_lk := sl_lk (g s)\<rparr>) s = s" for s
    by (subst update_get) (simp add: update_same)
qed (simp_all add: get_update update_update get_cpus update_cpus cpus_update_field tp_update_field
      get_procs update_procs procs_update_field)

end

sublocale sleeplock_field \<subseteq> lk: sleep_lock "inner g" "inner_update u"
  by (rule inner_sleep_lock)

text \<open>
  Ordinary process context: process \<open>p\<close> runs on a steady hart and no process lock is held.
\<close>

definition calm :: "nat \<Rightarrow> 'a pstate_scheme \<Rightarrow> bool" where
  "calm p s \<longleftrightarrow> quiet s \<and> cur s = Some p \<and> locks_free {0..<NPROC} s"

definition wake :: "chan \<Rightarrow> nat \<Rightarrow> 'a pstate_scheme \<Rightarrow> 'a pstate_scheme" where
  "wake ch p s = wake_all ch ({0..<NPROC} - {p}) s"

lemma wakeup_calm: "calm p s \<Longrightarrow> wakeup ch s = ret () (wake ch p s)"
  unfolding wakeup_def wake_def calm_def
  by (subst wakeup_loop_eq) (auto simp: locks_free_def intro!: arg_cong [where f = "\<lambda>I. wake_all ch I s"])

lemma p_lock_wake1 [simp]: "p_lock (wake1 ch q) = p_lock q"
  by (simp add: wake1_def)

lemma calm_wake [simp]: "calm p (wake ch q s) = calm p s"
  by (auto simp: calm_def wake_def wake_all_def locks_free_def p_lk_def quiet_def mycpu_def cpuid_def cur_def
      split: if_splits)

lemma quiet_wake [simp]: "quiet (wake ch q s) = quiet s"
  by (simp add: wake_def wake_all_def quiet_def mycpu_def cpuid_def)

lemma p_pid_wake [simp]: "p_pid (procs (wake ch q s) i) = p_pid (procs s i)"
  by (simp add: wake_def wake_all_def wake1_def)

context sleeplock_field
begin

definition sl_indep :: "(sleeplock \<Rightarrow> sleeplock) \<Rightarrow> bool" where
  "sl_indep f \<longleftrightarrow> (\<forall>l x. f (l\<lparr>sl_lk := x\<rparr>) = (f l)\<lparr>sl_lk := x\<rparr> \<and> sl_lk (f l) = sl_lk l)"

lemma update_enter: "sl_indep f \<Longrightarrow> u f (lk.enter s) = lk.enter (u f s)"
  by (simp add: lk.enter_def inner_update_def push_off_eq update_update update_cpus sl_indep_def
      cpus_update_field tp_update_field)

lemma sl_enter [simp]: "sl_locked (g (lk.enter s)) = sl_locked (g s)" "sl_pid (g (lk.enter s)) = sl_pid (g s)"
  by (simp_all add: lk.enter_def inner_update_def push_off_eq get_update get_cpus)

lemma quiet_update [simp]: "quiet (u f s) = quiet s"
  by (simp add: quiet_def mycpu_def cpuid_def cpus_update_field tp_update_field)

lemma cur_update [simp]: "cur (u f s) = cur s"
  by (simp add: cur_def cpus_update_field tp_update_field)

lemma calm_update [simp]: "calm p (u f s) = calm p s"
  by (simp add: calm_def locks_free_def p_lk_def procs_update_field)

lemma calm_enter: "calm p s \<Longrightarrow> calm p (lk.enter s)"
  by (simp add: calm_def locks_free_def p_lk_def cur_def)

lemma wake_enter: "wake ch p (lk.enter s) = lk.enter (wake ch p s)"
  by (simp add: wake_def wake_all_def lk.enter_def inner_update_def push_off_eq update_procs procs_update_field
      cpus_procs_swap cong: if_cong)

lemma get_wake [simp]: "g (wake ch p s) = g s"
  by (simp add: wake_def wake_all_def get_procs)

lemma acquiresleep_free:
  assumes "calm p s" "free_lock (inner g s)" "\<not> sl_locked (g s)"
  shows "acquiresleep g u ch s = ret () (u (\<lambda>l. l\<lparr>sl_locked := True, sl_pid := p_pid (procs s p)\<rparr>) s)"
proof -
  let ?f = "\<lambda>l. l\<lparr>sl_locked := True, sl_pid := p_pid (procs s p)\<rparr>"
  have "u ?f (lk.enter s) = lk.enter (u ?f s)"
    by (rule update_enter) (simp add: sl_indep_def)
  moreover have "release (inner g) (inner_update u) (lk.enter (u ?f s)) = ret () (u ?f s)"
    using assms by (intro lk.release_enter) (simp_all add: calm_def inner_def get_update)
  moreover have "curproc f (u h (lk.enter s)) = f p (u h (lk.enter s))"
      for f :: "nat \<Rightarrow> 'a pstate_scheme \<Rightarrow> ('a pstate_scheme, unit) out" and h
    using calm_enter [OF assms(1)] by (intro curproc_quiet) (simp_all add: calm_def)
  ultimately show ?thesis
    using assms by (simp add: acquiresleep_def lk.acquire_free free_lock_def acquiresleep_loop_def Let_def
        update_update procs_update_field)
qed

lemma holdingsleep_eq:
  assumes "calm p s" "free_lock (inner g s)"
  shows "holdingsleep g u s = ret (sl_locked (g s) \<and> sl_pid (g s) = p_pid (procs s p)) s"
proof -
  have "release (inner g) (inner_update u) (lk.enter s) = ret () s"
    using assms by (intro lk.release_enter) (simp_all add: calm_def)
  moreover have "curproc f (lk.enter s) = f p (lk.enter s)"
      for f :: "nat \<Rightarrow> 'a pstate_scheme \<Rightarrow> ('a pstate_scheme, bool) out"
    using calm_enter [OF assms(1)] by (intro curproc_quiet) (simp_all add: calm_def)
  ultimately show ?thesis
    using assms by (simp add: holdingsleep_def lk.acquire_free free_lock_def)
qed

lemma releasesleep_eq:
  assumes "calm p s" "free_lock (inner g s)"
  shows "releasesleep g u ch s = ret () (wake ch p (u (\<lambda>l. l\<lparr>sl_locked := False, sl_pid := 0\<rparr>) s))"
proof -
  let ?f = "\<lambda>l. l\<lparr>sl_locked := False, sl_pid := 0\<rparr>"
  have "u ?f (lk.enter s) = lk.enter (u ?f s)"
    by (rule update_enter) (simp add: sl_indep_def)
  moreover have "wakeup ch (lk.enter (u ?f s)) = ret () (lk.enter (wake ch p (u ?f s)))"
    using assms by (subst wakeup_calm) (simp_all add: calm_enter wake_enter)
  moreover have "release (inner g) (inner_update u) (lk.enter (wake ch p (u ?f s))) = ret () (wake ch p (u ?f s))"
    using assms by (intro lk.release_enter) (simp_all add: inner_def get_update calm_def)
  ultimately show ?thesis
    using assms by (simp add: releasesleep_def lk.acquire_free free_lock_def Let_def update_update)
qed

end

end
