(* ===== verification/Kalloc.thy ===== *)
theory Kalloc
  imports Sleeplock
begin

text \<open>
  \<^verbatim>\<open>kernel/kalloc.c\<close>: the physical page allocator, on the byte memory. The free list is threaded
  through the first eight bytes of the free pages, as in the source. The addresses that the linker
  script provides (\<^verbatim>\<open>end\<close>, \<^verbatim>\<open>etext\<close>, \<^verbatim>\<open>trampoline\<close>) are fields of the state that no code changes.
\<close>

section \<open>State and operations\<close>

record mstate = pstate +
  mem :: mem
  kmem_lock :: spinlock
  freelist :: uint64
  ld_end :: uint64
  ld_etext :: uint64
  ld_trampoline :: uint64
  kernel_pagetable :: uint64
  satp :: "nat \<Rightarrow> uint64"

interpretation kmem: lock_field kmem_lock kmem_lock_update
  by unfold_locales simp_all

definition kfree :: "uint64 \<Rightarrow> 'a mstate_scheme \<Rightarrow> ('a mstate_scheme, unit) out" where
  "kfree pa s =
     (if pa mod PGSIZE \<noteq> 0 \<or> pa < ld_end s \<or> pa \<ge> PHYSTOP then panic ''kfree'' s
      else let s = s\<lparr>mem := memset (mem s) pa 1 (ucast PGSIZE)\<rparr>
           in bnd (acquire kmem_lock kmem_lock_update s) (\<lambda>_ s.
                let s = s\<lparr>mem := st64 (mem s) pa (freelist s)\<rparr>;
                    s = s\<lparr>freelist := pa\<rparr>
                in release kmem_lock kmem_lock_update s))"

definition kalloc :: "'a mstate_scheme \<Rightarrow> ('a mstate_scheme, uint64) out" where
  "kalloc s =
     bnd (acquire kmem_lock kmem_lock_update s) (\<lambda>_ s.
       let r = freelist s;
           s = (if r \<noteq> 0 then s\<lparr>freelist := ld64 (mem s) r\<rparr> else s)
       in bnd (release kmem_lock kmem_lock_update s) (\<lambda>_ s.
            ret r (if r \<noteq> 0 then s\<lparr>mem := memset (mem s) r 5 (ucast PGSIZE)\<rparr> else s)))"

text \<open>
  The loop of \<^verbatim>\<open>freerange\<close> compares pointers, which wrap around; whether it ends depends on its
  bounds, so not returning is the value None.
\<close>

partial_function (option) freerange_loop ::
  "uint64 \<Rightarrow> uint64 \<Rightarrow> 'a mstate_scheme \<Rightarrow> ('a mstate_scheme, unit) out option" where
  "freerange_loop p pa_end s =
     (if p + PGSIZE \<le> pa_end
      then (case kfree p s of Inl e \<Rightarrow> Some (Inl e) | Inr (_, s) \<Rightarrow> freerange_loop (p + PGSIZE) pa_end s)
      else Some (ret () s))"

definition freerange :: "uint64 \<Rightarrow> uint64 \<Rightarrow> 'a mstate_scheme \<Rightarrow> ('a mstate_scheme, unit) out option" where
  "freerange pa_start pa_end s = freerange_loop (PGROUNDUP pa_start) pa_end s"

definition kinit :: "'a mstate_scheme \<Rightarrow> ('a mstate_scheme, unit) out option" where
  "kinit s =
     (let s = s\<lparr>kmem_lock := initlock ''kmem'' (kmem_lock s)\<rparr>
      in freerange (ld_end s) PHYSTOP s)"

section \<open>Runs on a free lock\<close>

text \<open>A hart on which no spin lock blocks: the precondition of the allocator's users.\<close>

definition kready :: "'a mstate_scheme \<Rightarrow> bool" where
  "kready s \<longleftrightarrow> quiet s \<and> free_lock (kmem_lock s)"

lemma kready_mem [simp]: "kready (s\<lparr>mem := m\<rparr>) = kready s" "kready (s\<lparr>freelist := f\<rparr>) = kready s"
  by (simp_all add: kready_def quiet_def mycpu_def cpuid_def)

definition valid_page :: "'a mstate_scheme \<Rightarrow> uint64 \<Rightarrow> bool" where
  "valid_page s pa \<longleftrightarrow> aligned 12 pa \<and> ld_end s \<le> pa \<and> pa < PHYSTOP"

lemma valid_page_state [simp]:
  "valid_page (s\<lparr>mem := m\<rparr>) = valid_page s" "valid_page (s\<lparr>freelist := f\<rparr>) = valid_page s"
  by (simp_all add: valid_page_def fun_eq_iff)

lemma kmem_enter_swap:
  "kmem.enter (s\<lparr>mem := m\<rparr>) = (kmem.enter s)\<lparr>mem := m\<rparr>"
  "kmem.enter (s\<lparr>freelist := f\<rparr>) = (kmem.enter s)\<lparr>freelist := f\<rparr>"
  "mem (kmem.enter s) = mem s" "freelist (kmem.enter s) = freelist s"
  by (simp_all add: kmem.enter_def push_off_eq)

lemma kmem_leave: "kready s \<Longrightarrow> release kmem_lock kmem_lock_update (kmem.enter s) = ret () s"
  by (simp add: kready_def kmem.release_enter)

definition kfree_mem :: "uint64 \<Rightarrow> uint64 \<Rightarrow> mem \<Rightarrow> mem" where
  "kfree_mem pa f m = st64 (memset m pa 1 4096) pa f"

lemma kfree_eq:
  assumes "kready s"
  shows "kfree pa s =
    (if valid_page s pa then ret () (s\<lparr>mem := kfree_mem pa (freelist s) (mem s), freelist := pa\<rparr>)
     else panic ''kfree'' s)"
proof -
  let ?s = "s\<lparr>mem := memset (mem s) pa 1 4096\<rparr>"
  let ?t = "s\<lparr>mem := kfree_mem pa (freelist s) (mem s), freelist := pa\<rparr>"
  have "acquire kmem_lock kmem_lock_update ?s = ret () (kmem.enter ?s)"
    using assms by (intro kmem.acquire_free) (simp add: kready_def free_lock_def)
  moreover have "release kmem_lock kmem_lock_update (kmem.enter ?t) = ret () ?t"
    using assms by (intro kmem_leave) simp
  ultimately show ?thesis
    by (auto simp: kfree_def valid_page_def aligned_mod PGSIZE_def Let_def kmem_enter_swap kfree_mem_def)
qed

lemma kalloc_eq:
  assumes "kready s"
  shows "kalloc s = ret (freelist s)
    (if freelist s = 0 then s
     else s\<lparr>freelist := ld64 (mem s) (freelist s), mem := memset (mem s) (freelist s) 5 4096\<rparr>)"
proof -
  let ?t = "s\<lparr>freelist := ld64 (mem s) (freelist s)\<rparr>"
  have "acquire kmem_lock kmem_lock_update s = ret () (kmem.enter s)"
    using assms by (intro kmem.acquire_free) (simp add: kready_def free_lock_def)
  moreover have "release kmem_lock kmem_lock_update (kmem.enter ?t) = ret () ?t"
    "release kmem_lock kmem_lock_update (kmem.enter s) = ret () s"
    using assms by (simp_all add: kmem_leave)
  ultimately show ?thesis
    by (auto simp: kalloc_def Let_def kmem_enter_swap PGSIZE_def)
qed

section \<open>The free list\<close>

fun flist :: "mem \<Rightarrow> uint64 \<Rightarrow> uint64 list \<Rightarrow> bool" where
  "flist m a [] \<longleftrightarrow> a = 0"
| "flist m a (p # ps) \<longleftrightarrow> a = p \<and> p \<noteq> 0 \<and> flist m (ld64 m p) ps"

definition kmem_inv :: "'a mstate_scheme \<Rightarrow> uint64 list \<Rightarrow> bool" where
  "kmem_inv s ps \<longleftrightarrow> flist (mem s) (freelist s) ps \<and> distinct ps \<and> (\<forall>p \<in> set ps. valid_page s p) \<and> 0 < ld_end s"

definition in_page :: "uint64 \<Rightarrow> uint64 \<Rightarrow> bool" where
  "in_page p x \<longleftrightarrow> unat (x - p) < 4096"

text \<open>\<open>same_off p m m'\<close>: the two memories agree outside page \<open>p\<close>.\<close>

definition same_off :: "uint64 \<Rightarrow> mem \<Rightarrow> mem \<Rightarrow> bool" where
  "same_off p m m' \<longleftrightarrow> (\<forall>x. \<not> in_page p x \<longrightarrow> m x = m' x)"

lemma pages_disjoint: "aligned 12 p \<Longrightarrow> aligned 12 q \<Longrightarrow> p \<noteq> q \<Longrightarrow> i < 4096 \<Longrightarrow> \<not> in_page q (p + of_nat i)"
  using unat_offset_aligned [of 12 p q i] by (simp add: in_page_def)

lemma same_off_memset [simp]: "same_off p m (memset m p c 4096)"
  by (simp add: same_off_def memset_apply in_page_def)

lemma same_off_kfree_mem [simp]: "same_off p m (kfree_mem p f m)"
  by (simp add: same_off_def kfree_mem_def memset_apply in_page_def st64_def st_bytes_apply)

lemma same_off_ld64:
  assumes "same_off q m m'" "aligned 12 p" "aligned 12 q" "p \<noteq> q" "i + 8 \<le> 4096"
  shows "ld64 m' (p + of_nat i) = ld64 m (p + of_nat i)"
proof -
  have "ld_bytes m' (p + of_nat i) 8 = ld_bytes m (p + of_nat i) 8"
  proof (rule ld_bytes_cong)
    fix j :: nat assume "j < 8"
    with assms have "\<not> in_page q (p + of_nat (i + j))" by (intro pages_disjoint) auto
    with assms(1) show "m' (p + of_nat i + of_nat j) = m (p + of_nat i + of_nat j)"
      by (simp add: same_off_def add.assoc)
  qed
  then show ?thesis by (simp add: ld64_def)
qed

lemma flist_same_off:
  "same_off q m m' \<Longrightarrow> aligned 12 q \<Longrightarrow> q \<notin> set ps \<Longrightarrow> \<forall>p \<in> set ps. aligned 12 p \<Longrightarrow>
   flist m' a ps = flist m a ps"
proof (induction ps arbitrary: a)
  case (Cons p ps)
  then have "ld64 m' p = ld64 m p" using same_off_ld64 [of q m m' p 0] by auto
  with Cons show ?case by auto
qed simp

lemma valid_page_nz: "valid_page s p \<Longrightarrow> 0 < ld_end s \<Longrightarrow> p \<noteq> 0"
  by (auto simp: valid_page_def)

lemma kmem_inv_free:
  assumes "kmem_inv s ps" "valid_page s pa" "pa \<notin> set ps"
  shows "kmem_inv (s\<lparr>mem := kfree_mem pa (freelist s) (mem s), freelist := pa\<rparr>) (pa # ps)"
proof -
  let ?m = "kfree_mem pa (freelist s) (mem s)"
  have "flist ?m (freelist s) ps"
    using assms flist_same_off [of pa "mem s" ?m ps "freelist s"]
    by (simp add: kmem_inv_def valid_page_def)
  moreover have "ld64 ?m pa = freelist s" by (simp add: kfree_mem_def ld64_st64_same)
  ultimately show ?thesis using assms valid_page_nz [of s pa] by (simp add: kmem_inv_def valid_page_def)
qed

lemma kmem_inv_alloc:
  assumes "kmem_inv s (p # ps)"
  shows "kmem_inv (s\<lparr>freelist := ld64 (mem s) (freelist s), mem := memset (mem s) (freelist s) 5 4096\<rparr>) ps"
  using assms flist_same_off [of p "mem s" "memset (mem s) p 5 4096" ps]
  by (auto simp: kmem_inv_def valid_page_def)

section \<open>The allocator as a set of free pages\<close>

text \<open>
  \<open>kpages s F\<close>: the allocator can run, and \<open>F\<close> is its set of free pages. This is the view its users
  need: \<^verbatim>\<open>kalloc\<close> hands out a page of \<open>F\<close> and touches no other page, \<^verbatim>\<open>kfree\<close> takes one back.
\<close>

definition kpages :: "'a mstate_scheme \<Rightarrow> uint64 set \<Rightarrow> bool" where
  "kpages s F \<longleftrightarrow> kready s \<and> (\<exists>ps. kmem_inv s ps \<and> F = set ps)"

locale page_allocator =
  fixes free_pages :: "'s \<Rightarrow> uint64 set \<Rightarrow> bool"
    and get_mem :: "'s \<Rightarrow> mem"
    and alloc :: "'s \<Rightarrow> ('s, uint64) out"
    and dealloc :: "uint64 \<Rightarrow> 's \<Rightarrow> ('s, unit) out"
    and ok :: "'s \<Rightarrow> uint64 \<Rightarrow> bool"
  assumes alloc_none: "free_pages s {} \<Longrightarrow> alloc s = ret 0 s"
    and alloc_some: "free_pages s F \<Longrightarrow> F \<noteq> {} \<Longrightarrow>
      wp (\<lambda>p t. p \<in> F \<and> p \<noteq> 0 \<and> free_pages t (F - {p}) \<and> same_off p (get_mem s) (get_mem t) \<and> ok t = ok s) (alloc s)"
    and dealloc_ok: "free_pages s F \<Longrightarrow> ok s p \<Longrightarrow> p \<notin> F \<Longrightarrow>
      wp (\<lambda>_ t. free_pages t (insert p F) \<and> same_off p (get_mem s) (get_mem t) \<and> ok t = ok s) (dealloc p s)"
    and free_ok: "free_pages s F \<Longrightarrow> p \<in> F \<Longrightarrow> ok s p"
begin

lemma alloc_cases:
  assumes "free_pages s F"
  shows "wp (\<lambda>p t. ok t = ok s \<and> (if p = 0 then F = {} \<and> t = s
      else p \<in> F \<and> free_pages t (F - {p}) \<and> same_off p (get_mem s) (get_mem t))) (alloc s)"
proof (cases "F = {}")
  case True
  with assms show ?thesis by (simp add: alloc_none)
next
  case False
  show ?thesis by (rule wp_mono [OF alloc_some [OF assms False]]) simp
qed

text \<open>A page that is handed out can be given back, which restores the free set.\<close>

lemma alloc_dealloc:
  assumes "free_pages s F" "F \<noteq> {}"
  shows "wp (\<lambda>_ t. free_pages t F) (bnd (alloc s) dealloc)"
proof -
  have "wp (\<lambda>p t. wp (\<lambda>_ t. free_pages t F) (dealloc p t)) (alloc s)"
  proof (rule wp_mono [OF alloc_some [OF assms]])
    fix p t
    assume *: "p \<in> F \<and> p \<noteq> 0 \<and> free_pages t (F - {p}) \<and> same_off p (get_mem s) (get_mem t) \<and> ok t = ok s"
    with free_ok [OF assms(1)] have "ok t p" by simp
    with * have "wp (\<lambda>_ t'. free_pages t' (insert p (F - {p})) \<and> same_off p (get_mem t) (get_mem t') \<and> ok t' = ok t)
        (dealloc p t)"
      by (intro dealloc_ok) auto
    then show "wp (\<lambda>_ t. free_pages t F) (dealloc p t)"
      by (rule wp_mono) (use * in \<open>simp add: insert_absorb\<close>)
  qed
  then show ?thesis by simp
qed

end

interpretation pages: page_allocator kpages mem kalloc kfree valid_page
proof unfold_locales
  fix s :: "'a mstate_scheme" and F p
  show "kpages s {} \<Longrightarrow> kalloc s = ret 0 s"
    by (auto simp: kpages_def kmem_inv_def kalloc_eq)
  show "kpages s F \<Longrightarrow> p \<in> F \<Longrightarrow> valid_page s p"
    by (auto simp: kpages_def kmem_inv_def)
  show "wp (\<lambda>p t. p \<in> F \<and> p \<noteq> 0 \<and> kpages t (F - {p}) \<and> same_off p (mem s) (mem t) \<and> valid_page t = valid_page s)
      (kalloc s)" if F: "kpages s F" "F \<noteq> {}"
  proof -
    from F obtain p ps where inv: "kready s" "kmem_inv s (p # ps)" "F = set (p # ps)"
      unfolding kpages_def by (metis list.set(1) neq_Nil_conv)
    then have "freelist s = p" "p \<noteq> 0" "F - {p} = set ps" "distinct (p # ps)"
      by (auto simp: kmem_inv_def)
    with inv(1,3) kmem_inv_alloc [OF inv(2)] show ?thesis by (simp add: kalloc_eq kpages_def) blast
  qed
  show "wp (\<lambda>_ t. kpages t (insert p F) \<and> same_off p (mem s) (mem t) \<and> valid_page t = valid_page s) (kfree p s)"
    if F: "kpages s F" "valid_page s p" "p \<notin> F"
  proof -
    from F obtain ps where inv: "kready s" "kmem_inv s ps" "F = set ps" by (auto simp: kpages_def)
    with F(2,3) kmem_inv_free [OF inv(2), of p] show ?thesis
      by (simp add: kfree_eq kpages_def) (metis list.set(2))
  qed
qed


text \<open>Nothing but the memory and the free list changes.\<close>

definition mem_only :: "'a mstate_scheme \<Rightarrow> 'a mstate_scheme \<Rightarrow> bool" where
  "mem_only s t \<longleftrightarrow> t = s\<lparr>mem := mem t, freelist := freelist t\<rparr>"

lemma mem_only_simps [simp]: "mem_only s s" "mem_only s (s\<lparr>mem := m\<rparr>)" "mem_only s (s\<lparr>mem := m, freelist := f\<rparr>)"
    "mem_only s (s\<lparr>freelist := f, mem := m\<rparr>)"
  by (simp_all add: mem_only_def)

lemma mem_only_trans: "mem_only s t \<Longrightarrow> mem_only t r \<Longrightarrow> mem_only s r"
  unfolding mem_only_def by (metis (no_types, lifting) mstate.select_convs mstate.surjective mstate.update_convs(1,3))

lemma mem_only_valid_page: "mem_only s t \<Longrightarrow> valid_page t = valid_page s"
  unfolding mem_only_def by (metis valid_page_state)

lemma kpages_valid: "kpages s F \<Longrightarrow> p \<in> F \<Longrightarrow> valid_page s p"
  by (rule pages.free_ok)

text \<open>Memory writes outside the free pages leave the allocator alone.\<close>

lemma kpages_write:
  assumes "kpages s F" "\<forall>p \<in> F. \<forall>x. in_page p x \<longrightarrow> m x = mem s x"
  shows "kpages (s\<lparr>mem := m\<rparr>) F"
proof -
  from assms(1) obtain ps where ps: "kmem_inv s ps" "F = set ps" "kready s" by (auto simp: kpages_def)
  have "flist m a qs = flist (mem s) a qs" if "set qs \<subseteq> F" for a qs
    using that
  proof (induction qs arbitrary: a)
    case (Cons q qs)
    have "ld_bytes m q 8 = ld_bytes (mem s) q 8"
      using Cons.prems assms(2) by (intro ld_bytes_cong) (auto simp: in_page_def unat_of_nat)
    with Cons show ?case by (simp add: ld64_def)
  qed simp
  with ps show ?thesis by (auto simp: kpages_def kmem_inv_def)
qed

lemma kalloc_wp:
  assumes "kpages s F"
  shows "wp (\<lambda>p t. mem_only s t \<and> (if p = 0 then F = {} \<and> t = s
      else p \<in> F \<and> kpages t (F - {p}) \<and> same_off p (mem s) (mem t))) (kalloc s)"
  using pages.alloc_cases [OF assms] kalloc_eq [of s] assms by (auto simp: kpages_def)

lemma kfree_wp:
  assumes "kpages s F" "valid_page s p" "p \<notin> F"
  shows "wp (\<lambda>_ t. mem_only s t \<and> kpages t (insert p F) \<and> same_off p (mem s) (mem t)) (kfree p s)"
  using pages.dealloc_ok [OF assms] kfree_eq [of s p] assms by (auto simp: kpages_def)

section \<open>Properties\<close>

text \<open>
  C12. \<^verbatim>\<open>kalloc\<close> refines taking a page out of the set of free pages: it returns 0 and changes nothing
  exactly when the set is empty, and otherwise a page of the set, filled with the byte 5, with every
  other page untouched.
\<close>

theorem kalloc_refines:
  assumes "kpages s F"
  shows "\<exists>p t. kalloc s = ret p t \<and>
    (if p = 0 then F = {} \<and> t = s
     else p \<in> F \<and> kpages t (F - {p}) \<and> (\<forall>x. mem t x = (if in_page p x then 5 else mem s x)))"
proof -
  from assms have k: "kalloc s = ret (freelist s)
    (if freelist s = 0 then s
     else s\<lparr>freelist := ld64 (mem s) (freelist s), mem := memset (mem s) (freelist s) 5 4096\<rparr>)"
    by (intro kalloc_eq) (simp add: kpages_def)
  with pages.alloc_cases [OF assms] show ?thesis
    by (auto simp: memset_apply in_page_def)
qed

text \<open>
  C13. \<^verbatim>\<open>kfree\<close> of an address that is not a page of the managed range panics; \<^verbatim>\<open>kfree\<close> of such a page
  that is not free puts it back into the set of free pages and touches no other page.
\<close>

theorem kfree_refines:
  assumes "kpages s F"
  shows "(\<not> valid_page s pa \<longrightarrow> kfree pa s = panic ''kfree'' s) \<and>
    (valid_page s pa \<and> pa \<notin> F \<longrightarrow>
      (\<exists>t. kfree pa s = ret () t \<and> kpages t (insert pa F) \<and> (\<forall>x. \<not> in_page pa x \<longrightarrow> mem t x = mem s x)))"
proof (intro conjI impI)
  show "\<not> valid_page s pa \<Longrightarrow> kfree pa s = panic ''kfree'' s"
    using assms by (simp add: kpages_def kfree_eq)
  assume "valid_page s pa \<and> pa \<notin> F"
  with pages.dealloc_ok [OF assms] show "\<exists>t. kfree pa s = ret () t \<and> kpages t (insert pa F) \<and>
      (\<forall>x. \<not> in_page pa x \<longrightarrow> mem t x = mem s x)"
    by (fastforce simp: wp_iff same_off_def)
qed

lemma freerange_loop_PHYSTOP:
  assumes "unat PHYSTOP - unat p = 4096 * n" "aligned 12 p" "p \<le> PHYSTOP" "ld_end s \<le> p"
    "kready s" "kmem_inv s ps" "\<forall>q \<in> set ps. q < p"
  shows "\<exists>t qs. freerange_loop p PHYSTOP s = Some (ret () t) \<and> kready t \<and> kmem_inv t qs \<and> ld_end t = ld_end s \<and>
    set qs = set ps \<union> {q. aligned 12 q \<and> p \<le> q \<and> q < PHYSTOP}"
  using assms
proof (induction n arbitrary: p s ps)
  case 0
  then have "p = PHYSTOP" by (simp add: word_le_nat_alt word_unat_eq_iff)
  then have "freerange_loop p PHYSTOP s = Some (ret () s)"
    by (subst freerange_loop.simps) (simp add: PHYSTOP_def KERNBASE_def PGSIZE_def)
  with 0 \<open>p = PHYSTOP\<close> show ?case by auto
next
  case (Suc n)
  have ph: "unat PHYSTOP = 4096 * 557056" by (simp add: PHYSTOP_def KERNBASE_def)
  have lt: "p < PHYSTOP" and p4: "unat (p + PGSIZE) = unat p + 4096"
    using Suc.prems(1) by (auto simp: word_less_nat_alt unat_word_ariths PGSIZE_def ph)
  let ?t = "s\<lparr>mem := kfree_mem p (freelist s) (mem s), freelist := p\<rparr>"
  have v: "valid_page s p" using Suc.prems lt by (simp add: valid_page_def)
  have "p \<notin> set ps" using Suc.prems(7) by auto
  then have inv: "kmem_inv ?t (p # ps)" using Suc.prems v by (intro kmem_inv_free) auto
  have al: "aligned 12 (p + PGSIZE)"
    using Suc.prems(2) by (simp add: aligned_unat p4)
  have "p + PGSIZE \<le> PHYSTOP"
    using Suc.prems(1,3) by (simp add: word_le_nat_alt p4 ph)
  then have "freerange_loop p PHYSTOP s = freerange_loop (p + PGSIZE) PHYSTOP ?t"
    using Suc.prems(5) v by (subst freerange_loop.simps) (simp add: kfree_eq ret_def)
  moreover have "\<exists>t qs. freerange_loop (p + PGSIZE) PHYSTOP ?t = Some (ret () t) \<and> kready t \<and> kmem_inv t qs \<and>
      ld_end t = ld_end ?t \<and> set qs = set (p # ps) \<union> {q. aligned 12 q \<and> p + PGSIZE \<le> q \<and> q < PHYSTOP}"
    using Suc.prems inv al \<open>p + PGSIZE \<le> PHYSTOP\<close>
    by (intro Suc.IH) (auto simp: p4 word_le_nat_alt word_less_nat_alt)
  moreover have "aligned 12 q \<and> p \<le> q \<longleftrightarrow> q = p \<or> aligned 12 q \<and> p + PGSIZE \<le> q" for q
  proof -
    have "a < b \<Longrightarrow> 4096 dvd a \<Longrightarrow> 4096 dvd b \<Longrightarrow> a + 4096 \<le> b" for a b :: nat
      by (auto elim!: dvdE)
    with Suc.prems(2) show ?thesis
      by (auto simp: word_le_nat_alt p4 aligned_unat word_unat_eq_iff le_less)
  qed
  then have "{q. aligned 12 q \<and> p \<le> q \<and> q < PHYSTOP} =
      insert p {q. aligned 12 q \<and> p + PGSIZE \<le> q \<and> q < PHYSTOP}"
    using lt by auto
  ultimately show ?case by auto
qed

text \<open>
  C14. \<^verbatim>\<open>kinit\<close> terminates, and afterwards the free pages are exactly the pages between the end of the
  kernel image and \<^verbatim>\<open>PHYSTOP\<close>.
\<close>

theorem kinit_correct:
  assumes "quiet s" "freelist s = 0" "0 < ld_end s" "ld_end s \<le> PHYSTOP"
  shows "\<exists>t. kinit s = Some (ret () t) \<and>
    kpages t {pa. pa mod PGSIZE = 0 \<and> ld_end s \<le> pa \<and> pa < PHYSTOP}"
proof -
  let ?s = "s\<lparr>kmem_lock := initlock ''kmem'' (kmem_lock s)\<rparr>"
  let ?p = "PGROUNDUP (ld_end s)"
  have ph: "unat PHYSTOP = 4096 * 557056" by (simp add: PHYSTOP_def KERNBASE_def)
  have up: "ld_end s \<le> ?p" "?p \<le> PHYSTOP" "\<And>q. aligned 12 q \<Longrightarrow> ld_end s \<le> q \<Longrightarrow> ?p \<le> q"
    using PGROUNDUP_bounds [of "ld_end s" PHYSTOP] assms(4) [unfolded word_le_nat_alt]
    by (auto simp: ph aligned_unat)
  have "4096 dvd unat ?p" using aligned_PGROUNDUP [of "ld_end s"] by (simp add: aligned_unat)
  then have "4096 dvd unat PHYSTOP - unat ?p" by (intro dvd_diff_nat) (simp_all add: ph)
  then obtain n where n: "unat PHYSTOP - unat ?p = 4096 * n" ..
  have "\<exists>t qs. freerange_loop ?p PHYSTOP ?s = Some (ret () t) \<and> kready t \<and> kmem_inv t qs \<and> ld_end t = ld_end ?s \<and>
      set qs = set [] \<union> {q. aligned 12 q \<and> ?p \<le> q \<and> q < PHYSTOP}"
    using assms up(1,2) n by (intro freerange_loop_PHYSTOP)
      (auto simp: kmem_inv_def kready_def quiet_def mycpu_def cpuid_def free_lock_def initlock_def)
  moreover have "{q. aligned 12 q \<and> ?p \<le> q \<and> q < PHYSTOP} = {pa. pa mod PGSIZE = 0 \<and> ld_end s \<le> pa \<and> pa < PHYSTOP}"
  proof (rule Collect_cong)
    fix q
    show "(aligned 12 q \<and> ?p \<le> q \<and> q < PHYSTOP) = (q mod PGSIZE = 0 \<and> ld_end s \<le> q \<and> q < PHYSTOP)"
      using up(1) up(3) [of q] aligned_mod [of q] order_trans [of "ld_end s" ?p q] by argo
  qed
  ultimately show ?thesis
    by (simp only: kinit_def freerange_def kpages_def Let_def) (simp, metis)
qed


text \<open>A memory of zeros with one free page, for concrete runs.\<close>

definition mstate0 :: mstate where
  "mstate0 = pstate.extend pstate0 \<lparr>mem = (\<lambda>_. 0), kmem_lock = new_lock ''kmem'', freelist = 0x87FFF000,
     ld_end = 0x80023000, ld_etext = 0x80008000, ld_trampoline = 0x80007000, kernel_pagetable = 0,
     satp = (\<lambda>_. 0)\<rparr>"

lemma ld64_zero [simp]: "ld64 (\<lambda>_. 0) a = 0"
  by (simp add: ld64_def ld_bytes_def map_replicate_const)

lemma mstate0_simps [simp]:
  "quiet mstate0" "kready mstate0" "mem mstate0 = (\<lambda>_. 0)" "ld_end mstate0 = 0x80023000"
  "freelist mstate0 = 0x87FFF000"
  by (simp_all add: mstate0_def pstate.defs pstate0_def kready_def quiet_def mycpu_def cpuid_def steady_def boot_cpu_def)

lemma kpages_mstate0: "kpages mstate0 {0x87FFF000}"
  by (auto simp: kpages_def kmem_inv_def valid_page_def aligned_mod PHYSTOP_def KERNBASE_def PGSIZE_def
      intro!: exI [of _ "[0x87FFF000]"])

theorem kalloc_refines_witness: "\<exists>t. kalloc mstate0 = ret 0x87FFF000 t \<and> kpages t {}"
  using kalloc_refines [OF kpages_mstate0] by (auto split: if_splits)

theorem kfree_refines_witness:
  "kfree 0x80023004 mstate0 = panic ''kfree'' mstate0 \<and>
   (\<exists>t. kfree 0x80024000 mstate0 = ret () t \<and> kpages t {0x80024000, 0x87FFF000})"
proof -
  have "\<not> valid_page mstate0 0x80023004" "valid_page mstate0 0x80024000"
    by (simp_all add: valid_page_def aligned_mod PHYSTOP_def KERNBASE_def PGSIZE_def)
  then show ?thesis
    using kfree_refines [OF kpages_mstate0, where pa = "0x80023004"]
      kfree_refines [OF kpages_mstate0, where pa = "0x80024000"] by simp blast
qed

theorem kinit_correct_witness:
  "\<exists>t. kinit (mstate0\<lparr>freelist := 0\<rparr>) = Some (ret () t) \<and> kpages t {pa. pa mod PGSIZE = 0 \<and> 0x80023000 \<le> pa \<and> pa < PHYSTOP}"
  using kinit_correct [of "mstate0\<lparr>freelist := 0\<rparr>"] mstate0_simps(1)
  by (simp add: quiet_def mycpu_def cpuid_def PHYSTOP_def KERNBASE_def)

end
