(* ===== verification/Vm.thy ===== *)
theory Vm
  imports Kalloc
begin

text \<open>
  \<^verbatim>\<open>kernel/vm.c\<close>: Sv39 page tables, stored in the byte memory as the hardware reads them, and the
  routines that map, unmap and copy user memory. Kernel buffers that \<^verbatim>\<open>copyout\<close>, \<^verbatim>\<open>copyin\<close> and
  \<^verbatim>\<open>copyinstr\<close> read or fill are byte lists. \<^verbatim>\<open>kalloc\<close> results that the source uses unchecked stop with
  \<open>Fault\<close> when they are null. \<^verbatim>\<open>proc_mapstacks\<close> of \<^verbatim>\<open>kernel/proc.c\<close> is here because \<^verbatim>\<open>kvmmake\<close>
  calls it.
\<close>

section \<open>Walking a page table\<close>

fun walk_level :: "nat \<Rightarrow> uint64 \<Rightarrow> uint64 \<Rightarrow> bool \<Rightarrow> 'a mstate_scheme \<Rightarrow> ('a mstate_scheme, uint64) out" where
  "walk_level 0 pagetable va alloc s = ret (pagetable + 8 * PX 0 va) s"
| "walk_level (Suc level) pagetable va alloc s =
     (let pte = pagetable + 8 * PX (Suc level) va
      in if ld64 (mem s) pte AND PTE_V \<noteq> 0
         then walk_level level (PTE2PA (ld64 (mem s) pte)) va alloc s
         else if \<not> alloc then ret 0 s
         else bnd (kalloc s) (\<lambda>pagetable s.
                if pagetable = 0 then ret 0 s
                else let s = s\<lparr>mem := memset (mem s) pagetable 0 (ucast PGSIZE)\<rparr>;
                         s = s\<lparr>mem := st64 (mem s) pte (PA2PTE pagetable OR PTE_V)\<rparr>
                     in walk_level level pagetable va alloc s))"

definition walk :: "uint64 \<Rightarrow> uint64 \<Rightarrow> bool \<Rightarrow> 'a mstate_scheme \<Rightarrow> ('a mstate_scheme, uint64) out" where
  "walk pagetable va alloc s =
     (if va \<ge> MAXVA then panic ''walk'' s else walk_level 2 pagetable va alloc s)"

definition walkaddr :: "uint64 \<Rightarrow> uint64 \<Rightarrow> 'a mstate_scheme \<Rightarrow> ('a mstate_scheme, uint64) out" where
  "walkaddr pagetable va s =
     (if va \<ge> MAXVA then ret 0 s
      else bnd (walk pagetable va False s) (\<lambda>pte s.
        if pte = 0 then ret 0 s
        else if ld64 (mem s) pte AND PTE_V = 0 then ret 0 s
        else if ld64 (mem s) pte AND PTE_U = 0 then ret 0 s
        else ret (PTE2PA (ld64 (mem s) pte)) s))"

section \<open>Mapping\<close>

lemma walk_returns: "walk pt va b s = Inr r \<Longrightarrow> va < MAXVA"
  by (auto simp: walk_def split: if_splits)

lemma below_MAXVA_step: "a < MAXVA \<Longrightarrow> unat MAXVA - unat (a + PGSIZE) < unat MAXVA - unat a"
proof -
  assume a: "a < MAXVA"
  then have "unat a < 2 ^ 38" by (simp add: word_less_nat_alt MAXVA_def)
  then have "unat (a + PGSIZE) = unat a + 4096" by (simp add: PGSIZE_def unat_word_ariths)
  with a show ?thesis by (simp add: word_less_nat_alt)
qed

function mappages_loop ::
  "uint64 \<Rightarrow> uint64 \<Rightarrow> uint64 \<Rightarrow> uint64 \<Rightarrow> uint64 \<Rightarrow> 'a mstate_scheme \<Rightarrow> ('a mstate_scheme, int) out" where
  "mappages_loop pagetable a a_last pa perm s =
     bnd (walk pagetable a True s) (\<lambda>pte s.
       if pte = 0 then ret (-1) s
       else if ld64 (mem s) pte AND PTE_V \<noteq> 0 then panic ''mappages: remap'' s
       else let s = s\<lparr>mem := st64 (mem s) pte (PA2PTE pa OR perm OR PTE_V)\<rparr>
            in if a = a_last then ret 0 s
               else mappages_loop pagetable (a + PGSIZE) a_last (pa + PGSIZE) perm s)"
  by pat_completeness auto

termination
  by (relation "measure (\<lambda>(_, a, _). unat MAXVA - unat a)") (auto simp: below_MAXVA_step dest!: walk_returns)

definition mappages ::
  "uint64 \<Rightarrow> uint64 \<Rightarrow> uint64 \<Rightarrow> uint64 \<Rightarrow> uint64 \<Rightarrow> 'a mstate_scheme \<Rightarrow> ('a mstate_scheme, int) out" where
  "mappages pagetable va sz pa perm s =
     (if sz = 0 then panic ''mappages: size'' s
      else mappages_loop pagetable (PGROUNDDOWN va) (PGROUNDDOWN (va + sz - 1)) pa perm s)"

definition kvmmap ::
  "uint64 \<Rightarrow> uint64 \<Rightarrow> uint64 \<Rightarrow> uint64 \<Rightarrow> uint64 \<Rightarrow> 'a mstate_scheme \<Rightarrow> ('a mstate_scheme, unit) out" where
  "kvmmap kpgtbl va pa sz perm s =
     bnd (mappages kpgtbl va sz pa perm s) (\<lambda>r s. if r \<noteq> 0 then panic ''kvmmap'' s else ret () s)"

fun proc_mapstacks_loop :: "uint64 \<Rightarrow> nat list \<Rightarrow> 'a mstate_scheme \<Rightarrow> ('a mstate_scheme, unit) out" where
  "proc_mapstacks_loop kpgtbl [] s = ret () s"
| "proc_mapstacks_loop kpgtbl (p # ps) s =
     bnd (kalloc s) (\<lambda>pa s.
       if pa = 0 then panic ''kalloc'' s
       else bnd (kvmmap kpgtbl (KSTACK p) pa PGSIZE (PTE_R OR PTE_W) s) (\<lambda>_ s.
              proc_mapstacks_loop kpgtbl ps s))"

definition proc_mapstacks :: "uint64 \<Rightarrow> 'a mstate_scheme \<Rightarrow> ('a mstate_scheme, unit) out" where
  "proc_mapstacks kpgtbl s = proc_mapstacks_loop kpgtbl [0..<NPROC] s"

definition kvmmake :: "'a mstate_scheme \<Rightarrow> ('a mstate_scheme, uint64) out" where
  "kvmmake s =
     bnd (kalloc s) (\<lambda>kpgtbl s.
       if kpgtbl = 0 then Inl (Fault, s)
       else let s = s\<lparr>mem := memset (mem s) kpgtbl 0 (ucast PGSIZE)\<rparr>
       in bnd (kvmmap kpgtbl UART0 UART0 PGSIZE (PTE_R OR PTE_W) s) (\<lambda>_ s.
          bnd (kvmmap kpgtbl VIRTIO0 VIRTIO0 PGSIZE (PTE_R OR PTE_W) s) (\<lambda>_ s.
          bnd (kvmmap kpgtbl PLIC PLIC 0x400000 (PTE_R OR PTE_W) s) (\<lambda>_ s.
          bnd (kvmmap kpgtbl KERNBASE KERNBASE (ld_etext s - KERNBASE) (PTE_R OR PTE_X) s) (\<lambda>_ s.
          bnd (kvmmap kpgtbl (ld_etext s) (ld_etext s) (PHYSTOP - ld_etext s) (PTE_R OR PTE_W) s) (\<lambda>_ s.
          bnd (kvmmap kpgtbl TRAMPOLINE (ld_trampoline s) PGSIZE (PTE_R OR PTE_X) s) (\<lambda>_ s.
          bnd (proc_mapstacks kpgtbl s) (\<lambda>_ s.
          ret kpgtbl s))))))))"

definition kvminit :: "'a mstate_scheme \<Rightarrow> ('a mstate_scheme, unit) out" where
  "kvminit s = bnd (kvmmake s) (\<lambda>kpgtbl s. ret () (s\<lparr>kernel_pagetable := kpgtbl\<rparr>))"

definition kvminithart :: "'a mstate_scheme \<Rightarrow> 'a mstate_scheme" where
  "kvminithart s = s\<lparr>satp := (satp s)(tp s := MAKE_SATP (kernel_pagetable s))\<rparr>"

section \<open>Unmapping\<close>

function uvmunmap_loop ::
  "uint64 \<Rightarrow> uint64 \<Rightarrow> uint64 \<Rightarrow> bool \<Rightarrow> 'a mstate_scheme \<Rightarrow> ('a mstate_scheme, unit) out" where
  "uvmunmap_loop pagetable a stop do_free s =
     (if a < stop then
        bnd (walk pagetable a False s) (\<lambda>pte s.
          if pte = 0 then panic ''uvmunmap: walk'' s
          else if ld64 (mem s) pte AND PTE_V = 0 then panic ''uvmunmap: not mapped'' s
          else if PTE_FLAGS (ld64 (mem s) pte) = PTE_V then panic ''uvmunmap: not a leaf'' s
          else bnd (if do_free then kfree (PTE2PA (ld64 (mem s) pte)) s else ret () s) (\<lambda>_ s.
                 let s = s\<lparr>mem := st64 (mem s) pte 0\<rparr>
                 in uvmunmap_loop pagetable (a + PGSIZE) stop do_free s))
      else ret () s)"
  by pat_completeness auto

termination
  by (relation "measure (\<lambda>(_, a, _). unat MAXVA - unat a)") (auto simp: below_MAXVA_step dest!: walk_returns)

definition uvmunmap ::
  "uint64 \<Rightarrow> uint64 \<Rightarrow> uint64 \<Rightarrow> bool \<Rightarrow> 'a mstate_scheme \<Rightarrow> ('a mstate_scheme, unit) out" where
  "uvmunmap pagetable va npages do_free s =
     (if va mod PGSIZE \<noteq> 0 then panic ''uvmunmap: not aligned'' s
      else uvmunmap_loop pagetable va (va + npages * PGSIZE) do_free s)"

definition uvmdealloc :: "uint64 \<Rightarrow> uint64 \<Rightarrow> uint64 \<Rightarrow> 'a mstate_scheme \<Rightarrow> ('a mstate_scheme, uint64) out" where
  "uvmdealloc pagetable oldsz newsz s =
     (if newsz \<ge> oldsz then ret oldsz s
      else bnd (if PGROUNDUP newsz < PGROUNDUP oldsz
                then let npages = (PGROUNDUP oldsz - PGROUNDUP newsz) div PGSIZE
                     in uvmunmap pagetable (PGROUNDUP newsz) (scast (ucast npages :: uint)) True s
                else ret () s) (\<lambda>_ s. ret newsz s))"

section \<open>Creating and growing\<close>

definition uvmcreate :: "'a mstate_scheme \<Rightarrow> ('a mstate_scheme, uint64) out" where
  "uvmcreate s =
     bnd (kalloc s) (\<lambda>pagetable s.
       if pagetable = 0 then ret 0 s
       else ret pagetable (s\<lparr>mem := memset (mem s) pagetable 0 (ucast PGSIZE)\<rparr>))"

definition uvminit :: "uint64 \<Rightarrow> uchar list \<Rightarrow> 'a mstate_scheme \<Rightarrow> ('a mstate_scheme, unit) out" where
  "uvminit pagetable src s =
     (if of_nat (length src) \<ge> PGSIZE then panic ''inituvm: more than a page'' s
      else bnd (kalloc s) (\<lambda>p s.
        if p = 0 then Inl (Fault, s)
        else let s = s\<lparr>mem := memset (mem s) p 0 (ucast PGSIZE)\<rparr>
             in bnd (mappages pagetable 0 PGSIZE p (PTE_W OR PTE_R OR PTE_X OR PTE_U) s) (\<lambda>_ s.
                  ret () (s\<lparr>mem := st_bytes (mem s) p src\<rparr>))))"

lemma mappages_page_returns:
  assumes "mappages pt a PGSIZE pa perm s = Inr r"
  shows "PGROUNDDOWN a < MAXVA"
proof -
  from assms have "mappages_loop pt (PGROUNDDOWN a) (PGROUNDDOWN (a + PGSIZE - 1)) pa perm s = Inr r"
    by (simp add: mappages_def PGSIZE_def)
  then show ?thesis by (subst (asm) mappages_loop.simps) (auto simp: bnd_eq_Inr dest: walk_returns)
qed

lemma PGROUNDDOWN_below: "PGROUNDDOWN a < MAXVA \<Longrightarrow> a < MAXVA"
proof -
  assume "PGROUNDDOWN a < MAXVA"
  then have "unat a div 4096 < 2 ^ 26"
    by (simp add: word_less_nat_alt unat_PGROUNDDOWN MAXVA_def)
  then have "unat a < 2 ^ 38" by (simp add: div_less_iff_less_mult)
  then show ?thesis by (simp add: word_less_nat_alt MAXVA_def)
qed

function uvmalloc_loop ::
  "uint64 \<Rightarrow> uint64 \<Rightarrow> uint64 \<Rightarrow> uint64 \<Rightarrow> 'a mstate_scheme \<Rightarrow> ('a mstate_scheme, uint64) out" where
  "uvmalloc_loop pagetable oldsz a newsz s =
     (if a < newsz then
        bnd (kalloc s) (\<lambda>p s.
          if p = 0 then bnd (uvmdealloc pagetable a oldsz s) (\<lambda>_ s. ret 0 s)
          else let s = s\<lparr>mem := memset (mem s) p 0 (ucast PGSIZE)\<rparr>
               in bnd (mappages pagetable a PGSIZE p (PTE_W OR PTE_X OR PTE_R OR PTE_U) s) (\<lambda>r s.
                    if r \<noteq> 0 then bnd (kfree p s) (\<lambda>_ s. bnd (uvmdealloc pagetable a oldsz s) (\<lambda>_ s. ret 0 s))
                    else uvmalloc_loop pagetable oldsz (a + PGSIZE) newsz s))
      else ret newsz s)"
  by pat_completeness auto

termination
  by (relation "measure (\<lambda>(_, _, a, _). unat MAXVA - unat a)")
    (auto simp: below_MAXVA_step dest!: mappages_page_returns PGROUNDDOWN_below)

definition uvmalloc :: "uint64 \<Rightarrow> uint64 \<Rightarrow> uint64 \<Rightarrow> 'a mstate_scheme \<Rightarrow> ('a mstate_scheme, uint64) out" where
  "uvmalloc pagetable oldsz newsz s =
     (if newsz < oldsz then ret oldsz s
      else uvmalloc_loop pagetable (PGROUNDUP oldsz) (PGROUNDUP oldsz) newsz s)"

section \<open>Freeing\<close>

text \<open>
  \<^verbatim>\<open>freewalk\<close> recurses on whatever the entries point to, so it is partial. \<open>freewalk_from pt i\<close> is the
  loop from index \<open>i\<close> on.
\<close>

partial_function (option) freewalk_from ::
  "uint64 \<Rightarrow> nat \<Rightarrow> 'a mstate_scheme \<Rightarrow> ('a mstate_scheme, unit) out option" where
  "freewalk_from pagetable i s =
     (if i < 512 then
        let pte = ld64 (mem s) (pagetable + 8 * of_nat i)
        in if pte AND PTE_V \<noteq> 0 \<and> pte AND (PTE_R OR PTE_W OR PTE_X) = 0
           then Option.bind (freewalk_from (PTE2PA pte) 0 s) (\<lambda>r.
                  case r of Inl e \<Rightarrow> Some (Inl e)
                  | Inr (_, s) \<Rightarrow>
                      freewalk_from pagetable (Suc i) (s\<lparr>mem := st64 (mem s) (pagetable + 8 * of_nat i) 0\<rparr>))
           else if pte AND PTE_V \<noteq> 0 then Some (panic ''freewalk: leaf'' s)
           else freewalk_from pagetable (Suc i) s
      else Some (kfree pagetable s))"

definition freewalk :: "uint64 \<Rightarrow> 'a mstate_scheme \<Rightarrow> ('a mstate_scheme, unit) out option" where
  "freewalk pagetable s = freewalk_from pagetable 0 s"

definition uvmfree :: "uint64 \<Rightarrow> uint64 \<Rightarrow> 'a mstate_scheme \<Rightarrow> ('a mstate_scheme, unit) out option" where
  "uvmfree pagetable sz s =
     (case (if sz > 0 then uvmunmap pagetable 0 (PGROUNDUP sz div PGSIZE) True s else ret () s) of
        Inl e \<Rightarrow> Some (Inl e)
      | Inr (_, s) \<Rightarrow> freewalk pagetable s)"

section \<open>Copying\<close>

function uvmcopy_loop ::
  "uint64 \<Rightarrow> uint64 \<Rightarrow> uint64 \<Rightarrow> uint64 \<Rightarrow> 'a mstate_scheme \<Rightarrow> ('a mstate_scheme, int) out" where
  "uvmcopy_loop old new i sz s =
     (if i < sz then
        bnd (walk old i False s) (\<lambda>pte s.
          if pte = 0 then panic ''uvmcopy: pte should exist'' s
          else if ld64 (mem s) pte AND PTE_V = 0 then panic ''uvmcopy: page not present'' s
          else let pa = PTE2PA (ld64 (mem s) pte);
                   flags = PTE_FLAGS (ld64 (mem s) pte)
          in bnd (kalloc s) (\<lambda>p s.
               if p = 0 then bnd (uvmunmap new 0 (i div PGSIZE) True s) (\<lambda>_ s. ret (-1) s)
               else let s = s\<lparr>mem := memmove (mem s) p pa (ucast PGSIZE)\<rparr>
               in bnd (mappages new i PGSIZE p flags s) (\<lambda>r s.
                    if r \<noteq> 0
                    then bnd (kfree p s) (\<lambda>_ s. bnd (uvmunmap new 0 (i div PGSIZE) True s) (\<lambda>_ s. ret (-1) s))
                    else uvmcopy_loop old new (i + PGSIZE) sz s)))
      else ret 0 s)"
  by pat_completeness auto

termination
  by (relation "measure (\<lambda>(_, _, i, _). unat MAXVA - unat i)") (auto simp: below_MAXVA_step dest!: walk_returns)

definition uvmcopy :: "uint64 \<Rightarrow> uint64 \<Rightarrow> uint64 \<Rightarrow> 'a mstate_scheme \<Rightarrow> ('a mstate_scheme, int) out" where
  "uvmcopy old new sz s = uvmcopy_loop old new 0 sz s"

definition uvmclear :: "uint64 \<Rightarrow> uint64 \<Rightarrow> 'a mstate_scheme \<Rightarrow> ('a mstate_scheme, unit) out" where
  "uvmclear pagetable va s =
     bnd (walk pagetable va False s) (\<lambda>pte s.
       if pte = 0 then panic ''uvmclear'' s
       else ret () (s\<lparr>mem := st64 (mem s) pte (ld64 (mem s) pte AND NOT PTE_U)\<rparr>))"


lemma page_rest_pos: "0 < unat (PGSIZE - (va - PGROUNDDOWN va))" "unat (PGSIZE - (va - PGROUNDDOWN va)) \<le> 4096"
proof -
  have "unat (va mod PGSIZE) < 4096" by (simp add: unat_mod_distrib PGSIZE_def)
  moreover have "va - PGROUNDDOWN va = va mod PGSIZE" by (simp add: PGROUNDDOWN_mod)
  ultimately show "0 < unat (PGSIZE - (va - PGROUNDDOWN va))" "unat (PGSIZE - (va - PGROUNDDOWN va)) \<le> 4096"
    by (simp_all add: unat_sub word_le_nat_alt PGSIZE_def)
qed

text \<open>
  The bytes still to be copied are the argument \<open>src\<close>; \<^verbatim>\<open>len\<close> is its length. \<^verbatim>\<open>copyin\<close> returns the
  bytes it stored at \<^verbatim>\<open>dst\<close> along with its result, also when it fails half-way.
\<close>

function copyout :: "uint64 \<Rightarrow> uint64 \<Rightarrow> uchar list \<Rightarrow> 'a mstate_scheme \<Rightarrow> ('a mstate_scheme, int) out" where
  "copyout pagetable dstva src s =
     (if length src > 0 then
        let va0 = PGROUNDDOWN dstva
        in bnd (walkaddr pagetable va0 s) (\<lambda>pa0 s.
             if pa0 = 0 then ret (-1) s
             else let n = unat (PGSIZE - (dstva - va0));
                      n = (if n > length src then length src else n);
                      s = s\<lparr>mem := st_bytes (mem s) (pa0 + (dstva - va0)) (take n src)\<rparr>
                  in copyout pagetable (va0 + PGSIZE) (drop n src) s)
      else ret 0 s)"
  by pat_completeness auto

termination
  by (relation "measure (\<lambda>(_, _, src, _). length src)") (auto simp: page_rest_pos)

function copyin :: "uint64 \<Rightarrow> uint64 \<Rightarrow> nat \<Rightarrow> 'a mstate_scheme \<Rightarrow> ('a mstate_scheme, int \<times> uchar list) out" where
  "copyin pagetable srcva len s =
     (if len > 0 then
        let va0 = PGROUNDDOWN srcva
        in bnd (walkaddr pagetable va0 s) (\<lambda>pa0 s.
             if pa0 = 0 then ret (-1, []) s
             else let n = unat (PGSIZE - (srcva - va0));
                      n = (if n > len then len else n);
                      dst = ld_bytes (mem s) (pa0 + (srcva - va0)) n
                  in bnd (copyin pagetable (va0 + PGSIZE) (len - n) s) (\<lambda>(r, rest) s. ret (r, dst @ rest) s))
      else ret (0, []) s)"
  by pat_completeness auto

termination
  by (relation "measure (\<lambda>(_, _, len, _). len)") (auto simp: page_rest_pos)

text \<open>The inner loop of \<^verbatim>\<open>copyinstr\<close>: the bytes stored, and whether a terminator was met.\<close>

fun copyinstr_page :: "mem \<Rightarrow> uint64 \<Rightarrow> nat \<Rightarrow> bool \<times> uchar list" where
  "copyinstr_page m p 0 = (False, [])"
| "copyinstr_page m p (Suc n) =
     (if m p = 0 then (True, [0])
      else let (got_null, dst) = copyinstr_page m (p + 1) n in (got_null, m p # dst))"

function copyinstr_loop ::
  "uint64 \<Rightarrow> bool \<Rightarrow> uint64 \<Rightarrow> nat \<Rightarrow> 'a mstate_scheme \<Rightarrow> ('a mstate_scheme, int \<times> uchar list) out" where
  "copyinstr_loop pagetable got_null srcva mx s =
     (if \<not> got_null \<and> mx > 0 then
        let va0 = PGROUNDDOWN srcva
        in bnd (walkaddr pagetable va0 s) (\<lambda>pa0 s.
             if pa0 = 0 then ret (-1, []) s
             else let n = unat (PGSIZE - (srcva - va0));
                      n = (if n > mx then mx else n);
                      (got_null, dst) = copyinstr_page (mem s) (pa0 + (srcva - va0)) n
                  in bnd (copyinstr_loop pagetable got_null (va0 + PGSIZE) (mx - n) s) (\<lambda>(r, rest) s.
                       ret (r, dst @ rest) s))
      else ret (if got_null then 0 else -1, []) s)"
  by pat_completeness auto

termination
  by (relation "measure (\<lambda>(_, _, _, mx, _). mx)") (auto simp: page_rest_pos)

definition copyinstr :: "uint64 \<Rightarrow> uint64 \<Rightarrow> nat \<Rightarrow> 'a mstate_scheme \<Rightarrow> ('a mstate_scheme, int \<times> uchar list) out" where
  "copyinstr pagetable srcva mx s = copyinstr_loop pagetable False srcva mx s"


declare mappages_loop.simps [simp del] uvmunmap_loop.simps [simp del] uvmalloc_loop.simps [simp del]
  uvmcopy_loop.simps [simp del] copyout.simps [simp del] copyin.simps [simp del] copyinstr_loop.simps [simp del]

end
