(* ===== verification/PageTable.thy ===== *)
theory PageTable
  imports Vm
begin

text \<open>
  What a page table in memory means, and how the routines of \<^verbatim>\<open>kernel/vm.c\<close> change that meaning.
  \<open>lookup m pt va\<close> is the leaf entry that the hardware would find for \<open>va\<close>; \<open>pt_ok m l pt P\<close> says that
  \<open>pt\<close> is a table of level \<open>l\<close> whose table pages are exactly \<open>P\<close>, no page being shared by two
  entries.
\<close>

section \<open>Entries\<close>

lemma take_bit_10_bit: "take_bit 10 f = f \<Longrightarrow> bit f k \<Longrightarrow> k < 10" for f :: uint64
  by (metis bit_take_bit_iff)

lemma PTE2PA_OR: "take_bit 10 f = f \<Longrightarrow> PTE2PA (PA2PTE p OR f) = PTE2PA (PA2PTE p)"
  by (rule bit_word_eqI) (auto simp: PTE2PA_def bit_simps dest: take_bit_10_bit)

lemma PTE2PA_make: "aligned 12 p \<Longrightarrow> p < 2 ^ 54 \<Longrightarrow> take_bit 10 f = f \<Longrightarrow> PTE2PA (PA2PTE p OR f) = p"
  by (simp add: PTE2PA_OR PTE_PA_roundtrip)

lemma PTE_FLAGS_take_bit: "PTE_FLAGS e = take_bit 10 e"
  by (simp add: PTE_FLAGS_def take_bit_eq_mask mask_eq_exp_minus_1)

lemma PTE_FLAGS_make: "take_bit 10 f = f \<Longrightarrow> PTE_FLAGS (PA2PTE p OR f) = f"
  unfolding PTE_FLAGS_take_bit
  by (rule bit_word_eqI) (auto simp: PA2PTE_def bit_simps dest: take_bit_10_bit)

lemma AND_flags: "take_bit 10 k = k \<Longrightarrow> e AND k = PTE_FLAGS e AND k" for e :: uint64
  unfolding PTE_FLAGS_take_bit by (rule bit_word_eqI) (auto simp: bit_simps dest: take_bit_10_bit)

lemma PX_take_bit: "PX l va = take_bit 9 (drop_bit (PXSHIFT l) va)"
  by (simp add: PX_def PXMASK_def take_bit_eq_mask mask_eq_exp_minus_1)

lemma PX_less [simp]: "PX l va < 512"
  by (simp add: PX_take_bit take_bit_eq_mod word_less_nat_alt unat_mod_distrib)

lemma bit_PX: "bit (PX l va) k \<longleftrightarrow> k < 9 \<and> bit va (PXSHIFT l + k)"
  by (auto simp: PX_take_bit bit_simps)

lemma below_MAXVA_bit: "va < MAXVA \<Longrightarrow> bit va k \<Longrightarrow> k < 38"
proof -
  assume "va < MAXVA" "bit va k"
  then have "take_bit 38 va = va" by (intro take_bit_less) (simp add: MAXVA_def)
  with \<open>bit va k\<close> show ?thesis by (metis bit_take_bit_iff)
qed

text \<open>Two addresses have the same three indices exactly when they lie in the same page.\<close>

lemma PX_eq_iff:
  assumes "va < MAXVA" "vb < MAXVA"
  shows "(\<forall>l \<le> 2. PX l va = PX l vb) \<longleftrightarrow> PGROUNDDOWN va = PGROUNDDOWN vb"
proof
  assume eq: "\<forall>l \<le> 2. PX l va = PX l vb"
  show "PGROUNDDOWN va = PGROUNDDOWN vb"
  proof (rule bit_word_eqI)
    fix k :: nat
    have "bit va k = bit vb k" if k: "12 \<le> k" "k < 39"
    proof -
      let ?l = "(k - 12) div 9" and ?j = "(k - 12) mod 9"
      have "?l \<le> 2" using k by simp
      with eq have "bit (PX ?l va) ?j = bit (PX ?l vb) ?j" by simp
      moreover have "PXSHIFT ?l + ?j = k"
        using k by (simp add: PXSHIFT_def PGSHIFT_def)
      ultimately show ?thesis by (simp add: bit_PX)
    qed
    then show "bit (PGROUNDDOWN va) k = bit (PGROUNDDOWN vb) k"
      using below_MAXVA_bit [OF assms(1), of k] below_MAXVA_bit [OF assms(2), of k]
      by (fastforce simp: PGROUNDDOWN_bits)
  qed
next
  assume eq: "PGROUNDDOWN va = PGROUNDDOWN vb"
  have "bit va k = bit vb k" if "12 \<le> k" for k
    using arg_cong [OF eq, of "\<lambda>w. bit w k"] that by (simp add: PGROUNDDOWN_bits)
  then show "\<forall>l \<le> 2. PX l va = PX l vb"
    by (auto intro!: bit_word_eqI simp: bit_PX PXSHIFT_def PGSHIFT_def)
qed

section \<open>Tables in memory\<close>

fun pte_addr :: "mem \<Rightarrow> nat \<Rightarrow> uint64 \<Rightarrow> uint64 \<Rightarrow> uint64 option" where
  "pte_addr m 0 pt va = Some (pt + 8 * PX 0 va)"
| "pte_addr m (Suc l) pt va =
     (let e = ld64 m (pt + 8 * PX (Suc l) va)
      in if e AND PTE_V \<noteq> 0 then pte_addr m l (PTE2PA e) va else None)"

definition leaf :: "mem \<Rightarrow> nat \<Rightarrow> uint64 \<Rightarrow> uint64 \<Rightarrow> uint64 option" where
  "leaf m l pt va =
     (case pte_addr m l pt va of None \<Rightarrow> None
      | Some a \<Rightarrow> if ld64 m a AND PTE_V \<noteq> 0 then Some (ld64 m a) else None)"

definition lookup :: "mem \<Rightarrow> uint64 \<Rightarrow> uint64 \<Rightarrow> uint64 option" where
  "lookup m pt va = leaf m 2 pt va"

definition entries :: "mem \<Rightarrow> uint64 \<Rightarrow> uint64 set" where
  "entries m pt = {i. i < 512 \<and> ld64 m (pt + 8 * i) AND PTE_V \<noteq> 0}"

definition page :: "uint64 \<Rightarrow> bool" where
  "page p \<longleftrightarrow> aligned 12 p \<and> p \<noteq> 0 \<and> p < 2 ^ 54"

fun pt_ok :: "mem \<Rightarrow> nat \<Rightarrow> uint64 \<Rightarrow> uint64 set \<Rightarrow> bool" where
  "pt_ok m 0 pt P \<longleftrightarrow> page pt \<and> P = {pt}"
| "pt_ok m (Suc l) pt P \<longleftrightarrow> page pt \<and>
     (\<exists>C. P = insert pt (\<Union>i \<in> entries m pt. C i) \<and>
        (\<forall>i \<in> entries m pt. ld64 m (pt + 8 * i) AND (PTE_R OR PTE_W OR PTE_X) = 0 \<and>
           pt_ok m l (PTE2PA (ld64 m (pt + 8 * i))) (C i) \<and> pt \<notin> C i) \<and>
        (\<forall>i \<in> entries m pt. \<forall>j \<in> entries m pt. i \<noteq> j \<longrightarrow> C i \<inter> C j = {}))"

lemma pt_ok_pages: "pt_ok m l pt P \<Longrightarrow> p \<in> P \<Longrightarrow> page p"
  by (induction m l pt P arbitrary: p rule: pt_ok.induct) fastforce+

lemma pt_ok_root: "pt_ok m l pt P \<Longrightarrow> pt \<in> P"
  by (cases l) auto

subsection \<open>Memories that agree on pages\<close>

definition agree :: "uint64 set \<Rightarrow> mem \<Rightarrow> mem \<Rightarrow> bool" where
  "agree P m m' \<longleftrightarrow> (\<forall>p \<in> P. \<forall>x. in_page p x \<longrightarrow> m x = m' x)"

definition same_out :: "uint64 set \<Rightarrow> mem \<Rightarrow> mem \<Rightarrow> bool" where
  "same_out Q m m' \<longleftrightarrow> (\<forall>x. (\<forall>p \<in> Q. \<not> in_page p x) \<longrightarrow> m x = m' x)"

lemma agree_mono: "agree P m m' \<Longrightarrow> Q \<subseteq> P \<Longrightarrow> agree Q m m'"
  by (auto simp: agree_def)

lemma in_page_unique:
  assumes "aligned 12 p" "aligned 12 q" "in_page p x" "in_page q x"
  shows "p = q"
proof (rule aligned_offset_inj [OF assms(1,2)])
  show "unat (x - p) < 2 ^ 12" "unat (x - q) < 2 ^ 12" using assms(3,4) by (simp_all add: in_page_def)
  show "p + of_nat (unat (x - p)) = q + of_nat (unat (x - q))" by simp
qed

lemma same_out_agree:
  assumes "same_out Q m m'" "P \<inter> Q = {}" "\<forall>p \<in> P. aligned 12 p" "\<forall>q \<in> Q. aligned 12 q"
  shows "agree P m m'"
  using assms in_page_unique unfolding agree_def same_out_def by (metis disjoint_iff)

lemma same_out_refl [simp]: "same_out Q m m"
  by (simp add: same_out_def)

lemma same_out_trans: "same_out P m m' \<Longrightarrow> same_out Q m' m'' \<Longrightarrow> same_out (P \<union> Q) m m''"
  by (auto simp: same_out_def)

lemma same_out_mono: "same_out P m m' \<Longrightarrow> P \<subseteq> Q \<Longrightarrow> same_out Q m m'"
  by (auto simp: same_out_def)

lemma same_off_out: "same_off p m m' \<Longrightarrow> same_out {p} m m'"
  by (simp add: same_off_def same_out_def)


lemma entry_offset: "i < 512 \<Longrightarrow> 8 * i = of_nat (8 * unat i)" for i :: uint64
  by simp

lemma in_page_offset: "k < 4096 \<Longrightarrow> in_page p (p + of_nat k)"
  by (simp add: in_page_def unat_of_nat)

lemma agree_ld64:
  assumes "agree P m m'" "p \<in> P" "i < (512 :: uint64)"
  shows "ld64 m' (p + 8 * i) = ld64 m (p + 8 * i)"
proof -
  have i: "unat i < 512" using assms(3) by (simp add: word_less_nat_alt)
  have "ld_bytes m' (p + 8 * i) 8 = ld_bytes m (p + 8 * i) 8"
  proof (rule ld_bytes_cong)
    fix k :: nat assume "k < 8"
    with i have "in_page p (p + of_nat (8 * unat i + k))" by (intro in_page_offset) simp
    with assms(1,2) show "m' (p + 8 * i + of_nat k) = m (p + 8 * i + of_nat k)"
      by (simp add: agree_def algebra_simps)
  qed
  then show ?thesis by (simp add: ld64_def)
qed

lemma entry_aligned: "aligned 12 p \<Longrightarrow> aligned 3 (p + 8 * i)" for p i :: uint64
proof -
  assume "aligned 12 p"
  then have "4096 dvd unat p" by (simp add: aligned_unat)
  then have "8 dvd unat p" by (rule dvd_trans [rotated]) simp
  then have "8 dvd unat p + 8 * unat i" by simp
  moreover have "unat (p + 8 * i) = (unat p + 8 * unat i) mod 2 ^ 64"
    by (simp add: unat_word_ariths mod_add_right_eq)
  ultimately show ?thesis by (simp add: aligned_unat dvd_mod)
qed

lemma entry_inj:
  assumes "i < (512 :: uint64)" "j < 512" "p + 8 * i = p + 8 * j"
  shows "i = j"
proof -
  from assms(3) have "8 * i = 8 * j" by simp
  then have "unat (8 * i) = unat (8 * j)" by simp
  with assms(1,2) show ?thesis by (simp add: unat_word_ariths word_less_nat_alt word_unat_eq_iff)
qed

lemma entry_nonzero: "page p \<Longrightarrow> i < 512 \<Longrightarrow> p + 8 * i \<noteq> 0"
proof
  assume p: "page p" and i: "i < 512" and "p + 8 * i = 0"
  then have "p + of_nat (8 * unat i) = 0 + of_nat 0" by simp
  moreover have "8 * unat i < 2 ^ 12" using i by (simp add: word_less_nat_alt)
  ultimately have "p = 0"
    using p by (intro aligned_offset_inj [of 12 p 0 "8 * unat i" 0]) (simp_all add: page_def aligned_def)
  with p show False by (simp add: page_def)
qed

lemma same_out_st64: "i < 512 \<Longrightarrow> same_out {p} m (st64 m (p + 8 * i) v)"
  unfolding same_out_def
proof (intro allI impI)
  fix x assume i: "i < 512" and x: "\<forall>q \<in> {p}. \<not> in_page q x"
  have "8 \<le> unat (x - (p + 8 * i))"
  proof (rule ccontr)
    assume "\<not> ?thesis"
    then have k: "unat (x - (p + 8 * i)) < 8" by simp
    have "x = p + of_nat (8 * unat i + unat (x - (p + 8 * i)))" by simp
    moreover have "in_page p (p + of_nat (8 * unat i + unat (x - (p + 8 * i))))"
      using i k by (intro in_page_offset) (simp add: word_less_nat_alt)
    ultimately show False using x by simp
  qed
  then show "m x = st64 m (p + 8 * i) v x" by (simp add: st64_def st_bytes_outside)
qed

lemma ld64_st64_entry:
  assumes "aligned 12 p" "i < 512" "j < 512"
  shows "ld64 (st64 m (p + 8 * i) v) (p + 8 * j) = (if i = j then v else ld64 m (p + 8 * j))"
  using assms entry_inj [of i j p] ld64_st64_other [OF entry_aligned entry_aligned, of p p i j m v]
  by (auto simp: ld64_st64_same)


subsection \<open>Frame rules\<close>

lemma entries_agree: "agree P m m' \<Longrightarrow> pt \<in> P \<Longrightarrow> entries m' pt = entries m pt"
  by (auto simp: entries_def agree_ld64)

lemma pte_addr_in:
  "pt_ok m l pt P \<Longrightarrow> pte_addr m l pt va = Some a \<Longrightarrow> \<exists>p \<in> P. page p \<and> a = p + 8 * PX 0 va"
proof (induction m l pt P rule: pt_ok.induct)
  case (2 m l pt P)
  let ?i = "PX (Suc l) va"
  from 2(2) obtain C where C: "P = insert pt (\<Union>i \<in> entries m pt. C i)"
      "\<forall>i \<in> entries m pt. pt_ok m l (PTE2PA (ld64 m (pt + 8 * i))) (C i)" by auto
  from 2(3) have i: "?i \<in> entries m pt" and "pte_addr m l (PTE2PA (ld64 m (pt + 8 * ?i))) va = Some a"
    by (auto simp: entries_def Let_def split: if_splits)
  with 2(1) [OF i] C have "\<exists>p \<in> C ?i. page p \<and> a = p + 8 * PX 0 va" by blast
  with C i show ?case by auto
qed simp

lemma pt_ok_frame:
  "pt_ok m l pt P \<Longrightarrow> agree P m m' \<Longrightarrow> pt_ok m' l pt P \<and> (\<forall>va. pte_addr m' l pt va = pte_addr m l pt va)"
proof (induction m l pt P rule: pt_ok.induct)
  case (2 m l pt P)
  from 2(2) obtain C where C: "page pt" "P = insert pt (\<Union>i \<in> entries m pt. C i)"
      "\<forall>i \<in> entries m pt. ld64 m (pt + 8 * i) AND (PTE_R OR PTE_W OR PTE_X) = 0 \<and>
           pt_ok m l (PTE2PA (ld64 m (pt + 8 * i))) (C i) \<and> pt \<notin> C i"
      "\<forall>i \<in> entries m pt. \<forall>j \<in> entries m pt. i \<noteq> j \<longrightarrow> C i \<inter> C j = {}" by auto
  have pt: "pt \<in> P" using C(2) by simp
  have ld: "i < 512 \<Longrightarrow> ld64 m' (pt + 8 * i) = ld64 m (pt + 8 * i)" for i
    by (rule agree_ld64 [OF 2(3) pt])
  have en: "entries m' pt = entries m pt" by (rule entries_agree [OF 2(3) pt])
  have ch: "pt_ok m' l (PTE2PA (ld64 m (pt + 8 * i))) (C i) \<and>
      (\<forall>va. pte_addr m' l (PTE2PA (ld64 m (pt + 8 * i))) va = pte_addr m l (PTE2PA (ld64 m (pt + 8 * i))) va)"
    if i: "i \<in> entries m pt" for i
  proof -
    have "agree (C i) m m'" using 2(3) C(2) i by (intro agree_mono [OF 2(3)]) auto
    with 2(1) [OF i] C(3) i show ?thesis by blast
  qed
  have "i \<in> entries m pt \<Longrightarrow> i < 512" for i by (simp add: entries_def)
  with C en ld ch have "pt_ok m' (Suc l) pt P" by (auto intro!: exI [of _ C])
  moreover have "pte_addr m' (Suc l) pt va = pte_addr m (Suc l) pt va" for va
    using ch [of "PX (Suc l) va"] by (auto simp: Let_def ld entries_def)
  ultimately show ?case by blast
qed simp

lemma leaf_frame: "pt_ok m l pt P \<Longrightarrow> agree P m m' \<Longrightarrow> leaf m' l pt va = leaf m l pt va"
proof -
  assume ok: "pt_ok m l pt P" and ag: "agree P m m'"
  have "pte_addr m l pt va = Some a \<Longrightarrow> ld64 m' a = ld64 m a" for a
    using pte_addr_in [OF ok] agree_ld64 [OF ag] by fastforce
  with pt_ok_frame [OF ok ag] show ?thesis by (auto simp: leaf_def split: option.splits)
qed

text \<open>
  Replacing one child of a table: memory changes only in the pages of child \<open>i\<close> and in new pages \<open>N\<close>.
\<close>

definition child_changed :: "nat \<Rightarrow> uint64 \<Rightarrow> uint64 set \<Rightarrow> uint64 \<Rightarrow> uint64 set \<Rightarrow> mem \<Rightarrow> mem \<Rightarrow> bool" where
  "child_changed l pt P i N m m' \<longleftrightarrow>
     pt_ok m' (Suc l) pt (P \<union> N) \<and> (\<forall>k < 512. ld64 m' (pt + 8 * k) = ld64 m (pt + 8 * k)) \<and>
     (\<forall>va. PX (Suc l) va \<noteq> i \<longrightarrow> pte_addr m' (Suc l) pt va = pte_addr m (Suc l) pt va \<and>
        leaf m' (Suc l) pt va = leaf m (Suc l) pt va)"

lemma pt_ok_child:
  assumes "pt_ok m (Suc l) pt P" "i \<in> entries m pt" "c = PTE2PA (ld64 m (pt + 8 * i))"
  obtains Q where "pt_ok m l c Q" "Q \<subseteq> P" "pt \<notin> Q"
    "\<And>m' N. same_out (Q \<union> N) m m' \<Longrightarrow> N \<inter> P = {} \<Longrightarrow> \<forall>q \<in> N. aligned 12 q \<Longrightarrow> pt_ok m' l c (Q \<union> N) \<Longrightarrow>
       child_changed l pt P i N m m'"
proof -
  from assms(1) obtain C where C: "page pt" "P = insert pt (\<Union>i \<in> entries m pt. C i)"
      "\<forall>i \<in> entries m pt. ld64 m (pt + 8 * i) AND (PTE_R OR PTE_W OR PTE_X) = 0 \<and>
           pt_ok m l (PTE2PA (ld64 m (pt + 8 * i))) (C i) \<and> pt \<notin> C i"
      "\<forall>i \<in> entries m pt. \<forall>j \<in> entries m pt. i \<noteq> j \<longrightarrow> C i \<inter> C j = {}" by auto
  have al: "p \<in> P \<Longrightarrow> aligned 12 p" for p using pt_ok_pages [OF assms(1)] by (simp add: page_def)
  show thesis
  proof (rule that [of "C i"])
    show "pt_ok m l c (C i)" "C i \<subseteq> P" "pt \<notin> C i" using C assms by auto
    then have "C i \<subseteq> P" by blast
    fix m' N
    assume so: "same_out (C i \<union> N) m m'" and N: "N \<inter> P = {}" "\<forall>q \<in> N. aligned 12 q"
      and ok: "pt_ok m' l c (C i \<union> N)"
    have ag: "agree Q m m'" if "Q \<inter> C i = {}" "Q \<subseteq> P" for Q
      using that N al \<open>C i \<subseteq> P\<close> by (intro same_out_agree [OF so]) blast+
    have agpt: "agree {pt} m m'" using C(2,3) assms(2) by (intro ag) auto
    have ld: "k < 512 \<Longrightarrow> ld64 m' (pt + 8 * k) = ld64 m (pt + 8 * k)" for k
      by (rule agree_ld64 [OF agpt]) auto
    have en: "entries m' pt = entries m pt" by (rule entries_agree [OF agpt]) simp
    have agj: "agree (C j) m m'" if "j \<in> entries m pt" "j \<noteq> i" for j
      using that C assms(2) by (intro ag) auto
    let ?C = "C(i := C i \<union> N)"
    have lt: "j \<in> entries m pt \<Longrightarrow> j < 512" for j by (simp add: entries_def)
    have "pt_ok m' (Suc l) pt (P \<union> N)"
      unfolding pt_ok.simps
    proof (intro conjI exI [of _ ?C] ballI impI)
      show "page pt" by (rule C)
      show "P \<union> N = insert pt (\<Union>j \<in> entries m' pt. ?C j)" using C(2) assms(2) by (auto simp: en)
      fix j assume j: "j \<in> entries m' pt"
      then show "ld64 m' (pt + 8 * j) AND (PTE_R OR PTE_W OR PTE_X) = 0" using C(3) by (simp add: en ld lt)
      show "pt_ok m' l (PTE2PA (ld64 m' (pt + 8 * j))) (?C j)"
      proof (cases "j = i")
        case True
        with j ok assms(3) show ?thesis by (simp add: en ld lt)
      next
        case False
        from j C(3) have "pt_ok m l (PTE2PA (ld64 m (pt + 8 * j))) (C j)" by (simp add: en)
        from pt_ok_frame [OF this agj] j False show ?thesis by (simp add: en ld lt)
      qed
      have sub: "C j \<subseteq> P" if "j \<in> entries m pt" for j using that C(2) by auto
      show "pt \<notin> ?C j" using j C(2,3) N by (auto simp: en)
      fix k assume "k \<in> entries m' pt" "j \<noteq> k"
      with j have "C j \<inter> C k = {}" "C j \<inter> N = {}" "C k \<inter> N = {}"
        using C(4) sub [of j] sub [of k] N(1) by (auto simp: en)
      with \<open>j \<noteq> k\<close> show "?C j \<inter> ?C k = {}" by auto
    qed
    moreover have "pte_addr m' (Suc l) pt va = pte_addr m (Suc l) pt va \<and> leaf m' (Suc l) pt va = leaf m (Suc l) pt va"
      if va: "PX (Suc l) va \<noteq> i" for va
    proof (cases "PX (Suc l) va \<in> entries m pt")
      case True
      let ?d = "PTE2PA (ld64 m (pt + 8 * PX (Suc l) va))"
      have d: "pt_ok m l ?d (C (PX (Suc l) va))" using True C(3) by blast
      from True show ?thesis
        using pt_ok_frame [OF d agj [OF True va]] leaf_frame [OF d agj [OF True va], of va]
        by (auto simp: Let_def ld leaf_def)
    next
      case False
      then show ?thesis by (simp add: Let_def ld leaf_def entries_def)
    qed
    ultimately show "child_changed l pt P i N m m'"
      unfolding child_changed_def using ld by blast
  qed
qed


subsection \<open>Storing a leaf entry\<close>

definition pte_opt :: "uint64 \<Rightarrow> uint64 option" where
  "pte_opt e = (if e AND PTE_V \<noteq> 0 then Some e else None)"

lemma leaf_simps:
  "leaf m 0 pt va = pte_opt (ld64 m (pt + 8 * PX 0 va))"
  "leaf m (Suc l) pt va = (let e = ld64 m (pt + 8 * PX (Suc l) va)
     in if e AND PTE_V \<noteq> 0 then leaf m l (PTE2PA e) va else None)"
  by (simp_all add: leaf_def pte_opt_def Let_def)

lemma pt_ok_store:
  assumes "pt_ok m l pt P" "pte_addr m l pt va = Some a"
  shows "pt_ok (st64 m a v) l pt P \<and> same_out P m (st64 m a v) \<and>
    (\<forall>vb. pte_addr (st64 m a v) l pt vb = pte_addr m l pt vb) \<and>
    (\<forall>vb. leaf (st64 m a v) l pt vb = (if \<forall>k \<le> l. PX k vb = PX k va then pte_opt v else leaf m l pt vb))"
  using assms
proof (induction l arbitrary: pt P)
  case 0
  then show ?case by (auto simp: page_def leaf_simps ld64_st64_entry same_out_st64)
next
  case (Suc l)
  let ?m = "st64 m a v" and ?i = "PX (Suc l) va"
  let ?c = "PTE2PA (ld64 m (pt + 8 * ?i))"
  from Suc.prems(2) have i: "?i \<in> entries m pt" and a: "pte_addr m l ?c va = Some a"
    by (auto simp: entries_def Let_def split: if_splits)
  obtain Q where Q: "pt_ok m l ?c Q" "Q \<subseteq> P"
    and up: "\<And>m' N. same_out (Q \<union> N) m m' \<Longrightarrow> N \<inter> P = {} \<Longrightarrow> \<forall>q \<in> N. aligned 12 q \<Longrightarrow>
       pt_ok m' l ?c (Q \<union> N) \<Longrightarrow> child_changed l pt P ?i N m m'"
    by (rule pt_ok_child [OF Suc.prems(1) i refl]) blast
  from Suc.IH [OF Q(1) a] up [of "{}" ?m] have
    ih: "\<forall>vb. pte_addr ?m l ?c vb = pte_addr m l ?c vb"
      "\<forall>vb. leaf ?m l ?c vb = (if \<forall>k \<le> l. PX k vb = PX k va then pte_opt v else leaf m l ?c vb)"
      "same_out Q m ?m"
    and ok: "pt_ok ?m (Suc l) pt P" and ld: "\<And>k. k < 512 \<Longrightarrow> ld64 ?m (pt + 8 * k) = ld64 m (pt + 8 * k)"
    and other: "\<And>vb. PX (Suc l) vb \<noteq> ?i \<Longrightarrow> pte_addr ?m (Suc l) pt vb = pte_addr m (Suc l) pt vb \<and>
          leaf ?m (Suc l) pt vb = leaf m (Suc l) pt vb"
    by (simp_all add: child_changed_def del: pt_ok.simps pte_addr.simps)
  have all: "(\<forall>k \<le> Suc l. PX k vb = PX k va) \<longleftrightarrow> PX (Suc l) vb = ?i \<and> (\<forall>k \<le> l. PX k vb = PX k va)" for vb
    by (auto simp: le_Suc_eq)
  have "pte_addr ?m (Suc l) pt vb = pte_addr m (Suc l) pt vb \<and>
      leaf ?m (Suc l) pt vb = (if \<forall>k \<le> Suc l. PX k vb = PX k va then pte_opt v else leaf m (Suc l) pt vb)" for vb
  proof (cases "PX (Suc l) vb = ?i")
    case True
    with i ih ld show ?thesis by (auto simp: all leaf_simps entries_def)
  next
    case False
    with other [OF False] show ?thesis by (simp add: all del: pte_addr.simps)
  qed
  with ok same_out_mono [OF ih(3) Q(2)] show ?case by blast
qed

subsection \<open>Installing a table page\<close>

lemma pt_ok_zero:
  assumes "page p" "\<forall>k < 512. ld64 m (p + 8 * k) = 0"
  shows "pt_ok m l p {p} \<and> (\<forall>va. leaf m l p va = None)"
proof -
  have "entries m p = {}" using assms(2) by (auto simp: entries_def)
  with assms show ?thesis by (cases l) (auto simp: leaf_simps pte_opt_def)
qed

lemma flag_consts: "take_bit 10 PTE_V = PTE_V" "PTE_V AND PTE_V \<noteq> 0" "PTE_V AND (PTE_R OR PTE_W OR PTE_X) = 0"
  by (simp_all add: pte_flags)

lemma new_entry:
  assumes "page p"
  shows "PTE2PA (PA2PTE p OR PTE_V) = p" "(PA2PTE p OR PTE_V) AND PTE_V \<noteq> 0"
    "(PA2PTE p OR PTE_V) AND (PTE_R OR PTE_W OR PTE_X) = 0"
proof -
  show "PTE2PA (PA2PTE p OR PTE_V) = p"
    using assms flag_consts by (intro PTE2PA_make) (auto simp: page_def)
  show "(PA2PTE p OR PTE_V) AND PTE_V \<noteq> 0"
    using flag_consts by (subst AND_flags) (simp_all add: PTE_FLAGS_make)
  have "take_bit 10 (PTE_R OR PTE_W OR PTE_X) = PTE_R OR PTE_W OR PTE_X" by (simp add: pte_flags)
  then show "(PA2PTE p OR PTE_V) AND (PTE_R OR PTE_W OR PTE_X) = 0"
    using flag_consts by (subst AND_flags) (simp_all add: PTE_FLAGS_make)
qed

lemma pt_ok_install:
  assumes ok: "pt_ok m (Suc l) pt P" and i: "i < 512" "i \<notin> entries m pt" and p: "page p" "p \<notin> P"
    and so: "same_out {p} m m1" and z: "\<forall>k < 512. ld64 m1 (p + 8 * k) = 0"
    and m2: "m2 = st64 m1 (pt + 8 * i) (PA2PTE p OR PTE_V)"
  shows "pt_ok m2 (Suc l) pt (insert p P) \<and> i \<in> entries m2 pt \<and> PTE2PA (ld64 m2 (pt + 8 * i)) = p \<and>
    same_out (insert p P) m m2 \<and> (\<forall>vb. leaf m2 (Suc l) pt vb = leaf m (Suc l) pt vb)"
proof -
  from ok obtain C where C: "page pt" "P = insert pt (\<Union>i \<in> entries m pt. C i)"
      "\<forall>i \<in> entries m pt. ld64 m (pt + 8 * i) AND (PTE_R OR PTE_W OR PTE_X) = 0 \<and>
           pt_ok m l (PTE2PA (ld64 m (pt + 8 * i))) (C i) \<and> pt \<notin> C i"
      "\<forall>i \<in> entries m pt. \<forall>j \<in> entries m pt. i \<noteq> j \<longrightarrow> C i \<inter> C j = {}" by auto
  have al: "q \<in> insert p P \<Longrightarrow> aligned 12 q" for q using pt_ok_pages [OF ok] p by (auto simp: page_def)
  have pt: "pt \<in> P" "pt \<noteq> p" using C p by auto
  have so2: "same_out {pt} m1 m2" unfolding m2 by (rule same_out_st64 [OF i(1)])
  have so12: "same_out {p, pt} m m2" using same_out_trans [OF so so2] by (simp add: insert_commute)
  have "agree {pt} m m1" using pt al by (intro same_out_agree [OF so]) auto
  then have ld1: "k < 512 \<Longrightarrow> ld64 m1 (pt + 8 * k) = ld64 m (pt + 8 * k)" for k by (rule agree_ld64) auto
  have ld2: "ld64 m2 (pt + 8 * k) = (if k = i then PA2PTE p OR PTE_V else ld64 m (pt + 8 * k))" if "k < 512" for k
    using that i al pt by (simp add: m2 ld64_st64_entry ld1)
  have en: "entries m2 pt = insert i (entries m pt)"
    using i new_entry [OF p(1)] by (auto simp: entries_def ld2 split: if_splits)
  have agj: "agree (C j) m m2" if "j \<in> entries m pt" for j
    using that C(2,3) p al by (intro same_out_agree [OF so12]) auto
  have "agree {p} m1 m2" using pt al by (intro same_out_agree [OF so2]) auto
  then have "\<forall>k < 512. ld64 m2 (p + 8 * k) = 0" using z agree_ld64 by auto
  with p have new: "pt_ok m2 l p {p}" "\<And>va. leaf m2 l p va = None" using pt_ok_zero by auto
  have lt: "j \<in> entries m pt \<Longrightarrow> j < 512 \<and> j \<noteq> i" for j using i by (auto simp: entries_def)
  have sub: "C j \<subseteq> P" if "j \<in> entries m pt" for j using that C(2) by auto
  let ?C = "C(i := {p})"
  have "pt_ok m2 (Suc l) pt (insert p P)"
    unfolding pt_ok.simps
  proof (intro conjI exI [of _ ?C] ballI impI)
    show "page pt" by (rule C)
    show "insert p P = insert pt (\<Union>j \<in> entries m2 pt. ?C j)" using C(2) i(2) by (auto simp: en)
    fix j assume j: "j \<in> entries m2 pt"
    show "ld64 m2 (pt + 8 * j) AND (PTE_R OR PTE_W OR PTE_X) = 0"
      using j C(3) i new_entry [OF p(1)] lt [of j] by (auto simp: en ld2)
    show "pt_ok m2 l (PTE2PA (ld64 m2 (pt + 8 * j))) (?C j)"
    proof (cases "j = i")
      case True
      with i new new_entry [OF p(1)] show ?thesis by (simp add: ld2)
    next
      case False
      with j have j: "j \<in> entries m pt" by (simp add: en)
      with C(3) have "pt_ok m l (PTE2PA (ld64 m (pt + 8 * j))) (C j)" by simp
      from pt_ok_frame [OF this agj [OF j]] lt [OF j] show ?thesis by (simp add: ld2)
    qed
    show "pt \<notin> ?C j" using j C(3) pt by (auto simp: en)
    fix k assume k: "k \<in> entries m2 pt" "j \<noteq> k"
    with j C(4) sub p(2) show "?C j \<inter> ?C k = {}" by (auto simp: en)
  qed
  moreover have "leaf m2 (Suc l) pt vb = leaf m (Suc l) pt vb" for vb
  proof (cases "PX (Suc l) vb = i")
    case True
    with i new new_entry [OF p(1)] show ?thesis by (simp add: leaf_simps ld2 entries_def)
  next
    case False
    show ?thesis
    proof (cases "PX (Suc l) vb \<in> entries m pt")
      case True
      with C(3) have "pt_ok m l (PTE2PA (ld64 m (pt + 8 * PX (Suc l) vb))) (C (PX (Suc l) vb))" by simp
      from leaf_frame [OF this agj [OF True]] False show ?thesis by (simp add: leaf_simps ld2 Let_def)
    next
      case no: False
      with False show ?thesis by (simp add: leaf_simps ld2 entries_def)
    qed
  qed
  moreover have "same_out (insert p P) m m2" using pt by (intro same_out_mono [OF so12]) auto
  ultimately show ?thesis using i new_entry [OF p(1)] by (simp add: en ld2)
qed


declare pt_ok.simps(2) [simp del] pte_addr.simps(2) [simp del]

section \<open>Walking\<close>

lemma walk_level_find: "walk_level l pt va False s = ret (case pte_addr (mem s) l pt va of None \<Rightarrow> 0 | Some a \<Rightarrow> a) s"
  by (induction l arbitrary: pt) (simp_all add: Let_def pte_addr.simps)

lemma walk_level_exists: "pte_addr (mem s) l pt va = Some a \<Longrightarrow> walk_level l pt va b s = ret a s"
  by (induction l arbitrary: pt) (auto simp: Let_def pte_addr.simps split: if_splits)

lemma walk_find:
  "va < MAXVA \<Longrightarrow> walk pt va False s = ret (case pte_addr (mem s) 2 pt va of None \<Rightarrow> 0 | Some a \<Rightarrow> a) s"
  by (simp add: walk_def walk_level_find)

lemma pte_addr_nonzero: "pt_ok m l pt P \<Longrightarrow> pte_addr m l pt va = Some a \<Longrightarrow> a \<noteq> 0"
  using pte_addr_in entry_nonzero by fastforce

lemma PHYSTOP_page: "valid_page s p \<Longrightarrow> 0 < ld_end s \<Longrightarrow> page p"
  unfolding valid_page_def page_def
  by (auto simp: PHYSTOP_def KERNBASE_def intro: less_trans)

lemma kpages_page: "kpages s F \<Longrightarrow> p \<in> F \<Longrightarrow> page p"
  using kpages_valid PHYSTOP_page by (fastforce simp: kpages_def kmem_inv_def)

lemma memset_page: "memset m p c 4096 = (\<lambda>x. if in_page p x then c else m x)"
  by (simp add: memset_apply in_page_def)

lemma ld64_memset_zero:
  assumes "i < 512"
  shows "ld64 (memset m p 0 4096) (p + 8 * i) = 0"
proof -
  have "ld_bytes (memset m p 0 4096) (p + 8 * i) 8 = replicate 8 0"
  proof (rule nth_equalityI)
    fix k assume "k < length (ld_bytes (memset m p 0 4096) (p + 8 * i) 8)"
    then have k: "k < 8" by simp
    have "in_page p (p + of_nat (8 * unat i + k))"
      using assms k by (intro in_page_offset) (simp add: word_less_nat_alt)
    with k show "ld_bytes (memset m p 0 4096) (p + 8 * i) 8 ! k = replicate 8 0 ! k"
      by (simp add: memset_page algebra_simps)
  qed simp
  then show ?thesis by (simp add: ld64_def)
qed

lemma kpages_same_out:
  assumes "kpages s F" "same_out P (mem s) m" "P \<inter> F = {}" "\<forall>p \<in> P. aligned 12 p"
  shows "kpages (s\<lparr>mem := m\<rparr>) F"
proof (rule kpages_write [OF assms(1)])
  have "\<forall>p \<in> F. aligned 12 p" using kpages_page [OF assms(1)] by (simp add: page_def)
  with assms have "agree F (mem s) m" by (intro same_out_agree) auto
  then show "\<forall>p \<in> F. \<forall>x. in_page p x \<longrightarrow> m x = mem s x" by (simp add: agree_def)
qed

text \<open>
  The outcome of a walk that may allocate: new table pages \<open>N\<close> leave the free pages, no leaf entry
  changes, and the walk finds the address of the entry unless memory ran out.
\<close>

definition walked :: "'a mstate_scheme \<Rightarrow> uint64 set \<Rightarrow> nat \<Rightarrow> uint64 \<Rightarrow> uint64 set \<Rightarrow> uint64 \<Rightarrow> uint64 \<Rightarrow>
    'a mstate_scheme \<Rightarrow> bool" where
  "walked s F l pt P va a t \<longleftrightarrow> (\<exists>N \<subseteq> F. mem_only s t \<and> kpages t (F - N) \<and> pt_ok (mem t) l pt (P \<union> N) \<and>
     same_out (P \<union> N) (mem s) (mem t) \<and> (\<forall>vb. leaf (mem t) l pt vb = leaf (mem s) l pt vb) \<and>
     (if a = 0 then F - N = {} else pte_addr (mem t) l pt va = Some a))"

lemma walk_level_child:
  fixes s :: "'a mstate_scheme"
  assumes ih: "\<And>(s :: 'a mstate_scheme) F pt P. kpages s F \<Longrightarrow> pt_ok (mem s) l pt P \<Longrightarrow> P \<inter> F = {} \<Longrightarrow>
      wp (walked s F l pt P va) (walk_level l pt va True s)"
    and k: "kpages s F" and ok: "pt_ok (mem s) (Suc l) pt P" and PF: "P \<inter> F = {}"
    and i: "PX (Suc l) va \<in> entries (mem s) pt"
  shows "wp (walked s F (Suc l) pt P va)
    (walk_level l (PTE2PA (ld64 (mem s) (pt + 8 * PX (Suc l) va))) va True s)"
proof -
  let ?m = "mem s" and ?i = "PX (Suc l) va"
  let ?c = "PTE2PA (ld64 ?m (pt + 8 * ?i))"
  obtain Q where Q: "pt_ok ?m l ?c Q" "Q \<subseteq> P"
    and up: "\<And>m' N. same_out (Q \<union> N) ?m m' \<Longrightarrow> N \<inter> P = {} \<Longrightarrow> \<forall>q \<in> N. aligned 12 q \<Longrightarrow>
       pt_ok m' l ?c (Q \<union> N) \<Longrightarrow> child_changed l pt P ?i N ?m m'"
    by (rule pt_ok_child [OF ok i refl]) blast
  have "wp (walked s F l ?c Q va) (walk_level l ?c va True s)"
    using k Q PF by (intro ih) auto
  then show ?thesis
  proof (rule wp_mono)
    fix a t assume "walked s F l ?c Q va a t"
    then obtain N where N: "N \<subseteq> F" "mem_only s t" "kpages t (F - N)" "pt_ok (mem t) l ?c (Q \<union> N)"
        "same_out (Q \<union> N) ?m (mem t)" "\<forall>vb. leaf (mem t) l ?c vb = leaf ?m l ?c vb"
        "if a = 0 then F - N = {} else pte_addr (mem t) l ?c va = Some a"
      by (auto simp: walked_def)
    have "\<forall>q \<in> N. aligned 12 q" using N(1) kpages_page [OF k] by (auto simp: page_def)
    with N PF have ch: "child_changed l pt P ?i N ?m (mem t)" by (intro up) auto
    have e: "ld64 (mem t) (pt + 8 * ?i) = ld64 ?m (pt + 8 * ?i)" "ld64 ?m (pt + 8 * ?i) AND PTE_V \<noteq> 0"
      using ch i by (simp_all add: child_changed_def entries_def)
    have "leaf (mem t) (Suc l) pt vb = leaf ?m (Suc l) pt vb" for vb
    proof (cases "PX (Suc l) vb = ?i")
      case True
      with e N(6) show ?thesis by (simp add: leaf_simps)
    next
      case False
      with ch show ?thesis by (simp add: child_changed_def)
    qed
    moreover have "pt_ok (mem t) (Suc l) pt (P \<union> N)"
      using ch by (simp add: child_changed_def)
    moreover have "same_out (P \<union> N) ?m (mem t)" using Q(2) by (intro same_out_mono [OF N(5)]) auto
    moreover have "if a = 0 then F - N = {} else pte_addr (mem t) (Suc l) pt va = Some a"
      using N(7) e by (simp add: pte_addr.simps Let_def)
    ultimately show "walked s F (Suc l) pt P va a t"
      unfolding walked_def using N(1-3) by blast
  qed
qed

lemma walked_new:
  assumes p: "p \<in> F" "mem_only s t" "mem t' = m" "mem_only t t'" "same_out (insert p P) (mem s) m"
    and lf: "\<forall>vb. leaf m l pt vb = leaf (mem s) l pt vb"
    and w: "walked t' (F - {p}) l pt (insert p P) va a r"
  shows "walked s F l pt P va a r"
proof -
  from w obtain N where N: "N \<subseteq> F - {p}" "mem_only t' r" "kpages r (F - {p} - N)"
      "pt_ok (mem r) l pt (insert p P \<union> N)" "same_out (insert p P \<union> N) m (mem r)"
      "\<forall>vb. leaf (mem r) l pt vb = leaf m l pt vb"
      "if a = 0 then F - {p} - N = {} else pte_addr (mem r) l pt va = Some a"
    by (auto simp: walked_def p)
  have eq: "F - {p} - N = F - insert p N" "insert p P \<union> N = P \<union> insert p N" by auto
  have "mem_only s r" using p N(2) mem_only_trans by blast
  moreover have "same_out (P \<union> insert p N) (mem s) (mem r)"
    using same_out_trans [OF p(5) N(5)] by (rule same_out_mono) auto
  ultimately show ?thesis
    unfolding walked_def using N(1,3,4,6) N(7) p(1) lf
    by (intro exI [of _ "insert p N"]) (simp add: eq, auto split: if_splits)
qed

lemma walk_level_new:
  fixes s :: "'a mstate_scheme"
  assumes ih: "\<And>(s :: 'a mstate_scheme) F pt P. kpages s F \<Longrightarrow> pt_ok (mem s) l pt P \<Longrightarrow> P \<inter> F = {} \<Longrightarrow>
      wp (walked s F l pt P va) (walk_level l pt va True s)"
    and k: "kpages s F" and ok: "pt_ok (mem s) (Suc l) pt P" and PF: "P \<inter> F = {}"
    and i: "PX (Suc l) va \<notin> entries (mem s) pt"
    and p: "p \<in> F" "kpages t (F - {p})" "same_off p (mem s) (mem t)" "mem_only s t"
  shows "wp (walked s F (Suc l) pt P va)
    (walk_level l p va True
       (t\<lparr>mem := st64 (memset (mem t) p 0 4096) (pt + 8 * PX (Suc l) va) (PA2PTE p OR PTE_V)\<rparr>))"
proof -
  let ?i = "PX (Suc l) va"
  let ?m1 = "memset (mem t) p 0 4096"
  let ?m2 = "st64 ?m1 (pt + 8 * ?i) (PA2PTE p OR PTE_V)"
  let ?t = "t\<lparr>mem := ?m2\<rparr>"
  have pp: "page p" "p \<notin> P" using p(1) kpages_page [OF k] PF by auto
  have "same_out {p} (mem s) ?m1"
    using same_out_trans [OF same_off_out [OF p(3)] same_off_out [OF same_off_memset [of p "mem t" 0]]] by simp
  moreover have "\<forall>k < 512. ld64 ?m1 (p + 8 * k) = 0" by (simp add: ld64_memset_zero)
  ultimately have ins: "pt_ok ?m2 (Suc l) pt (insert p P)" "?i \<in> entries ?m2 pt"
      "PTE2PA (ld64 ?m2 (pt + 8 * ?i)) = p" "same_out (insert p P) (mem s) ?m2"
      "\<forall>vb. leaf ?m2 (Suc l) pt vb = leaf (mem s) (Suc l) pt vb"
    using pt_ok_install [OF ok PX_less i pp _ _ refl] by simp_all
  have al: "\<forall>q \<in> insert p P. aligned 12 q" using pt_ok_pages [OF ins(1)] by (simp add: page_def)
  have "same_out (insert p P) (mem t) ?m2"
    using same_out_trans [OF same_off_out [OF same_off_memset] same_out_st64 [OF PX_less]]
    by (rule same_out_mono) (use pt_ok_root [OF ok] in auto)
  then have "kpages ?t (F - {p})"
    using al PF by (intro kpages_same_out [OF p(2)]) auto
  then have "wp (walked ?t (F - {p}) (Suc l) pt (insert p P) va)
      (walk_level l (PTE2PA (ld64 (mem ?t) (pt + 8 * ?i))) va True ?t)"
  proof (rule walk_level_child [rotated])
    show "pt_ok (mem ?t) (Suc l) pt (insert p P)" "insert p P \<inter> (F - {p}) = {}" "?i \<in> entries (mem ?t) pt"
      using ins PF by auto
  qed (rule ih)
  then have "wp (walked ?t (F - {p}) (Suc l) pt (insert p P) va) (walk_level l p va True ?t)"
    by (simp add: ins(3))
  then show ?thesis
    by (rule wp_mono) (rule walked_new [OF p(1,4) _ _ ins(4,5)]; simp)
qed

lemma walk_level_alloc:
  "kpages s F \<Longrightarrow> pt_ok (mem s) l pt P \<Longrightarrow> P \<inter> F = {} \<Longrightarrow> wp (walked s F l pt P va) (walk_level l pt va True s)"
proof (induction l arbitrary: s F pt P)
  case 0
  then have "pt + 8 * PX 0 va \<noteq> 0" by (intro entry_nonzero) simp_all
  with 0 show ?case by (auto simp: walked_def intro!: exI [of _ "{}"])
next
  case (Suc l)
  let ?i = "PX (Suc l) va"
  let ?e = "ld64 (mem s) (pt + 8 * ?i)"
  show ?case
  proof (cases "?i \<in> entries (mem s) pt")
    case True
    then have "?e AND PTE_V \<noteq> 0" by (simp add: entries_def)
    then have "walk_level (Suc l) pt va True s = walk_level l (PTE2PA ?e) va True s" by (simp add: Let_def)
    then show ?thesis using walk_level_child [OF _ Suc.prems True] Suc.IH by simp
  next
    case False
    then have e: "?e AND PTE_V = 0" by (simp add: entries_def)
    have "wp (\<lambda>p t. wp (walked s F (Suc l) pt P va)
        (if p = 0 then ret 0 t
         else walk_level l p va True
           (t\<lparr>mem := st64 (memset (mem t) p 0 4096) (pt + 8 * ?i) (PA2PTE p OR PTE_V)\<rparr>))) (kalloc s)"
    proof (rule wp_mono [OF kalloc_wp [OF Suc.prems(1)]])
      fix p t assume *: "mem_only s t \<and> (if p = 0 then F = {} \<and> t = s
          else p \<in> F \<and> kpages t (F - {p}) \<and> same_off p (mem s) (mem t))"
      show "wp (walked s F (Suc l) pt P va)
        (if p = 0 then ret 0 t
         else walk_level l p va True
           (t\<lparr>mem := st64 (memset (mem t) p 0 4096) (pt + 8 * ?i) (PA2PTE p OR PTE_V)\<rparr>))"
      proof (cases "p = 0")
        case True
        with * Suc.prems show ?thesis by (auto simp: walked_def)
      next
        case p: False
        with * have p': "p \<in> F" "kpages t (F - {p})" "same_off p (mem s) (mem t)" "mem_only s t" by auto
        have "wp (walked s F (Suc l) pt P va) (walk_level l p va True
            (t\<lparr>mem := st64 (memset (mem t) p 0 4096) (pt + 8 * ?i) (PA2PTE p OR PTE_V)\<rparr>))"
          by (rule walk_level_new [OF _ Suc.prems False p']) (rule Suc.IH)
        with p show ?thesis by simp
      qed
    qed
    with e show ?thesis by (simp add: Let_def PGSIZE_def) (erule wp_mono, simp split: if_splits)
  qed
qed


section \<open>Mapping pages\<close>

text \<open>
  \<open>table s F pt P\<close>: \<open>pt\<close> is a well-formed three-level page table with table pages \<open>P\<close>, and the
  allocator has the free pages \<open>F\<close>, none of them in use by the table.
\<close>

definition table :: "'a mstate_scheme \<Rightarrow> uint64 set \<Rightarrow> uint64 \<Rightarrow> uint64 set \<Rightarrow> bool" where
  "table s F pt P \<longleftrightarrow> kpages s F \<and> pt_ok (mem s) 2 pt P \<and> P \<inter> F = {}"

lemma pte_opt_valid: "pte_opt (e OR PTE_V) = Some (e OR PTE_V)"
proof -
  have "(e OR PTE_V) AND PTE_V = PTE_V" by (rule bit_word_eqI) (auto simp: bit_simps)
  then show ?thesis by (simp add: pte_opt_def pte_flags)
qed

lemma lookup_addr: "lookup m pt va = (case pte_addr m 2 pt va of None \<Rightarrow> None | Some a \<Rightarrow> pte_opt (ld64 m a))"
  by (simp add: lookup_def leaf_def pte_opt_def split: option.splits)

lemma lookup_store:
  assumes "pt_ok m 2 pt P" "pte_addr m 2 pt va = Some a" "va < MAXVA" "vb < MAXVA"
  shows "lookup (st64 m a v) pt vb = (if PGROUNDDOWN vb = PGROUNDDOWN va then pte_opt v else lookup m pt vb)"
  using pt_ok_store [OF assms(1,2), of v] PX_eq_iff [OF assms(4,3)] by (simp add: lookup_def)

lemma table_store:
  assumes "table s F pt P" "pte_addr (mem s) 2 pt va = Some a"
  shows "table (s\<lparr>mem := st64 (mem s) a v\<rparr>) F pt P"
  using assms pt_ok_store [of "mem s" 2 pt P va a v] pt_ok_pages [of "mem s" 2 pt P]
  by (auto simp: table_def page_def intro!: kpages_same_out)

text \<open>What one round of \<^verbatim>\<open>mappages\<close> does for the page of \<open>va\<close>.\<close>

definition mapped1 :: "'a mstate_scheme \<Rightarrow> uint64 set \<Rightarrow> uint64 \<Rightarrow> uint64 set \<Rightarrow> uint64 \<Rightarrow> uint64 \<Rightarrow> int \<Rightarrow>
    'a mstate_scheme \<Rightarrow> bool" where
  "mapped1 s F pt P va e r t \<longleftrightarrow> (\<exists>N \<subseteq> F. mem_only s t \<and> table t (F - N) pt (P \<union> N) \<and>
     same_out (P \<union> N) (mem s) (mem t) \<and>
     (if r = 0
      then \<forall>vb < MAXVA. lookup (mem t) pt vb = (if PGROUNDDOWN vb = PGROUNDDOWN va then Some e else lookup (mem s) pt vb)
      else r = -1 \<and> F - N = {} \<and> (\<forall>vb. lookup (mem t) pt vb = lookup (mem s) pt vb)))"

lemma walk_alloc:
  assumes "table s F pt P" "va < MAXVA"
  shows "wp (walked s F 2 pt P va) (walk pt va True s)"
  using assms by (auto simp: walk_def table_def intro!: walk_level_alloc)

lemma walked_table: "walked s F 2 pt P va a t \<Longrightarrow> P \<inter> F = {} \<Longrightarrow>
    \<exists>N \<subseteq> F. mem_only s t \<and> table t (F - N) pt (P \<union> N) \<and> same_out (P \<union> N) (mem s) (mem t) \<and>
     (\<forall>vb. lookup (mem t) pt vb = lookup (mem s) pt vb) \<and>
     (if a = 0 then F - N = {} else pte_addr (mem t) 2 pt va = Some a)"
  unfolding walked_def table_def lookup_def
  by (elim exE conjE, rule exI, intro conjI, assumption+) (auto split: if_splits)

lemma mappages_one:
  assumes tb: "table s F pt P" and va: "va < MAXVA" and none: "lookup (mem s) pt va = None"
  shows "wp (mapped1 s F pt P va (PA2PTE pa OR perm OR PTE_V)) (mappages_loop pt va va pa perm s)"
proof -
  let ?e = "PA2PTE pa OR perm OR PTE_V"
  have "wp (\<lambda>a t. wp (mapped1 s F pt P va ?e)
      (if a = 0 then ret (-1) t else if ld64 (mem t) a AND PTE_V \<noteq> 0 then panic ''mappages: remap'' t
       else ret 0 (t\<lparr>mem := st64 (mem t) a ?e\<rparr>))) (walk pt va True s)"
  proof (rule wp_mono [OF walk_alloc [OF tb va]])
    fix a t assume "walked s F 2 pt P va a t"
    then obtain N where N: "N \<subseteq> F" "mem_only s t" "table t (F - N) pt (P \<union> N)"
        "same_out (P \<union> N) (mem s) (mem t)" "\<forall>vb. lookup (mem t) pt vb = lookup (mem s) pt vb"
        "if a = 0 then F - N = {} else pte_addr (mem t) 2 pt va = Some a"
      using tb by (auto simp: table_def dest!: walked_table)
    show "wp (mapped1 s F pt P va ?e)
      (if a = 0 then ret (-1) t else if ld64 (mem t) a AND PTE_V \<noteq> 0 then panic ''mappages: remap'' t
       else ret 0 (t\<lparr>mem := st64 (mem t) a ?e\<rparr>))"
    proof (cases "a = 0")
      case True
      with N show ?thesis by (auto simp: mapped1_def)
    next
      case False
      with N(6) have a: "pte_addr (mem t) 2 pt va = Some a" by simp
      let ?t = "t\<lparr>mem := st64 (mem t) a ?e\<rparr>"
      have "lookup (mem t) pt va = None" using N(5) none by simp
      with a have "ld64 (mem t) a AND PTE_V = 0" by (simp add: lookup_addr pte_opt_def split: if_splits)
      moreover have "table ?t (F - N) pt (P \<union> N)" by (rule table_store [OF N(3) a])
      moreover have "same_out (P \<union> N) (mem s) (mem ?t)"
        using same_out_trans [OF N(4)] pt_ok_store [OF _ a, of "P \<union> N" ?e] N(3) by (fastforce simp: table_def)
      moreover have "mem_only s ?t" using N(2) mem_only_trans mem_only_simps(2) by blast
      moreover have "lookup (mem ?t) pt vb = (if PGROUNDDOWN vb = PGROUNDDOWN va then Some ?e else lookup (mem s) pt vb)"
        if "vb < MAXVA" for vb
        using lookup_store [OF _ a va that, of "P \<union> N" ?e] N(3,5) pte_opt_valid [of "PA2PTE pa OR perm"]
        by (simp add: table_def or.assoc)
      ultimately show ?thesis using False N(1) by (auto simp: mapped1_def)
    qed
  qed
  then show ?thesis
    by (subst mappages_loop.simps) (simp add: Let_def, erule wp_mono, simp split: if_splits)
qed


lemma PGROUNDDOWN_last: "aligned 12 va \<Longrightarrow> PGROUNDDOWN (va + PGSIZE - 1) = va"
proof -
  assume a: "aligned 12 va"
  have "va + PGSIZE - 1 = va OR 4095"
    using add_of_nat_or [OF a, of 4095] by (simp add: PGSIZE_def add.commute)
  moreover have "take_bit 12 (4095 :: uint64) = 4095" by simp
  then have "bit (4095 :: uint64) k \<Longrightarrow> k < 12" for k by (metis bit_take_bit_iff)
  ultimately show ?thesis
    using aligned_bit [OF a] by (intro bit_word_eqI) (fastforce simp: PGROUNDDOWN_bits bit_or_iff not_less)
qed

lemma mappages_page:
  assumes "table s F pt P" "aligned 12 va" "va < MAXVA" "lookup (mem s) pt va = None"
  shows "wp (mapped1 s F pt P va (PA2PTE pa OR perm OR PTE_V)) (mappages pt va PGSIZE pa perm s)"
  using mappages_one [OF assms(1,3,4)] assms(2)
  by (simp add: mappages_def PGROUNDDOWN_aligned PGROUNDDOWN_last) (simp add: PGSIZE_def)

lemma walkaddr_eq:
  assumes "pt_ok (mem s) 2 pt P"
  shows "walkaddr pt va s = ret (if va \<ge> MAXVA then 0
    else case lookup (mem s) pt va of None \<Rightarrow> 0 | Some e \<Rightarrow> if e AND PTE_U = 0 then 0 else PTE2PA e) s"
  using assms pte_addr_nonzero [OF assms, of va]
  by (auto simp: walkaddr_def walk_find lookup_addr pte_opt_def split: option.splits)

text \<open>
  C22. Mapping one page and looking it up: when \<^verbatim>\<open>mappages\<close> succeeds on an unmapped page-aligned
  address, the table finds exactly the requested entry for every address of that page and its old
  entry for every other address; table pages come from the allocator, and nothing outside the table
  is written. When it fails, memory is exhausted and no address is mapped differently.
\<close>

theorem mappages_correct:
  assumes "table s F pt P" "aligned 12 va" "va < MAXVA" "lookup (mem s) pt va = None"
  shows "\<exists>r t N. mappages pt va PGSIZE pa perm s = ret r t \<and> N \<subseteq> F \<and>
    table t (F - N) pt (P \<union> N) \<and> (\<forall>x. (\<forall>p \<in> P \<union> N. \<not> in_page p x) \<longrightarrow> mem t x = mem s x) \<and>
    (r = 0 \<and> (\<forall>vb < MAXVA. lookup (mem t) pt vb =
        (if PGROUNDDOWN vb = va then Some (PA2PTE pa OR perm OR PTE_V) else lookup (mem s) pt vb)) \<or>
     r = -1 \<and> F - N = {} \<and> (\<forall>vb. lookup (mem t) pt vb = lookup (mem s) pt vb))"
proof -
  from mappages_page [OF assms, of pa perm] obtain r t where
    "mappages pt va PGSIZE pa perm s = ret r t" "mapped1 s F pt P va (PA2PTE pa OR perm OR PTE_V) r t"
    by (auto simp: wp_iff)
  then obtain N where N: "N \<subseteq> F" "table t (F - N) pt (P \<union> N)" "same_out (P \<union> N) (mem s) (mem t)"
      "if r = 0 then \<forall>vb < MAXVA. lookup (mem t) pt vb =
           (if PGROUNDDOWN vb = va then Some (PA2PTE pa OR perm OR PTE_V) else lookup (mem s) pt vb)
       else r = -1 \<and> F - N = {} \<and> (\<forall>vb. lookup (mem t) pt vb = lookup (mem s) pt vb)"
    using PGROUNDDOWN_aligned [OF assms(2)] by (auto simp: mapped1_def)
  have "\<forall>x. (\<forall>p \<in> P \<union> N. \<not> in_page p x) \<longrightarrow> mem t x = mem s x"
    using N(3) by (simp add: same_out_def)
  with N \<open>mappages pt va PGSIZE pa perm s = ret r t\<close> show ?thesis
    by (intro exI [of _ r] exI [of _ t] exI [of _ N]) (simp split: if_splits)
qed

text \<open>
  \<^verbatim>\<open>mappages\<close> never overwrites a mapping: on an address that is already mapped it panics.
\<close>

lemma mappages_remap_panics:
  assumes "pt_ok (mem s) 2 pt P" "aligned 12 va" "va < MAXVA" "lookup (mem s) pt va \<noteq> None"
  shows "mappages pt va PGSIZE pa perm s = panic ''mappages: remap'' s"
proof -
  from assms(4) obtain a where a: "pte_addr (mem s) 2 pt va = Some a" "ld64 (mem s) a AND PTE_V \<noteq> 0"
    by (auto simp: lookup_addr pte_opt_def split: option.splits if_splits)
  have "walk pt va True s = ret a s"
    using assms(3) walk_level_exists [OF a(1)] by (simp add: walk_def)
  then have "mappages_loop pt va va pa perm s = panic ''mappages: remap'' s"
    using a(2) pte_addr_nonzero [OF assms(1) a(1)] by (subst mappages_loop.simps) simp
  then show ?thesis
    using assms(2) by (simp add: mappages_def PGROUNDDOWN_aligned PGROUNDDOWN_last) (simp add: PGSIZE_def)
qed

section \<open>Unmapping a page\<close>

lemma uvmunmap_one:
  assumes tb: "table s F pt P" and va: "aligned 12 va" "va < MAXVA"
    and e: "lookup (mem s) pt va = Some e" "PTE_FLAGS e \<noteq> PTE_V"
  shows "wp (\<lambda>_ t. mem_only s t \<and> table t F pt P \<and> same_out P (mem s) (mem t) \<and>
      (\<forall>vb < MAXVA. lookup (mem t) pt vb = (if PGROUNDDOWN vb = va then None else lookup (mem s) pt vb)))
    (uvmunmap pt va 1 False s)"
proof -
  from e(1) obtain a where a: "pte_addr (mem s) 2 pt va = Some a" "ld64 (mem s) a AND PTE_V \<noteq> 0" "ld64 (mem s) a = e"
    by (auto simp: lookup_addr pte_opt_def split: option.splits if_splits)
  have ok: "pt_ok (mem s) 2 pt P" using tb by (simp add: table_def)
  let ?t = "s\<lparr>mem := st64 (mem s) a 0\<rparr>"
  have w: "walk pt va False s = ret a s" using va a by (simp add: walk_find)
  have "va < va + PGSIZE"
    using va(2) below_MAXVA_step [OF va(2)] by (simp add: word_less_nat_alt)
  moreover have "\<not> va + PGSIZE < va + PGSIZE" by simp
  ultimately have "uvmunmap_loop pt va (va + PGSIZE) False s = ret () ?t"
    using w a e pte_addr_nonzero [OF ok a(1)] by (subst uvmunmap_loop.simps) (simp add: uvmunmap_loop.simps)
  then have "uvmunmap pt va 1 False s = ret () ?t"
    using va(1) by (simp add: uvmunmap_def flip: aligned_mod)
  moreover have "lookup (mem ?t) pt vb = (if PGROUNDDOWN vb = va then None else lookup (mem s) pt vb)"
    if "vb < MAXVA" for vb
    using lookup_store [OF ok a(1) va(2) that, of 0] PGROUNDDOWN_aligned [OF va(1)] by (simp add: pte_opt_def)
  ultimately show ?thesis
    using table_store [OF tb a(1)] pt_ok_store [OF ok a(1), of 0] by simp
qed


section \<open>A page table with one path\<close>

text \<open>
  Three table pages \<open>a\<close>, \<open>b\<close>, \<open>c\<close> whose first entries point to each other and, last, hold the leaf
  entry \<open>e\<close>: the smallest table that maps page 0.
\<close>

definition path_mem :: "uint64 \<Rightarrow> uint64 \<Rightarrow> uint64 \<Rightarrow> uint64 \<Rightarrow> mem" where
  "path_mem a b c e = st64 (st64 (st64 (\<lambda>_. 0) a (PA2PTE b OR PTE_V)) b (PA2PTE c OR PTE_V)) c e"

lemma entry_other_page:
  assumes "page p" "page q" "p \<noteq> q" "i < 512"
  shows "p + 8 * i \<noteq> q"
proof
  assume "p + 8 * i = q"
  moreover have "in_page p (p + of_nat (8 * unat i))"
    using assms(4) by (intro in_page_offset) (simp add: word_less_nat_alt)
  moreover have "in_page q q" by (simp add: in_page_def)
  ultimately show False using in_page_unique [of p q q] assms by (simp add: page_def)
qed

lemma ld64_path:
  assumes "page a" "page b" "page c" "distinct [a, b, c]" "page p" "i < 512"
  shows "ld64 (path_mem a b c e) (p + 8 * i) =
    (if i \<noteq> 0 then 0 else if p = c then e else if p = b then PA2PTE c OR PTE_V
     else if p = a then PA2PTE b OR PTE_V else 0)"
proof -
  have al: "aligned 3 q" if "page q" for q using entry_aligned [of q 0] that by (simp add: page_def)
  have e: "aligned 3 (p + 8 * i)" using assms(5) by (intro entry_aligned) (simp add: page_def)
  have ne: "q \<noteq> p + 8 * i" if "page q" "i \<noteq> 0 \<or> p \<noteq> q" for q
    using that assms(5,6) entry_other_page [of p q i] entry_inj [of i 0 p] by (cases "p = q") auto
  have z: "ld64 (\<lambda>_. 0) x = 0" for x by simp
  show ?thesis
  proof (cases "i = 0")
    case True
    with assms al ne show ?thesis by (auto simp: path_mem_def ld64_st64_same ld64_st64_other)
  next
    case False
    with assms al e ne show ?thesis by (simp add: path_mem_def ld64_st64_other)
  qed
qed

lemma path_entries:
  assumes "page a" "page b" "page c" "distinct [a, b, c]" "i < 512"
  shows "ld64 (path_mem a b c e) (a + 8 * i) = (if i = 0 then PA2PTE b OR PTE_V else 0)"
    "ld64 (path_mem a b c e) (b + 8 * i) = (if i = 0 then PA2PTE c OR PTE_V else 0)"
    "ld64 (path_mem a b c e) (c + 8 * i) = (if i = 0 then e else 0)"
  using ld64_path [OF assms(1-4) assms(1) assms(5)] ld64_path [OF assms(1-4) assms(2) assms(5)]
    ld64_path [OF assms(1-4) assms(3) assms(5)] assms(4) by auto

lemma PTE_V_nonzero [simp]: "PTE_V \<noteq> 0"
  by (simp add: PTE_V_def)

lemma path_table:
  assumes "page a" "page b" "page c" "distinct [a, b, c]"
  shows "pt_ok (path_mem a b c e) 2 a {a, b, c}"
    "lookup (path_mem a b c e) a va = (if \<forall>l \<le> 2. PX l va = 0 then pte_opt e else None)"
proof -
  let ?m = "path_mem a b c e"
  note ld = path_entries [OF assms]
  have ld0: "ld64 ?m a = PA2PTE b OR PTE_V" "ld64 ?m b = PA2PTE c OR PTE_V" "ld64 ?m c = e"
    using ld [of 0] by simp_all
  have en: "entries ?m a = {0}" "entries ?m b = {0}"
    by (auto simp: entries_def ld ld0 split: if_splits)
  have "pt_ok ?m 1 b {b, c}"
    using assms new_entry [OF assms(3)] ld0
    by (auto simp: One_nat_def pt_ok.simps en intro!: exI [of _ "\<lambda>_. {c}"])
  then show "pt_ok ?m 2 a {a, b, c}"
    using assms new_entry [OF assms(2)] ld0
    by (auto simp: numeral_2_eq_2 pt_ok.simps(2) [of _ 1, unfolded One_nat_def] en
        intro!: exI [of _ "\<lambda>_. {b, c}"])
  have all: "(\<forall>l \<le> Suc (Suc 0). Q l) \<longleftrightarrow> Q 0 \<and> Q (Suc 0) \<and> Q (Suc (Suc 0))" for Q
    by (auto simp: le_Suc_eq)
  show "lookup ?m a va = (if \<forall>l \<le> 2. PX l va = 0 then pte_opt e else None)"
    using new_entry [OF assms(2)] new_entry [OF assms(3)]
    by (auto simp: all lookup_def numeral_2_eq_2 leaf_simps ld ld0 Let_def pte_opt_def)
qed


text \<open>A state with the table at \<open>0x87001000\<close> and one free page.\<close>

definition demo_pte :: uint64 where
  "demo_pte = PA2PTE 0x87004000 OR (PTE_W OR PTE_R OR PTE_U) OR PTE_V"

definition demo_state :: mstate where
  "demo_state = mstate0\<lparr>mem := path_mem 0x87001000 0x87002000 0x87003000 demo_pte\<rparr>"

lemma demo_pages: "page 0x87001000" "page 0x87002000" "page 0x87003000"
  by (simp_all add: page_def aligned_mod PGSIZE_def)

lemma demo_table: "table demo_state {0x87FFF000} 0x87001000 {0x87001000, 0x87002000, 0x87003000}"
proof -
  let ?P = "{0x87001000, 0x87002000, 0x87003000} :: uint64 set"
  let ?m1 = "st64 (\<lambda>_. 0) 0x87001000 (PA2PTE 0x87002000 OR PTE_V)"
  let ?m2 = "st64 ?m1 0x87002000 (PA2PTE 0x87003000 OR PTE_V)"
  have h: "same_out {0x87001000} (\<lambda>_. 0) ?m1" "same_out {0x87002000} ?m1 ?m2"
      "same_out {0x87003000} ?m2 (path_mem 0x87001000 0x87002000 0x87003000 demo_pte)"
    unfolding path_mem_def
    using same_out_st64 [of 0 "0x87001000"] same_out_st64 [of 0 "0x87002000"] same_out_st64 [of 0 "0x87003000"]
    by simp_all
  have so: "same_out ?P (\<lambda>_. 0) (path_mem 0x87001000 0x87002000 0x87003000 demo_pte)"
    using same_out_trans [OF same_out_trans [OF h(1,2)] h(3)] by (rule same_out_mono) simp
  have al: "\<forall>p \<in> ?P. aligned 12 p" using demo_pages by (simp add: page_def)
  have "kpages demo_state {0x87FFF000}" unfolding demo_state_def
    by (rule kpages_same_out [OF kpages_mstate0 _ _ al]) (use so in simp_all)
  moreover have "pt_ok (mem demo_state) 2 0x87001000 ?P"
    unfolding demo_state_def using path_table(1) [OF demo_pages, of demo_pte] by simp
  ultimately show ?thesis by (simp add: table_def)
qed

lemma demo_lookup: "lookup (mem demo_state) 0x87001000 va = (if \<forall>l \<le> 2. PX l va = 0 then Some demo_pte else None)"
proof -
  have "pte_opt demo_pte = Some demo_pte"
    using pte_opt_valid [of "PA2PTE 0x87004000 OR (PTE_W OR PTE_R OR PTE_U)"] by (simp add: demo_pte_def or.assoc)
  then show ?thesis using path_table(2) [OF demo_pages, of demo_pte va] by (simp add: demo_state_def)
qed

lemma demo_unmapped: "lookup (mem demo_state) 0x87001000 0x3000 = None"
proof -
  have "PX 0 0x3000 = 3" by (simp add: PX_def PXSHIFT_def PGSHIFT_def PXMASK_def)
  then have "PX 0 0x3000 \<noteq> 0" by simp
  then have "\<not> (\<forall>l \<le> 2. PX l 0x3000 = 0)" by (intro notI) auto
  then show ?thesis by (simp only: demo_lookup if_False)
qed

lemma demo_mapped: "lookup (mem demo_state) 0x87001000 0 = Some demo_pte"
  by (simp add: demo_lookup PX_def)

theorem mappages_correct_witness:
  "\<exists>r t. mappages 0x87001000 0x3000 PGSIZE 0x87005000 PTE_R demo_state = ret r t \<and>
     (r = 0 \<longrightarrow> lookup (mem t) 0x87001000 0x3000 = Some (PA2PTE 0x87005000 OR PTE_R OR PTE_V))"
proof -
  have al: "aligned 12 (0x3000 :: uint64)" by (simp add: aligned_mod PGSIZE_def)
  have lt: "(0x3000 :: uint64) < MAXVA" by (simp add: MAXVA_def)
  from mappages_correct [OF demo_table al lt demo_unmapped, of "0x87005000" PTE_R]
  show ?thesis using lt PGROUNDDOWN_aligned [OF al] by auto
qed

end
