(* ===== verification/UserMem.thy ===== *)
theory UserMem
  imports PageTable
begin

text \<open>
  User memory as the kernel sees it through a page table: \<open>ubyte m pt va\<close> is the byte at user address
  \<open>va\<close>. \<^verbatim>\<open>copyin\<close>, \<^verbatim>\<open>copyout\<close> and \<^verbatim>\<open>copyinstr\<close> of \<^verbatim>\<open>kernel/vm.c\<close> read and write that view.
\<close>

definition upage :: "mem \<Rightarrow> uint64 \<Rightarrow> uint64 \<Rightarrow> uint64 option" where
  "upage m pt va =
     (if va \<ge> MAXVA then None
      else case lookup m pt va of None \<Rightarrow> None
        | Some e \<Rightarrow> if e AND PTE_U = 0 then None else Some (PTE2PA e))"

definition ubyte :: "mem \<Rightarrow> uint64 \<Rightarrow> uint64 \<Rightarrow> uchar option" where
  "ubyte m pt va = map_option (\<lambda>pa. m (pa + (va - PGROUNDDOWN va))) (upage m pt va)"

section \<open>Addresses within a page\<close>

lemma bit_of_nat_less:
  assumes "k < 2 ^ n" "bit (of_nat k :: uint64) j"
  shows "j < n"
proof -
  from assms(2) have "bit k j" by (simp add: bit_of_nat_iff)
  moreover have "take_bit n k = k" using assms by (simp add: take_bit_nat_eq_self)
  ultimately show ?thesis by (metis bit_take_bit_iff)
qed

lemma PGROUNDDOWN_offset:
  assumes "aligned 12 a" "k < 4096"
  shows "PGROUNDDOWN (a + of_nat k) = a"
proof (rule bit_word_eqI)
  fix j :: nat
  show "bit (PGROUNDDOWN (a + of_nat k)) j = bit a j"
    using aligned_bit [OF assms(1), of j] add_of_nat_or [OF assms(1), of k] bit_of_nat_less [of k 12 j] assms(2)
    by (cases "j < 12") (auto simp: PGROUNDDOWN_bits bit_or_iff)
qed

text \<open>\<open>pg_off va\<close>: the offset of \<open>va\<close> in its page; \<open>pg_left va\<close>: the bytes from \<open>va\<close> to the end of its page.\<close>

definition pg_off :: "uint64 \<Rightarrow> nat" where
  "pg_off va = unat (va - PGROUNDDOWN va)"

definition pg_left :: "uint64 \<Rightarrow> nat" where
  "pg_left va = unat (PGSIZE - (va - PGROUNDDOWN va))"

lemma off_left: "pg_off va < 4096" "pg_left va = 4096 - pg_off va" "PGROUNDDOWN va + of_nat (pg_off va) = va"
proof -
  have d: "va - PGROUNDDOWN va = va mod PGSIZE" by (simp add: PGROUNDDOWN_mod)
  show lt: "pg_off va < 4096" unfolding pg_off_def d by (simp add: unat_mod_distrib PGSIZE_def)
  show "pg_left va = 4096 - pg_off va"
    using lt by (simp add: pg_left_def pg_off_def unat_sub word_le_nat_alt PGSIZE_def)
  show "PGROUNDDOWN va + of_nat (pg_off va) = va" by (simp add: pg_off_def)
qed

lemma same_page:
  assumes "j < pg_left va"
  shows "PGROUNDDOWN (va + of_nat j) = PGROUNDDOWN va"
    "va + of_nat j - PGROUNDDOWN (va + of_nat j) = (va - PGROUNDDOWN va) + of_nat j"
proof -
  have eq: "va + of_nat j = PGROUNDDOWN va + of_nat (pg_off va + j)"
    using off_left(3) [of va] by (simp add: add.assoc [symmetric])
  have "pg_off va + j < 4096" using assms off_left(1,2) [of va] by simp
  then show p: "PGROUNDDOWN (va + of_nat j) = PGROUNDDOWN va"
    unfolding eq by (rule PGROUNDDOWN_offset [OF aligned_PGROUNDDOWN])
  show "va + of_nat j - PGROUNDDOWN (va + of_nat j) = (va - PGROUNDDOWN va) + of_nat j"
    unfolding p by simp
qed

lemma next_page: "PGROUNDDOWN va + PGSIZE = va + of_nat (pg_left va)"
proof -
  have "of_nat (pg_off va + pg_left va) = (4096 :: uint64)" using off_left(1,2) [of va] by simp
  then have "(of_nat (pg_off va) + of_nat (pg_left va) :: uint64) = PGSIZE" by (simp add: PGSIZE_def)
  then show ?thesis using off_left(3) [of va] by (metis add.assoc)
qed

lemma PX_PGROUNDDOWN: "PX l (PGROUNDDOWN va) = PX l va"
  by (rule bit_word_eqI) (auto simp: bit_PX PGROUNDDOWN_bits PXSHIFT_def PGSHIFT_def)

lemma pte_addr_page: "pte_addr m l pt (PGROUNDDOWN va) = pte_addr m l pt va"
  by (induction l arbitrary: pt) (simp_all add: pte_addr.simps PX_PGROUNDDOWN Let_def)

lemma below_MAXVA_page: "PGROUNDDOWN va < MAXVA \<longleftrightarrow> va < MAXVA"
proof
  assume "va < MAXVA"
  moreover have "PGROUNDDOWN va \<le> va"
    by (simp add: word_le_nat_alt unat_PGROUNDDOWN)
  ultimately show "PGROUNDDOWN va < MAXVA" by simp
qed (rule PGROUNDDOWN_below)

lemma upage_page: "upage m pt (PGROUNDDOWN va) = upage m pt va"
  using below_MAXVA_page [of va] by (simp add: upage_def lookup_def leaf_def pte_addr_page not_less [symmetric])

lemma upage_same: "j < pg_left va \<Longrightarrow> upage m pt (va + of_nat j) = upage m pt va"
  by (metis same_page(1) upage_page)

lemma walkaddr_upage:
  assumes "pt_ok (mem s) 2 pt P" "\<forall>va. upage (mem s) pt va \<noteq> Some 0"
  shows "walkaddr pt (PGROUNDDOWN va) s = ret (case upage (mem s) pt va of None \<Rightarrow> 0 | Some pa \<Rightarrow> pa) s"
  using walkaddr_eq [OF assms(1), of "PGROUNDDOWN va"] upage_page [of "mem s" pt va]
  by (auto simp: upage_def split: option.splits if_splits)

section \<open>Reading user memory\<close>

text \<open>A page table that maps no user page to physical address 0.\<close>

definition utable :: "mem \<Rightarrow> uint64 \<Rightarrow> uint64 set \<Rightarrow> bool" where
  "utable m pt P \<longleftrightarrow> pt_ok m 2 pt P \<and> (\<forall>va. upage m pt va \<noteq> Some 0)"

definition umapped :: "mem \<Rightarrow> uint64 \<Rightarrow> uint64 \<Rightarrow> nat \<Rightarrow> bool" where
  "umapped m pt va n \<longleftrightarrow> (\<forall>i < n. upage m pt (va + of_nat i) \<noteq> None)"

definition ubytes :: "mem \<Rightarrow> uint64 \<Rightarrow> uint64 \<Rightarrow> nat \<Rightarrow> uchar list" where
  "ubytes m pt va n = map (\<lambda>i. the (ubyte m pt (va + of_nat i))) [0..<n]"

lemma ubytes_page:
  assumes "upage m pt va = Some pa" "n \<le> pg_left va"
  shows "ubytes m pt va n = ld_bytes m (pa + (va - PGROUNDDOWN va)) n"
  using assms by (auto simp: ubytes_def ld_bytes_def ubyte_def upage_same same_page(2) add.assoc)

lemma ubytes_append: "ubytes m pt va n @ ubytes m pt (va + of_nat n) k = ubytes m pt va (n + k)"
proof -
  have "[0..<n + k] = [0..<n] @ [n..<n + k]" by (rule upt_add_eq_append) simp
  also have "[n..<n + k] = map (\<lambda>i. i + n) [0..<k]" by (subst map_add_upt) (simp add: add.commute)
  finally show ?thesis by (simp add: ubytes_def algebra_simps)
qed

lemma umapped_split: "umapped m pt va (n + k) \<longleftrightarrow> umapped m pt va n \<and> umapped m pt (va + of_nat n) k"
proof -
  have "(\<forall>i < n + k. Q i) \<longleftrightarrow> (\<forall>i < n. Q i) \<and> (\<forall>i < k. Q (n + i))" for Q :: "nat \<Rightarrow> bool"
    by (metis add_less_cancel_left le_add_diff_inverse linorder_not_less trans_less_add1)
  from this [of "\<lambda>i. upage m pt (va + of_nat i) \<noteq> None"] show ?thesis
    by (simp add: umapped_def add.assoc)
qed

lemma copyin_0: "copyin pt va 0 s = ret (0, []) s"
  by (subst copyin.simps) simp

lemma copyin_eq:
  assumes "utable (mem s) pt P"
  shows "\<exists>r bs. copyin pt va len s = ret (r, bs) s \<and>
    (if umapped (mem s) pt va len then r = 0 \<and> bs = ubytes (mem s) pt va len else r = -1)"
proof (induction len arbitrary: va rule: less_induct)
  case (less len)
  let ?n = "if pg_left va > len then len else pg_left va"
  have w: "walkaddr pt (PGROUNDDOWN va) s = ret (case upage (mem s) pt va of None \<Rightarrow> 0 | Some pa \<Rightarrow> pa) s"
    using assms by (auto simp: utable_def intro!: walkaddr_upage)
  show ?case
  proof (cases "len = 0")
    case True
    then show ?thesis by (subst copyin.simps) (simp add: umapped_def ubytes_def)
  next
    case pos: False
    show ?thesis
    proof (cases "upage (mem s) pt va")
      case None
      then have "\<not> umapped (mem s) pt va len" using pos by (auto simp: umapped_def intro!: exI [of _ 0])
      with w None pos show ?thesis by (subst copyin.simps) (simp add: Let_def)
    next
      case (Some pa)
      have n: "?n \<le> len" "?n \<le> pg_left va" "0 < ?n" using pos page_rest_pos(1) [of va] by (auto simp: pg_left_def)
      have "pa \<noteq> 0" using assms Some by (auto simp: utable_def)
      let ?dst = "ld_bytes (mem s) (pa + (va - PGROUNDDOWN va)) ?n"
      have "copyin pt va len s =
          bnd (copyin pt (PGROUNDDOWN va + PGSIZE) (len - ?n) s) (\<lambda>(r, rest) s. ret (r, ?dst @ rest) s)"
        using w Some pos \<open>pa \<noteq> 0\<close> by (subst copyin.simps) (simp add: Let_def pg_left_def [symmetric] cong: if_cong)
      moreover have "copyin pt (PGROUNDDOWN va + PGSIZE) (len - ?n) s = copyin pt (va + of_nat ?n) (len - ?n) s"
        using n next_page [of va] by (cases "pg_left va > len") (simp_all add: copyin_0)
      moreover obtain r bs where "copyin pt (va + of_nat ?n) (len - ?n) s = ret (r, bs) s"
          "if umapped (mem s) pt (va + of_nat ?n) (len - ?n)
           then r = 0 \<and> bs = ubytes (mem s) pt (va + of_nat ?n) (len - ?n) else r = -1"
        using less.IH [of "len - ?n" "va + of_nat ?n"] n pos by auto
      moreover have "umapped (mem s) pt va ?n" using Some n(2) by (auto simp: umapped_def upage_same)
      then have "umapped (mem s) pt va len \<longleftrightarrow> umapped (mem s) pt (va + of_nat ?n) (len - ?n)"
        using umapped_split [of "mem s" pt va ?n "len - ?n"] n(1) by simp
      moreover have "ubytes (mem s) pt va len = ?dst @ ubytes (mem s) pt (va + of_nat ?n) (len - ?n)"
        using ubytes_append [of "mem s" pt va ?n "len - ?n"] ubytes_page [OF Some n(2)] n(1) by simp
      ultimately show ?thesis by simp
    qed
  qed
qed


section \<open>Writing user memory\<close>

text \<open>
  A user address space: the user pages are aligned, are not table pages, and no physical page is mapped
  at two user addresses.
\<close>

definition uspace :: "mem \<Rightarrow> uint64 \<Rightarrow> uint64 set \<Rightarrow> bool" where
  "uspace m pt P \<longleftrightarrow> utable m pt P \<and>
     (\<forall>va pa. upage m pt va = Some pa \<longrightarrow> aligned 12 pa \<and> pa \<notin> P) \<and>
     (\<forall>va vb pa. upage m pt va = Some pa \<longrightarrow> upage m pt vb = Some pa \<longrightarrow> PGROUNDDOWN va = PGROUNDDOWN vb)"

lemma uspace_page: "uspace m pt P \<Longrightarrow> upage m pt va = Some pa \<Longrightarrow> aligned 12 pa \<and> pa \<notin> P"
  unfolding uspace_def by blast

lemma uspace_inj:
  "uspace m pt P \<Longrightarrow> upage m pt va = Some pa \<Longrightarrow> upage m pt vb = Some pa \<Longrightarrow> PGROUNDDOWN va = PGROUNDDOWN vb"
  unfolding uspace_def by blast

definition upages :: "mem \<Rightarrow> uint64 \<Rightarrow> uint64 set" where
  "upages m pt = {pa. \<exists>va. upage m pt va = Some pa}"

lemma range_split:
  fixes va vb :: uint64
  assumes "n \<le> len" "len < 2 ^ 64"
  shows "unat (vb - va) < n \<Longrightarrow> \<not> unat (vb - (va + of_nat n)) < len - n"
    and "\<not> unat (vb - va) < n \<Longrightarrow> unat (vb - (va + of_nat n)) = unat (vb - va) - n"
proof -
  have e: "vb - (va + of_nat n) = (vb - va) - of_nat n" by simp
  have n: "unat (of_nat n :: uint64) = n" using assms by (simp add: unat_of_nat)
  show "unat (vb - va) < n \<Longrightarrow> \<not> unat (vb - (va + of_nat n)) < len - n"
    using assms unfolding e unat_sub_if' n by simp
  show "\<not> unat (vb - va) < n \<Longrightarrow> unat (vb - (va + of_nat n)) = unat (vb - va) - n"
    unfolding e unat_sub_if' n by simp
qed

lemma upage_agree: "pt_ok m 2 pt P \<Longrightarrow> agree P m m' \<Longrightarrow> upage m' pt va = upage m pt va"
  by (simp add: upage_def lookup_def leaf_frame)

lemma same_out_st_bytes:
  assumes "k + length bs \<le> 4096"
  shows "same_out {pa} m (st_bytes m (pa + of_nat k) bs)"
  unfolding same_out_def
proof (intro allI impI)
  fix x assume x: "\<forall>p \<in> {pa}. \<not> in_page p x"
  have "\<not> unat (x - (pa + of_nat k)) < length bs"
    using range_split [of k "k + length bs" x pa] x assms by (cases "unat (x - pa) < k") (auto simp: in_page_def)
  then show "m x = st_bytes m (pa + of_nat k) bs x" using assms by (simp add: st_bytes_apply)
qed

lemma uspace_write:
  assumes us: "uspace m pt P" and pa: "upage m pt va = Some pa" and len: "length bs \<le> pg_left va"
    and m': "m' = st_bytes m (pa + (va - PGROUNDDOWN va)) bs"
  shows "uspace m' pt P" "\<And>vb. upage m' pt vb = upage m pt vb" "same_out {pa} m m'"
    "\<And>vb. ubyte m' pt vb = (if unat (vb - va) < length bs then Some (bs ! unat (vb - va)) else ubyte m pt vb)"
proof -
  have ofs: "va - PGROUNDDOWN va = of_nat (pg_off va)" by (simp add: pg_off_def)
  have l: "pg_off va + length bs \<le> 4096" using len off_left [of va] by simp
  show so: "same_out {pa} m m'" unfolding m' ofs by (rule same_out_st_bytes [OF l])
  have ok: "pt_ok m 2 pt P" using us by (simp add: uspace_def utable_def)
  have "\<forall>p \<in> P. aligned 12 p" using pt_ok_pages [OF ok] by (simp add: page_def)
  moreover have "aligned 12 pa" "pa \<notin> P" using uspace_page [OF us pa] by auto
  ultimately have ag: "agree P m m'" by (intro same_out_agree [OF so]) auto
  show up: "upage m' pt vb = upage m pt vb" for vb by (rule upage_agree [OF ok ag])
  from us pt_ok_frame [OF ok ag] show "uspace m' pt P" unfolding uspace_def utable_def up by blast
  have st: "m' x = (if unat (x - (pa + of_nat (pg_off va))) < length bs
      then bs ! unat (x - (pa + of_nat (pg_off va))) else m x)" for x
    using l unfolding m' ofs by (simp add: st_bytes_apply)
  fix vb
  show "ubyte m' pt vb = (if unat (vb - va) < length bs then Some (bs ! unat (vb - va)) else ubyte m pt vb)"
  proof (cases "PGROUNDDOWN vb = PGROUNDDOWN va")
    case True
    then have pb: "upage m pt vb = Some pa" using pa by (metis upage_page)
    have e: "pa + (vb - PGROUNDDOWN vb) - (pa + of_nat (pg_off va)) = vb - va"
      using off_left(3) [of va] True by (simp add: algebra_simps)
    from pb st [of "pa + (vb - PGROUNDDOWN vb)", unfolded e] show ?thesis by (simp add: ubyte_def up)
  next
    case False
    have "\<not> unat (vb - va) < length bs"
    proof
      assume "unat (vb - va) < length bs"
      then have "PGROUNDDOWN (va + of_nat (unat (vb - va))) = PGROUNDDOWN va"
        using len by (intro same_page) simp
      with False show False by simp
    qed
    moreover have "m' (pb + (vb - PGROUNDDOWN vb)) = m (pb + (vb - PGROUNDDOWN vb))"
      if pb: "upage m pt vb = Some pb" for pb
    proof -
      have "pb \<noteq> pa" using uspace_inj [OF us pa] pb False by metis
      moreover have "aligned 12 pb" "aligned 12 pa" using uspace_page [OF us] pa pb by auto
      moreover have "in_page pb (pb + (vb - PGROUNDDOWN vb))"
        using off_left(1) [of vb] by (simp add: in_page_def pg_off_def)
      ultimately have "\<not> in_page pa (pb + (vb - PGROUNDDOWN vb))" using in_page_unique by blast
      with so show ?thesis by (simp add: same_out_def)
    qed
    ultimately show ?thesis by (cases "upage m pt vb") (simp_all add: ubyte_def up)
  qed
qed


lemma copyout_Nil: "copyout pt va [] s = ret 0 s"
  by (subst copyout.simps) simp

lemma copyout_eq:
  assumes "uspace (mem s) pt P" "length src < 2 ^ 64"
  shows "\<exists>r m'. copyout pt va src s = ret r (s\<lparr>mem := m'\<rparr>) \<and> uspace m' pt P \<and>
    (\<forall>vb. upage m' pt vb = upage (mem s) pt vb) \<and> same_out (upages (mem s) pt) (mem s) m' \<and>
    (if umapped (mem s) pt va (length src)
     then r = 0 \<and> (\<forall>vb. ubyte m' pt vb =
       (if unat (vb - va) < length src then Some (src ! unat (vb - va)) else ubyte (mem s) pt vb))
     else r = -1)"
  using assms
proof (induction "length src" arbitrary: src va s rule: less_induct)
  case less
  let ?m = "mem s"
  define n where "n = (if pg_left va > length src then length src else pg_left va)"
  have w: "walkaddr pt (PGROUNDDOWN va) s = ret (case upage ?m pt va of None \<Rightarrow> 0 | Some pa \<Rightarrow> pa) s"
    using less.prems(1) by (auto simp: uspace_def utable_def intro!: walkaddr_upage)
  show ?case
  proof (cases "src = []")
    case True
    with less.prems(1) show ?thesis
      by (intro exI [of _ 0] exI [of _ ?m]) (simp add: copyout_Nil umapped_def)
  next
    case pos: False
    show ?thesis
    proof (cases "upage ?m pt va")
      case None
      then have "\<not> umapped ?m pt va (length src)" using pos by (auto simp: umapped_def intro!: exI [of _ 0])
      with w None pos less.prems(1) show ?thesis
        by (intro exI [of _ "-1"] exI [of _ ?m]) (subst copyout.simps, simp add: Let_def)
    next
      case (Some pa)
      have n: "n \<le> length src" "n \<le> pg_left va" "0 < n" using pos page_rest_pos(1) [of va] by (auto simp: pg_left_def n_def)
      have "pa \<noteq> 0" using less.prems(1) Some by (auto simp: uspace_def utable_def)
      let ?m1 = "st_bytes ?m (pa + (va - PGROUNDDOWN va)) (take n src)"
      let ?s1 = "s\<lparr>mem := ?m1\<rparr>"
      have "length (take n src) \<le> pg_left va" using n(2) by simp
      note wr = uspace_write [OF less.prems(1) Some this refl]
      have "copyout pt va src s = copyout pt (PGROUNDDOWN va + PGSIZE) (drop n src) ?s1"
        using w Some pos \<open>pa \<noteq> 0\<close> by (subst copyout.simps) (simp add: Let_def pg_left_def [symmetric] n_def cong: if_cong)
      also have "\<dots> = copyout pt (va + of_nat n) (drop n src) ?s1"
        using n next_page [of va] by (cases "pg_left va > length src") (simp_all add: copyout_Nil n_def)
      finally have step: "copyout pt va src s = copyout pt (va + of_nat n) (drop n src) ?s1" .
      have up: "upages ?m1 pt = upages ?m pt" by (simp add: upages_def wr(2))
      have um: "umapped ?m1 pt (va + of_nat n) (length src - n) \<longleftrightarrow> umapped ?m pt va (length src)"
      proof -
        have "umapped ?m pt va n" using Some n(2) by (auto simp: umapped_def upage_same)
        then show ?thesis
          using umapped_split [of ?m pt va n "length src - n"] n(1) by (simp add: umapped_def wr(2))
      qed
      have "\<exists>r m'. copyout pt (va + of_nat n) (drop n src) ?s1 = ret r (?s1\<lparr>mem := m'\<rparr>) \<and> uspace m' pt P \<and>
        (\<forall>vb. upage m' pt vb = upage (mem ?s1) pt vb) \<and> same_out (upages (mem ?s1) pt) (mem ?s1) m' \<and>
        (if umapped (mem ?s1) pt (va + of_nat n) (length (drop n src))
         then r = 0 \<and> (\<forall>vb. ubyte m' pt vb = (if unat (vb - (va + of_nat n)) < length (drop n src)
           then Some (drop n src ! unat (vb - (va + of_nat n))) else ubyte (mem ?s1) pt vb))
         else r = -1)"
        by (rule less.hyps) (use n wr(1) less.prems(2) pos in simp_all)
      then obtain r m' where ih: "copyout pt (va + of_nat n) (drop n src) ?s1 = ret r (?s1\<lparr>mem := m'\<rparr>)"
          "uspace m' pt P" "\<forall>vb. upage m' pt vb = upage ?m1 pt vb" "same_out (upages ?m1 pt) ?m1 m'"
          "if umapped ?m pt va (length src)
           then r = 0 \<and> (\<forall>vb. ubyte m' pt vb = (if unat (vb - (va + of_nat n)) < length src - n
             then Some (src ! (n + unat (vb - (va + of_nat n)))) else ubyte ?m1 pt vb))
           else r = -1"
        using n(1) by (simp add: um cong: if_cong) blast
      have "same_out (upages ?m pt) ?m m'"
        using same_out_trans [OF wr(3) ih(4)]
        by (rule same_out_mono) (use Some up in \<open>simp, auto simp: upages_def\<close>)
      moreover have "ubyte m' pt vb = (if unat (vb - va) < length src then Some (src ! unat (vb - va)) else ubyte ?m pt vb)"
        if "umapped ?m pt va (length src)" for vb
        using ih(5) that range_split [OF n(1) less.prems(2), of vb va] n(1) wr(4) [of vb]
        by (cases "unat (vb - va) < n") auto
      ultimately show ?thesis using step ih by (intro exI [of _ r] exI [of _ m']) (auto simp: wr(2))
    qed
  qed
qed


section \<open>Properties\<close>


text \<open>
  C24. \<^verbatim>\<open>copyout\<close> succeeds exactly when every byte of the destination is mapped for the user; then the
  user sees the copied bytes in the destination and its old bytes everywhere else. Whatever happens,
  no mapping changes and only user pages are written.
\<close>

theorem copyout_correct:
  assumes "uspace (mem s) pt P" "length src < 2 ^ 64"
  shows "\<exists>r m'. copyout pt va src s = ret r (s\<lparr>mem := m'\<rparr>) \<and> uspace m' pt P \<and>
    (\<forall>vb. upage m' pt vb = upage (mem s) pt vb) \<and>
    (\<forall>x. (\<forall>vb pa. upage (mem s) pt vb = Some pa \<longrightarrow> \<not> in_page pa x) \<longrightarrow> m' x = mem s x) \<and>
    (r = 0 \<longleftrightarrow> (\<forall>i < length src. ubyte (mem s) pt (va + of_nat i) \<noteq> None)) \<and>
    (r = 0 \<longrightarrow> (\<forall>vb. ubyte m' pt vb =
       (if unat (vb - va) < length src then Some (src ! unat (vb - va)) else ubyte (mem s) pt vb)))"
proof -
  from copyout_eq [OF assms, of va] obtain r m' where
    r: "copyout pt va src s = ret r (s\<lparr>mem := m'\<rparr>)" "uspace m' pt P"
      "\<forall>vb. upage m' pt vb = upage (mem s) pt vb" "same_out (upages (mem s) pt) (mem s) m'"
      "if umapped (mem s) pt va (length src)
       then r = 0 \<and> (\<forall>vb. ubyte m' pt vb =
         (if unat (vb - va) < length src then Some (src ! unat (vb - va)) else ubyte (mem s) pt vb))
       else r = -1" by blast
  have um: "umapped (mem s) pt va (length src) \<longleftrightarrow> (\<forall>i < length src. ubyte (mem s) pt (va + of_nat i) \<noteq> None)"
    by (simp add: umapped_def ubyte_def)
  have "\<forall>x. (\<forall>vb pa. upage (mem s) pt vb = Some pa \<longrightarrow> \<not> in_page pa x) \<longrightarrow> m' x = mem s x"
  proof (intro allI impI)
    fix x assume "\<forall>vb pa. upage (mem s) pt vb = Some pa \<longrightarrow> \<not> in_page pa x"
    then have "\<forall>p \<in> upages (mem s) pt. \<not> in_page p x" by (auto simp: upages_def)
    with r(4) show "m' x = mem s x" by (simp add: same_out_def)
  qed
  with r show ?thesis unfolding um by (intro exI [of _ r] exI [of _ m'] conjI) (simp_all split: if_splits)
qed

text \<open>
  C25. A \<^verbatim>\<open>copyout\<close> that succeeds is read back unchanged by \<^verbatim>\<open>copyin\<close> at the same address.
\<close>

theorem copyout_copyin_roundtrip:
  assumes "uspace (mem s) pt P" "length src < 2 ^ 64" "copyout pt va src s = ret 0 t"
  shows "copyin pt va (length src) t = ret (0, src) t"
proof -
  from copyout_eq [OF assms(1,2), of va] assms(3) obtain m' where
    t: "t = s\<lparr>mem := m'\<rparr>" "uspace m' pt P" "\<forall>vb. upage m' pt vb = upage (mem s) pt vb"
      "umapped (mem s) pt va (length src)"
      "\<forall>vb. ubyte m' pt vb =
         (if unat (vb - va) < length src then Some (src ! unat (vb - va)) else ubyte (mem s) pt vb)"
    by (auto split: if_splits)
  have "utable (mem t) pt P" "umapped (mem t) pt va (length src)"
    using t by (simp_all add: uspace_def umapped_def)
  moreover have "ubytes (mem t) pt va (length src) = src"
    using assms(2) by (intro nth_equalityI) (simp_all add: ubytes_def t unat_of_nat)
  ultimately show ?thesis using copyin_eq [of t pt P va "length src"] by auto
qed


text \<open>The one-path table as a user address space: page 0 is user memory at \<open>0x87004000\<close>.\<close>

lemma demo_upage: "upage (mem demo_state) 0x87001000 va = (if va < PGSIZE then Some 0x87004000 else None)"
proof -
  have u: "demo_pte AND PTE_U \<noteq> 0" "PTE2PA demo_pte = 0x87004000"
    by (simp_all add: demo_pte_def PA2PTE_def PTE2PA_def pte_flags)
  have "(\<forall>l \<le> 2. PX l va = 0) \<longleftrightarrow> va < PGSIZE" if "va < MAXVA"
  proof -
    have "(\<forall>l \<le> 2. PX l va = 0) \<longleftrightarrow> PGROUNDDOWN va = PGROUNDDOWN 0"
      using PX_eq_iff [OF that, of 0] by (simp add: PX_def MAXVA_def)
    also have "\<dots> \<longleftrightarrow> unat va div 4096 = 0"
      by (simp add: word_unat_eq_iff unat_PGROUNDDOWN)
    also have "\<dots> \<longleftrightarrow> va < PGSIZE"
      by (simp add: word_less_nat_alt PGSIZE_def div_eq_0_iff)
    finally show ?thesis .
  qed
  moreover have "va < PGSIZE \<Longrightarrow> va < MAXVA" by (simp add: PGSIZE_def MAXVA_def word_less_nat_alt)
  ultimately show ?thesis using u by (cases "va < MAXVA") (auto simp: upage_def demo_lookup not_less [symmetric])
qed

lemma demo_uspace: "uspace (mem demo_state) 0x87001000 {0x87001000, 0x87002000, 0x87003000}"
proof -
  have ok: "pt_ok (mem demo_state) 2 0x87001000 {0x87001000, 0x87002000, 0x87003000}"
    using demo_table by (simp add: table_def)
  have "PGROUNDDOWN va = 0" if "va < PGSIZE" for va
    using that by (simp add: word_unat_eq_iff unat_PGROUNDDOWN word_less_nat_alt PGSIZE_def)
  then show ?thesis
    using ok by (auto simp: uspace_def utable_def demo_upage aligned_mod PGSIZE_def split: if_splits)
qed

lemma demo_ubyte: "i < 4096 \<Longrightarrow> ubyte (mem demo_state) 0x87001000 (of_nat i) \<noteq> None"
proof -
  assume "i < 4096"
  then have "(of_nat i :: uint64) < PGSIZE" by (simp add: word_less_nat_alt PGSIZE_def unat_of_nat)
  then show ?thesis by (simp add: ubyte_def demo_upage)
qed


theorem copyout_correct_witness: "\<exists>t. copyout 0x87001000 8 [1, 2, 3] demo_state = ret 0 t \<and> ubyte (mem t) 0x87001000 9 = Some 2"
proof -
  have "ubyte (mem demo_state) 0x87001000 (8 + of_nat i) \<noteq> None" if "i < 3" for i
    using demo_ubyte [of "8 + i"] that by simp
  then have a: "\<forall>i < length [1, 2, 3 :: uchar]. ubyte (mem demo_state) 0x87001000 (8 + of_nat i) \<noteq> None"
    by simp
  from copyout_correct [OF demo_uspace, of "[1, 2, 3]" 8] obtain r m' where
    "copyout 0x87001000 8 [1, 2, 3] demo_state = ret r (demo_state\<lparr>mem := m'\<rparr>)" "r = 0"
    "\<forall>vb. ubyte m' 0x87001000 vb = (if unat (vb - 8) < length [1, 2, 3 :: uchar] then Some ([1, 2, 3] ! unat (vb - 8))
       else ubyte (mem demo_state) 0x87001000 vb)"
    using a by auto
  then show ?thesis by (intro exI [of _ "demo_state\<lparr>mem := m'\<rparr>"]) simp
qed

theorem copyout_copyin_roundtrip_witness:
  "\<exists>t. copyout 0x87001000 8 [1, 2, 3] demo_state = ret 0 t \<and> copyin 0x87001000 8 3 t = ret (0, [1, 2, 3]) t"
proof -
  have "umapped (mem demo_state) 0x87001000 8 (length [1, 2, 3 :: uchar])"
    by (simp add: umapped_def demo_upage word_less_nat_alt PGSIZE_def unat_word_ariths unat_of_nat)
  moreover have l: "length [1, 2, 3 :: uchar] < 2 ^ 64" by simp
  ultimately obtain t where
    t: "copyout 0x87001000 8 [1, 2, 3] demo_state = ret 0 t"
    using copyout_eq [OF demo_uspace l, of 8] by (auto simp del: list.size)
  with copyout_copyin_roundtrip [OF demo_uspace _ t] show ?thesis by (auto simp: numeral_3_eq_3)
qed

end
