(* ===== verification/Ring.thy ===== *)
theory Ring
  imports Prelude
begin

text \<open>
  The circular buffers of the kernel: the pipe, the console input buffer and the UART transmit buffer
  all keep two free-running counters and index an array with the counter modulo its size. The counters
  wrap around at the width of their C type; since the size is a power of two, the buffer still behaves
  as a queue.
\<close>

text \<open>The bytes between the read counter \<open>r\<close> and the write counter \<open>w\<close>, oldest first.\<close>

definition ring_list :: "nat \<Rightarrow> (nat \<Rightarrow> 'b) \<Rightarrow> 'a::len word \<Rightarrow> 'a word \<Rightarrow> 'b list" where
  "ring_list n f r w = map (\<lambda>i. f (unat (r + of_nat i) mod n)) [0..<unat (w - r)]"

lemma length_ring_list [simp]: "length (ring_list n f r w) = unat (w - r)"
  by (simp add: ring_list_def)

lemma ring_empty [simp]: "ring_list n f r r = []"
  by (simp add: ring_list_def)

lemma ring_list_Nil: "ring_list n f r w = [] \<longleftrightarrow> r = w"
proof -
  have "unat (w - r) = 0 \<longleftrightarrow> r = w" by (auto simp: unat_eq_zero)
  then show ?thesis by (simp add: ring_list_def)
qed

text \<open>
  A ring of \<open>n\<close> slots whose counters are words of type \<open>'a\<close>: \<open>n\<close> divides the number of counter values.
\<close>

locale ring =
  fixes n :: nat and ty :: "'a::len itself"
  assumes pos: "0 < n" and div: "n dvd 2 ^ LENGTH('a)" and small: "n < 2 ^ LENGTH('a)"
begin

lemma unat_add_mod: "unat (r + of_nat i :: 'a word) mod n = (unat r + i) mod n"
proof -
  have "unat (r + of_nat i) = (unat r + i) mod 2 ^ LENGTH('a)"
    by (simp add: unat_word_ariths unat_of_nat mod_add_right_eq)
  then show ?thesis by (simp add: mod_mod_cancel div)
qed

lemma slot_inj:
  assumes "i < n" "j < n" "(k + i) mod n = (k + j) mod n"
  shows "i = j"
proof -
  have *: "i = j" if "i \<le> j" "j < n" "(k + i) mod n = (k + j) mod n" for i j
  proof -
    from that have "n dvd (k + j) - (k + i)"
      using mod_eq_dvd_iff_nat [of "k + i" "k + j" n] by simp
    then have "n dvd j - i" by simp
    with that show ?thesis by (auto dest!: dvd_imp_le)
  qed
  show ?thesis using *[of i j] *[of j i] assms by (cases "i \<le> j") auto
qed

lemma unat_Suc_sub:
  fixes r w :: "'a word"
  assumes "unat (w - r) < n"
  shows "unat (w + 1 - r) = Suc (unat (w - r))"
proof -
  have e: "w + 1 - r = (w - r) + 1" by simp
  show ?thesis unfolding e using assms small unat_add_lem [of "w - r" 1] by simp
qed

lemma slot:
  fixes r w :: "'a word"
  shows "unat w mod n = (unat r + unat (w - r)) mod n"
  using unat_add_mod [of r "unat (w - r)"] by simp

text \<open>Writing appends, reading removes the oldest byte.\<close>

lemma put:
  fixes r w :: "'a word"
  assumes "unat (w - r) < n"
  shows "ring_list n (f(unat w mod n := c)) r (w + 1) = ring_list n f r w @ [c]"
proof -
  have "(unat r + i) mod n \<noteq> (unat r + unat (w - r)) mod n" if "i < unat (w - r)" for i
    using slot_inj [of i "unat (w - r)"] that assms by auto
  then show ?thesis
    by (simp add: ring_list_def unat_Suc_sub [OF assms] unat_add_mod slot [of w r])
qed

lemma get:
  fixes r w :: "'a word"
  assumes "r \<noteq> w"
  shows "ring_list n f r w = f (unat r mod n) # ring_list n f (r + 1) w"
proof -
  have "unat (w - r) = Suc (unat (w - (r + 1)))"
    using unat_sub_1 [of w r] assms unat_eq_zero [of "w - r"] by (metis Suc_pred' neq0_conv eq_iff_diff_eq_0)
  then show ?thesis
    by (simp add: ring_list_def upt_conv_Cons map_Suc_upt [symmetric] comp_def add.assoc del: upt_Suc)
qed

lemma full: "w = r + of_nat n \<longleftrightarrow> unat (w - r) = n" for r w :: "'a word"
proof -
  have n: "unat (of_nat n :: 'a word) = n" using small by (simp add: unat_of_nat)
  have "w = r + of_nat n \<longleftrightarrow> w - r = of_nat n" by (auto simp: algebra_simps)
  also have "\<dots> \<longleftrightarrow> unat (w - r) = n" unfolding word_unat_eq_iff n ..
  finally show ?thesis .
qed

end

end
