(* ===== verification/Pipe.thy ===== *)
theory Pipe
  imports UserMem Ring
begin

text \<open>
  \<^verbatim>\<open>kernel/pipe.c\<close>, \<^verbatim>\<open>pipealloc\<close> apart, which belongs to the file table (theory \<open>File\<close>). The page that
  \<^verbatim>\<open>kalloc\<close> returns for a pipe is viewed as a \<^verbatim>\<open>struct pipe\<close>: \<open>pipes\<close> maps its address to the
  structure. A reader or writer that has to wait stops at the context switch inside \<^verbatim>\<open>sleep\<close>;
  \<open>pipewrite_return\<close> and \<open>piperead_return\<close> continue it.
\<close>

section \<open>State and operations\<close>

definition PIPESIZE :: nat where "PIPESIZE = 512"

record pipe =
  pi_lock :: spinlock
  pi_data :: cptr
  pi_nread :: uint
  pi_nwrite :: uint
  pi_readopen :: bool
  pi_writeopen :: bool

record pipestate = mstate +
  pipes :: "uint64 \<Rightarrow> pipe"

definition upd_pipe :: "uint64 \<Rightarrow> (pipe \<Rightarrow> pipe) \<Rightarrow> 'a pipestate_scheme \<Rightarrow> 'a pipestate_scheme" where
  "upd_pipe a h s = s\<lparr>pipes := (pipes s)(a := h (pipes s a))\<rparr>"

definition pi_lk :: "uint64 \<Rightarrow> 'a pipestate_scheme \<Rightarrow> spinlock" where
  "pi_lk a s = pi_lock (pipes s a)"

definition pi_lku :: "uint64 \<Rightarrow> (spinlock \<Rightarrow> spinlock) \<Rightarrow> 'a pipestate_scheme \<Rightarrow> 'a pipestate_scheme" where
  "pi_lku a f s = upd_pipe a (\<lambda>p. p\<lparr>pi_lock := f (pi_lock p)\<rparr>) s"

interpretation pilock: sleep_lock "pi_lk a" "pi_lku a" for a
  by unfold_locales (auto simp: pi_lk_def pi_lku_def upd_pipe_def fun_upd_idem)

definition pipeclose :: "uint64 \<Rightarrow> bool \<Rightarrow> 'a pipestate_scheme \<Rightarrow> ('a pipestate_scheme, unit) out" where
  "pipeclose pi writable s =
     bnd (acquire (pi_lk pi) (pi_lku pi) s) (\<lambda>_ s.
     bnd (if writable
          then wakeup (Ch_pipe_nread pi) (upd_pipe pi (\<lambda>p. p\<lparr>pi_writeopen := False\<rparr>) s)
          else wakeup (Ch_pipe_nwrite pi) (upd_pipe pi (\<lambda>p. p\<lparr>pi_readopen := False\<rparr>) s)) (\<lambda>_ s.
     if \<not> pi_readopen (pipes s pi) \<and> \<not> pi_writeopen (pipes s pi)
     then bnd (release (pi_lk pi) (pi_lku pi) s) (\<lambda>_ s. kfree pi s)
     else release (pi_lk pi) (pi_lku pi) s))"

lemma sched_not_Inr: "sched s \<noteq> Inr r"
  by (auto simp: sched_def curproc_def bnd_def split: sum.splits option.splits)

lemma sleep_not_Inr: "sleep ch g u s \<noteq> Inr r"
  by (auto simp: sleep_def curproc_def bnd_def sched_not_Inr Let_def split: sum.splits option.splits)

definition pipe_put :: "uchar \<Rightarrow> pipe \<Rightarrow> pipe" where
  "pipe_put ch p =
     p\<lparr>pi_data := (pi_data p)(unat (pi_nwrite p) mod PIPESIZE := ch), pi_nwrite := pi_nwrite p + 1\<rparr>"

function pipewrite_loop ::
  "uint64 \<Rightarrow> nat \<Rightarrow> uint64 \<Rightarrow> int \<Rightarrow> int \<Rightarrow> 'a pipestate_scheme \<Rightarrow> ('a pipestate_scheme, int) out" where
  "pipewrite_loop pi pr addr n i s =
     (if i < n then
        if \<not> pi_readopen (pipes s pi) \<or> p_killed (procs s pr) \<noteq> 0
        then bnd (release (pi_lk pi) (pi_lku pi) s) (\<lambda>_ s. ret (-1) s)
        else if pi_nwrite (pipes s pi) = pi_nread (pipes s pi) + of_nat PIPESIZE
        then bnd (wakeup (Ch_pipe_nread pi) s) (\<lambda>_ s.
             bnd (sleep (Ch_pipe_nwrite pi) (pi_lk pi) (pi_lku pi) s) (\<lambda>_ s.
             pipewrite_loop pi pr addr n i s))
        else bnd (copyin (p_pagetable (procs s pr)) (addr + of_int i) 1 s) (\<lambda>(r, chs) s.
             if r = -1 then bnd (wakeup (Ch_pipe_nread pi) s) (\<lambda>_ s.
                            bnd (release (pi_lk pi) (pi_lku pi) s) (\<lambda>_ s. ret i s))
             else pipewrite_loop pi pr addr n (i + 1) (upd_pipe pi (pipe_put (hd chs)) s))
      else bnd (wakeup (Ch_pipe_nread pi) s) (\<lambda>_ s.
           bnd (release (pi_lk pi) (pi_lku pi) s) (\<lambda>_ s. ret i s)))"
  by pat_completeness auto

termination
  by (relation "measure (\<lambda>(_, _, _, n, i, _). nat (n - i))") (auto simp: sleep_not_Inr)

definition pipewrite :: "uint64 \<Rightarrow> uint64 \<Rightarrow> int \<Rightarrow> 'a pipestate_scheme \<Rightarrow> ('a pipestate_scheme, int) out" where
  "pipewrite pi addr n s =
     curproc (\<lambda>pr s. bnd (acquire (pi_lk pi) (pi_lku pi) s) (\<lambda>_ s. pipewrite_loop pi pr addr n 0 s)) s"

definition pipewrite_return ::
  "uint64 \<Rightarrow> nat \<Rightarrow> uint64 \<Rightarrow> int \<Rightarrow> int \<Rightarrow> bool \<Rightarrow> 'a pipestate_scheme \<Rightarrow> ('a pipestate_scheme, int) out" where
  "pipewrite_return pi pr addr n i ie s =
     bnd (sleep_return pr ie (pi_lk pi) (pi_lku pi) s) (\<lambda>_ s. pipewrite_loop pi pr addr n i s)"

definition pipe_get :: "pipe \<Rightarrow> uchar" where
  "pipe_get p = pi_data p (unat (pi_nread p) mod PIPESIZE)"

definition pipe_drop :: "pipe \<Rightarrow> pipe" where
  "pipe_drop p = p\<lparr>pi_nread := pi_nread p + 1\<rparr>"

function piperead_copy ::
  "uint64 \<Rightarrow> nat \<Rightarrow> uint64 \<Rightarrow> int \<Rightarrow> int \<Rightarrow> 'a pipestate_scheme \<Rightarrow> ('a pipestate_scheme, int) out" where
  "piperead_copy pi pr addr n i s =
     (if i < n \<and> pi_nread (pipes s pi) \<noteq> pi_nwrite (pipes s pi) then
        let ch = pipe_get (pipes s pi);
            s = upd_pipe pi pipe_drop s
        in bnd (copyout (p_pagetable (procs s pr)) (addr + of_int i) [ch] s) (\<lambda>r s.
             if r = -1 then ret i s else piperead_copy pi pr addr n (i + 1) s)
      else ret i s)"
  by pat_completeness auto

termination
  by (relation "measure (\<lambda>(_, _, _, n, i, _). nat (n - i))") auto

function piperead_loop ::
  "uint64 \<Rightarrow> nat \<Rightarrow> uint64 \<Rightarrow> int \<Rightarrow> 'a pipestate_scheme \<Rightarrow> ('a pipestate_scheme, int) out" where
  "piperead_loop pi pr addr n s =
     (if pi_nread (pipes s pi) = pi_nwrite (pipes s pi) \<and> pi_writeopen (pipes s pi) then
        if p_killed (procs s pr) \<noteq> 0
        then bnd (release (pi_lk pi) (pi_lku pi) s) (\<lambda>_ s. ret (-1) s)
        else bnd (sleep (Ch_pipe_nread pi) (pi_lk pi) (pi_lku pi) s) (\<lambda>_ s. piperead_loop pi pr addr n s)
      else bnd (piperead_copy pi pr addr n 0 s) (\<lambda>i s.
           bnd (wakeup (Ch_pipe_nwrite pi) s) (\<lambda>_ s.
           bnd (release (pi_lk pi) (pi_lku pi) s) (\<lambda>_ s. ret i s))))"
  by pat_completeness auto

termination
  by (relation "measure (\<lambda>_. 0)") (auto simp: sleep_not_Inr)

definition piperead :: "uint64 \<Rightarrow> uint64 \<Rightarrow> int \<Rightarrow> 'a pipestate_scheme \<Rightarrow> ('a pipestate_scheme, int) out" where
  "piperead pi addr n s =
     curproc (\<lambda>pr s. bnd (acquire (pi_lk pi) (pi_lku pi) s) (\<lambda>_ s. piperead_loop pi pr addr n s)) s"

definition piperead_return ::
  "uint64 \<Rightarrow> nat \<Rightarrow> uint64 \<Rightarrow> int \<Rightarrow> bool \<Rightarrow> 'a pipestate_scheme \<Rightarrow> ('a pipestate_scheme, int) out" where
  "piperead_return pi pr addr n ie s =
     bnd (sleep_return pr ie (pi_lk pi) (pi_lku pi) s) (\<lambda>_ s. piperead_loop pi pr addr n s)"

declare pipewrite_loop.simps [simp del] piperead_copy.simps [simp del] piperead_loop.simps [simp del]


section \<open>The pipe as a queue\<close>

interpretation pring: ring PIPESIZE "TYPE(32)"
  by unfold_locales (simp_all add: PIPESIZE_def)

definition pipe_list :: "pipe \<Rightarrow> uchar list" where
  "pipe_list p = ring_list PIPESIZE (pi_data p) (pi_nread p) (pi_nwrite p)"

definition pipe_ok :: "pipe \<Rightarrow> bool" where
  "pipe_ok p \<longleftrightarrow> length (pipe_list p) \<le> PIPESIZE"

lemma pipe_full: "pi_nwrite p = pi_nread p + of_nat PIPESIZE \<longleftrightarrow> length (pipe_list p) = PIPESIZE"
  using pring.full [of "pi_nwrite p" "pi_nread p"] by (simp add: pipe_list_def)

lemma pipe_put_list:
  assumes "pipe_ok p" "pi_nwrite p \<noteq> pi_nread p + of_nat PIPESIZE"
  shows "pipe_list (pipe_put c p) = pipe_list p @ [c] \<and> pipe_ok (pipe_put c p)"
proof -
  from assms have "length (pipe_list p) < PIPESIZE" unfolding pipe_full pipe_ok_def by simp
  then have "unat (pi_nwrite p - pi_nread p) < PIPESIZE" by (simp add: pipe_list_def)
  from pring.put [OF this] have "pipe_list (pipe_put c p) = pipe_list p @ [c]"
    by (simp add: pipe_list_def pipe_put_def)
  with \<open>length (pipe_list p) < PIPESIZE\<close> show ?thesis by (simp add: pipe_ok_def)
qed

lemma pipe_get_list:
  assumes "pi_nread p \<noteq> pi_nwrite p"
  shows "pipe_list p = pipe_get p # pipe_list (pipe_drop p)"
  using pring.get [OF assms] by (simp add: pipe_list_def pipe_get_def pipe_drop_def)

text \<open>
  A pipe's life as a sequence of the two elementary steps that \<^verbatim>\<open>pipewrite\<close> and \<^verbatim>\<open>piperead\<close> make
  under the pipe lock, from any number of writers and readers in any order: \<open>W\<close> collects the bytes
  written, \<open>R\<close> the bytes read.
\<close>

inductive pipe_trace :: "pipe \<Rightarrow> uchar list \<Rightarrow> uchar list \<Rightarrow> bool" where
  new: "pi_nread p = 0 \<Longrightarrow> pi_nwrite p = 0 \<Longrightarrow> pipe_trace p [] []"
| put: "pipe_trace p W R \<Longrightarrow> pi_nwrite p \<noteq> pi_nread p + of_nat PIPESIZE \<Longrightarrow> pipe_trace (pipe_put c p) (W @ [c]) R"
| get: "pipe_trace p W R \<Longrightarrow> pi_nread p \<noteq> pi_nwrite p \<Longrightarrow> pipe_trace (pipe_drop p) W (R @ [pipe_get p])"


definition pipe0 :: pipe where
  "pipe0 = \<lparr>pi_lock = new_lock ''pipe'', pi_data = (\<lambda>_. 0), pi_nread = 0, pi_nwrite = 0,
     pi_readopen = True, pi_writeopen = True\<rparr>"



section \<open>Writers\<close>

text \<open>The memory and the contents of the pipes: everything that locking and waking leaves alone.\<close>

definition pview :: "'a pipestate_scheme \<Rightarrow> mem \<times> (uint64 \<Rightarrow> cptr \<times> uint \<times> uint)" where
  "pview s = (mem s, \<lambda>a. (pi_data (pipes s a), pi_nread (pipes s a), pi_nwrite (pipes s a)))"

lemma pview_indep: "sched_indep pview" "lock_indep_view pview (pi_lku a)"
  by (auto simp: sched_indep_def lock_indep_view_def pview_def pi_lku_def upd_pipe_def fun_eq_iff)

lemmas keeps_pview = keeps_acquire [OF pview_indep] keeps_release [OF pview_indep]
  keeps_wakeup [OF pview_indep(1)] keeps_sleep [OF pview_indep]

lemma pview_list: "pview t = pview s \<Longrightarrow> pipe_list (pipes t a) = pipe_list (pipes s a) \<and> mem t = mem s"
  by (drule arg_cong [where f = "\<lambda>v. (fst v, snd v a)"]) (simp add: pview_def pipe_list_def)

lemma keeps_list: "keeps pview s m \<Longrightarrow> pipe_list (pipes (fin m) a) = pipe_list (pipes s a) \<and> mem (fin m) = mem s"
  unfolding keeps_def by (rule pview_list)

lemma upd_pipe_simps [simp]:
  "mem (upd_pipe a h s) = mem s" "procs (upd_pipe a h s) = procs s"
  "pipes (upd_pipe a h s) b = (if b = a then h (pipes s a) else pipes s b)"
  "pi_readopen (pipe_put c p) = pi_readopen p" "pi_writeopen (pipe_put c p) = pi_writeopen p"
  by (simp_all add: upd_pipe_def pipe_put_def)

lemma ubytes_one: "upage m pt va \<noteq> None \<Longrightarrow> ubytes m pt va (Suc 0) = [the (ubyte m pt va)]"
  by (simp add: ubytes_def)

text \<open>
  Every run of the writer's loop, also one that stops, has appended the bytes of a prefix of the user
  buffer to the pipe, in order, and changed neither memory nor the other bytes.
\<close>

lemma pipewrite_loop_appends:
  assumes "utable (mem s) (p_pagetable (procs s pr)) P" "pipe_ok (pipes s pi)" "i \<le> n"
  shows "\<exists>k. pipe_list (pipes (fin (pipewrite_loop pi pr addr n i s)) pi) =
        pipe_list (pipes s pi) @ ubytes (mem s) (p_pagetable (procs s pr)) (addr + of_int i) k \<and>
      i + int k \<le> n \<and> length (pipe_list (pipes s pi)) + k \<le> PIPESIZE \<and>
      mem (fin (pipewrite_loop pi pr addr n i s)) = mem s \<and>
      (\<forall>r t. pipewrite_loop pi pr addr n i s = ret r t \<longrightarrow> r = -1 \<or> r = i + int k)"
  using assms
proof (induction "nat (n - i)" arbitrary: i s rule: less_induct)
  case less
  let ?pt = "p_pagetable (procs s pr)"
  have len: "length (pipe_list (pipes s pi)) \<le> PIPESIZE" using less.prems(2) by (simp add: pipe_ok_def)
  have stop: ?case if v: "keeps pview s (pipewrite_loop pi pr addr n i s)"
      and r: "\<And>r t. pipewrite_loop pi pr addr n i s = ret r t \<Longrightarrow> r = -1 \<or> r = i"
    using keeps_list [OF v] r len less.prems(3) by (intro exI [of _ 0]) (auto simp: ubytes_def)
  have leave: "keeps pview s (bnd (wakeup (Ch_pipe_nread pi) s) (\<lambda>_ s.
      bnd (release (pi_lk pi) (pi_lku pi) s) (\<lambda>_ s. ret i s)))"
    by (intro keeps_bnd keeps_pview) simp
  consider (finish) "\<not> i < n"
    | (dead) "i < n" "\<not> pi_readopen (pipes s pi) \<or> p_killed (procs s pr) \<noteq> 0"
    | (full) "i < n" "pi_readopen (pipes s pi)" "p_killed (procs s pr) = 0"
        "pi_nwrite (pipes s pi) = pi_nread (pipes s pi) + of_nat PIPESIZE"
    | (go) "i < n" "pi_readopen (pipes s pi)" "p_killed (procs s pr) = 0"
        "pi_nwrite (pipes s pi) \<noteq> pi_nread (pipes s pi) + of_nat PIPESIZE"
    by blast
  then show ?case
  proof cases
    case finish
    then have "pipewrite_loop pi pr addr n i s = bnd (wakeup (Ch_pipe_nread pi) s) (\<lambda>_ s.
        bnd (release (pi_lk pi) (pi_lku pi) s) (\<lambda>_ s. ret i s))" by (subst pipewrite_loop.simps) simp
    with leave show ?thesis by (intro stop) (auto simp: bnd_eq_ret ret_eq_bnd)
  next
    case dead
    then have "pipewrite_loop pi pr addr n i s = bnd (release (pi_lk pi) (pi_lku pi) s) (\<lambda>_ s. ret (-1) s)"
      by (subst pipewrite_loop.simps) simp
    moreover have "keeps pview s (bnd (release (pi_lk pi) (pi_lku pi) s) (\<lambda>_ s. ret (- 1 :: int) s))"
      by (intro keeps_bnd keeps_pview) simp
    ultimately show ?thesis by (intro stop) (auto simp: bnd_eq_ret ret_eq_bnd)
  next
    case full
    then have eq: "pipewrite_loop pi pr addr n i s = bnd (wakeup (Ch_pipe_nread pi) s) (\<lambda>_ s.
        bnd (sleep (Ch_pipe_nwrite pi) (pi_lk pi) (pi_lku pi) s) (\<lambda>_ s. pipewrite_loop pi pr addr n i s))"
      by (subst pipewrite_loop.simps) simp
    have "keeps pview s (pipewrite_loop pi pr addr n i s)"
      unfolding eq by (intro keeps_bnd keeps_pview) (simp add: sleep_not_Inr)
    moreover have "pipewrite_loop pi pr addr n i s \<noteq> ret r t" for r t
      unfolding eq by (auto simp: bnd_eq_ret) (metis ret_def sleep_not_Inr)
    ultimately show ?thesis by (intro stop) auto
  next
    case go
    from copyin_eq [OF less.prems(1), of "addr + of_int i" 1] obtain r bs where
      c: "copyin ?pt (addr + of_int i) 1 s = ret (r, bs) s"
        "if umapped (mem s) ?pt (addr + of_int i) 1 then r = 0 \<and> bs = ubytes (mem s) ?pt (addr + of_int i) 1 else r = -1"
      by blast
    show ?thesis
    proof (cases "umapped (mem s) ?pt (addr + of_int i) 1")
      case False
      with c go have "pipewrite_loop pi pr addr n i s = bnd (wakeup (Ch_pipe_nread pi) s) (\<lambda>_ s.
          bnd (release (pi_lk pi) (pi_lku pi) s) (\<lambda>_ s. ret i s))" by (subst pipewrite_loop.simps) simp
      with leave show ?thesis by (intro stop) (auto simp: bnd_eq_ret ret_eq_bnd)
    next
      case True
      let ?c = "hd bs" and ?s = "upd_pipe pi (pipe_put (hd bs)) s"
      have eq: "pipewrite_loop pi pr addr n i s = pipewrite_loop pi pr addr n (i + 1) ?s"
        using c True go by (subst pipewrite_loop.simps) simp
      have bs: "bs = ubytes (mem s) ?pt (addr + of_int i) 1" "length bs = 1" using c(2) True by (auto simp: ubytes_def)
      from bs(2) have "[?c] = bs" by (cases bs) auto
      then have "[?c] = ubytes (mem s) ?pt (addr + of_int i) 1" by (rule trans [OF _ bs(1)])
      then have cat: "[?c] @ ubytes (mem s) ?pt (addr + of_int (i + 1)) k = ubytes (mem s) ?pt (addr + of_int i) (1 + k)" for k
        using ubytes_append [of "mem s" ?pt "addr + of_int i" 1 k] by (simp add: add.assoc)
      have put: "pipe_list (pipes ?s pi) = pipe_list (pipes s pi) @ [?c]" "pipe_ok (pipes ?s pi)"
        using pipe_put_list [OF less.prems(2) go(4), of ?c] by simp_all
      have "\<exists>k. pipe_list (pipes (fin (pipewrite_loop pi pr addr n (i + 1) ?s)) pi) =
          pipe_list (pipes ?s pi) @ ubytes (mem ?s) (p_pagetable (procs ?s pr)) (addr + of_int (i + 1)) k \<and>
        (i + 1) + int k \<le> n \<and> length (pipe_list (pipes ?s pi)) + k \<le> PIPESIZE \<and>
        mem (fin (pipewrite_loop pi pr addr n (i + 1) ?s)) = mem ?s \<and>
        (\<forall>r t. pipewrite_loop pi pr addr n (i + 1) ?s = ret r t \<longrightarrow> r = -1 \<or> r = (i + 1) + int k)"
        by (rule less.hyps) (use go(1) less.prems(1) put in simp_all)
      then obtain k where k: "pipe_list (pipes (fin (pipewrite_loop pi pr addr n (i + 1) ?s)) pi) =
            pipe_list (pipes s pi) @ [?c] @ ubytes (mem s) ?pt (addr + of_int (i + 1)) k"
          "(i + 1) + int k \<le> n" "length (pipe_list (pipes s pi)) + 1 + k \<le> PIPESIZE"
          "mem (fin (pipewrite_loop pi pr addr n (i + 1) ?s)) = mem s"
          "\<forall>r t. pipewrite_loop pi pr addr n (i + 1) ?s = ret r t \<longrightarrow> r = -1 \<or> r = (i + 1) + int k"
        by (auto simp: put(1) simp del: upd_pipe_simps(3))
      show ?thesis unfolding eq using k unfolding cat by (intro exI [of _ "1 + k"]) (auto simp: add.assoc)
    qed
  qed
qed


text \<open>
  C27. Whatever way a call of \<^verbatim>\<open>pipewrite\<close> ends (it returns, sleeps on a full pipe, or spins on the
  lock), it has appended a prefix of the user's bytes to the pipe, in order, and never more than the
  pipe has room for; a non-negative result is the number of bytes appended.
\<close>

theorem pipewrite_appends:
  assumes "quiet s" "cur s = Some pr" "utable (mem s) (p_pagetable (procs s pr)) P" "pipe_ok (pipes s pi)" "0 \<le> n"
  shows "\<exists>k. pipe_list (pipes (fin (pipewrite pi addr n s)) pi) =
        pipe_list (pipes s pi) @ ubytes (mem s) (p_pagetable (procs s pr)) addr k \<and>
      int k \<le> n \<and> length (pipe_list (pipes s pi)) + k \<le> PIPESIZE \<and>
      (\<forall>r t. pipewrite pi addr n s = ret r t \<longrightarrow> r = -1 \<or> r = int k)"
proof -
  have eq: "pipewrite pi addr n s = bnd (acquire (pi_lk pi) (pi_lku pi) s) (\<lambda>_ s. pipewrite_loop pi pr addr n 0 s)"
    using assms by (simp add: pipewrite_def)
  show ?thesis
  proof (cases "locked (pi_lk pi s)")
    case True
    have "keeps pview s (acquire (pi_lk pi) (pi_lku pi) s)" by (rule keeps_pview)
    moreover have "\<exists>e t. acquire (pi_lk pi) (pi_lku pi) s = Inl (e, t)"
      using True pilock.acquire_busy [of pi s] pilock.acquire_twice [of pi s]
      by (auto simp: holding_def cpuid_def panic_def)
    ultimately show ?thesis
      using keeps_list [of s "acquire (pi_lk pi) (pi_lku pi) s" pi] assms(4,5)
      by (intro exI [of _ 0]) (auto simp: eq ubytes_def pipe_ok_def)
  next
    case False
    then have "pipewrite pi addr n s = pipewrite_loop pi pr addr n 0 (pilock.enter pi s)"
      by (simp add: eq pilock.acquire_free)
    moreover have "pview (pilock.enter pi s) = pview s" "procs (pilock.enter pi s) = procs s"
      by (simp_all add: pilock.enter_def pi_lku_def push_off_eq upd_pipe_def pview_def fun_eq_iff)
    note v = pview_list [OF this(1), of pi] this(2)
    ultimately show ?thesis
      using pipewrite_loop_appends [of "pilock.enter pi s" pr P pi 0 n addr] assms(3-5) v
      by (simp add: pipe_ok_def) blast
  qed
qed

section \<open>Readers\<close>

lemma ubyte_shift:
  fixes a vb :: uint64
  assumes "Suc k < 2 ^ 64"
  shows "vb \<noteq> a \<Longrightarrow> unat (vb - (a + 1)) = unat (vb - a) - 1"
    and "\<not> unat (a - (a + 1)) < k"
  using assms by (simp_all add: unat_sub_1 unsigned_minus_1_eq_mask mask_eq_exp_minus_1)

definition pipe_skip :: "nat \<Rightarrow> pipe \<Rightarrow> pipe" where
  "pipe_skip k p = p\<lparr>pi_nread := pi_nread p + of_nat k\<rparr>"

lemma pipe_skip_Suc: "pipe_skip k (pipe_drop p) = pipe_skip (Suc k) p"
  by (simp add: pipe_skip_def pipe_drop_def algebra_simps)

lemma pipe_skip_0 [simp]: "pipe_skip 0 p = p"
  by (simp add: pipe_skip_def)

lemma pipe_skip_list: "k \<le> length (pipe_list p) \<Longrightarrow> pipe_list (pipe_skip k p) = drop k (pipe_list p)"
proof (induction k arbitrary: p)
  case (Suc k)
  then have "pi_nread p \<noteq> pi_nwrite p" by (auto simp: pipe_list_def)
  from pipe_get_list [OF this] Suc.prems Suc.IH [of "pipe_drop p"] show ?case
    by (simp add: pipe_skip_Suc [symmetric])
qed simp

lemma upd_pipe_id [simp]: "upd_pipe a (\<lambda>p. p) s = s"
  by (simp add: upd_pipe_def)

lemma piperead_copy_eq:
  assumes "uspace (mem s) (p_pagetable (procs s pr)) P"
    "k = min (nat (n - i)) (length (pipe_list (pipes s pi)))" "Suc k < 2 ^ 64"
    "umapped (mem s) (p_pagetable (procs s pr)) (addr + of_int i) k"
  shows "\<exists>m'. piperead_copy pi pr addr n i s = ret (i + int k) (upd_pipe pi (pipe_skip k) (s\<lparr>mem := m'\<rparr>)) \<and>
    (\<forall>vb. ubyte m' (p_pagetable (procs s pr)) vb = (if unat (vb - (addr + of_int i)) < k
       then Some (pipe_list (pipes s pi) ! unat (vb - (addr + of_int i))) else ubyte (mem s) (p_pagetable (procs s pr)) vb))"
  using assms
proof (induction k arbitrary: i s)
  case 0
  then have "\<not> i < n \<or> pi_nread (pipes s pi) = pi_nwrite (pipes s pi)"
    by (auto simp: min_def pipe_list_def ring_list_Nil unat_eq_zero split: if_splits)
  then have "piperead_copy pi pr addr n i s = ret i s" by (subst piperead_copy.simps) auto
  then show ?case by (intro exI [of _ "mem s"]) simp
next
  case (Suc k)
  let ?pt = "p_pagetable (procs s pr)" and ?a = "addr + of_int i"
  let ?p = "pipes s pi"
  have go: "i < n" "pi_nread ?p \<noteq> pi_nwrite ?p" using Suc.prems(2) by (auto simp: pipe_list_def)
  have lst: "pipe_list ?p = pipe_get ?p # pipe_list (pipe_drop ?p)" by (rule pipe_get_list [OF go(2)])
  let ?s1 = "upd_pipe pi pipe_drop s"
  have um: "umapped (mem s) ?pt ?a 1" "umapped (mem s) ?pt (?a + 1) k"
    using Suc.prems(4) umapped_split [of "mem s" ?pt ?a 1 k] by simp_all
  from copyout_eq [of ?s1 ?pt P "[pipe_get ?p]" ?a] Suc.prems(1) um(1) obtain m1 where
    m1: "copyout ?pt ?a [pipe_get ?p] ?s1 = ret 0 (?s1\<lparr>mem := m1\<rparr>)" "uspace m1 ?pt P"
      "\<forall>vb. upage m1 ?pt vb = upage (mem s) ?pt vb"
      "\<forall>vb. ubyte m1 ?pt vb = (if unat (vb - ?a) < Suc 0 then Some ([pipe_get ?p] ! unat (vb - ?a)) else ubyte (mem s) ?pt vb)"
    by auto
  let ?s2 = "?s1\<lparr>mem := m1\<rparr>"
  have step: "piperead_copy pi pr addr n i s = piperead_copy pi pr addr n (i + 1) ?s2"
    using go m1(1) by (subst piperead_copy.simps) (simp add: Let_def)
  have "\<exists>m'. piperead_copy pi pr addr n (i + 1) ?s2 = ret (i + 1 + int k) (upd_pipe pi (pipe_skip k) (?s2\<lparr>mem := m'\<rparr>)) \<and>
    (\<forall>vb. ubyte m' (p_pagetable (procs ?s2 pr)) vb = (if unat (vb - (addr + of_int (i + 1))) < k
       then Some (pipe_list (pipes ?s2 pi) ! unat (vb - (addr + of_int (i + 1)))) else ubyte (mem ?s2) (p_pagetable (procs ?s2 pr)) vb))"
  proof (rule Suc.IH)
    show "k = min (nat (n - (i + 1))) (length (pipe_list (pipes ?s2 pi)))"
    proof -
      have "nat (n - i) = Suc (nat (n - (i + 1)))" using go(1) by simp
      with Suc.prems(2) lst show ?thesis by simp
    qed
    show "umapped (mem ?s2) (p_pagetable (procs ?s2 pr)) (addr + of_int (i + 1)) k"
      using um(2) m1(3) by (simp add: umapped_def add.assoc)
  qed (use Suc.prems(3) m1(2) in simp_all)
  then obtain m' where m': "piperead_copy pi pr addr n (i + 1) ?s2 = ret (i + 1 + int k) (upd_pipe pi (pipe_skip k) (?s2\<lparr>mem := m'\<rparr>))"
    "\<forall>vb. ubyte m' ?pt vb = (if unat (vb - (?a + 1)) < k
       then Some (pipe_list (pipe_drop ?p) ! unat (vb - (?a + 1))) else ubyte m1 ?pt vb)"
    by (auto simp: add.assoc)
  have "upd_pipe pi (pipe_skip k) (?s2\<lparr>mem := m'\<rparr>) = upd_pipe pi (pipe_skip (Suc k)) (s\<lparr>mem := m'\<rparr>)"
    by (simp add: upd_pipe_def pipe_skip_Suc)
  moreover have "ubyte m' ?pt vb = (if unat (vb - ?a) < Suc k then Some (pipe_list ?p ! unat (vb - ?a)) else ubyte (mem s) ?pt vb)"
    for vb
  proof (cases "vb = ?a")
    case True
    with m'(2) m1(4) lst ubyte_shift(2) [OF Suc.prems(3), of ?a] show ?thesis by simp
  next
    case False
    then obtain j where j: "unat (vb - ?a) = Suc j" by (cases "unat (vb - ?a)") (auto simp: unat_eq_zero)
    with False m'(2) m1(4) lst ubyte_shift(1) [OF Suc.prems(3) False] show ?thesis by simp
  qed
  ultimately show ?case using step m'(1) by (intro exI [of _ m']) simp
qed

lemma pi_enter_simps [simp]:
  "mem (pilock.enter pi s) = mem s" "procs (pilock.enter pi s) = procs s"
  "pipe_list (pipes (pilock.enter pi s) pi) = pipe_list (pipes s pi)"
  "pi_nread (pipes (pilock.enter pi s) pi) = pi_nread (pipes s pi)"
  "pi_nwrite (pipes (pilock.enter pi s) pi) = pi_nwrite (pipes s pi)"
  "pi_writeopen (pipes (pilock.enter pi s) pi) = pi_writeopen (pipes s pi)"
  by (simp_all add: pilock.enter_def pi_lku_def push_off_eq upd_pipe_def pipe_list_def)

lemma pipe_lock_swap: "p\<lparr>pi_lock := l, pi_nread := n\<rparr> = p\<lparr>pi_nread := n, pi_lock := l\<rparr>"
  by simp

lemma pi_enter_swap:
  "upd_pipe pi (pipe_skip k) ((pilock.enter pi s)\<lparr>mem := m\<rparr>) = pilock.enter pi (upd_pipe pi (pipe_skip k) (s\<lparr>mem := m\<rparr>))"
  by (rule pipestate.equality)
    (simp_all add: pilock.enter_def pi_lku_def push_off_eq upd_pipe_def pipe_skip_def pipe_lock_swap)

lemma pi_enter_calm: "calm p s \<Longrightarrow> calm p (pilock.enter pi s)"
  by (simp add: calm_def locks_free_def p_lk_def cur_def)

lemma pi_wake_enter: "wake ch p (pilock.enter pi s) = pilock.enter pi (wake ch p s)"
  by (simp add: wake_def wake_all_def pilock.enter_def pi_lku_def upd_pipe_def push_off_eq cong: if_cong)

lemma wake_pipe_simps [simp]: "mem (wake ch p s) = mem s" "pipes (wake ch p s) = pipes s" "pi_lk pi (wake ch p s) = pi_lk pi s"
  by (simp_all add: wake_def wake_all_def pi_lk_def)

lemma calm_pipe_upd [simp]: "calm p (upd_pipe pi h s) = calm p s" "calm p (s\<lparr>mem := m\<rparr>) = calm p s"
  by (simp_all add: calm_def locks_free_def p_lk_def quiet_def cur_def mycpu_def cpuid_def upd_pipe_def)


definition demo_pipes :: pipestate where
  "demo_pipes = mstate.extend (demo_state\<lparr>cpus := (cpus demo_state)(0 := (cpus demo_state 0)\<lparr>cpu_proc := Some 1\<rparr>),
       procs := (procs demo_state)(1 := (procs demo_state 1)\<lparr>p_pagetable := 0x87001000\<rparr>)\<rparr>)
     \<lparr>pipes = (\<lambda>_. pipe_put 8 (pipe_put 7 pipe0))\<rparr>"

lemma demo_pipes_calm: "calm 1 demo_pipes" "free_lock (pi_lk pi demo_pipes)"
  by (simp_all add: calm_def demo_pipes_def mstate.defs demo_state_def mstate0_def pstate.defs pstate0_def quiet_def
      mycpu_def cpuid_def cur_def steady_def boot_cpu_def locks_free_def p_lk_def procs0_def proc0_def pi_lk_def
      pipe0_def pipe_put_def free_lock_def new_lock_def)

lemma demo_pipes_user:
  "mem demo_pipes = mem demo_state" "p_pagetable (procs demo_pipes 1) = 0x87001000"
  "pipes demo_pipes pi = pipe_put 8 (pipe_put 7 pipe0)"
  by (simp_all add: demo_pipes_def mstate.defs)

lemma demo_pipe_list: "pipe_list (pipe_put 8 (pipe_put 7 pipe0)) = [7, 8]"
proof -
  have 0: "pipe_list pipe0 = []" "pipe_ok pipe0" by (simp_all add: pipe_ok_def pipe_list_def pipe0_def)
  have 1: "pipe_list (pipe_put 7 pipe0) = [] @ [7]" "pipe_ok (pipe_put 7 pipe0)"
    using pipe_put_list [OF 0(2), of 7] 0 by (simp_all add: pipe0_def PIPESIZE_def)
  show ?thesis
    using pipe_put_list [OF 1(2), of 8] 1(1) by (simp add: pipe_put_def pipe0_def PIPESIZE_def)
qed

theorem pipewrite_appends_witness:
  "\<exists>k. pipe_list (pipes (fin (pipewrite 0x87005000 16 3 demo_pipes)) 0x87005000) =
     [7, 8] @ ubytes (mem demo_state) 0x87001000 16 k \<and> k \<le> 3"
proof -
  have "quiet demo_pipes" "cur demo_pipes = Some 1" using demo_pipes_calm by (simp_all add: calm_def)
  moreover have "utable (mem demo_pipes) (p_pagetable (procs demo_pipes 1)) {0x87001000, 0x87002000, 0x87003000}"
    using demo_uspace unfolding demo_pipes_user uspace_def by blast
  moreover have "pipe_ok (pipes demo_pipes 0x87005000)" by (simp add: pipe_ok_def demo_pipes_user demo_pipe_list PIPESIZE_def)
  ultimately obtain k where "pipe_list (pipes (fin (pipewrite 0x87005000 16 3 demo_pipes)) 0x87005000) =
      pipe_list (pipes demo_pipes 0x87005000) @ ubytes (mem demo_pipes) (p_pagetable (procs demo_pipes 1)) 16 k \<and> int k \<le> 3"
    using pipewrite_appends [of demo_pipes 1 "{0x87001000, 0x87002000, 0x87003000}" "0x87005000" 3 16] by auto
  then show ?thesis unfolding demo_pipes_user demo_pipe_list by (intro exI [of _ k]) simp
qed


end
