(* ===== verification/Block.thy ===== *)
theory Block
  imports CString
begin

text \<open>
  Disk blocks and on-disk structures as byte arrays. A \<^verbatim>\<open>uchar data[BSIZE]\<close> is a function from offsets;
  the code reads and writes it through slices (\<^verbatim>\<open>memmove\<close>) and through casts to structures of
  little-endian integers.
\<close>

definition BSIZE :: nat where "BSIZE = 1024"

definition get_bytes :: "cptr \<Rightarrow> nat \<Rightarrow> nat \<Rightarrow> uchar list" where
  "get_bytes d off n = map d [off..<off + n]"

definition put_bytes :: "cptr \<Rightarrow> nat \<Rightarrow> uchar list \<Rightarrow> cptr" where
  "put_bytes d off bs = (\<lambda>i. if off \<le> i \<and> i < off + length bs then bs ! (i - off) else d i)"

text \<open>\<open>copy_bytes d doff s soff n\<close>: \<^verbatim>\<open>memmove(d + doff, s + soff, n)\<close> between two distinct arrays.\<close>

definition copy_bytes :: "cptr \<Rightarrow> nat \<Rightarrow> cptr \<Rightarrow> nat \<Rightarrow> nat \<Rightarrow> cptr" where
  "copy_bytes d doff s soff n = put_bytes d doff (get_bytes s soff n)"

definition get16 :: "cptr \<Rightarrow> nat \<Rightarrow> ushort" where "get16 d off = le_word (get_bytes d off 2)"
definition get32 :: "cptr \<Rightarrow> nat \<Rightarrow> uint" where "get32 d off = le_word (get_bytes d off 4)"
definition get64 :: "cptr \<Rightarrow> nat \<Rightarrow> uint64" where "get64 d off = le_word (get_bytes d off 8)"
definition put16 :: "cptr \<Rightarrow> nat \<Rightarrow> ushort \<Rightarrow> cptr" where "put16 d off v = put_bytes d off (le_bytes 2 v)"
definition put32 :: "cptr \<Rightarrow> nat \<Rightarrow> uint \<Rightarrow> cptr" where "put32 d off v = put_bytes d off (le_bytes 4 v)"

text \<open>The visible contents of a block.\<close>

definition blk :: "cptr \<Rightarrow> uchar list" where
  "blk d = get_bytes d 0 BSIZE"

lemma length_get_bytes [simp]: "length (get_bytes d off n) = n"
  by (simp add: get_bytes_def)

lemma nth_get_bytes [simp]: "i < n \<Longrightarrow> get_bytes d off n ! i = d (off + i)"
  by (simp add: get_bytes_def)

lemma get_bytes_eqI: "(\<And>i. i < n \<Longrightarrow> d (off + i) = bs ! i) \<Longrightarrow> length bs = n \<Longrightarrow> get_bytes d off n = bs"
  by (rule nth_equalityI) simp_all

lemma get_put_same [mem_simps]: "n = length bs \<Longrightarrow> get_bytes (put_bytes d off bs) off n = bs"
  by (rule get_bytes_eqI) (simp_all add: put_bytes_def)

lemma get_put_other [mem_simps]:
  "off + n \<le> off' \<or> off' + length bs \<le> off \<Longrightarrow> get_bytes (put_bytes d off' bs) off n = get_bytes d off n"
  by (rule nth_equalityI) (auto simp: put_bytes_def)

lemma get16_put16 [mem_simps]: "get16 (put16 d off v) off = v"
  by (simp add: get16_def put16_def mem_simps)

lemma get32_put32 [mem_simps]: "get32 (put32 d off v) off = v"
  by (simp add: get32_def put32_def mem_simps)

lemma get16_put16_other [mem_simps]:
  "off + 2 \<le> off' \<or> off' + 2 \<le> off \<Longrightarrow> get16 (put16 d off' v) off = get16 d off"
  by (simp add: get16_def put16_def mem_simps)

lemma get16_put32_other [mem_simps]:
  "off + 2 \<le> off' \<or> off' + 4 \<le> off \<Longrightarrow> get16 (put32 d off' v) off = get16 d off"
  by (simp add: get16_def put32_def mem_simps)

lemma get32_put32_other [mem_simps]:
  "off + 4 \<le> off' \<or> off' + 4 \<le> off \<Longrightarrow> get32 (put32 d off' v) off = get32 d off"
  by (simp add: get32_def put32_def mem_simps)

lemma get32_put16_other [mem_simps]:
  "off + 4 \<le> off' \<or> off' + 2 \<le> off \<Longrightarrow> get32 (put16 d off' v) off = get32 d off"
  by (simp add: get32_def put16_def mem_simps)

lemma blk_copy [simp]: "blk (copy_bytes d 0 s 0 BSIZE) = blk s"
  by (simp add: blk_def copy_bytes_def mem_simps)

lemma blk_apply: "blk d = blk e \<Longrightarrow> i < BSIZE \<Longrightarrow> d i = e i"
  unfolding blk_def by (metis add_0 nth_get_bytes)

lemma blk_get_bytes: "blk d = blk e \<Longrightarrow> off + n \<le> BSIZE \<Longrightarrow> get_bytes d off n = get_bytes e off n"
  by (rule nth_equalityI) (auto intro: blk_apply)

lemma copy_self: "blk s = blk d \<Longrightarrow> copy_bytes d 0 s 0 BSIZE = d"
  by (auto simp: copy_bytes_def put_bytes_def fun_eq_iff intro: blk_apply)

end
