(* ===== verification/Bio.thy ===== *)
theory Bio
  imports Pipe Block
begin

text \<open>
  \<^verbatim>\<open>kernel/bio.c\<close>: the buffer cache. The thirty buffers are indexed from 0; index \<open>bhead\<close> is the list head
  \<^verbatim>\<open>bcache.head\<close>. The links \<^verbatim>\<open>prev\<close>/\<^verbatim>\<open>next\<close> are indices. A completed transfer of the disk driver is \<open>disk_rw\<close>: theory
  \<open>Virtio\<close> models the driver of \<^verbatim>\<open>virtio_disk.c\<close> in detail and shows that a served request has this effect.
  \<open>dhist\<close> is a ghost history of the block writes the disk has accepted, in order; crash states are read
  off from it.
\<close>

section \<open>State and operations\<close>

record buf =
  b_valid :: bool
  b_disk :: bool
  b_dev :: uint
  b_blockno :: uint
  b_lock :: sleeplock
  b_refcnt :: uint
  b_prev :: nat
  b_next :: nat
  b_data :: cptr

record bstate = pipestate +
  bcache_lock :: spinlock
  bufs :: "nat \<Rightarrow> buf"
  disk :: "uint \<Rightarrow> cptr"
  dhist :: "(uint \<times> cptr) list"

definition bhead :: nat where "bhead = NBUF"

definition upd_buf :: "nat \<Rightarrow> (buf \<Rightarrow> buf) \<Rightarrow> 'a bstate_scheme \<Rightarrow> 'a bstate_scheme" where
  "upd_buf i h s = s\<lparr>bufs := (bufs s)(i := h (bufs s i))\<rparr>"

text \<open>The sleep lock \<^verbatim>\<open>b->lock\<close> as a lock field.\<close>

definition bl_lk :: "nat \<Rightarrow> 'a bstate_scheme \<Rightarrow> sleeplock" where
  "bl_lk i s = b_lock (bufs s i)"

definition bl_lku :: "nat \<Rightarrow> (sleeplock \<Rightarrow> sleeplock) \<Rightarrow> 'a bstate_scheme \<Rightarrow> 'a bstate_scheme" where
  "bl_lku i f s = upd_buf i (\<lambda>b. b\<lparr>b_lock := f (b_lock b)\<rparr>) s"

interpretation buflock: sleeplock_field "bl_lk i" "bl_lku i" for i
  by unfold_locales (auto simp: bl_lk_def bl_lku_def upd_buf_def fun_upd_idem)

interpretation bclock: lock_field bcache_lock bcache_lock_update
  by unfold_locales simp_all

definition binit_one :: "nat \<Rightarrow> 'a bstate_scheme \<Rightarrow> 'a bstate_scheme" where
  "binit_one b s =
     (let s = upd_buf b (\<lambda>x. x\<lparr>b_next := b_next (bufs s bhead)\<rparr>) s;
          s = upd_buf b (\<lambda>x. x\<lparr>b_prev := bhead\<rparr>) s;
          s = upd_buf b (\<lambda>x. x\<lparr>b_lock := initsleeplock ''buffer'' (b_lock x)\<rparr>) s;
          s = upd_buf (b_next (bufs s bhead)) (\<lambda>x. x\<lparr>b_prev := b\<rparr>) s
      in upd_buf bhead (\<lambda>x. x\<lparr>b_next := b\<rparr>) s)"

definition binit :: "'a bstate_scheme \<Rightarrow> 'a bstate_scheme" where
  "binit s =
     (let s = s\<lparr>bcache_lock := initlock ''bcache'' (bcache_lock s)\<rparr>;
          s = upd_buf bhead (\<lambda>x. x\<lparr>b_prev := bhead\<rparr>) s;
          s = upd_buf bhead (\<lambda>x. x\<lparr>b_next := bhead\<rparr>) s
      in fold binit_one [0..<NBUF] s)"

text \<open>
  The two list walks of \<^verbatim>\<open>bget\<close>. They do not change the list, so a walk that has not come back to the head
  after visiting every node once never does; \<open>NBUF + 1\<close> steps decide it (result \<open>None\<close>: walks forever).
\<close>

fun bget_find :: "nat \<Rightarrow> uint \<Rightarrow> uint \<Rightarrow> nat \<Rightarrow> (nat \<Rightarrow> buf) \<Rightarrow> nat option option" where
  "bget_find 0 dev blockno b B = None"
| "bget_find (Suc k) dev blockno b B =
     (if b = bhead then Some None
      else if b_dev (B b) = dev \<and> b_blockno (B b) = blockno then Some (Some b)
      else bget_find k dev blockno (b_next (B b)) B)"

fun bget_lru :: "nat \<Rightarrow> nat \<Rightarrow> (nat \<Rightarrow> buf) \<Rightarrow> nat option option" where
  "bget_lru 0 b B = None"
| "bget_lru (Suc k) b B =
     (if b = bhead then Some None
      else if b_refcnt (B b) = 0 then Some (Some b)
      else bget_lru k (b_prev (B b)) B)"

definition bget_lock :: "nat \<Rightarrow> 'a bstate_scheme \<Rightarrow> ('a bstate_scheme, nat) out" where
  "bget_lock b s =
     bnd (release bcache_lock bcache_lock_update s) (\<lambda>_ s.
     bnd (acquiresleep (bl_lk b) (bl_lku b) (Ch_buf_lock b) s) (\<lambda>_ s. ret b s))"

definition bget :: "uint \<Rightarrow> uint \<Rightarrow> 'a bstate_scheme \<Rightarrow> ('a bstate_scheme, nat) out" where
  "bget dev blockno s =
     bnd (acquire bcache_lock bcache_lock_update s) (\<lambda>_ s.
       case bget_find (Suc NBUF) dev blockno (b_next (bufs s bhead)) (bufs s) of
         None \<Rightarrow> Inl (Spin, s)
       | Some (Some b) \<Rightarrow> bget_lock b (upd_buf b (\<lambda>x. x\<lparr>b_refcnt := b_refcnt x + 1\<rparr>) s)
       | Some None \<Rightarrow>
           (case bget_lru (Suc NBUF) (b_prev (bufs s bhead)) (bufs s) of
              None \<Rightarrow> Inl (Spin, s)
            | Some (Some b) \<Rightarrow>
                bget_lock b (upd_buf b (\<lambda>x. x\<lparr>b_dev := dev, b_blockno := blockno, b_valid := False, b_refcnt := 1\<rparr>) s)
            | Some None \<Rightarrow> panic ''bget: no buffers'' s))"

definition disk_rw :: "nat \<Rightarrow> bool \<Rightarrow> 'a bstate_scheme \<Rightarrow> 'a bstate_scheme" where
  "disk_rw b wr s =
     (let x = bufs s b
      in if wr then s\<lparr>disk := (disk s)(b_blockno x := b_data x), dhist := dhist s @ [(b_blockno x, b_data x)]\<rparr>
         else upd_buf b (\<lambda>x. x\<lparr>b_data := disk s (b_blockno x)\<rparr>) s)"

definition bread :: "uint \<Rightarrow> uint \<Rightarrow> 'a bstate_scheme \<Rightarrow> ('a bstate_scheme, nat) out" where
  "bread dev blockno s =
     bnd (bget dev blockno s) (\<lambda>b s.
       if \<not> b_valid (bufs s b)
       then ret b (upd_buf b (\<lambda>x. x\<lparr>b_valid := True\<rparr>) (disk_rw b False s))
       else ret b s)"

definition bwrite :: "nat \<Rightarrow> 'a bstate_scheme \<Rightarrow> ('a bstate_scheme, unit) out" where
  "bwrite b s =
     bnd (holdingsleep (bl_lk b) (bl_lku b) s) (\<lambda>h s.
       if \<not> h then panic ''bwrite'' s else ret () (disk_rw b True s))"

text \<open>Unlink \<open>b\<close> and put it at the front of the list, in the order of the six assignments.\<close>

definition brelse_front :: "nat \<Rightarrow> 'a bstate_scheme \<Rightarrow> 'a bstate_scheme" where
  "brelse_front b s =
     (let s = upd_buf (b_next (bufs s b)) (\<lambda>x. x\<lparr>b_prev := b_prev (bufs s b)\<rparr>) s;
          s = upd_buf (b_prev (bufs s b)) (\<lambda>x. x\<lparr>b_next := b_next (bufs s b)\<rparr>) s;
          s = upd_buf b (\<lambda>x. x\<lparr>b_next := b_next (bufs s bhead)\<rparr>) s;
          s = upd_buf b (\<lambda>x. x\<lparr>b_prev := bhead\<rparr>) s;
          s = upd_buf (b_next (bufs s bhead)) (\<lambda>x. x\<lparr>b_prev := b\<rparr>) s
      in upd_buf bhead (\<lambda>x. x\<lparr>b_next := b\<rparr>) s)"

definition brelse :: "nat \<Rightarrow> 'a bstate_scheme \<Rightarrow> ('a bstate_scheme, unit) out" where
  "brelse b s =
     bnd (holdingsleep (bl_lk b) (bl_lku b) s) (\<lambda>h s.
       if \<not> h then panic ''brelse'' s
       else bnd (releasesleep (bl_lk b) (bl_lku b) (Ch_buf_lock b) s) (\<lambda>_ s.
            bnd (acquire bcache_lock bcache_lock_update s) (\<lambda>_ s.
              let s = upd_buf b (\<lambda>x. x\<lparr>b_refcnt := b_refcnt x - 1\<rparr>) s;
                  s = (if b_refcnt (bufs s b) = 0 then brelse_front b s else s)
              in release bcache_lock bcache_lock_update s)))"

definition bpin :: "nat \<Rightarrow> 'a bstate_scheme \<Rightarrow> ('a bstate_scheme, unit) out" where
  "bpin b s =
     bnd (acquire bcache_lock bcache_lock_update s) (\<lambda>_ s.
       release bcache_lock bcache_lock_update (upd_buf b (\<lambda>x. x\<lparr>b_refcnt := b_refcnt x + 1\<rparr>) s))"

definition bunpin :: "nat \<Rightarrow> 'a bstate_scheme \<Rightarrow> ('a bstate_scheme, unit) out" where
  "bunpin b s =
     bnd (acquire bcache_lock bcache_lock_update s) (\<lambda>_ s.
       release bcache_lock bcache_lock_update (upd_buf b (\<lambda>x. x\<lparr>b_refcnt := b_refcnt x - 1\<rparr>) s))"

end
