(* ===== verification/Virtio.thy ===== *)
theory Virtio
  imports Bio
begin

text \<open>
  \<^verbatim>\<open>kernel/virtio_disk.c\<close>: the driver of the virtio block device. Descriptors, the available and used rings, the
  request headers and the driver's book-keeping are one record. An address that the driver puts into a
  descriptor names one of three kinds of object (\<open>daddr\<close>). The memory-mapped registers are a map from
  register offsets to values. The device itself is not code of the repository; theorems about completed
  requests take its documented behaviour as a hypothesis.
\<close>

section \<open>State\<close>

definition NUM :: nat where "NUM = 8"

datatype daddr = A_null | A_ops nat | A_data nat | A_status nat

record virtq_desc =
  d_addr :: daddr
  d_len :: uint
  d_flags :: ushort
  d_next :: ushort

record virtio_blk_req =
  rq_type :: uint
  rq_reserved :: uint
  rq_sector :: uint64

record virtio_info =
  in_b :: "nat option"
  in_status :: uchar

record virtq_used_elem =
  u_id :: uint
  u_len :: uint

record vdisk =
  vdisk_lock :: spinlock
  vd_desc :: "nat \<Rightarrow> virtq_desc"
  avail_idx :: ushort
  avail_ring :: "nat \<Rightarrow> ushort"
  used_dev_idx :: ushort
  used_ring :: "nat \<Rightarrow> virtq_used_elem"
  vd_free :: "nat \<Rightarrow> bool"
  used_idx :: ushort
  vd_info :: "nat \<Rightarrow> virtio_info"
  vd_ops :: "nat \<Rightarrow> virtio_blk_req"
  vd_regs :: "nat \<Rightarrow> uint"

record vstate = bstate +
  vd :: vdisk

definition VRING_DESC_F_NEXT :: ushort where "VRING_DESC_F_NEXT = 1"
definition VRING_DESC_F_WRITE :: ushort where "VRING_DESC_F_WRITE = 2"
definition VIRTIO_BLK_T_IN :: uint where "VIRTIO_BLK_T_IN = 0"
definition VIRTIO_BLK_T_OUT :: uint where "VIRTIO_BLK_T_OUT = 1"

definition upd_vd :: "(vdisk \<Rightarrow> vdisk) \<Rightarrow> 'a vstate_scheme \<Rightarrow> 'a vstate_scheme" where
  "upd_vd h s = s\<lparr>vd := h (vd s)\<rparr>"

definition vd_lk :: "'a vstate_scheme \<Rightarrow> spinlock" where
  "vd_lk s = vdisk_lock (vd s)"

definition vd_lku :: "(spinlock \<Rightarrow> spinlock) \<Rightarrow> 'a vstate_scheme \<Rightarrow> 'a vstate_scheme" where
  "vd_lku f s = upd_vd (\<lambda>v. v\<lparr>vdisk_lock := f (vdisk_lock v)\<rparr>) s"

interpretation vdlock: sleep_lock vd_lk vd_lku
  by unfold_locales (auto simp: vd_lk_def vd_lku_def upd_vd_def)

section \<open>Initialisation\<close>

abbreviation R_MAGIC :: nat where "R_MAGIC \<equiv> 0x000"
abbreviation R_VERSION :: nat where "R_VERSION \<equiv> 0x004"
abbreviation R_DEVICE_ID :: nat where "R_DEVICE_ID \<equiv> 0x008"
abbreviation R_VENDOR_ID :: nat where "R_VENDOR_ID \<equiv> 0x00c"
abbreviation R_DEVICE_FEATURES :: nat where "R_DEVICE_FEATURES \<equiv> 0x010"
abbreviation R_DRIVER_FEATURES :: nat where "R_DRIVER_FEATURES \<equiv> 0x020"
abbreviation R_GUEST_PAGE_SIZE :: nat where "R_GUEST_PAGE_SIZE \<equiv> 0x028"
abbreviation R_QUEUE_SEL :: nat where "R_QUEUE_SEL \<equiv> 0x030"
abbreviation R_QUEUE_NUM_MAX :: nat where "R_QUEUE_NUM_MAX \<equiv> 0x034"
abbreviation R_QUEUE_NUM :: nat where "R_QUEUE_NUM \<equiv> 0x038"
abbreviation R_QUEUE_PFN :: nat where "R_QUEUE_PFN \<equiv> 0x040"
abbreviation R_QUEUE_NOTIFY :: nat where "R_QUEUE_NOTIFY \<equiv> 0x050"
abbreviation R_INTERRUPT_STATUS :: nat where "R_INTERRUPT_STATUS \<equiv> 0x060"
abbreviation R_INTERRUPT_ACK :: nat where "R_INTERRUPT_ACK \<equiv> 0x064"
abbreviation R_STATUS :: nat where "R_STATUS \<equiv> 0x070"

definition wreg :: "nat \<Rightarrow> uint \<Rightarrow> 'a vstate_scheme \<Rightarrow> 'a vstate_scheme" where
  "wreg r v s = upd_vd (\<lambda>d. d\<lparr>vd_regs := (vd_regs d)(r := v)\<rparr>) s"

definition virtio_features :: "uint \<Rightarrow> uint" where
  "virtio_features f =
     f AND NOT (push_bit 5 1) AND NOT (push_bit 7 1) AND NOT (push_bit 11 1) AND NOT (push_bit 12 1)
       AND NOT (push_bit 27 1) AND NOT (push_bit 29 1) AND NOT (push_bit 28 1)"

definition desc0 :: virtq_desc where
  "desc0 = \<lparr>d_addr = A_null, d_len = 0, d_flags = 0, d_next = 0\<rparr>"

text \<open>\<open>pages_pa\<close> is the physical address of \<^verbatim>\<open>disk.pages\<close>, fixed by the linker.\<close>

definition virtio_disk_init :: "uint64 \<Rightarrow> 'a vstate_scheme \<Rightarrow> ('a vstate_scheme, unit) out" where
  "virtio_disk_init pages_pa s =
     (let s = vd_lku (initlock ''virtio_disk'') s;
          r = vd_regs (vd s)
      in if r R_MAGIC \<noteq> 0x74726976 \<or> r R_VERSION \<noteq> 1 \<or> r R_DEVICE_ID \<noteq> 2 \<or> r R_VENDOR_ID \<noteq> 0x554d4551
         then panic ''could not find virtio disk'' s
         else let s = wreg R_STATUS 1 s;
                  s = wreg R_STATUS (1 OR 2) s;
                  s = wreg R_DRIVER_FEATURES (virtio_features (vd_regs (vd s) R_DEVICE_FEATURES)) s;
                  s = wreg R_STATUS (1 OR 2 OR 8) s;
                  s = wreg R_STATUS (1 OR 2 OR 8 OR 4) s;
                  s = wreg R_GUEST_PAGE_SIZE (ucast PGSIZE) s;
                  s = wreg R_QUEUE_SEL 0 s;
                  mx = vd_regs (vd s) R_QUEUE_NUM_MAX
              in if mx = 0 then panic ''virtio disk has no queue 0'' s
                 else if mx < of_nat NUM then panic ''virtio disk max queue too short'' s
                 else let s = wreg R_QUEUE_NUM (of_nat NUM) s;
                          s = upd_vd (\<lambda>v. v\<lparr>vd_desc := (\<lambda>_. desc0), avail_idx := 0, avail_ring := (\<lambda>_. 0),
                                used_dev_idx := 0, used_ring := (\<lambda>_. \<lparr>u_id = 0, u_len = 0\<rparr>)\<rparr>) s;
                          s = wreg R_QUEUE_PFN (ucast (drop_bit PGSHIFT pages_pa)) s
                      in ret () (upd_vd (\<lambda>v. v\<lparr>vd_free := (\<lambda>i. i < NUM \<or> vd_free v i)\<rparr>) s))"

section \<open>Descriptors\<close>

definition alloc_desc :: "'a vstate_scheme \<Rightarrow> nat option \<times> 'a vstate_scheme" where
  "alloc_desc s =
     (case List.find (vd_free (vd s)) [0..<NUM] of
        None \<Rightarrow> (None, s)
      | Some i \<Rightarrow> (Some i, upd_vd (\<lambda>v. v\<lparr>vd_free := (vd_free v)(i := False)\<rparr>) s))"

definition free_desc :: "nat \<Rightarrow> 'a vstate_scheme \<Rightarrow> ('a vstate_scheme, unit) out" where
  "free_desc i s =
     (if i \<ge> NUM then panic ''free_desc 1'' s
      else if vd_free (vd s) i then panic ''free_desc 2'' s
      else let s = upd_vd (\<lambda>v. v\<lparr>vd_desc := (vd_desc v)(i := desc0)\<rparr>) s;
               s = upd_vd (\<lambda>v. v\<lparr>vd_free := (vd_free v)(i := True)\<rparr>) s
           in wakeup Ch_disk_free s)"

lemma vd_indep: "sched_indep vd"
  by (auto simp: sched_indep_def)

lemma free_desc_returns:
  assumes "free_desc i s = Inr (r, t)"
  shows "i < NUM \<and> \<not> vd_free (vd s) i \<and>
    vd t = (vd s)\<lparr>vd_desc := (vd_desc (vd s))(i := desc0), vd_free := (vd_free (vd s))(i := True)\<rparr>"
proof -
  let ?s = "upd_vd (\<lambda>v. v\<lparr>vd_desc := (vd_desc v)(i := desc0), vd_free := (vd_free v)(i := True)\<rparr>) s"
  from assms have i: "i < NUM" "\<not> vd_free (vd s) i" and w: "wakeup Ch_disk_free ?s = Inr (r, t)"
    by (auto simp: free_desc_def upd_vd_def Let_def split: if_splits)
  from keeps_wakeup [OF vd_indep, of ?s Ch_disk_free] w have "vd t = vd ?s" by (simp add: keeps_def)
  with i show ?thesis by (simp add: upd_vd_def)
qed

function free_chain :: "nat \<Rightarrow> 'a vstate_scheme \<Rightarrow> ('a vstate_scheme, unit) out" where
  "free_chain i s =
     (let flag = d_flags (vd_desc (vd s) i);
          nxt = d_next (vd_desc (vd s) i)
      in bnd (free_desc i s) (\<lambda>_ s.
           if flag AND VRING_DESC_F_NEXT \<noteq> 0 then free_chain (unat nxt) s else ret () s))"
  by pat_completeness auto

termination
proof (relation "measure (\<lambda>(_, s). card {i. i < NUM \<and> \<not> vd_free (vd s) i})", simp)
  fix i and s t :: "'a vstate_scheme" and flag nxt r
  assume "free_desc i s = Inr (r, t)"
  from free_desc_returns [OF this]
  have "{j. j < NUM \<and> \<not> vd_free (vd t) j} \<subset> {j. j < NUM \<and> \<not> vd_free (vd s) j}" by auto
  then show "((unat (nxt :: ushort), t), (i, s)) \<in> measure (\<lambda>(_, s). card {i. i < NUM \<and> \<not> vd_free (vd s) i})"
    by (auto intro: psubset_card_mono)
qed

declare free_chain.simps [simp del]

definition alloc3_desc :: "'a vstate_scheme \<Rightarrow> ('a vstate_scheme, (nat \<times> nat \<times> nat) option) out" where
  "alloc3_desc s =
     (case alloc_desc s of
        (None, s) \<Rightarrow> ret None s
      | (Some i0, s) \<Rightarrow>
          (case alloc_desc s of
             (None, s) \<Rightarrow> bnd (free_desc i0 s) (\<lambda>_ s. ret None s)
           | (Some i1, s) \<Rightarrow>
               (case alloc_desc s of
                  (None, s) \<Rightarrow> bnd (free_desc i0 s) (\<lambda>_ s. bnd (free_desc i1 s) (\<lambda>_ s. ret None s))
                | (Some i2, s) \<Rightarrow> ret (Some (i0, i1, i2)) s)))"

section \<open>Requests\<close>

definition virtio_sector :: "uint \<Rightarrow> uint64" where
  "virtio_sector blockno = ucast (blockno * of_nat (BSIZE div 512))"

text \<open>Formatting the three descriptors and publishing the chain.\<close>

definition virtio_fill :: "nat \<Rightarrow> bool \<Rightarrow> nat \<times> nat \<times> nat \<Rightarrow> 'a vstate_scheme \<Rightarrow> 'a vstate_scheme" where
  "virtio_fill b wr idx s =
     (case idx of (i0, i1, i2) \<Rightarrow>
      let sector = virtio_sector (b_blockno (bufs s b));
          s = upd_vd (\<lambda>v. v\<lparr>vd_ops := (vd_ops v)(i0 :=
                \<lparr>rq_type = (if wr then VIRTIO_BLK_T_OUT else VIRTIO_BLK_T_IN), rq_reserved = 0, rq_sector = sector\<rparr>)\<rparr>) s;
          s = upd_vd (\<lambda>v. v\<lparr>vd_desc := (vd_desc v)(i0 :=
                \<lparr>d_addr = A_ops i0, d_len = 16, d_flags = VRING_DESC_F_NEXT, d_next = of_nat i1\<rparr>)\<rparr>) s;
          s = upd_vd (\<lambda>v. v\<lparr>vd_desc := (vd_desc v)(i1 :=
                \<lparr>d_addr = A_data b, d_len = of_nat BSIZE,
                 d_flags = (if wr then 0 else VRING_DESC_F_WRITE) OR VRING_DESC_F_NEXT, d_next = of_nat i2\<rparr>)\<rparr>) s;
          s = upd_vd (\<lambda>v. v\<lparr>vd_info := (vd_info v)(i0 := (vd_info v i0)\<lparr>in_status := 0xff\<rparr>)\<rparr>) s;
          s = upd_vd (\<lambda>v. v\<lparr>vd_desc := (vd_desc v)(i2 :=
                \<lparr>d_addr = A_status i0, d_len = 1, d_flags = VRING_DESC_F_WRITE, d_next = 0\<rparr>)\<rparr>) s;
          s = upd_buf b (\<lambda>x. x\<lparr>b_disk := True\<rparr>) s;
          s = upd_vd (\<lambda>v. v\<lparr>vd_info := (vd_info v)(i0 := (vd_info v i0)\<lparr>in_b := Some b\<rparr>)\<rparr>) s;
          s = upd_vd (\<lambda>v. v\<lparr>avail_ring := (avail_ring v)(unat (avail_idx v) mod NUM := of_nat i0)\<rparr>) s;
          s = upd_vd (\<lambda>v. v\<lparr>avail_idx := avail_idx v + 1\<rparr>) s
      in wreg R_QUEUE_NOTIFY 0 s)"

text \<open>The wait for completion, from its test on, and the clean-up after it.\<close>

definition virtio_wait :: "nat \<Rightarrow> nat \<Rightarrow> 'a vstate_scheme \<Rightarrow> ('a vstate_scheme, unit) out" where
  "virtio_wait b i0 s =
     (if b_disk (bufs s b) then sleep (Ch_buf b) vd_lk vd_lku s
      else let s = upd_vd (\<lambda>v. v\<lparr>vd_info := (vd_info v)(i0 := (vd_info v i0)\<lparr>in_b := None\<rparr>)\<rparr>) s
           in bnd (free_chain i0 s) (\<lambda>_ s. release vd_lk vd_lku s))"

definition virtio_start :: "nat \<Rightarrow> bool \<Rightarrow> 'a vstate_scheme \<Rightarrow> ('a vstate_scheme, unit) out" where
  "virtio_start b wr s =
     bnd (alloc3_desc s) (\<lambda>r s.
       case r of None \<Rightarrow> sleep Ch_disk_free vd_lk vd_lku s
       | Some idx \<Rightarrow> virtio_wait b (fst idx) (virtio_fill b wr idx s))"

definition virtio_disk_rw :: "nat \<Rightarrow> bool \<Rightarrow> 'a vstate_scheme \<Rightarrow> ('a vstate_scheme, unit) out" where
  "virtio_disk_rw b wr s = bnd (acquire vd_lk vd_lku s) (\<lambda>_ s. virtio_start b wr s)"

text \<open>What a process does when it runs again after one of the two sleeps.\<close>

definition virtio_start_return :: "nat \<Rightarrow> bool \<Rightarrow> nat \<Rightarrow> bool \<Rightarrow> 'a vstate_scheme \<Rightarrow> ('a vstate_scheme, unit) out" where
  "virtio_start_return p ie b wr s = bnd (sleep_return p ie vd_lk vd_lku s) (\<lambda>_ s. virtio_start b wr s)"

definition virtio_wait_return :: "nat \<Rightarrow> bool \<Rightarrow> nat \<Rightarrow> nat \<Rightarrow> 'a vstate_scheme \<Rightarrow> ('a vstate_scheme, unit) out" where
  "virtio_wait_return p ie b i0 s = bnd (sleep_return p ie vd_lk vd_lku s) (\<lambda>_ s. virtio_wait b i0 s)"

section \<open>Completion interrupts\<close>

lemma used_step: "used_idx v \<noteq> used_dev_idx v \<Longrightarrow>
    unat (used_dev_idx v - (used_idx v + 1)) < unat (used_dev_idx v - used_idx v)"
  using unat_sub_1 [of "used_dev_idx v" "used_idx v"] unat_eq_zero [of "used_dev_idx v - used_idx v"] by auto

function virtio_intr_loop :: "'a vstate_scheme \<Rightarrow> ('a vstate_scheme, unit) out" where
  "virtio_intr_loop s =
     (if used_idx (vd s) \<noteq> used_dev_idx (vd s) then
        let i = unat (u_id (used_ring (vd s) (unat (used_idx (vd s)) mod NUM)))
        in if in_status (vd_info (vd s) i) \<noteq> 0 then panic ''virtio_disk_intr status'' s
           else case in_b (vd_info (vd s) i) of
                  None \<Rightarrow> Inl (Fault, s)
                | Some b \<Rightarrow>
                    bnd (wakeup (Ch_buf b) (upd_buf b (\<lambda>x. x\<lparr>b_disk := False\<rparr>) s)) (\<lambda>_ s.
                      virtio_intr_loop (upd_vd (\<lambda>v. v\<lparr>used_idx := used_idx v + 1\<rparr>) s))
      else ret () s)"
  by pat_completeness auto

termination
proof (relation "measure (\<lambda>s. unat (used_dev_idx (vd s) - used_idx (vd s)))", simp)
  fix s t :: "'a vstate_scheme" and b i r
  assume u: "used_idx (vd s) \<noteq> used_dev_idx (vd s)"
    and "wakeup (Ch_buf b) (upd_buf b (\<lambda>x. x\<lparr>b_disk := False\<rparr>) s) = Inr (r, t)"
  with keeps_wakeup [OF vd_indep, of "upd_buf b (\<lambda>x. x\<lparr>b_disk := False\<rparr>) s" "Ch_buf b"]
  have "vd t = vd s" by (simp add: keeps_def upd_buf_def)
  with used_step [OF u] show "(upd_vd (\<lambda>v. v\<lparr>used_idx := used_idx v + 1\<rparr>) t, s)
      \<in> measure (\<lambda>s. unat (used_dev_idx (vd s) - used_idx (vd s)))"
    by (simp add: upd_vd_def)
qed

declare virtio_intr_loop.simps [simp del]

definition virtio_disk_intr :: "'a vstate_scheme \<Rightarrow> ('a vstate_scheme, unit) out" where
  "virtio_disk_intr s =
     bnd (acquire vd_lk vd_lku s) (\<lambda>_ s.
       let s = wreg R_INTERRUPT_ACK (vd_regs (vd s) R_INTERRUPT_STATUS AND 3) s
       in bnd (virtio_intr_loop s) (\<lambda>_ s. release vd_lk vd_lku s))"

end
