(* ===== verification/Log.thy ===== *)
theory Log
  imports Virtio
begin

text \<open>
  \<^verbatim>\<open>kernel/log.c\<close>: the write-ahead log. \<^verbatim>\<open>log.lh.block\<close> is a function from indices; the C code keeps the
  indices below \<open>LOGSIZE\<close>. A process that must wait in \<^verbatim>\<open>begin_op\<close> stops at the context switch and
  continues with \<open>begin_op_return\<close>.
\<close>

section \<open>State\<close>

record superblock =
  sb_magic :: uint
  sb_size :: uint
  sb_nblocks :: uint
  sb_ninodes :: uint
  sb_nlog :: uint
  sb_logstart :: uint
  sb_inodestart :: uint
  sb_bmapstart :: uint

record log =
  l_lock :: spinlock
  l_start :: int
  l_size :: int
  l_outstanding :: int
  l_committing :: bool
  l_dev :: int
  lh_n :: int
  lh_block :: "nat \<Rightarrow> int"

record lstate = vstate +
  the_log :: log

definition upd_log :: "(log \<Rightarrow> log) \<Rightarrow> 'a lstate_scheme \<Rightarrow> 'a lstate_scheme" where
  "upd_log h s = s\<lparr>the_log := h (the_log s)\<rparr>"

definition log_lk :: "'a lstate_scheme \<Rightarrow> spinlock" where
  "log_lk s = l_lock (the_log s)"

definition log_lku :: "(spinlock \<Rightarrow> spinlock) \<Rightarrow> 'a lstate_scheme \<Rightarrow> 'a lstate_scheme" where
  "log_lku f s = upd_log (\<lambda>l. l\<lparr>l_lock := f (l_lock l)\<rparr>) s"

interpretation loglock: sleep_lock log_lk log_lku
  by unfold_locales (auto simp: log_lk_def log_lku_def upd_log_def)

section \<open>Header and data blocks\<close>

text \<open>\<^verbatim>\<open>struct logheader\<close> in a block: \<^verbatim>\<open>n\<close> at offset 0, \<^verbatim>\<open>block[i]\<close> at offset \<open>4 + 4 * i\<close>.\<close>

definition hdr_n :: "cptr \<Rightarrow> int" where "hdr_n d = sint (get32 d 0)"
definition hdr_block :: "cptr \<Rightarrow> nat \<Rightarrow> int" where "hdr_block d i = sint (get32 d (4 + 4 * i))"

definition hdr_encode :: "int \<Rightarrow> (nat \<Rightarrow> int) \<Rightarrow> cptr \<Rightarrow> cptr" where
  "hdr_encode n blocks d =
     fold (\<lambda>i d. put32 d (4 + 4 * i) (of_int (blocks i))) [0..<nat n] (put32 d 0 (of_int n))"

definition read_head :: "'a lstate_scheme \<Rightarrow> ('a lstate_scheme, unit) out" where
  "read_head s =
     bnd (bread (of_int (l_dev (the_log s))) (of_int (l_start (the_log s))) s) (\<lambda>b s.
       let d = b_data (bufs s b);
           s = upd_log (\<lambda>l. l\<lparr>lh_n := hdr_n d\<rparr>) s;
           s = upd_log (\<lambda>l. l\<lparr>lh_block := (\<lambda>i. if int i < hdr_n d then hdr_block d i else lh_block l i)\<rparr>) s
       in brelse b s)"

definition write_head :: "'a lstate_scheme \<Rightarrow> ('a lstate_scheme, unit) out" where
  "write_head s =
     bnd (bread (of_int (l_dev (the_log s))) (of_int (l_start (the_log s))) s) (\<lambda>b s.
       let s = upd_buf b (\<lambda>x. x\<lparr>b_data := hdr_encode (lh_n (the_log s)) (lh_block (the_log s)) (b_data x)\<rparr>) s
       in bnd (bwrite b s) (\<lambda>_ s. brelse b s))"

definition log_block :: "log \<Rightarrow> nat \<Rightarrow> uint" where
  "log_block l tail = of_int (l_start l + int tail + 1)"

definition home_block :: "log \<Rightarrow> nat \<Rightarrow> uint" where
  "home_block l tail = of_int (lh_block l tail)"

fun install_trans_loop :: "bool \<Rightarrow> nat list \<Rightarrow> 'a lstate_scheme \<Rightarrow> ('a lstate_scheme, unit) out" where
  "install_trans_loop recovering [] s = ret () s"
| "install_trans_loop recovering (tail # ts) s =
     bnd (bread (of_int (l_dev (the_log s))) (log_block (the_log s) tail) s) (\<lambda>lbuf s.
     bnd (bread (of_int (l_dev (the_log s))) (home_block (the_log s) tail) s) (\<lambda>dbuf s.
       let s = upd_buf dbuf (\<lambda>x. x\<lparr>b_data := copy_bytes (b_data x) 0 (b_data (bufs s lbuf)) 0 BSIZE\<rparr>) s
       in bnd (bwrite dbuf s) (\<lambda>_ s.
          bnd (if recovering then ret () s else bunpin dbuf s) (\<lambda>_ s.
          bnd (brelse lbuf s) (\<lambda>_ s.
          bnd (brelse dbuf s) (\<lambda>_ s.
          install_trans_loop recovering ts s))))))"

definition install_trans :: "bool \<Rightarrow> 'a lstate_scheme \<Rightarrow> ('a lstate_scheme, unit) out" where
  "install_trans recovering s = install_trans_loop recovering [0..<nat (lh_n (the_log s))] s"

fun write_log_loop :: "nat list \<Rightarrow> 'a lstate_scheme \<Rightarrow> ('a lstate_scheme, unit) out" where
  "write_log_loop [] s = ret () s"
| "write_log_loop (tail # ts) s =
     bnd (bread (of_int (l_dev (the_log s))) (log_block (the_log s) tail) s) (\<lambda>to s.
     bnd (bread (of_int (l_dev (the_log s))) (home_block (the_log s) tail) s) (\<lambda>from s.
       let s = upd_buf to (\<lambda>x. x\<lparr>b_data := copy_bytes (b_data x) 0 (b_data (bufs s from)) 0 BSIZE\<rparr>) s
       in bnd (bwrite to s) (\<lambda>_ s.
          bnd (brelse from s) (\<lambda>_ s.
          bnd (brelse to s) (\<lambda>_ s.
          write_log_loop ts s)))))"

definition write_log :: "'a lstate_scheme \<Rightarrow> ('a lstate_scheme, unit) out" where
  "write_log s = write_log_loop [0..<nat (lh_n (the_log s))] s"

section \<open>Recovery and commit\<close>

definition recover_from_log :: "'a lstate_scheme \<Rightarrow> ('a lstate_scheme, unit) out" where
  "recover_from_log s =
     bnd (read_head s) (\<lambda>_ s.
     bnd (install_trans True s) (\<lambda>_ s.
     write_head (upd_log (\<lambda>l. l\<lparr>lh_n := 0\<rparr>) s)))"

text \<open>\<^verbatim>\<open>sizeof(struct logheader)\<close> is \<open>4 + 4 * LOGSIZE\<close>.\<close>

definition initlog :: "int \<Rightarrow> superblock \<Rightarrow> 'a lstate_scheme \<Rightarrow> ('a lstate_scheme, unit) out" where
  "initlog dev sb s =
     (if 4 + 4 * LOGSIZE \<ge> BSIZE then panic ''initlog: too big logheader'' s
      else let s = log_lku (initlock ''log'') s;
               s = upd_log (\<lambda>l. l\<lparr>l_start := sint (sb_logstart sb), l_size := sint (sb_nlog sb), l_dev := dev\<rparr>) s
           in recover_from_log s)"

definition commit :: "'a lstate_scheme \<Rightarrow> ('a lstate_scheme, unit) out" where
  "commit s =
     (if lh_n (the_log s) > 0 then
        bnd (write_log s) (\<lambda>_ s.
        bnd (write_head s) (\<lambda>_ s.
        bnd (install_trans False s) (\<lambda>_ s.
        write_head (upd_log (\<lambda>l. l\<lparr>lh_n := 0\<rparr>) s))))
      else ret () s)"

section \<open>Transactions\<close>

definition begin_op_loop :: "'a lstate_scheme \<Rightarrow> ('a lstate_scheme, unit) out" where
  "begin_op_loop s =
     (if l_committing (the_log s) then sleep Ch_log log_lk log_lku s
      else if lh_n (the_log s) + (l_outstanding (the_log s) + 1) * int MAXOPBLOCKS > int LOGSIZE
      then sleep Ch_log log_lk log_lku s
      else release log_lk log_lku (upd_log (\<lambda>l. l\<lparr>l_outstanding := l_outstanding l + 1\<rparr>) s))"

definition begin_op :: "'a lstate_scheme \<Rightarrow> ('a lstate_scheme, unit) out" where
  "begin_op s = bnd (acquire log_lk log_lku s) (\<lambda>_ s. begin_op_loop s)"

definition begin_op_return :: "nat \<Rightarrow> bool \<Rightarrow> 'a lstate_scheme \<Rightarrow> ('a lstate_scheme, unit) out" where
  "begin_op_return p ie s = bnd (sleep_return p ie log_lk log_lku s) (\<lambda>_ s. begin_op_loop s)"

definition end_op :: "'a lstate_scheme \<Rightarrow> ('a lstate_scheme, unit) out" where
  "end_op s =
     bnd (acquire log_lk log_lku s) (\<lambda>_ s.
       let s = upd_log (\<lambda>l. l\<lparr>l_outstanding := l_outstanding l - 1\<rparr>) s
       in if l_committing (the_log s) then panic ''log.committing'' s
          else let do_commit = (l_outstanding (the_log s) = 0)
               in bnd (if do_commit then ret () (upd_log (\<lambda>l. l\<lparr>l_committing := True\<rparr>) s)
                       else wakeup Ch_log s) (\<lambda>_ s.
                  bnd (release log_lk log_lku s) (\<lambda>_ s.
                    if do_commit then
                      bnd (commit s) (\<lambda>_ s.
                      bnd (acquire log_lk log_lku s) (\<lambda>_ s.
                      bnd (wakeup Ch_log (upd_log (\<lambda>l. l\<lparr>l_committing := False\<rparr>) s)) (\<lambda>_ s.
                      release log_lk log_lku s)))
                    else ret () s)))"

text \<open>The index at which \<^verbatim>\<open>log_write\<close> records a block: the slot that holds it already, or the next free one.\<close>

definition log_slot :: "log \<Rightarrow> uint \<Rightarrow> nat" where
  "log_slot l bno =
     (case List.find (\<lambda>i. of_int (lh_block l i) = bno) [0..<nat (lh_n l)] of Some i \<Rightarrow> i | None \<Rightarrow> nat (lh_n l))"

definition log_write :: "nat \<Rightarrow> 'a lstate_scheme \<Rightarrow> ('a lstate_scheme, unit) out" where
  "log_write b s =
     bnd (acquire log_lk log_lku s) (\<lambda>_ s.
       if lh_n (the_log s) \<ge> int LOGSIZE \<or> lh_n (the_log s) \<ge> l_size (the_log s) - 1
       then panic ''too big a transaction'' s
       else if l_outstanding (the_log s) < 1 then panic ''log_write outside of trans'' s
       else let bno = b_blockno (bufs s b);
                i = log_slot (the_log s) bno;
                s = upd_log (\<lambda>l. l\<lparr>lh_block := (lh_block l)(i := sint bno)\<rparr>) s
            in bnd (if int i = lh_n (the_log s)
                    then bnd (bpin b s) (\<lambda>_ s. ret () (upd_log (\<lambda>l. l\<lparr>lh_n := lh_n l + 1\<rparr>) s))
                    else ret () s) (\<lambda>_ s. release log_lk log_lku s))"

end
