(* ===== verification/Fs.thy ===== *)
theory Fs
  imports Log
begin

text \<open>
  \<^verbatim>\<open>kernel/fs.c\<close> with the on-disk format of \<^verbatim>\<open>kernel/fs.h\<close>: blocks, inodes, file contents, directories and path
  names. A pointer to an in-memory inode is its index in the inode table. Path names are the bytes before
  the terminating zero. Kernel destinations and sources of \<^verbatim>\<open>readi\<close> and \<^verbatim>\<open>writei\<close> that are local variables
  are byte lists that the operation returns or takes.
\<close>

section \<open>Format and state\<close>

definition ROOTINO :: uint where "ROOTINO = 1"
definition FSMAGIC :: uint where "FSMAGIC = 0x10203040"
definition NDIRECT :: nat where "NDIRECT = 12"
definition NINDIRECT :: nat where "NINDIRECT = BSIZE div 4"
definition MAXFILE :: nat where "MAXFILE = NDIRECT + NINDIRECT"
definition IPB :: nat where "IPB = BSIZE div 64"
definition BPB :: nat where "BPB = BSIZE * 8"
definition DIRSIZ :: nat where "DIRSIZ = 14"
definition T_DIR :: ushort where "T_DIR = 1"
definition T_FILE :: ushort where "T_FILE = 2"
definition T_DEVICE :: ushort where "T_DEVICE = 3"

record inode =
  i_dev :: uint
  i_inum :: uint
  i_ref :: int
  i_lock :: sleeplock
  i_valid :: bool
  i_type :: ushort
  i_major :: ushort
  i_minor :: ushort
  i_nlink :: ushort
  i_size :: uint
  i_addrs :: "nat \<Rightarrow> uint"

record fstate = lstate +
  sb :: superblock
  itable_lock :: spinlock
  itable :: "nat \<Rightarrow> inode"

definition IBLOCK :: "uint \<Rightarrow> superblock \<Rightarrow> uint" where
  "IBLOCK i q = i div of_nat IPB + sb_inodestart q"

definition BBLOCK :: "uint \<Rightarrow> superblock \<Rightarrow> uint" where
  "BBLOCK b q = b div of_nat BPB + sb_bmapstart q"

definition upd_inode :: "nat \<Rightarrow> (inode \<Rightarrow> inode) \<Rightarrow> 'a fstate_scheme \<Rightarrow> 'a fstate_scheme" where
  "upd_inode i h s = s\<lparr>itable := (itable s)(i := h (itable s i))\<rparr>"

definition in_lk :: "nat \<Rightarrow> 'a fstate_scheme \<Rightarrow> sleeplock" where
  "in_lk i s = i_lock (itable s i)"

definition in_lku :: "nat \<Rightarrow> (sleeplock \<Rightarrow> sleeplock) \<Rightarrow> 'a fstate_scheme \<Rightarrow> 'a fstate_scheme" where
  "in_lku i f s = upd_inode i (\<lambda>x. x\<lparr>i_lock := f (i_lock x)\<rparr>) s"

interpretation inodelock: sleeplock_field "in_lk i" "in_lku i" for i
  by unfold_locales (auto simp: in_lk_def in_lku_def upd_inode_def fun_upd_idem)

interpretation itlock: lock_field itable_lock itable_lock_update
  by unfold_locales simp_all

section \<open>Super block and data blocks\<close>

definition sb_decode :: "cptr \<Rightarrow> superblock" where
  "sb_decode d = \<lparr>sb_magic = get32 d 0, sb_size = get32 d 4, sb_nblocks = get32 d 8, sb_ninodes = get32 d 12,
     sb_nlog = get32 d 16, sb_logstart = get32 d 20, sb_inodestart = get32 d 24, sb_bmapstart = get32 d 28\<rparr>"

definition readsb :: "uint \<Rightarrow> 'a fstate_scheme \<Rightarrow> ('a fstate_scheme, unit) out" where
  "readsb dev s =
     bnd (bread dev 1 s) (\<lambda>bp s. brelse bp (s\<lparr>sb := sb_decode (b_data (bufs s bp))\<rparr>))"

definition fsinit :: "uint \<Rightarrow> 'a fstate_scheme \<Rightarrow> ('a fstate_scheme, unit) out" where
  "fsinit dev s =
     bnd (readsb dev s) (\<lambda>_ s.
       if sb_magic (sb s) \<noteq> FSMAGIC then panic ''invalid file system'' s
       else initlog (sint dev) (sb s) s)"

definition bzero :: "uint \<Rightarrow> uint \<Rightarrow> 'a fstate_scheme \<Rightarrow> ('a fstate_scheme, unit) out" where
  "bzero dev bno s =
     bnd (bread dev bno s) (\<lambda>bp s.
     bnd (log_write bp (upd_buf bp (\<lambda>x. x\<lparr>b_data := put_bytes (b_data x) 0 (replicate BSIZE 0)\<rparr>) s)) (\<lambda>_ s.
     brelse bp s))"

definition bit_mask :: "nat \<Rightarrow> uchar" where
  "bit_mask bi = push_bit (bi mod 8) 1"

definition bit_free :: "cptr \<Rightarrow> nat \<Rightarrow> bool" where
  "bit_free d bi \<longleftrightarrow> d (bi div 8) AND bit_mask bi = 0"

definition bit_set :: "nat \<Rightarrow> cptr \<Rightarrow> cptr" where
  "bit_set bi d = d(bi div 8 := d (bi div 8) OR bit_mask bi)"

definition bit_clear :: "nat \<Rightarrow> cptr \<Rightarrow> cptr" where
  "bit_clear bi d = d(bi div 8 := d (bi div 8) AND NOT (bit_mask bi))"

text \<open>The outer loop of \<^verbatim>\<open>balloc\<close> over the first blocks \<open>b\<close> of the bitmap blocks.\<close>

fun balloc_loop :: "uint \<Rightarrow> nat list \<Rightarrow> 'a fstate_scheme \<Rightarrow> ('a fstate_scheme, uint) out" where
  "balloc_loop dev [] s = panic ''balloc: out of blocks'' s"
| "balloc_loop dev (b # rest) s =
     bnd (bread dev (BBLOCK (of_nat b) (sb s)) s) (\<lambda>bp s.
       case List.find (bit_free (b_data (bufs s bp))) [0..<min BPB (unat (sb_size (sb s)) - b)] of
         Some bi \<Rightarrow>
           bnd (log_write bp (upd_buf bp (\<lambda>x. x\<lparr>b_data := bit_set bi (b_data x)\<rparr>) s)) (\<lambda>_ s.
           bnd (brelse bp s) (\<lambda>_ s.
           bnd (bzero dev (of_nat (b + bi)) s) (\<lambda>_ s.
           ret (of_nat (b + bi)) s)))
       | None \<Rightarrow> bnd (brelse bp s) (\<lambda>_ s. balloc_loop dev rest s))"

definition balloc_starts :: "uint \<Rightarrow> nat list" where
  "balloc_starts n = map (\<lambda>k. k * BPB) [0..<(unat n + BPB - 1) div BPB]"

definition balloc :: "uint \<Rightarrow> 'a fstate_scheme \<Rightarrow> ('a fstate_scheme, uint) out" where
  "balloc dev s = balloc_loop dev (balloc_starts (sb_size (sb s))) s"

definition bfree :: "uint \<Rightarrow> uint \<Rightarrow> 'a fstate_scheme \<Rightarrow> ('a fstate_scheme, unit) out" where
  "bfree dev b s =
     bnd (bread dev (BBLOCK b (sb s)) s) (\<lambda>bp s.
       let bi = unat b mod BPB
       in if bit_free (b_data (bufs s bp)) bi then panic ''freeing free block'' s
          else bnd (log_write bp (upd_buf bp (\<lambda>x. x\<lparr>b_data := bit_clear bi (b_data x)\<rparr>) s)) (\<lambda>_ s. brelse bp s))"

section \<open>Inodes\<close>

definition iinit :: "'a fstate_scheme \<Rightarrow> 'a fstate_scheme" where
  "iinit s =
     (let s = s\<lparr>itable_lock := initlock ''itable'' (itable_lock s)\<rparr>
      in fold (\<lambda>i. upd_inode i (\<lambda>x. x\<lparr>i_lock := initsleeplock ''inode'' (i_lock x)\<rparr>)) [0..<NINODE] s)"

text \<open>\<^verbatim>\<open>struct dinode\<close>: 64 bytes; \<open>dip inum\<close> is the offset of inode \<open>inum\<close> in its block.\<close>

definition dip :: "uint \<Rightarrow> nat" where
  "dip inum = 64 * (unat inum mod IPB)"

definition dinode_load :: "cptr \<Rightarrow> nat \<Rightarrow> inode \<Rightarrow> inode" where
  "dinode_load d o1 ip = ip\<lparr>i_type := get16 d o1, i_major := get16 d (o1 + 2), i_minor := get16 d (o1 + 4),
     i_nlink := get16 d (o1 + 6), i_size := get32 d (o1 + 8),
     i_addrs := (\<lambda>k. if k < NDIRECT + 1 then get32 d (o1 + 12 + 4 * k) else i_addrs ip k)\<rparr>"

definition dinode_store :: "nat \<Rightarrow> inode \<Rightarrow> cptr \<Rightarrow> cptr" where
  "dinode_store o1 ip d =
     fold (\<lambda>k d. put32 d (o1 + 12 + 4 * k) (i_addrs ip k)) [0..<NDIRECT + 1]
       (put32 (put16 (put16 (put16 (put16 d o1 (i_type ip)) (o1 + 2) (i_major ip)) (o1 + 4) (i_minor ip))
          (o1 + 6) (i_nlink ip)) (o1 + 8) (i_size ip))"

definition iget :: "uint \<Rightarrow> uint \<Rightarrow> 'a fstate_scheme \<Rightarrow> ('a fstate_scheme, nat) out" where
  "iget dev inum s =
     bnd (acquire itable_lock itable_lock_update s) (\<lambda>_ s.
       case List.find (\<lambda>i. i_ref (itable s i) > 0 \<and> i_dev (itable s i) = dev \<and> i_inum (itable s i) = inum) [0..<NINODE] of
         Some ip \<Rightarrow>
           bnd (release itable_lock itable_lock_update (upd_inode ip (\<lambda>x. x\<lparr>i_ref := i_ref x + 1\<rparr>) s)) (\<lambda>_ s. ret ip s)
       | None \<Rightarrow>
           (case List.find (\<lambda>i. i_ref (itable s i) = 0) [0..<NINODE] of
              None \<Rightarrow> panic ''iget: no inodes'' s
            | Some ip \<Rightarrow>
                bnd (release itable_lock itable_lock_update
                       (upd_inode ip (\<lambda>x. x\<lparr>i_dev := dev, i_inum := inum, i_ref := 1, i_valid := False\<rparr>) s)) (\<lambda>_ s.
                ret ip s)))"

fun ialloc_loop :: "uint \<Rightarrow> ushort \<Rightarrow> uint list \<Rightarrow> 'a fstate_scheme \<Rightarrow> ('a fstate_scheme, nat) out" where
  "ialloc_loop dev ty [] s = panic ''ialloc: no inodes'' s"
| "ialloc_loop dev ty (inum # rest) s =
     bnd (bread dev (IBLOCK inum (sb s)) s) (\<lambda>bp s.
       if get16 (b_data (bufs s bp)) (dip inum) = 0
       then bnd (log_write bp (upd_buf bp (\<lambda>x. x\<lparr>b_data :=
                   put16 (put_bytes (b_data x) (dip inum) (replicate 64 0)) (dip inum) ty\<rparr>) s)) (\<lambda>_ s.
            bnd (brelse bp s) (\<lambda>_ s. iget dev inum s))
       else bnd (brelse bp s) (\<lambda>_ s. ialloc_loop dev ty rest s))"

definition ialloc :: "uint \<Rightarrow> ushort \<Rightarrow> 'a fstate_scheme \<Rightarrow> ('a fstate_scheme, nat) out" where
  "ialloc dev ty s = ialloc_loop dev ty (map of_nat [1..<unat (sb_ninodes (sb s))]) s"

definition iupdate :: "nat \<Rightarrow> 'a fstate_scheme \<Rightarrow> ('a fstate_scheme, unit) out" where
  "iupdate ip s =
     bnd (bread (i_dev (itable s ip)) (IBLOCK (i_inum (itable s ip)) (sb s)) s) (\<lambda>bp s.
     bnd (log_write bp (upd_buf bp (\<lambda>x. x\<lparr>b_data :=
            dinode_store (dip (i_inum (itable s ip))) (itable s ip) (b_data x)\<rparr>) s)) (\<lambda>_ s.
     brelse bp s))"

definition idup :: "nat \<Rightarrow> 'a fstate_scheme \<Rightarrow> ('a fstate_scheme, nat) out" where
  "idup ip s =
     bnd (acquire itable_lock itable_lock_update s) (\<lambda>_ s.
     bnd (release itable_lock itable_lock_update (upd_inode ip (\<lambda>x. x\<lparr>i_ref := i_ref x + 1\<rparr>) s)) (\<lambda>_ s. ret ip s))"

definition ilock :: "nat option \<Rightarrow> 'a fstate_scheme \<Rightarrow> ('a fstate_scheme, unit) out" where
  "ilock ipo s =
     (case ipo of None \<Rightarrow> panic ''ilock'' s
      | Some ip \<Rightarrow>
          if i_ref (itable s ip) < 1 then panic ''ilock'' s
          else bnd (acquiresleep (in_lk ip) (in_lku ip) (Ch_inode_lock ip) s) (\<lambda>_ s.
            if \<not> i_valid (itable s ip) then
              bnd (bread (i_dev (itable s ip)) (IBLOCK (i_inum (itable s ip)) (sb s)) s) (\<lambda>bp s.
                let s = upd_inode ip (dinode_load (b_data (bufs s bp)) (dip (i_inum (itable s ip)))) s
                in bnd (brelse bp s) (\<lambda>_ s.
                     let s = upd_inode ip (\<lambda>x. x\<lparr>i_valid := True\<rparr>) s
                     in if i_type (itable s ip) = 0 then panic ''ilock: no type'' s else ret () s))
            else ret () s))"

definition iunlock :: "nat option \<Rightarrow> 'a fstate_scheme \<Rightarrow> ('a fstate_scheme, unit) out" where
  "iunlock ipo s =
     (case ipo of None \<Rightarrow> panic ''iunlock'' s
      | Some ip \<Rightarrow>
          bnd (holdingsleep (in_lk ip) (in_lku ip) s) (\<lambda>h s.
            if \<not> h \<or> i_ref (itable s ip) < 1 then panic ''iunlock'' s
            else releasesleep (in_lk ip) (in_lku ip) (Ch_inode_lock ip) s))"

subsection \<open>Contents\<close>

definition bmap :: "nat \<Rightarrow> nat \<Rightarrow> 'a fstate_scheme \<Rightarrow> ('a fstate_scheme, uint) out" where
  "bmap ip bn s =
     (if bn < NDIRECT then
        if i_addrs (itable s ip) bn = 0
        then bnd (balloc (i_dev (itable s ip)) s) (\<lambda>addr s.
               ret addr (upd_inode ip (\<lambda>x. x\<lparr>i_addrs := (i_addrs x)(bn := addr)\<rparr>) s))
        else ret (i_addrs (itable s ip) bn) s
      else let bn = bn - NDIRECT
           in if bn < NINDIRECT then
                bnd (if i_addrs (itable s ip) NDIRECT = 0
                     then bnd (balloc (i_dev (itable s ip)) s) (\<lambda>addr s.
                            ret addr (upd_inode ip (\<lambda>x. x\<lparr>i_addrs := (i_addrs x)(NDIRECT := addr)\<rparr>) s))
                     else ret (i_addrs (itable s ip) NDIRECT) s) (\<lambda>addr s.
                bnd (bread (i_dev (itable s ip)) addr s) (\<lambda>bp s.
                  let addr = get32 (b_data (bufs s bp)) (4 * bn)
                  in bnd (if addr = 0
                          then bnd (balloc (i_dev (itable s ip)) s) (\<lambda>addr s.
                               bnd (log_write bp (upd_buf bp (\<lambda>x. x\<lparr>b_data := put32 (b_data x) (4 * bn) addr\<rparr>) s)) (\<lambda>_ s.
                               ret addr s))
                          else ret addr s) (\<lambda>addr s.
                     bnd (brelse bp s) (\<lambda>_ s. ret addr s))))
              else panic ''bmap: out of range'' s)"

fun itrunc_direct :: "nat \<Rightarrow> nat list \<Rightarrow> 'a fstate_scheme \<Rightarrow> ('a fstate_scheme, unit) out" where
  "itrunc_direct ip [] s = ret () s"
| "itrunc_direct ip (i # is) s =
     (if i_addrs (itable s ip) i \<noteq> 0
      then bnd (bfree (i_dev (itable s ip)) (i_addrs (itable s ip) i) s) (\<lambda>_ s.
             itrunc_direct ip is (upd_inode ip (\<lambda>x. x\<lparr>i_addrs := (i_addrs x)(i := 0)\<rparr>) s))
      else itrunc_direct ip is s)"

fun itrunc_indirect :: "nat \<Rightarrow> nat \<Rightarrow> nat list \<Rightarrow> 'a fstate_scheme \<Rightarrow> ('a fstate_scheme, unit) out" where
  "itrunc_indirect ip bp [] s = ret () s"
| "itrunc_indirect ip bp (j # js) s =
     (let a = get32 (b_data (bufs s bp)) (4 * j)
      in if a \<noteq> 0 then bnd (bfree (i_dev (itable s ip)) a s) (\<lambda>_ s. itrunc_indirect ip bp js s)
         else itrunc_indirect ip bp js s)"

definition itrunc :: "nat \<Rightarrow> 'a fstate_scheme \<Rightarrow> ('a fstate_scheme, unit) out" where
  "itrunc ip s =
     bnd (itrunc_direct ip [0..<NDIRECT] s) (\<lambda>_ s.
     bnd (if i_addrs (itable s ip) NDIRECT \<noteq> 0 then
            bnd (bread (i_dev (itable s ip)) (i_addrs (itable s ip) NDIRECT) s) (\<lambda>bp s.
            bnd (itrunc_indirect ip bp [0..<NINDIRECT] s) (\<lambda>_ s.
            bnd (brelse bp s) (\<lambda>_ s.
            bnd (bfree (i_dev (itable s ip)) (i_addrs (itable s ip) NDIRECT) s) (\<lambda>_ s.
            ret () (upd_inode ip (\<lambda>x. x\<lparr>i_addrs := (i_addrs x)(NDIRECT := 0)\<rparr>) s)))))
          else ret () s) (\<lambda>_ s.
     iupdate ip (upd_inode ip (\<lambda>x. x\<lparr>i_size := 0\<rparr>) s)))"

definition iput :: "nat \<Rightarrow> 'a fstate_scheme \<Rightarrow> ('a fstate_scheme, unit) out" where
  "iput ip s =
     bnd (acquire itable_lock itable_lock_update s) (\<lambda>_ s.
     bnd (if i_ref (itable s ip) = 1 \<and> i_valid (itable s ip) \<and> i_nlink (itable s ip) = 0 then
            bnd (acquiresleep (in_lk ip) (in_lku ip) (Ch_inode_lock ip) s) (\<lambda>_ s.
            bnd (release itable_lock itable_lock_update s) (\<lambda>_ s.
            bnd (itrunc ip s) (\<lambda>_ s.
            bnd (iupdate ip (upd_inode ip (\<lambda>x. x\<lparr>i_type := 0\<rparr>) s)) (\<lambda>_ s.
            bnd (releasesleep (in_lk ip) (in_lku ip) (Ch_inode_lock ip)
                   (upd_inode ip (\<lambda>x. x\<lparr>i_valid := False\<rparr>) s)) (\<lambda>_ s.
            acquire itable_lock itable_lock_update s)))))
          else ret () s) (\<lambda>_ s.
     release itable_lock itable_lock_update (upd_inode ip (\<lambda>x. x\<lparr>i_ref := i_ref x - 1\<rparr>) s)))"

definition iunlockput :: "nat \<Rightarrow> 'a fstate_scheme \<Rightarrow> ('a fstate_scheme, unit) out" where
  "iunlockput ip s = bnd (iunlock (Some ip) s) (\<lambda>_ s. iput ip s)"

end
