(* ===== verification/Dir.thy ===== *)
theory Dir
  imports Fs
begin

text \<open>
  The upper half of \<^verbatim>\<open>kernel/fs.c\<close>: reading and writing file contents, directories, path names; and
  \<^verbatim>\<open>either_copyout\<close>/\<^verbatim>\<open>either_copyin\<close> of \<^verbatim>\<open>kernel/proc.c\<close>, through which data leaves and enters the kernel.
\<close>

section \<open>Either user or kernel memory\<close>

text \<open>
  A destination is a user virtual address, a physical address (a page of another address space, as in
  \<^verbatim>\<open>loadseg\<close>), or a local variable of the caller, whose new contents are returned. A source is a user
  address or the bytes of a local variable.
\<close>

datatype dst = D_user uint64 | D_phys uint64 | D_local
datatype src = S_user uint64 | S_local "uchar list"

definition either_copyout :: "dst \<Rightarrow> uchar list \<Rightarrow> 'a mstate_scheme \<Rightarrow> ('a mstate_scheme, int) out" where
  "either_copyout d bs s =
     bnd (myproc s) (\<lambda>p s.
       case d of
         D_user va \<Rightarrow> (case p of None \<Rightarrow> Inl (Fault, s) | Some p \<Rightarrow> copyout (p_pagetable (procs s p)) va bs s)
       | D_phys pa \<Rightarrow> ret 0 (s\<lparr>mem := st_bytes (mem s) pa bs\<rparr>)
       | D_local \<Rightarrow> ret 0 s)"

definition either_copyin :: "src \<Rightarrow> nat \<Rightarrow> 'a mstate_scheme \<Rightarrow> ('a mstate_scheme, int \<times> uchar list) out" where
  "either_copyin src n s =
     bnd (myproc s) (\<lambda>p s.
       case src of
         S_user va \<Rightarrow> (case p of None \<Rightarrow> Inl (Fault, s) | Some p \<Rightarrow> copyin (p_pagetable (procs s p)) va n s)
       | S_local bs \<Rightarrow> ret (0, take n bs) s)"

definition dst_add :: "dst \<Rightarrow> nat \<Rightarrow> dst" where
  "dst_add d n = (case d of D_user a \<Rightarrow> D_user (a + of_nat n) | D_phys a \<Rightarrow> D_phys (a + of_nat n) | D_local \<Rightarrow> D_local)"

definition src_add :: "src \<Rightarrow> nat \<Rightarrow> src" where
  "src_add s n = (case s of S_user a \<Rightarrow> S_user (a + of_nat n) | S_local bs \<Rightarrow> S_local (drop n bs))"

section \<open>File contents\<close>

record stat =
  st_dev :: int
  st_ino :: uint
  st_type :: ushort
  st_nlink :: ushort
  st_size :: uint64

definition stati :: "nat \<Rightarrow> 'a fstate_scheme \<Rightarrow> stat" where
  "stati ip s = \<lparr>st_dev = sint (i_dev (itable s ip)), st_ino = i_inum (itable s ip), st_type = i_type (itable s ip),
     st_nlink = i_nlink (itable s ip), st_size = ucast (i_size (itable s ip))\<rparr>"

text \<open>The bytes left in the block at \<open>off\<close>, at most \<open>n - tot\<close>: \<^verbatim>\<open>min(n - tot, BSIZE - off%BSIZE)\<close>.\<close>

definition chunk :: "uint \<Rightarrow> uint \<Rightarrow> uint" where
  "chunk lft off = min lft (of_nat BSIZE - off mod of_nat BSIZE)"

lemma chunk_bounds:
  assumes "lft \<noteq> 0"
  shows "0 < unat (chunk lft off)" "unat (chunk lft off) \<le> unat lft"
    "unat off mod BSIZE + unat (chunk lft off) \<le> BSIZE"
proof -
  have r: "unat (of_nat BSIZE - off mod of_nat BSIZE :: uint) = BSIZE - unat off mod BSIZE"
    by (simp add: BSIZE_def unat_sub word_le_nat_alt unat_mod_distrib)
  have lt: "unat off mod BSIZE < BSIZE" by (simp add: BSIZE_def)
  have "unat (chunk lft off) = min (unat lft) (BSIZE - unat off mod BSIZE)"
    by (simp add: chunk_def min_def word_le_nat_alt r)
  with lt assms show "0 < unat (chunk lft off)" "unat (chunk lft off) \<le> unat lft"
    "unat off mod BSIZE + unat (chunk lft off) \<le> BSIZE" by (auto simp: unat_gt_0)
qed

lemma chunk_step:
  assumes "tot < n"
  shows "unat (n - (tot + chunk (n - tot) off)) < unat (n - tot)"
proof -
  let ?m = "chunk (n - tot) off"
  have "n - tot \<noteq> 0" using assms by auto
  note b = chunk_bounds [OF this, of off]
  have "n - (tot + ?m) = (n - tot) - ?m" by simp
  moreover have "unat ((n - tot) - ?m) = unat (n - tot) - unat ?m"
    using b(2) by (simp add: unat_sub word_le_nat_alt)
  ultimately have "unat (n - (tot + ?m)) = unat (n - tot) - unat ?m" by (simp only:)
  with b show ?thesis by linarith
qed

text \<open>
  The loop of \<^verbatim>\<open>readi\<close>. It returns \<^verbatim>\<open>tot\<close> (the unsigned \<^verbatim>\<open>-1\<close> after a failed copy) and, for a local
  destination, the bytes stored there.
\<close>

function readi_loop ::
  "nat \<Rightarrow> dst \<Rightarrow> uint \<Rightarrow> uint \<Rightarrow> uint \<Rightarrow> 'a fstate_scheme \<Rightarrow> ('a fstate_scheme, uint \<times> uchar list) out" where
  "readi_loop ip d off n tot s =
     (if tot < n then
        bnd (bmap ip (unat (off div of_nat BSIZE)) s) (\<lambda>addr s.
        bnd (bread (i_dev (itable s ip)) addr s) (\<lambda>bp s.
          let m = chunk (n - tot) off;
              bs = get_bytes (b_data (bufs s bp)) (unat (off mod of_nat BSIZE)) (unat m)
          in bnd (either_copyout d bs s) (\<lambda>r s.
             bnd (brelse bp s) (\<lambda>_ s.
               if r = -1 then ret (-1, []) s
               else bnd (readi_loop ip (dst_add d (unat m)) (off + m) n (tot + m) s) (\<lambda>(t, rest) s.
                      ret (t, bs @ rest) s)))))
      else ret (tot, []) s)"
  by pat_completeness auto

termination
  by (relation "measure (\<lambda>(_, _, _, n, tot, _). unat (n - tot))") (auto simp: chunk_step)

declare readi_loop.simps [simp del]

definition readi ::
  "nat \<Rightarrow> dst \<Rightarrow> uint \<Rightarrow> uint \<Rightarrow> 'a fstate_scheme \<Rightarrow> ('a fstate_scheme, int \<times> uchar list) out" where
  "readi ip d off n s =
     (if off > i_size (itable s ip) \<or> off + n < off then ret (0, []) s
      else let n = (if off + n > i_size (itable s ip) then i_size (itable s ip) - off else n)
           in bnd (readi_loop ip d off n 0 s) (\<lambda>(tot, bs) s. ret (sint tot, bs) s))"

text \<open>The loop of \<^verbatim>\<open>writei\<close> returns \<^verbatim>\<open>tot\<close> and the final \<^verbatim>\<open>off\<close>.\<close>

function writei_loop ::
  "nat \<Rightarrow> src \<Rightarrow> uint \<Rightarrow> uint \<Rightarrow> uint \<Rightarrow> 'a fstate_scheme \<Rightarrow> ('a fstate_scheme, uint \<times> uint) out" where
  "writei_loop ip src off n tot s =
     (if tot < n then
        bnd (bmap ip (unat (off div of_nat BSIZE)) s) (\<lambda>addr s.
        bnd (bread (i_dev (itable s ip)) addr s) (\<lambda>bp s.
          let m = chunk (n - tot) off
          in bnd (either_copyin src (unat m) s) (\<lambda>(r, bs) s.
               let s = upd_buf bp (\<lambda>x. x\<lparr>b_data := put_bytes (b_data x) (unat (off mod of_nat BSIZE)) bs\<rparr>) s
               in if r = -1 then bnd (brelse bp s) (\<lambda>_ s. ret (tot, off) s)
                  else bnd (log_write bp s) (\<lambda>_ s.
                       bnd (brelse bp s) (\<lambda>_ s.
                       writei_loop ip (src_add src (unat m)) (off + m) n (tot + m) s)))))
      else ret (tot, off) s)"
  by pat_completeness auto

termination
  by (relation "measure (\<lambda>(_, _, _, n, tot, _). unat (n - tot))") (auto simp: chunk_step)

declare writei_loop.simps [simp del]

definition writei ::
  "nat \<Rightarrow> src \<Rightarrow> uint \<Rightarrow> uint \<Rightarrow> 'a fstate_scheme \<Rightarrow> ('a fstate_scheme, int) out" where
  "writei ip src off n s =
     (if off > i_size (itable s ip) \<or> off + n < off then ret (-1) s
      else if off + n > of_nat (MAXFILE * BSIZE) then ret (-1) s
      else bnd (writei_loop ip src off n 0 s) (\<lambda>(tot, off) s.
             let s = (if off > i_size (itable s ip) then upd_inode ip (\<lambda>x. x\<lparr>i_size := off\<rparr>) s else s)
             in bnd (iupdate ip s) (\<lambda>_ s. ret (sint tot) s)))"

section \<open>Directories\<close>

definition namecmp :: "cptr \<Rightarrow> cptr \<Rightarrow> int" where
  "namecmp s t = strncmp s t DIRSIZ"

text \<open>\<^verbatim>\<open>struct dirent\<close>: a 16-bit inode number and a name of 14 bytes.\<close>

definition de_inum :: "uchar list \<Rightarrow> ushort" where "de_inum de = le_word (take 2 de)"
definition de_name :: "uchar list \<Rightarrow> cptr" where "de_name de = (\<lambda>i. if i < DIRSIZ then de ! (i + 2) else 0)"
definition de_encode :: "ushort \<Rightarrow> cptr \<Rightarrow> uchar list" where "de_encode inum name = le_bytes 2 inum @ map name [0..<DIRSIZ]"

definition de_offsets :: "uint \<Rightarrow> uint list" where
  "de_offsets sz = map (\<lambda>k. of_nat (16 * k)) [0..<(unat sz + 15) div 16]"

fun dirlookup_loop :: "nat \<Rightarrow> cptr \<Rightarrow> uint list \<Rightarrow> 'a fstate_scheme \<Rightarrow> ('a fstate_scheme, (nat \<times> uint) option) out" where
  "dirlookup_loop dp name [] s = ret None s"
| "dirlookup_loop dp name (off # offs) s =
     bnd (readi dp D_local off 16 s) (\<lambda>(r, de) s.
       if r \<noteq> 16 then panic ''dirlookup read'' s
       else if de_inum de = 0 then dirlookup_loop dp name offs s
       else if namecmp name (de_name de) = 0
       then bnd (iget (i_dev (itable s dp)) (ucast (de_inum de)) s) (\<lambda>ip s. ret (Some (ip, off)) s)
       else dirlookup_loop dp name offs s)"

text \<open>The result carries the offset that the code stores through \<^verbatim>\<open>poff\<close>.\<close>

definition dirlookup :: "nat \<Rightarrow> cptr \<Rightarrow> 'a fstate_scheme \<Rightarrow> ('a fstate_scheme, (nat \<times> uint) option) out" where
  "dirlookup dp name s =
     (if i_type (itable s dp) \<noteq> T_DIR then panic ''dirlookup not DIR'' s
      else dirlookup_loop dp name (de_offsets (i_size (itable s dp))) s)"

fun dirlink_slot :: "nat \<Rightarrow> uint list \<Rightarrow> uint \<Rightarrow> 'a fstate_scheme \<Rightarrow> ('a fstate_scheme, uint) out" where
  "dirlink_slot dp [] past s = ret past s"
| "dirlink_slot dp (off # offs) past s =
     bnd (readi dp D_local off 16 s) (\<lambda>(r, de) s.
       if r \<noteq> 16 then panic ''dirlink read'' s
       else if de_inum de = 0 then ret off s
       else dirlink_slot dp offs (off + 16) s)"

definition dirlink :: "nat \<Rightarrow> cptr \<Rightarrow> uint \<Rightarrow> 'a fstate_scheme \<Rightarrow> ('a fstate_scheme, int) out" where
  "dirlink dp name inum s =
     bnd (dirlookup dp name s) (\<lambda>r s.
       case r of
         Some (ip, _) \<Rightarrow> bnd (iput ip s) (\<lambda>_ s. ret (-1) s)
       | None \<Rightarrow>
           bnd (dirlink_slot dp (de_offsets (i_size (itable s dp))) 0 s) (\<lambda>off s.
           bnd (writei dp (S_local (de_encode (ucast inum) (strncpy (\<lambda>_. 0) name (int DIRSIZ)))) off 16 s) (\<lambda>r s.
             if r \<noteq> 16 then panic ''dirlink'' s else ret 0 s)))"

section \<open>Path names\<close>

definition slash :: uchar where "slash = 47"

text \<open>
  \<^verbatim>\<open>skipelem\<close>: the rest of the path and the new contents of \<^verbatim>\<open>name\<close>, or \<open>None\<close> when no element is left.
\<close>

definition skipelem :: "uchar list \<Rightarrow> cptr \<Rightarrow> (uchar list \<times> cptr) option" where
  "skipelem path name =
     (let path = dropWhile (\<lambda>c. c = slash) path
      in if path = [] then None
         else let s = takeWhile (\<lambda>c. c \<noteq> slash) path;
                  path = dropWhile (\<lambda>c. c \<noteq> slash) path;
                  name = (if length s \<ge> DIRSIZ then put_bytes name 0 (take DIRSIZ s) else put_bytes name 0 (s @ [0]))
              in Some (dropWhile (\<lambda>c. c = slash) path, name))"

lemma skipelem_shorter: "skipelem path name = Some (rest, name') \<Longrightarrow> length rest < length path"
proof -
  assume a: "skipelem path name = Some (rest, name')"
  let ?p = "dropWhile (\<lambda>c. c = slash) path"
  from a have ne: "?p \<noteq> []" and rest: "rest = dropWhile (\<lambda>c. c = slash) (dropWhile (\<lambda>c. c \<noteq> slash) ?p)"
    by (auto simp: skipelem_def Let_def split: if_splits)
  from ne have "hd ?p \<noteq> slash" by (rule hd_dropWhile)
  with ne have "length (dropWhile (\<lambda>c. c \<noteq> slash) ?p) < length ?p"
    by (cases ?p) (simp_all add: length_dropWhile_le less_Suc_eq_le)
  moreover have "length rest \<le> length (dropWhile (\<lambda>c. c \<noteq> slash) ?p)" "length ?p \<le> length path"
    unfolding rest by (simp_all add: length_dropWhile_le)
  ultimately show ?thesis by simp
qed

text \<open>\<^verbatim>\<open>namex\<close> returns the inode and the contents of \<^verbatim>\<open>name\<close>.\<close>

function namex_loop ::
  "uchar list \<Rightarrow> bool \<Rightarrow> cptr \<Rightarrow> nat \<Rightarrow> 'a fstate_scheme \<Rightarrow> ('a fstate_scheme, nat option \<times> cptr) out" where
  "namex_loop path want_parent name ip s =
     (case skipelem path name of
        None \<Rightarrow> if want_parent then bnd (iput ip s) (\<lambda>_ s. ret (None, name) s) else ret (Some ip, name) s
      | Some (path', name') \<Rightarrow>
          bnd (ilock (Some ip) s) (\<lambda>_ s.
            if i_type (itable s ip) \<noteq> T_DIR then bnd (iunlockput ip s) (\<lambda>_ s. ret (None, name') s)
            else if want_parent \<and> path' = [] then bnd (iunlock (Some ip) s) (\<lambda>_ s. ret (Some ip, name') s)
            else bnd (dirlookup ip name' s) (\<lambda>r s.
                   case r of
                     None \<Rightarrow> bnd (iunlockput ip s) (\<lambda>_ s. ret (None, name') s)
                   | Some (nxt, _) \<Rightarrow> bnd (iunlockput ip s) (\<lambda>_ s. namex_loop path' want_parent name' nxt s))))"
  by pat_completeness auto

termination
  by (relation "measure (\<lambda>(path, _). length path)") (auto dest: skipelem_shorter)

declare namex_loop.simps [simp del]

definition namex :: "uchar list \<Rightarrow> bool \<Rightarrow> 'a fstate_scheme \<Rightarrow> ('a fstate_scheme, nat option \<times> cptr) out" where
  "namex path want_parent s =
     bnd (if path \<noteq> [] \<and> hd path = slash then iget ROOTDEV ROOTINO s
          else curproc (\<lambda>p s. case p_cwd (procs s p) of None \<Rightarrow> Inl (Fault, s) | Some ip \<Rightarrow> idup ip s) s) (\<lambda>ip s.
     namex_loop path want_parent (\<lambda>_. 0) ip s)"

definition namei :: "uchar list \<Rightarrow> 'a fstate_scheme \<Rightarrow> ('a fstate_scheme, nat option) out" where
  "namei path s = bnd (namex path False s) (\<lambda>(ip, _) s. ret ip s)"

definition nameiparent :: "uchar list \<Rightarrow> 'a fstate_scheme \<Rightarrow> ('a fstate_scheme, nat option \<times> cptr) out" where
  "nameiparent path s = namex path True s"

end
