(* ===== verification/Console.thy ===== *)
theory Console
  imports Dir
begin

text \<open>
  \<^verbatim>\<open>kernel/uart.c\<close>, \<^verbatim>\<open>kernel/console.c\<close>, \<^verbatim>\<open>kernel/printf.c\<close> and \<^verbatim>\<open>procdump\<close> of \<^verbatim>\<open>kernel/proc.c\<close>. The UART is a device: what
  its status and receive registers yield over time is given by two sequences in the state
  (\<open>uart_lsr\<close>, \<open>uart_rhr\<close>), read one value per access; what is written to the transmit register is
  appended to \<open>uart_out\<close>. The other control registers are a register file.
\<close>

section \<open>State\<close>

datatype devfn = Fn_console

record cons =
  c_lock :: spinlock
  c_buf :: cptr
  c_r :: uint
  c_w :: uint
  c_e :: uint

record cstate = fstate +
  uart_regs :: "nat \<Rightarrow> uchar"
  uart_lsr :: "nat \<Rightarrow> uchar"
  uart_lsr_pos :: nat
  uart_rhr :: "nat \<Rightarrow> uchar"
  uart_rhr_pos :: nat
  uart_out :: "uchar list"
  uart_tx_lock :: spinlock
  uart_tx_buf :: cptr
  uart_tx_w :: uint64
  uart_tx_r :: uint64
  panicked :: bool
  pr_lock :: spinlock
  pr_locking :: bool
  cons :: cons
  devsw_read :: "nat \<Rightarrow> devfn option"
  devsw_write :: "nat \<Rightarrow> devfn option"

interpretation uartlock: sleep_lock uart_tx_lock uart_tx_lock_update
  by unfold_locales simp_all

interpretation prlock: lock_field pr_lock pr_lock_update
  by unfold_locales simp_all

definition upd_cons :: "(cons \<Rightarrow> cons) \<Rightarrow> 'a cstate_scheme \<Rightarrow> 'a cstate_scheme" where
  "upd_cons h s = s\<lparr>cons := h (cons s)\<rparr>"

definition c_lk :: "'a cstate_scheme \<Rightarrow> spinlock" where
  "c_lk s = c_lock (cons s)"

definition c_lku :: "(spinlock \<Rightarrow> spinlock) \<Rightarrow> 'a cstate_scheme \<Rightarrow> 'a cstate_scheme" where
  "c_lku f s = upd_cons (\<lambda>c. c\<lparr>c_lock := f (c_lock c)\<rparr>) s"

interpretation conslock: sleep_lock c_lk c_lku
  by unfold_locales (auto simp: c_lk_def c_lku_def upd_cons_def)

section \<open>UART\<close>

definition UART_TX_BUF_SIZE :: nat where "UART_TX_BUF_SIZE = 32"
definition LSR_RX_READY :: uchar where "LSR_RX_READY = 1"
definition LSR_TX_IDLE :: uchar where "LSR_TX_IDLE = 32"

definition read_lsr :: "'a cstate_scheme \<Rightarrow> uchar \<times> 'a cstate_scheme" where
  "read_lsr s = (uart_lsr s (uart_lsr_pos s), s\<lparr>uart_lsr_pos := Suc (uart_lsr_pos s)\<rparr>)"

definition read_rhr :: "'a cstate_scheme \<Rightarrow> uchar \<times> 'a cstate_scheme" where
  "read_rhr s = (uart_rhr s (uart_rhr_pos s), s\<lparr>uart_rhr_pos := Suc (uart_rhr_pos s)\<rparr>)"

definition write_thr :: "uchar \<Rightarrow> 'a cstate_scheme \<Rightarrow> 'a cstate_scheme" where
  "write_thr c s = s\<lparr>uart_out := uart_out s @ [c]\<rparr>"

definition uart_wreg :: "nat \<Rightarrow> uchar \<Rightarrow> 'a cstate_scheme \<Rightarrow> 'a cstate_scheme" where
  "uart_wreg r v s = s\<lparr>uart_regs := (uart_regs s)(r := v)\<rparr>"

text \<open>Registers 1, 2, 3 are IER, FCR and LCR; register 0 is the baud-rate latch in this mode.\<close>

definition uartinit :: "'a cstate_scheme \<Rightarrow> 'a cstate_scheme" where
  "uartinit s =
     (let s = uart_wreg 1 0 s;
          s = uart_wreg 3 0x80 s;
          s = uart_wreg 0 3 s;
          s = uart_wreg 1 0 s;
          s = uart_wreg 3 3 s;
          s = uart_wreg 2 (1 OR 6) s;
          s = uart_wreg 1 (2 OR 1) s
      in s\<lparr>uart_tx_lock := initlock ''uart'' (uart_tx_lock s)\<rparr>)"

partial_function (option) uart_wait_idle :: "(nat \<Rightarrow> uchar) \<Rightarrow> nat \<Rightarrow> nat option" where
  "uart_wait_idle lsr k = (if lsr k AND LSR_TX_IDLE = 0 then uart_wait_idle lsr (Suc k) else Some (Suc k))"

definition uartputc_sync :: "uchar \<Rightarrow> 'a cstate_scheme \<Rightarrow> ('a cstate_scheme, unit) out" where
  "uartputc_sync c s =
     (let s = push_off s
      in if panicked s then Inl (Spin, s)
         else case uart_wait_idle (uart_lsr s) (uart_lsr_pos s) of
                None \<Rightarrow> Inl (Spin, s)
              | Some k \<Rightarrow> pop_off (write_thr c (s\<lparr>uart_lsr_pos := k\<rparr>)))"

definition tx_view :: "'a cstate_scheme \<Rightarrow> uint64 \<times> uint64" where
  "tx_view s = (uart_tx_w s, uart_tx_r s)"

lemma tx_view_indep: "sched_indep tx_view"
  by (auto simp: sched_indep_def tx_view_def)

lemma tx_step: "w \<noteq> r \<Longrightarrow> unat (w - (r + 1)) < unat (w - r)" for w r :: uint64
  using unat_sub_1 [of w r] unat_eq_zero [of "w - r"] by auto

function uartstart :: "'a cstate_scheme \<Rightarrow> ('a cstate_scheme, unit) out" where
  "uartstart s =
     (if uart_tx_w s = uart_tx_r s then ret () s
      else let (v, s) = read_lsr s
           in if v AND LSR_TX_IDLE = 0 then ret () s
              else let c = uart_tx_buf s (unat (uart_tx_r s) mod UART_TX_BUF_SIZE);
                       s = s\<lparr>uart_tx_r := uart_tx_r s + 1\<rparr>
                   in bnd (wakeup Ch_uart_tx_r s) (\<lambda>_ s. uartstart (write_thr c s)))"
  by pat_completeness auto

termination
proof (relation "measure (\<lambda>s. unat (uart_tx_w s - uart_tx_r s))", simp)
  fix s s1 s2 t :: "'a cstate_scheme" and v c x r
  assume ne: "uart_tx_w s \<noteq> uart_tx_r s" and l: "x = read_lsr s" "(v, s1) = x"
    and s2: "s2 = s1\<lparr>uart_tx_r := uart_tx_r s1 + 1\<rparr>" and w: "wakeup Ch_uart_tx_r s2 = Inr (r, t)"
  from keeps_wakeup [OF tx_view_indep, of s2 Ch_uart_tx_r] w have "tx_view t = tx_view s2" by (simp add: keeps_def)
  with l s2 have "uart_tx_w t = uart_tx_w s" "uart_tx_r t = uart_tx_r s + 1"
    by (auto simp: tx_view_def read_lsr_def)
  with tx_step [OF ne] show "(write_thr c t, s) \<in> measure (\<lambda>s. unat (uart_tx_w s - uart_tx_r s))"
    by (simp add: write_thr_def)
qed

declare uartstart.simps [simp del]

definition uart_put :: "uchar \<Rightarrow> 'a cstate_scheme \<Rightarrow> 'a cstate_scheme" where
  "uart_put c s = s\<lparr>uart_tx_buf := (uart_tx_buf s)(unat (uart_tx_w s) mod UART_TX_BUF_SIZE := c),
     uart_tx_w := uart_tx_w s + 1\<rparr>"

definition uartputc_loop :: "uchar \<Rightarrow> 'a cstate_scheme \<Rightarrow> ('a cstate_scheme, unit) out" where
  "uartputc_loop c s =
     (if uart_tx_w s = uart_tx_r s + of_nat UART_TX_BUF_SIZE
      then sleep Ch_uart_tx_r uart_tx_lock uart_tx_lock_update s
      else bnd (uartstart (uart_put c s)) (\<lambda>_ s. release uart_tx_lock uart_tx_lock_update s))"

definition uartputc :: "uchar \<Rightarrow> 'a cstate_scheme \<Rightarrow> ('a cstate_scheme, unit) out" where
  "uartputc c s =
     bnd (acquire uart_tx_lock uart_tx_lock_update s) (\<lambda>_ s.
       if panicked s then Inl (Spin, s) else uartputc_loop c s)"

definition uartputc_return :: "nat \<Rightarrow> bool \<Rightarrow> uchar \<Rightarrow> 'a cstate_scheme \<Rightarrow> ('a cstate_scheme, unit) out" where
  "uartputc_return p ie c s =
     bnd (sleep_return p ie uart_tx_lock uart_tx_lock_update s) (\<lambda>_ s. uartputc_loop c s)"

definition uartgetc :: "'a cstate_scheme \<Rightarrow> int \<times> 'a cstate_scheme" where
  "uartgetc s =
     (let (v, s) = read_lsr s
      in if v AND LSR_RX_READY \<noteq> 0 then let (c, s) = read_rhr s in (uint c, s) else (-1, s))"

section \<open>Formatted output\<close>

definition BACKSPACE :: int where "BACKSPACE = 0x100"

definition consputc :: "int \<Rightarrow> 'a cstate_scheme \<Rightarrow> ('a cstate_scheme, unit) out" where
  "consputc c s =
     (if c = BACKSPACE
      then bnd (uartputc_sync 8 s) (\<lambda>_ s. bnd (uartputc_sync 32 s) (\<lambda>_ s. uartputc_sync 8 s))
      else uartputc_sync (of_int c) s)"

fun consputs :: "uchar list \<Rightarrow> 'a cstate_scheme \<Rightarrow> ('a cstate_scheme, unit) out" where
  "consputs [] s = ret () s"
| "consputs (c # cs) s = bnd (consputc (uint c) s) (\<lambda>_ s. consputs cs s)"

text \<open>\<^verbatim>\<open>digits[k]\<close> of \<^verbatim>\<open>"0123456789abcdef"\<close>.\<close>

definition digit :: "nat \<Rightarrow> uchar" where
  "digit k = (if k < 10 then 48 + of_nat k else 97 + of_nat (k - 10))"

text \<open>The \<^verbatim>\<open>do ... while\<close> loop of \<^verbatim>\<open>printint\<close>: the digits, lowest first. The callers' bases are 10 and 16.\<close>

function print_digits :: "nat \<Rightarrow> nat \<Rightarrow> uchar list" where
  "print_digits base x = digit (x mod base) # (if x div base \<noteq> 0 \<and> 2 \<le> base then print_digits base (x div base) else [])"
  by pat_completeness auto

termination
  by (relation "measure snd") (auto simp: div_greater_zero_iff intro!: div_less_dividend)

declare print_digits.simps [simp del]

definition printint_chars :: "int \<Rightarrow> nat \<Rightarrow> bool \<Rightarrow> uchar list" where
  "printint_chars xx base signd =
     (let neg = (signd \<and> xx < 0);
          x = (if neg then of_int (- xx) else of_int xx) :: uint
      in rev (print_digits base (unat x) @ (if neg then [45] else [])))"

definition printint :: "int \<Rightarrow> nat \<Rightarrow> bool \<Rightarrow> 'a cstate_scheme \<Rightarrow> ('a cstate_scheme, unit) out" where
  "printint xx base signd s = consputs (printint_chars xx base signd) s"

definition printptr_chars :: "uint64 \<Rightarrow> uchar list" where
  "printptr_chars x = [48, 120] @ map (\<lambda>i. digit (unat (drop_bit 60 (push_bit (4 * i) x)))) [0..<16]"

definition printptr :: "uint64 \<Rightarrow> 'a cstate_scheme \<Rightarrow> ('a cstate_scheme, unit) out" where
  "printptr x s = consputs (printptr_chars x) s"

text \<open>The variable arguments of \<^verbatim>\<open>printf\<close>; a string may be the null pointer.\<close>

datatype parg = P_int int | P_ptr uint64 | P_str "uchar list option"

definition pint :: "parg list \<Rightarrow> int" where "pint ap = (case ap of P_int x # _ \<Rightarrow> x | _ \<Rightarrow> 0)"
definition pptr :: "parg list \<Rightarrow> uint64" where "pptr ap = (case ap of P_ptr x # _ \<Rightarrow> x | _ \<Rightarrow> 0)"
definition pstr :: "parg list \<Rightarrow> uchar list option" where "pstr ap = (case ap of P_str x # _ \<Rightarrow> x | _ \<Rightarrow> None)"

definition ascii :: "string \<Rightarrow> uchar list" where
  "ascii = map (\<lambda>c. of_nat (of_char c))"

fun printf_loop :: "uchar list \<Rightarrow> parg list \<Rightarrow> 'a cstate_scheme \<Rightarrow> ('a cstate_scheme, unit) out" where
  "printf_loop [] ap s = ret () s"
| "printf_loop [c] ap s = (if c \<noteq> 37 then consputc (uint c) s else ret () s)"
| "printf_loop (c # d # fmt) ap s =
     (if c \<noteq> 37 then bnd (consputc (uint c) s) (\<lambda>_ s. printf_loop (d # fmt) ap s)
      else if d = 100 then bnd (printint (pint ap) 10 True s) (\<lambda>_ s. printf_loop fmt (tl ap) s)
      else if d = 120 then bnd (printint (pint ap) 16 True s) (\<lambda>_ s. printf_loop fmt (tl ap) s)
      else if d = 112 then bnd (printptr (pptr ap) s) (\<lambda>_ s. printf_loop fmt (tl ap) s)
      else if d = 115
      then bnd (consputs (case pstr ap of None \<Rightarrow> ascii ''(null)'' | Some t \<Rightarrow> t) s) (\<lambda>_ s. printf_loop fmt (tl ap) s)
      else if d = 37 then bnd (consputc 37 s) (\<lambda>_ s. printf_loop fmt ap s)
      else bnd (consputc 37 s) (\<lambda>_ s. bnd (consputc (uint d) s) (\<lambda>_ s. printf_loop fmt ap s)))"

definition printf :: "uchar list \<Rightarrow> parg list \<Rightarrow> 'a cstate_scheme \<Rightarrow> ('a cstate_scheme, unit) out" where
  "printf fmt ap s =
     (let locking = pr_locking s
      in bnd (if locking then acquire pr_lock pr_lock_update s else ret () s) (\<lambda>_ s.
         bnd (printf_loop fmt ap s) (\<lambda>_ s.
         if locking then release pr_lock pr_lock_update s else ret () s)))"

text \<open>
  The body of the C function \<^verbatim>\<open>panic\<close>: what a run that stops with \<open>Panic msg\<close> goes on to do; it never returns.
\<close>

definition panic_body :: "string \<Rightarrow> 'a cstate_scheme \<Rightarrow> ('a cstate_scheme, unit) out" where
  "panic_body msg s =
     bnd (printf (ascii ''panic: '') [] (s\<lparr>pr_locking := False\<rparr>)) (\<lambda>_ s.
     bnd (printf (ascii msg) [] s) (\<lambda>_ s.
     bnd (printf [10] [] s) (\<lambda>_ s.
     Inl (Spin, s\<lparr>panicked := True\<rparr>))))"

definition printfinit :: "'a cstate_scheme \<Rightarrow> 'a cstate_scheme" where
  "printfinit s = s\<lparr>pr_lock := initlock ''pr'' (pr_lock s), pr_locking := True\<rparr>"

definition state_name :: "procstate \<Rightarrow> string" where
  "state_name st = (case st of UNUSED \<Rightarrow> ''unused'' | USED \<Rightarrow> ''???'' | SLEEPING \<Rightarrow> ''sleep '' | RUNNABLE \<Rightarrow> ''runble''
     | RUNNING \<Rightarrow> ''run   '' | ZOMBIE \<Rightarrow> ''zombie'')"

definition name_chars :: "cptr \<Rightarrow> uchar list" where
  "name_chars nm = takeWhile (\<lambda>c. c \<noteq> 0) (map nm [0..<16])"

fun procdump_loop :: "nat list \<Rightarrow> 'a cstate_scheme \<Rightarrow> ('a cstate_scheme, unit) out" where
  "procdump_loop [] s = ret () s"
| "procdump_loop (p # ps) s =
     (if p_state (procs s p) = UNUSED then procdump_loop ps s
      else bnd (printf (ascii ''%d %s %s'') [P_int (p_pid (procs s p)), P_str (Some (ascii (state_name (p_state (procs s p))))),
                  P_str (Some (name_chars (p_name (procs s p))))] s) (\<lambda>_ s.
           bnd (printf [10] [] s) (\<lambda>_ s. procdump_loop ps s)))"

definition procdump :: "'a cstate_scheme \<Rightarrow> ('a cstate_scheme, unit) out" where
  "procdump s = bnd (printf [10] [] s) (\<lambda>_ s. procdump_loop [0..<NPROC] s)"

section \<open>Console\<close>

definition INPUT_BUF :: nat where "INPUT_BUF = 128"

text \<open>Control-P, -U, -H and -D.\<close>

definition ctrl :: "char \<Rightarrow> int" where
  "ctrl x = int (of_char x) - 64"

fun consolewrite_loop :: "nat \<Rightarrow> src \<Rightarrow> nat \<Rightarrow> 'a cstate_scheme \<Rightarrow> ('a cstate_scheme, int) out" where
  "consolewrite_loop 0 src i s = ret (int i) s"
| "consolewrite_loop (Suc k) src i s =
     bnd (either_copyin (src_add src i) 1 s) (\<lambda>(r, cs) s.
       if r = -1 then ret (int i) s
       else bnd (uartputc (hd cs) s) (\<lambda>_ s. consolewrite_loop k src (Suc i) s))"

definition consolewrite :: "src \<Rightarrow> int \<Rightarrow> 'a cstate_scheme \<Rightarrow> ('a cstate_scheme, int) out" where
  "consolewrite src n s = consolewrite_loop (nat n) src 0 s"

definition consoleread_end :: "int \<Rightarrow> int \<Rightarrow> 'a cstate_scheme \<Rightarrow> ('a cstate_scheme, int) out" where
  "consoleread_end target n s = bnd (release c_lk c_lku s) (\<lambda>_ s. ret (target - n) s)"

function consoleread_loop :: "nat \<Rightarrow> dst \<Rightarrow> int \<Rightarrow> 'a cstate_scheme \<Rightarrow> ('a cstate_scheme, int) out" where
  "consoleread_loop n d target s =
     (if n = 0 then consoleread_end target 0 s
      else if c_r (cons s) = c_w (cons s)
      then bnd (myproc s) (\<lambda>me s. case me of None \<Rightarrow> Inl (Fault, s)
           | Some p \<Rightarrow>
               if p_killed (procs s p) \<noteq> 0 then bnd (release c_lk c_lku s) (\<lambda>_ s. ret (-1) s)
               else bnd (sleep Ch_cons_r c_lk c_lku s) (\<lambda>_ s. consoleread_loop n d target s))
      else let c = c_buf (cons s) (unat (c_r (cons s)) mod INPUT_BUF);
               s = upd_cons (\<lambda>x. x\<lparr>c_r := c_r x + 1\<rparr>) s
           in if uint c = ctrl (CHR ''D'')
              then consoleread_end target (int n)
                     (if int n < target then upd_cons (\<lambda>x. x\<lparr>c_r := c_r x - 1\<rparr>) s else s)
              else bnd (either_copyout d [c] s) (\<lambda>r s.
                     if r = -1 then consoleread_end target (int n) s
                     else if c = 10 then consoleread_end target (int (n - 1)) s
                     else consoleread_loop (n - 1) (dst_add d 1) target s))"
  by pat_completeness auto

termination
  by (relation "measure fst") (auto simp: sleep_not_Inr)

declare consoleread_loop.simps [simp del]

definition consoleread :: "dst \<Rightarrow> int \<Rightarrow> 'a cstate_scheme \<Rightarrow> ('a cstate_scheme, int) out" where
  "consoleread d n s =
     bnd (acquire c_lk c_lku s) (\<lambda>_ s.
       if n > 0 then consoleread_loop (nat n) d n s else consoleread_end n n s)"

text \<open>The rest of a \<^verbatim>\<open>consoleread\<close> that slept with \<open>n\<close> bytes still wanted.\<close>

definition consoleread_return :: "nat \<Rightarrow> bool \<Rightarrow> nat \<Rightarrow> dst \<Rightarrow> int \<Rightarrow> 'a cstate_scheme \<Rightarrow> ('a cstate_scheme, int) out" where
  "consoleread_return p ie n d target s =
     bnd (sleep_return p ie c_lk c_lku s) (\<lambda>_ s. consoleread_loop n d target s)"

definition edit_view :: "'a cstate_scheme \<Rightarrow> uint \<times> uint" where
  "edit_view s = (c_w (cons s), c_e (cons s))"

lemma uartputc_sync_cons: "uartputc_sync c s = Inr (r, t) \<Longrightarrow> cons t = cons s"
  by (auto simp: uartputc_sync_def Let_def push_off_eq pop_off_def set_mycpu_def intr_on_def write_thr_def
      panic_def split: if_splits option.splits)

lemma consputc_cons: "consputc c s = Inr (r, t) \<Longrightarrow> cons t = cons s"
  by (auto simp: consputc_def bnd_eq_Inr dest!: uartputc_sync_cons split: if_splits)

function kill_line :: "'a cstate_scheme \<Rightarrow> ('a cstate_scheme, unit) out" where
  "kill_line s =
     (if c_e (cons s) \<noteq> c_w (cons s) \<and> c_buf (cons s) (unat (c_e (cons s) - 1) mod INPUT_BUF) \<noteq> 10
      then bnd (consputc BACKSPACE (upd_cons (\<lambda>x. x\<lparr>c_e := c_e x - 1\<rparr>) s)) (\<lambda>_ s. kill_line s)
      else ret () s)"
  by pat_completeness auto

termination
proof (relation "measure (\<lambda>s. unat (c_e (cons s) - c_w (cons s)))", simp)
  fix s t :: "'a cstate_scheme" and r
  assume a: "c_e (cons s) \<noteq> c_w (cons s) \<and> c_buf (cons s) (unat (c_e (cons s) - 1) mod INPUT_BUF) \<noteq> 10"
    and "consputc BACKSPACE (upd_cons (\<lambda>x. x\<lparr>c_e := c_e x - 1\<rparr>) s) = Inr (r, t)"
  then have t: "cons t = (cons s)\<lparr>c_e := c_e (cons s) - 1\<rparr>" by (auto dest!: consputc_cons simp: upd_cons_def)
  have "c_e (cons s) - c_w (cons s) \<noteq> 0" using a by simp
  then have "unat (c_e (cons s) - c_w (cons s) - 1) < unat (c_e (cons s) - c_w (cons s))"
    using unat_gt_0 [of "c_e (cons s) - c_w (cons s)"] unat_minus_one [of "c_e (cons s) - c_w (cons s)"] by auto
  with t show "(t, s) \<in> measure (\<lambda>s. unat (c_e (cons s) - c_w (cons s)))"
    by (simp add: diff_diff_eq add.commute)
qed

declare kill_line.simps [simp del]

definition consoleintr :: "int \<Rightarrow> 'a cstate_scheme \<Rightarrow> ('a cstate_scheme, unit) out" where
  "consoleintr c s =
     bnd (acquire c_lk c_lku s) (\<lambda>_ s.
     bnd (if c = ctrl (CHR ''P'') then procdump s
          else if c = ctrl (CHR ''U'') then kill_line s
          else if c = ctrl (CHR ''H'') \<or> c = 0x7f
          then if c_e (cons s) \<noteq> c_w (cons s)
               then consputc BACKSPACE (upd_cons (\<lambda>x. x\<lparr>c_e := c_e x - 1\<rparr>) s)
               else ret () s
          else if c \<noteq> 0 \<and> c_e (cons s) - c_r (cons s) < of_nat INPUT_BUF
          then let c = (if c = 13 then 10 else c)
               in bnd (consputc c s) (\<lambda>_ s.
                    let s = upd_cons (\<lambda>x. x\<lparr>c_buf := (c_buf x)(unat (c_e x) mod INPUT_BUF := of_int c),
                          c_e := c_e x + 1\<rparr>) s
                    in if c = 10 \<or> c = ctrl (CHR ''D'') \<or> c_e (cons s) = c_r (cons s) + of_nat INPUT_BUF
                       then wakeup Ch_cons_r (upd_cons (\<lambda>x. x\<lparr>c_w := c_e x\<rparr>) s)
                       else ret () s)
          else ret () s) (\<lambda>_ s.
     release c_lk c_lku s))"

definition consoleinit :: "'a cstate_scheme \<Rightarrow> 'a cstate_scheme" where
  "consoleinit s =
     (let s = c_lku (initlock ''cons'') s;
          s = uartinit s
      in s\<lparr>devsw_read := (devsw_read s)(1 := Some Fn_console), devsw_write := (devsw_write s)(1 := Some Fn_console)\<rparr>)"

text \<open>The receive loop of \<^verbatim>\<open>uartintr\<close> ends when the receive register is empty.\<close>

partial_function (option) uartintr_loop :: "'a cstate_scheme \<Rightarrow> ('a cstate_scheme, unit) out option" where
  "uartintr_loop s =
     (let (c, s) = uartgetc s
      in if c = -1 then Some (ret () s)
         else case consoleintr c s of Inl e \<Rightarrow> Some (Inl e) | Inr (_, s) \<Rightarrow> uartintr_loop s)"

text \<open>A loop that never ends, as an outcome: the CPU spins.\<close>

definition or_spin :: "'s \<Rightarrow> ('s, 'a) out option \<Rightarrow> ('s, 'a) out" where
  "or_spin s r = (case r of None \<Rightarrow> Inl (Spin, s) | Some m \<Rightarrow> m)"

definition uartintr :: "'a cstate_scheme \<Rightarrow> ('a cstate_scheme, unit) out" where
  "uartintr s =
     bnd (or_spin s (uartintr_loop s)) (\<lambda>_ s.
     bnd (acquire uart_tx_lock uart_tx_lock_update s) (\<lambda>_ s.
     bnd (uartstart s) (\<lambda>_ s.
     release uart_tx_lock uart_tx_lock_update s)))"

end
