(* ===== verification/File.thy ===== *)
theory File
  imports Console
begin

text \<open>
  \<^verbatim>\<open>kernel/file.c\<close> and \<^verbatim>\<open>pipealloc\<close> of \<^verbatim>\<open>kernel/pipe.c\<close>: the table of open files. A \<^verbatim>\<open>struct file *\<close> is an index
  in the table. \<open>kstate\<close> is the whole state of the kernel proper.
\<close>

section \<open>State\<close>

datatype ftype = FD_NONE | FD_PIPE | FD_INODE | FD_DEVICE

record ofile =
  f_type :: ftype
  f_ref :: int
  f_readable :: bool
  f_writable :: bool
  f_pipe :: uint64
  f_ip :: "nat option"
  f_off :: uint
  f_major :: ushort

record kstate = cstate +
  ftable_lock :: spinlock
  ftable :: "nat \<Rightarrow> ofile"

interpretation ftlock: lock_field ftable_lock ftable_lock_update
  by unfold_locales simp_all

definition upd_file :: "nat \<Rightarrow> (ofile \<Rightarrow> ofile) \<Rightarrow> 'a kstate_scheme \<Rightarrow> 'a kstate_scheme" where
  "upd_file i h s = s\<lparr>ftable := (ftable s)(i := h (ftable s i))\<rparr>"

section \<open>The file table\<close>

definition fileinit :: "'a kstate_scheme \<Rightarrow> 'a kstate_scheme" where
  "fileinit s = s\<lparr>ftable_lock := initlock ''ftable'' (ftable_lock s)\<rparr>"

definition filealloc :: "'a kstate_scheme \<Rightarrow> ('a kstate_scheme, nat option) out" where
  "filealloc s =
     bnd (acquire ftable_lock ftable_lock_update s) (\<lambda>_ s.
       case List.find (\<lambda>f. f_ref (ftable s f) = 0) [0..<NFILE] of
         Some f \<Rightarrow>
           bnd (release ftable_lock ftable_lock_update (upd_file f (\<lambda>x. x\<lparr>f_ref := 1\<rparr>) s)) (\<lambda>_ s. ret (Some f) s)
       | None \<Rightarrow> bnd (release ftable_lock ftable_lock_update s) (\<lambda>_ s. ret None s))"

definition filedup :: "nat \<Rightarrow> 'a kstate_scheme \<Rightarrow> ('a kstate_scheme, nat) out" where
  "filedup f s =
     bnd (acquire ftable_lock ftable_lock_update s) (\<lambda>_ s.
       if f_ref (ftable s f) < 1 then panic ''filedup'' s
       else bnd (release ftable_lock ftable_lock_update (upd_file f (\<lambda>x. x\<lparr>f_ref := f_ref x + 1\<rparr>) s)) (\<lambda>_ s. ret f s))"

definition fileclose :: "nat \<Rightarrow> 'a kstate_scheme \<Rightarrow> ('a kstate_scheme, unit) out" where
  "fileclose f s =
     bnd (acquire ftable_lock ftable_lock_update s) (\<lambda>_ s.
       if f_ref (ftable s f) < 1 then panic ''fileclose'' s
       else let s = upd_file f (\<lambda>x. x\<lparr>f_ref := f_ref x - 1\<rparr>) s
            in if f_ref (ftable s f) > 0 then release ftable_lock ftable_lock_update s
               else let ff = ftable s f;
                        s = upd_file f (\<lambda>x. x\<lparr>f_ref := 0, f_type := FD_NONE\<rparr>) s
                    in bnd (release ftable_lock ftable_lock_update s) (\<lambda>_ s.
                         if f_type ff = FD_PIPE then pipeclose (f_pipe ff) (f_writable ff) s
                         else if f_type ff = FD_INODE \<or> f_type ff = FD_DEVICE
                         then bnd (begin_op s) (\<lambda>_ s.
                              bnd (case f_ip ff of None \<Rightarrow> Inl (Fault, s) | Some ip \<Rightarrow> iput ip s) (\<lambda>_ s. end_op s))
                         else ret () s))"

definition pipealloc_bad :: "uint64 \<Rightarrow> nat option \<Rightarrow> nat option \<Rightarrow> 'a kstate_scheme \<Rightarrow> ('a kstate_scheme, (nat \<times> nat) option) out" where
  "pipealloc_bad pi f0 f1 s =
     bnd (if pi \<noteq> 0 then kfree pi s else ret () s) (\<lambda>_ s.
     bnd (case f0 of Some f \<Rightarrow> fileclose f s | None \<Rightarrow> ret () s) (\<lambda>_ s.
     bnd (case f1 of Some f \<Rightarrow> fileclose f s | None \<Rightarrow> ret () s) (\<lambda>_ s.
     ret None s)))"

definition pipe_file :: "uint64 \<Rightarrow> bool \<Rightarrow> ofile \<Rightarrow> ofile" where
  "pipe_file pi wr x = x\<lparr>f_type := FD_PIPE, f_readable := \<not> wr, f_writable := wr, f_pipe := pi\<rparr>"

definition pipealloc :: "'a kstate_scheme \<Rightarrow> ('a kstate_scheme, (nat \<times> nat) option) out" where
  "pipealloc s =
     bnd (filealloc s) (\<lambda>f0 s.
       case f0 of None \<Rightarrow> pipealloc_bad 0 None None s
       | Some g0 \<Rightarrow>
           bnd (filealloc s) (\<lambda>f1 s.
             case f1 of None \<Rightarrow> pipealloc_bad 0 f0 None s
             | Some g1 \<Rightarrow>
                 bnd (kalloc s) (\<lambda>pi s.
                   if pi = 0 then pipealloc_bad 0 f0 f1 s
                   else let s = upd_pipe pi (\<lambda>p. p\<lparr>pi_readopen := True, pi_writeopen := True, pi_nwrite := 0, pi_nread := 0,
                                  pi_lock := initlock ''pipe'' (pi_lock p)\<rparr>) s;
                            s = upd_file g0 (pipe_file pi False) s;
                            s = upd_file g1 (pipe_file pi True) s
                        in ret (Some (g0, g1)) s)))"

section \<open>Operations on open files\<close>

text \<open>The layout of \<^verbatim>\<open>struct stat\<close>; its four bytes of padding before \<^verbatim>\<open>size\<close> are read as zero.\<close>

definition stat_bytes :: "stat \<Rightarrow> uchar list" where
  "stat_bytes st = le_bytes 4 (of_int (st_dev st) :: uint) @ le_bytes 4 (st_ino st) @ le_bytes 2 (st_type st) @
     le_bytes 2 (st_nlink st) @ replicate 4 0 @ le_bytes 8 (st_size st)"

definition filestat :: "nat \<Rightarrow> uint64 \<Rightarrow> 'a kstate_scheme \<Rightarrow> ('a kstate_scheme, int) out" where
  "filestat f addr s =
     bnd (myproc s) (\<lambda>me s.
       if f_type (ftable s f) = FD_INODE \<or> f_type (ftable s f) = FD_DEVICE
       then case f_ip (ftable s f) of
              None \<Rightarrow> panic ''ilock'' s
            | Some ip \<Rightarrow>
                bnd (ilock (Some ip) s) (\<lambda>_ s.
                  let st = stati ip s
                  in bnd (iunlock (Some ip) s) (\<lambda>_ s.
                       case me of None \<Rightarrow> Inl (Fault, s)
                       | Some p \<Rightarrow> bnd (copyout (p_pagetable (procs s p)) addr (stat_bytes st) s) (\<lambda>r s.
                                     if r < 0 then ret (-1) s else ret 0 s)))
       else ret (-1) s)"

definition dev_ok :: "ushort \<Rightarrow> (nat \<Rightarrow> devfn option) \<Rightarrow> bool" where
  "dev_ok major sw \<longleftrightarrow> \<not> (sint major < 0 \<or> sint major \<ge> NDEV \<or> sw (unat major) = None)"

definition fileread :: "nat \<Rightarrow> uint64 \<Rightarrow> int \<Rightarrow> 'a kstate_scheme \<Rightarrow> ('a kstate_scheme, int) out" where
  "fileread f addr n s =
     (if \<not> f_readable (ftable s f) then ret (-1) s
      else case f_type (ftable s f) of
        FD_PIPE \<Rightarrow> piperead (f_pipe (ftable s f)) addr n s
      | FD_DEVICE \<Rightarrow>
          if \<not> dev_ok (f_major (ftable s f)) (devsw_read s) then ret (-1) s else consoleread (D_user addr) n s
      | FD_INODE \<Rightarrow>
          (case f_ip (ftable s f) of
             None \<Rightarrow> panic ''ilock'' s
           | Some ip \<Rightarrow>
               bnd (ilock (Some ip) s) (\<lambda>_ s.
               bnd (readi ip (D_user addr) (f_off (ftable s f)) (of_int n) s) (\<lambda>(r, _) s.
                 let s = (if r > 0 then upd_file f (\<lambda>x. x\<lparr>f_off := f_off x + of_int r\<rparr>) s else s)
                 in bnd (iunlock (Some ip) s) (\<lambda>_ s. ret r s))))
      | FD_NONE \<Rightarrow> panic ''fileread'' s)"

definition FILE_CHUNK :: int where
  "FILE_CHUNK = ((int MAXOPBLOCKS - 1 - 1 - 2) div 2) * int BSIZE"

lemma FILE_CHUNK_pos: "0 < FILE_CHUNK"
  by (simp add: FILE_CHUNK_def MAXOPBLOCKS_def BSIZE_def)

function filewrite_loop :: "nat \<Rightarrow> nat \<Rightarrow> uint64 \<Rightarrow> int \<Rightarrow> int \<Rightarrow> 'a kstate_scheme \<Rightarrow> ('a kstate_scheme, int) out" where
  "filewrite_loop f ip addr n i s =
     (if i < n then
        let n1 = (if n - i > FILE_CHUNK then FILE_CHUNK else n - i)
        in bnd (begin_op s) (\<lambda>_ s.
           bnd (ilock (Some ip) s) (\<lambda>_ s.
           bnd (writei ip (S_user (addr + of_int i)) (f_off (ftable s f)) (of_int n1) s) (\<lambda>r s.
             let s = (if r > 0 then upd_file f (\<lambda>x. x\<lparr>f_off := f_off x + of_int r\<rparr>) s else s)
             in bnd (iunlock (Some ip) s) (\<lambda>_ s.
                bnd (end_op s) (\<lambda>_ s.
                if r \<noteq> n1 then ret i s else filewrite_loop f ip addr n (i + r) s)))))
      else ret i s)"
  by pat_completeness auto

termination
  by (relation "measure (\<lambda>(_, _, _, n, i, _). nat (n - i))") (auto simp: FILE_CHUNK_pos)

declare filewrite_loop.simps [simp del]

definition filewrite :: "nat \<Rightarrow> uint64 \<Rightarrow> int \<Rightarrow> 'a kstate_scheme \<Rightarrow> ('a kstate_scheme, int) out" where
  "filewrite f addr n s =
     (if \<not> f_writable (ftable s f) then ret (-1) s
      else case f_type (ftable s f) of
        FD_PIPE \<Rightarrow> pipewrite (f_pipe (ftable s f)) addr n s
      | FD_DEVICE \<Rightarrow>
          if \<not> dev_ok (f_major (ftable s f)) (devsw_write s) then ret (-1) s else consolewrite (S_user addr) n s
      | FD_INODE \<Rightarrow>
          (case f_ip (ftable s f) of
             None \<Rightarrow> if n > 0 then bnd (begin_op s) (\<lambda>_ s. panic ''ilock'' s) else ret (if n = 0 then 0 else -1) s
           | Some ip \<Rightarrow> bnd (filewrite_loop f ip addr n 0 s) (\<lambda>i s. ret (if i = n then n else -1) s))
      | FD_NONE \<Rightarrow> panic ''filewrite'' s)"

end
