(* ===== verification/Csr.thy ===== *)
theory Csr
  imports Machine
begin

text \<open>
  The control and status registers of a hart that the kernel accesses (\<^verbatim>\<open>kernel/riscv.h\<close>), and
  \<^verbatim>\<open>kernel/start.c\<close>, which sets them up in machine mode. The interrupt-enable bit SIE of \<^verbatim>\<open>sstatus\<close> is the field
  \<open>intr\<close> of theory \<open>Spinlock\<close>; the register here holds the other bits (see theory \<open>Trap\<close>).
\<close>

section \<open>Registers\<close>

record csr =
  mhartid :: uint64
  mstatus :: uint64
  mepc :: uint64
  medeleg :: uint64
  mideleg :: uint64
  sie :: uint64
  mie :: uint64
  mtvec :: uint64
  mscratch :: uint64
  pmpcfg0 :: uint64
  pmpaddr0 :: uint64
  csr_satp :: uint64
  csr_sstatus :: uint64
  sip :: uint64
  sepc :: uint64
  stvec :: uint64
  scause :: uint64
  stval :: uint64

abbreviation MSTATUS_MPP_MASK :: uint64 where "MSTATUS_MPP_MASK \<equiv> push_bit 11 3"
abbreviation MSTATUS_MPP_S :: uint64 where "MSTATUS_MPP_S \<equiv> push_bit 11 1"
abbreviation MSTATUS_MIE :: uint64 where "MSTATUS_MIE \<equiv> push_bit 3 1"
abbreviation SSTATUS_SPP :: uint64 where "SSTATUS_SPP \<equiv> push_bit 8 1"
abbreviation SSTATUS_SPIE :: uint64 where "SSTATUS_SPIE \<equiv> push_bit 5 1"
abbreviation SSTATUS_SIE :: uint64 where "SSTATUS_SIE \<equiv> push_bit 1 1"
abbreviation SIE_SEIE :: uint64 where "SIE_SEIE \<equiv> push_bit 9 1"
abbreviation SIE_STIE :: uint64 where "SIE_STIE \<equiv> push_bit 5 1"
abbreviation SIE_SSIE :: uint64 where "SIE_SSIE \<equiv> push_bit 1 1"
abbreviation MIE_MTIE :: uint64 where "MIE_MTIE \<equiv> push_bit 7 1"

definition r_mhartid :: "csr \<Rightarrow> uint64" where "r_mhartid c = mhartid c"
definition r_mstatus :: "csr \<Rightarrow> uint64" where "r_mstatus c = mstatus c"
definition w_mstatus :: "uint64 \<Rightarrow> csr \<Rightarrow> csr" where "w_mstatus x c = c\<lparr>mstatus := x\<rparr>"
definition w_mepc :: "uint64 \<Rightarrow> csr \<Rightarrow> csr" where "w_mepc x c = c\<lparr>mepc := x\<rparr>"
definition r_sie :: "csr \<Rightarrow> uint64" where "r_sie c = sie c"
definition w_sie :: "uint64 \<Rightarrow> csr \<Rightarrow> csr" where "w_sie x c = c\<lparr>sie := x\<rparr>"
definition r_mie :: "csr \<Rightarrow> uint64" where "r_mie c = mie c"
definition w_mie :: "uint64 \<Rightarrow> csr \<Rightarrow> csr" where "w_mie x c = c\<lparr>mie := x\<rparr>"
definition w_medeleg :: "uint64 \<Rightarrow> csr \<Rightarrow> csr" where "w_medeleg x c = c\<lparr>medeleg := x\<rparr>"
definition w_mideleg :: "uint64 \<Rightarrow> csr \<Rightarrow> csr" where "w_mideleg x c = c\<lparr>mideleg := x\<rparr>"
definition w_mtvec :: "uint64 \<Rightarrow> csr \<Rightarrow> csr" where "w_mtvec x c = c\<lparr>mtvec := x\<rparr>"
definition w_pmpcfg0 :: "uint64 \<Rightarrow> csr \<Rightarrow> csr" where "w_pmpcfg0 x c = c\<lparr>pmpcfg0 := x\<rparr>"
definition w_pmpaddr0 :: "uint64 \<Rightarrow> csr \<Rightarrow> csr" where "w_pmpaddr0 x c = c\<lparr>pmpaddr0 := x\<rparr>"
definition w_satp :: "uint64 \<Rightarrow> csr \<Rightarrow> csr" where "w_satp x c = c\<lparr>csr_satp := x\<rparr>"
definition w_mscratch :: "uint64 \<Rightarrow> csr \<Rightarrow> csr" where "w_mscratch x c = c\<lparr>mscratch := x\<rparr>"

section \<open>Start-up\<close>

text \<open>
  What \<^verbatim>\<open>start\<close> works on: the registers of the hart, its \<^verbatim>\<open>tp\<close>, the CLINT and the scratch area of the timer
  handler. The addresses of \<^verbatim>\<open>main\<close>, \<^verbatim>\<open>timervec\<close> and \<^verbatim>\<open>timer_scratch\<close> are fixed by the linker.
\<close>

record boot =
  bt_csr :: csr
  bt_tp :: uint64
  bt_clint :: "uint64 \<Rightarrow> uint64"
  timer_scratch :: "nat \<Rightarrow> nat \<Rightarrow> uint64"

abbreviation CLINT :: uint64 where "CLINT \<equiv> 0x2000000"
abbreviation CLINT_MTIMECMP :: "uint64 \<Rightarrow> uint64" where "CLINT_MTIMECMP hartid \<equiv> CLINT + 0x4000 + 8 * hartid"
abbreviation CLINT_MTIME :: uint64 where "CLINT_MTIME \<equiv> CLINT + 0xBFF8"

definition upd_csr :: "(csr \<Rightarrow> csr) \<Rightarrow> boot \<Rightarrow> boot" where
  "upd_csr h b = b\<lparr>bt_csr := h (bt_csr b)\<rparr>"

definition timer_interval :: uint64 where "timer_interval = 1000000"

definition timerinit :: "uint64 \<Rightarrow> uint64 \<Rightarrow> boot \<Rightarrow> boot" where
  "timerinit scratch_pa timervec b =
     (let i = r_mhartid (bt_csr b);
          b = b\<lparr>bt_clint := (bt_clint b)(CLINT_MTIMECMP i := bt_clint b CLINT_MTIME + timer_interval)\<rparr>;
          b = b\<lparr>timer_scratch := (timer_scratch b)(unat i := (timer_scratch b (unat i))(3 := CLINT_MTIMECMP i, 4 := timer_interval))\<rparr>;
          b = upd_csr (w_mscratch (scratch_pa + 40 * i)) b;
          b = upd_csr (w_mtvec timervec) b;
          b = upd_csr (\<lambda>c. w_mstatus (r_mstatus c OR MSTATUS_MIE) c) b
      in upd_csr (\<lambda>c. w_mie (r_mie c OR MIE_MTIE) c) b)"

definition start :: "uint64 \<Rightarrow> uint64 \<Rightarrow> uint64 \<Rightarrow> boot \<Rightarrow> boot" where
  "start main_pa scratch_pa timervec b =
     (let b = upd_csr (\<lambda>c. w_mstatus ((r_mstatus c AND NOT MSTATUS_MPP_MASK) OR MSTATUS_MPP_S) c) b;
          b = upd_csr (w_mepc main_pa) b;
          b = upd_csr (w_satp 0) b;
          b = upd_csr (w_medeleg 0xffff) b;
          b = upd_csr (w_mideleg 0xffff) b;
          b = upd_csr (\<lambda>c. w_sie (r_sie c OR SIE_SEIE OR SIE_STIE OR SIE_SSIE) c) b;
          b = upd_csr (w_pmpaddr0 0x3fffffffffffff) b;
          b = upd_csr (w_pmpcfg0 0xf) b;
          b = timerinit scratch_pa timervec b
      in b\<lparr>bt_tp := r_mhartid (bt_csr b)\<rparr>)"

end
