(* ===== verification/Proc.thy ===== *)
theory Proc
  imports File Csr
begin

text \<open>
  The part of \<^verbatim>\<open>kernel/proc.c\<close> that creates, grows and ends processes: \<^verbatim>\<open>allocproc\<close>, \<^verbatim>\<open>freeproc\<close>, \<^verbatim>\<open>userinit\<close>,
  \<^verbatim>\<open>growproc\<close>, \<^verbatim>\<open>fork\<close>, \<^verbatim>\<open>exit\<close>, \<^verbatim>\<open>wait\<close>. The trap frame of a process is the page at \<open>p_trapframe\<close>; its
  registers are 64-bit words at the offsets of \<^verbatim>\<open>struct trapframe\<close>. \<open>tstate\<close> adds the supervisor registers that
  the trap code uses and the addresses of the symbols that the linker fixes.
\<close>

section \<open>State\<close>

record tstate = kstate +
  csrs :: "nat \<Rightarrow> csr"
  plic_regs :: "uint64 \<Rightarrow> uint"
  fork_first :: bool
  started :: bool
  sym_forkret :: uint64
  sym_usertrap :: uint64
  sym_kernelvec :: uint64
  sym_uservec :: uint64
  sym_userret :: uint64

definition tf_epc :: uint64 where "tf_epc = 24"
definition tf_sp :: uint64 where "tf_sp = 48"
definition tf_a0 :: uint64 where "tf_a0 = 112"
definition tf_a1 :: uint64 where "tf_a1 = 120"
definition tf_a7 :: uint64 where "tf_a7 = 168"

definition tf_get :: "uint64 \<Rightarrow> nat \<Rightarrow> 'a mstate_scheme \<Rightarrow> uint64" where
  "tf_get r p s = ld64 (mem s) (p_trapframe (procs s p) + r)"

definition tf_set :: "uint64 \<Rightarrow> uint64 \<Rightarrow> nat \<Rightarrow> 'a mstate_scheme \<Rightarrow> 'a mstate_scheme" where
  "tf_set r v p s = s\<lparr>mem := st64 (mem s) (p_trapframe (procs s p) + r) v\<rparr>"

section \<open>Page tables of processes\<close>

definition proc_pagetable :: "nat \<Rightarrow> 'a mstate_scheme \<Rightarrow> ('a mstate_scheme, uint64) out" where
  "proc_pagetable p s =
     bnd (uvmcreate s) (\<lambda>pagetable s.
       if pagetable = 0 then ret 0 s
       else bnd (mappages pagetable TRAMPOLINE PGSIZE (ld_trampoline s) (PTE_R OR PTE_X) s) (\<lambda>r s.
         if r < 0 then bnd (or_spin s (uvmfree pagetable 0 s)) (\<lambda>_ s. ret 0 s)
         else bnd (mappages pagetable TRAPFRAME PGSIZE (p_trapframe (procs s p)) (PTE_R OR PTE_W) s) (\<lambda>r s.
           if r < 0
           then bnd (uvmunmap pagetable TRAMPOLINE 1 False s) (\<lambda>_ s.
                bnd (or_spin s (uvmfree pagetable 0 s)) (\<lambda>_ s. ret 0 s))
           else ret pagetable s)))"

definition proc_freepagetable :: "uint64 \<Rightarrow> uint64 \<Rightarrow> 'a mstate_scheme \<Rightarrow> ('a mstate_scheme, unit) out" where
  "proc_freepagetable pagetable sz s =
     bnd (uvmunmap pagetable TRAMPOLINE 1 False s) (\<lambda>_ s.
     bnd (uvmunmap pagetable TRAPFRAME 1 False s) (\<lambda>_ s.
     or_spin s (uvmfree pagetable sz s)))"

section \<open>Allocating and freeing process slots\<close>

definition freeproc_clear :: "proc \<Rightarrow> proc" where
  "freeproc_clear q = q\<lparr>p_pagetable := 0, p_sz := 0, p_pid := 0, p_parent := None, p_name := (p_name q)(0 := 0),
     p_chan := None, p_killed := 0, p_xstate := 0, p_priority := 0, p_state := UNUSED\<rparr>"

definition freeproc :: "nat \<Rightarrow> 'a mstate_scheme \<Rightarrow> ('a mstate_scheme, unit) out" where
  "freeproc p s =
     bnd (if p_trapframe (procs s p) \<noteq> 0 then kfree (p_trapframe (procs s p)) s else ret () s) (\<lambda>_ s.
       let s = upd_proc p (\<lambda>q. q\<lparr>p_trapframe := 0\<rparr>) s
       in bnd (if p_pagetable (procs s p) \<noteq> 0
               then proc_freepagetable (p_pagetable (procs s p)) (p_sz (procs s p)) s else ret () s) (\<lambda>_ s.
            ret () (upd_proc p freeproc_clear s)))"

fun allocproc_find :: "nat list \<Rightarrow> 'a pstate_scheme \<Rightarrow> ('a pstate_scheme, nat option) out" where
  "allocproc_find [] s = ret None s"
| "allocproc_find (p # ps) s =
     bnd (acquire (p_lk p) (p_lku p) s) (\<lambda>_ s.
       if p_state (procs s p) = UNUSED then ret (Some p) s
       else bnd (release (p_lk p) (p_lku p) s) (\<lambda>_ s. allocproc_find ps s))"

definition ctxt0 :: ctxt where
  "ctxt0 = \<lparr>ra = 0, sp = 0, s0 = 0, s1 = 0, s2 = 0, s3 = 0, s4 = 0, s5 = 0, s6 = 0, s7 = 0, s8 = 0, s9 = 0, s10 = 0, s11 = 0\<rparr>"

definition allocproc :: "'a tstate_scheme \<Rightarrow> ('a tstate_scheme, nat option) out" where
  "allocproc s =
     bnd (allocproc_find [0..<NPROC] s) (\<lambda>r s.
       case r of None \<Rightarrow> ret None s
       | Some p \<Rightarrow>
           bnd (allocpid s) (\<lambda>pid s.
             let s = upd_proc p (\<lambda>q. q\<lparr>p_pid := pid\<rparr>) s;
                 s = upd_proc p (\<lambda>q. q\<lparr>p_state := USED\<rparr>) s;
                 s = upd_proc p (\<lambda>q. q\<lparr>p_priority := 5\<rparr>) s
             in bnd (kalloc s) (\<lambda>tf s.
                  let s = upd_proc p (\<lambda>q. q\<lparr>p_trapframe := tf\<rparr>) s
                  in if tf = 0
                     then bnd (freeproc p s) (\<lambda>_ s. bnd (release (p_lk p) (p_lku p) s) (\<lambda>_ s. ret None s))
                     else bnd (proc_pagetable p s) (\<lambda>pt s.
                            let s = upd_proc p (\<lambda>q. q\<lparr>p_pagetable := pt\<rparr>) s
                            in if pt = 0
                               then bnd (freeproc p s) (\<lambda>_ s. bnd (release (p_lk p) (p_lku p) s) (\<lambda>_ s. ret None s))
                               else ret (Some p) (upd_proc p (\<lambda>q. q\<lparr>p_context :=
                                      ctxt0\<lparr>ra := sym_forkret s, sp := p_kstack q + PGSIZE\<rparr>\<rparr>) s)))))"

definition initcode :: "uchar list" where
  "initcode = [
  0x17, 0x05, 0x00, 0x00, 0x13, 0x05, 0x45, 0x02,
  0x97, 0x05, 0x00, 0x00, 0x93, 0x85, 0x35, 0x02,
  0x93, 0x08, 0x70, 0x00, 0x73, 0x00, 0x00, 0x00,
  0x93, 0x08, 0x20, 0x00, 0x73, 0x00, 0x00, 0x00,
  0xef, 0xf0, 0x9f, 0xff, 0x2f, 0x69, 0x6e, 0x69,
  0x74, 0x00, 0x00, 0x24, 0x00, 0x00, 0x00, 0x00,
  0x00, 0x00, 0x00, 0x00]"

text \<open>A string constant as a C array: its characters, then zeros.\<close>

definition cstring :: "string \<Rightarrow> cptr" where
  "cstring t = (\<lambda>i. if i < length t then of_nat (of_char (t ! i)) else 0)"

definition userinit :: "'a tstate_scheme \<Rightarrow> ('a tstate_scheme, unit) out" where
  "userinit s =
     bnd (allocproc s) (\<lambda>r s.
       let s = s\<lparr>initproc := r\<rparr>
       in case r of None \<Rightarrow> Inl (Fault, s)
          | Some p \<Rightarrow>
              bnd (uvminit (p_pagetable (procs s p)) initcode s) (\<lambda>_ s.
                let s = upd_proc p (\<lambda>q. q\<lparr>p_sz := PGSIZE\<rparr>) s;
                    s = tf_set tf_epc 0 p s;
                    s = tf_set tf_sp PGSIZE p s;
                    s = upd_proc p (\<lambda>q. q\<lparr>p_name := safestrcpy (p_name q) (cstring ''initcode'') 16\<rparr>) s
                in bnd (namei [slash] s) (\<lambda>ip s.
                     let s = upd_proc p (\<lambda>q. q\<lparr>p_cwd := ip\<rparr>) s;
                         s = upd_proc p (\<lambda>q. q\<lparr>p_state := RUNNABLE\<rparr>) s
                     in release (p_lk p) (p_lku p) s)))"

text \<open>\<^verbatim>\<open>growproc\<close> keeps the size in a 32-bit variable.\<close>

definition growproc :: "int \<Rightarrow> 'a mstate_scheme \<Rightarrow> ('a mstate_scheme, int) out" where
  "growproc n s = curproc (\<lambda>p s.
     let sz = ucast (p_sz (procs s p)) :: uint
     in if n > 0 then
          bnd (uvmalloc (p_pagetable (procs s p)) (ucast sz) (ucast (sz + of_int n)) s) (\<lambda>r s.
            if (ucast r :: uint) = 0 then ret (-1) s
            else ret 0 (upd_proc p (\<lambda>q. q\<lparr>p_sz := ucast (ucast r :: uint)\<rparr>) s))
        else if n < 0 then
          bnd (uvmdealloc (p_pagetable (procs s p)) (ucast sz) (ucast (sz + of_int n)) s) (\<lambda>r s.
            ret 0 (upd_proc p (\<lambda>q. q\<lparr>p_sz := ucast (ucast r :: uint)\<rparr>) s))
        else ret 0 (upd_proc p (\<lambda>q. q\<lparr>p_sz := ucast sz\<rparr>) s)) s"

section \<open>Fork, exit and wait\<close>

fun fork_files :: "nat \<Rightarrow> nat \<Rightarrow> nat list \<Rightarrow> 'a kstate_scheme \<Rightarrow> ('a kstate_scheme, unit) out" where
  "fork_files p np [] s = ret () s"
| "fork_files p np (i # is) s =
     (case p_ofile (procs s p) i of
        None \<Rightarrow> fork_files p np is s
      | Some f \<Rightarrow> bnd (filedup f s) (\<lambda>f s.
                    fork_files p np is (upd_proc np (\<lambda>q. q\<lparr>p_ofile := (p_ofile q)(i := Some f)\<rparr>) s)))"

definition fork :: "'a tstate_scheme \<Rightarrow> ('a tstate_scheme, int) out" where
  "fork s = curproc (\<lambda>p s.
     bnd (allocproc s) (\<lambda>r s.
       case r of None \<Rightarrow> ret (-1) s
       | Some np \<Rightarrow>
           bnd (uvmcopy (p_pagetable (procs s p)) (p_pagetable (procs s np)) (p_sz (procs s p)) s) (\<lambda>r s.
             if r < 0
             then bnd (freeproc np s) (\<lambda>_ s. bnd (release (p_lk np) (p_lku np) s) (\<lambda>_ s. ret (-1) s))
             else
               let s = upd_proc np (\<lambda>q. q\<lparr>p_sz := p_sz (procs s p)\<rparr>) s;
                   s = s\<lparr>mem := st_bytes (mem s) (p_trapframe (procs s np)) (ld_bytes (mem s) (p_trapframe (procs s p)) 288)\<rparr>;
                   s = tf_set tf_a0 0 np s
               in bnd (fork_files p np [0..<NOFILE] s) (\<lambda>_ s.
                  bnd (case p_cwd (procs s p) of None \<Rightarrow> Inl (Fault, s) | Some ip \<Rightarrow> idup ip s) (\<lambda>ip s.
                    let s = upd_proc np (\<lambda>q. q\<lparr>p_cwd := Some ip\<rparr>) s;
                        s = upd_proc np (\<lambda>q. q\<lparr>p_name := safestrcpy (p_name q) (p_name (procs s p)) 16\<rparr>) s;
                        s = upd_proc np (\<lambda>q. q\<lparr>p_priority := p_priority (procs s p)\<rparr>) s;
                        pid = p_pid (procs s np)
                    in bnd (release (p_lk np) (p_lku np) s) (\<lambda>_ s.
                       bnd (acquire wait_lock wait_lock_update s) (\<lambda>_ s.
                       bnd (release wait_lock wait_lock_update (upd_proc np (\<lambda>q. q\<lparr>p_parent := Some p\<rparr>) s)) (\<lambda>_ s.
                       bnd (acquire (p_lk np) (p_lku np) s) (\<lambda>_ s.
                       bnd (release (p_lk np) (p_lku np) (upd_proc np (\<lambda>q. q\<lparr>p_state := RUNNABLE\<rparr>) s)) (\<lambda>_ s.
                       ret pid s)))))))))) s"

definition chan_of :: "nat option \<Rightarrow> chan" where
  "chan_of p = (case p of None \<Rightarrow> Ch_null | Some p \<Rightarrow> Ch_proc p)"

fun reparent_loop :: "nat \<Rightarrow> nat list \<Rightarrow> 'a pstate_scheme \<Rightarrow> ('a pstate_scheme, unit) out" where
  "reparent_loop p [] s = ret () s"
| "reparent_loop p (pp # ps) s =
     (if p_parent (procs s pp) = Some p
      then bnd (wakeup (chan_of (initproc s)) (upd_proc pp (\<lambda>q. q\<lparr>p_parent := initproc s\<rparr>) s)) (\<lambda>_ s. reparent_loop p ps s)
      else reparent_loop p ps s)"

definition reparent :: "nat \<Rightarrow> 'a pstate_scheme \<Rightarrow> ('a pstate_scheme, unit) out" where
  "reparent p s = reparent_loop p [0..<NPROC] s"

fun exit_files :: "nat \<Rightarrow> nat list \<Rightarrow> 'a kstate_scheme \<Rightarrow> ('a kstate_scheme, unit) out" where
  "exit_files p [] s = ret () s"
| "exit_files p (fd # fds) s =
     (case p_ofile (procs s p) fd of
        None \<Rightarrow> exit_files p fds s
      | Some f \<Rightarrow> bnd (fileclose f s) (\<lambda>_ s.
                    exit_files p fds (upd_proc p (\<lambda>q. q\<lparr>p_ofile := (p_ofile q)(fd := None)\<rparr>) s)))"

definition exit_zombie :: "nat \<Rightarrow> int \<Rightarrow> 'a pstate_scheme \<Rightarrow> ('a pstate_scheme, unit) out" where
  "exit_zombie p status s =
     bnd (acquire wait_lock wait_lock_update s) (\<lambda>_ s.
     bnd (reparent p s) (\<lambda>_ s.
     bnd (wakeup (chan_of (p_parent (procs s p))) s) (\<lambda>_ s.
     bnd (acquire (p_lk p) (p_lku p) s) (\<lambda>_ s.
       let s = upd_proc p (\<lambda>q. q\<lparr>p_xstate := status\<rparr>) s;
           s = upd_proc p (\<lambda>q. q\<lparr>p_state := ZOMBIE\<rparr>) s
       in bnd (release wait_lock wait_lock_update s) (\<lambda>_ s.
          bnd (sched s) (\<lambda>_ s. panic ''zombie exit'' s))))))"

definition exit :: "int \<Rightarrow> 'a kstate_scheme \<Rightarrow> ('a kstate_scheme, unit) out" where
  "exit status s = curproc (\<lambda>p s.
     if Some p = initproc s then panic ''init exiting'' s
     else bnd (exit_files p [0..<NOFILE] s) (\<lambda>_ s.
          bnd (begin_op s) (\<lambda>_ s.
          bnd (case p_cwd (procs s p) of None \<Rightarrow> Inl (Fault, s) | Some ip \<Rightarrow> iput ip s) (\<lambda>_ s.
          bnd (end_op s) (\<lambda>_ s.
          exit_zombie p status (upd_proc p (\<lambda>q. q\<lparr>p_cwd := None\<rparr>) s)))))) s"

text \<open>
  One scan of \<^verbatim>\<open>wait\<close> over the table: \<open>Inl pid\<close> when the call is over, \<open>Inr havekids\<close> when it has to go on.
\<close>

fun wait_scan :: "nat \<Rightarrow> uint64 \<Rightarrow> nat list \<Rightarrow> bool \<Rightarrow> 'a mstate_scheme \<Rightarrow> ('a mstate_scheme, int + bool) out" where
  "wait_scan p addr [] havekids s = ret (Inr havekids) s"
| "wait_scan p addr (np # nps) havekids s =
     (if p_parent (procs s np) = Some p then
        bnd (acquire (p_lk np) (p_lku np) s) (\<lambda>_ s.
          if p_state (procs s np) = ZOMBIE then
            let pid = p_pid (procs s np)
            in bnd (if addr \<noteq> 0 then copyout (p_pagetable (procs s p)) addr (le_bytes 4 (of_int (p_xstate (procs s np)) :: uint)) s
                    else ret 0 s) (\<lambda>r s.
                 if r < 0
                 then bnd (release (p_lk np) (p_lku np) s) (\<lambda>_ s.
                      bnd (release wait_lock wait_lock_update s) (\<lambda>_ s. ret (Inl (-1)) s))
                 else bnd (freeproc np s) (\<lambda>_ s.
                      bnd (release (p_lk np) (p_lku np) s) (\<lambda>_ s.
                      bnd (release wait_lock wait_lock_update s) (\<lambda>_ s. ret (Inl pid) s))))
          else bnd (release (p_lk np) (p_lku np) s) (\<lambda>_ s. wait_scan p addr nps True s))
      else wait_scan p addr nps havekids s)"

function wait_loop :: "nat \<Rightarrow> uint64 \<Rightarrow> 'a mstate_scheme \<Rightarrow> ('a mstate_scheme, int) out" where
  "wait_loop p addr s =
     bnd (wait_scan p addr [0..<NPROC] False s) (\<lambda>r s.
       case r of Inl pid \<Rightarrow> ret pid s
       | Inr havekids \<Rightarrow>
           if \<not> havekids \<or> p_killed (procs s p) \<noteq> 0
           then bnd (release wait_lock wait_lock_update s) (\<lambda>_ s. ret (-1) s)
           else bnd (sleep (Ch_proc p) wait_lock wait_lock_update s) (\<lambda>_ s. wait_loop p addr s))"
  by pat_completeness auto

termination
  by (relation "measure (\<lambda>_. 0)") (auto simp: sleep_not_Inr)

declare wait_loop.simps [simp del]

definition wait :: "uint64 \<Rightarrow> 'a mstate_scheme \<Rightarrow> ('a mstate_scheme, int) out" where
  "wait addr s = curproc (\<lambda>p s.
     bnd (acquire wait_lock wait_lock_update s) (\<lambda>_ s. wait_loop p addr s)) s"

definition wait_return :: "nat \<Rightarrow> bool \<Rightarrow> uint64 \<Rightarrow> 'a mstate_scheme \<Rightarrow> ('a mstate_scheme, int) out" where
  "wait_return p ie addr s = bnd (sleep_return p ie wait_lock wait_lock_update s) (\<lambda>_ s. wait_loop p addr s)"

end
