(* ===== verification/Sysproc.thy ===== *)
theory Sysproc
  imports Proc
begin

text \<open>
  System call arguments (\<^verbatim>\<open>kernel/syscall.c\<close>) and the process system calls (\<^verbatim>\<open>kernel/sysproc.c\<close>). A handler
  returns the 64-bit value that \<^verbatim>\<open>syscall\<close> stores in \<^verbatim>\<open>a0\<close>; C \<^verbatim>\<open>int\<close> results are sign-extended.
\<close>

section \<open>Arguments\<close>

definition fetchaddr :: "uint64 \<Rightarrow> 'a mstate_scheme \<Rightarrow> ('a mstate_scheme, uint64 option) out" where
  "fetchaddr addr s = curproc (\<lambda>p s.
     if addr \<ge> p_sz (procs s p) \<or> addr + 8 > p_sz (procs s p) then ret None s
     else bnd (copyin (p_pagetable (procs s p)) addr 8 s) (\<lambda>(r, bs) s.
            if r \<noteq> 0 then ret None s else ret (Some (le_word bs)) s)) s"

text \<open>
  \<^verbatim>\<open>fetchstr\<close> returns its \<^verbatim>\<open>int\<close> result and the bytes that \<^verbatim>\<open>copyinstr\<close> put into the buffer.
\<close>

definition fetchstr :: "uint64 \<Rightarrow> nat \<Rightarrow> 'a mstate_scheme \<Rightarrow> ('a mstate_scheme, int \<times> uchar list) out" where
  "fetchstr addr mx s = curproc (\<lambda>p s.
     bnd (copyinstr (p_pagetable (procs s p)) addr mx s) (\<lambda>(err, bs) s.
       if err < 0 then ret (err, bs) s else ret (int (length (takeWhile (\<lambda>c. c \<noteq> 0) bs)), bs) s)) s"

definition argraw :: "nat \<Rightarrow> 'a mstate_scheme \<Rightarrow> ('a mstate_scheme, uint64) out" where
  "argraw n s = curproc (\<lambda>p s.
     if n < 6 then ret (tf_get (tf_a0 + 8 * of_nat n) p s) s else panic ''argraw'' s) s"

definition argint :: "nat \<Rightarrow> 'a mstate_scheme \<Rightarrow> ('a mstate_scheme, int) out" where
  "argint n s = bnd (argraw n s) (\<lambda>v s. ret (sint (ucast v :: uint)) s)"

definition argaddr :: "nat \<Rightarrow> 'a mstate_scheme \<Rightarrow> ('a mstate_scheme, uint64) out" where
  "argaddr n s = argraw n s"

definition argstr :: "nat \<Rightarrow> nat \<Rightarrow> 'a mstate_scheme \<Rightarrow> ('a mstate_scheme, int \<times> uchar list) out" where
  "argstr n mx s = bnd (argaddr n s) (\<lambda>addr s. fetchstr addr mx s)"

text \<open>A path argument: the bytes before the zero, or \<open>None\<close> when \<^verbatim>\<open>argstr\<close> fails.\<close>

definition argpath :: "nat \<Rightarrow> 'a mstate_scheme \<Rightarrow> ('a mstate_scheme, uchar list option) out" where
  "argpath n s = bnd (argstr n MAXPATH s) (\<lambda>(r, bs) s.
     if r < 0 then ret None s else ret (Some (takeWhile (\<lambda>c. c \<noteq> 0) bs)) s)"

section \<open>Process system calls\<close>

definition sys_exit :: "'a kstate_scheme \<Rightarrow> ('a kstate_scheme, uint64) out" where
  "sys_exit s = bnd (argint 0 s) (\<lambda>n s. bnd (exit n s) (\<lambda>_ s. ret 0 s))"

definition sys_getpid :: "'a pstate_scheme \<Rightarrow> ('a pstate_scheme, uint64) out" where
  "sys_getpid s = curproc (\<lambda>p s. ret (of_int (p_pid (procs s p))) s) s"

definition sys_fork :: "'a tstate_scheme \<Rightarrow> ('a tstate_scheme, uint64) out" where
  "sys_fork s = bnd (fork s) (\<lambda>pid s. ret (of_int pid) s)"

definition sys_wait :: "'a mstate_scheme \<Rightarrow> ('a mstate_scheme, uint64) out" where
  "sys_wait s = bnd (argaddr 0 s) (\<lambda>p s. bnd (wait p s) (\<lambda>r s. ret (of_int r) s))"

definition sys_sbrk :: "'a mstate_scheme \<Rightarrow> ('a mstate_scheme, uint64) out" where
  "sys_sbrk s =
     bnd (argint 0 s) (\<lambda>n s.
     curproc (\<lambda>p s.
       let addr = sint (ucast (p_sz (procs s p)) :: uint)
       in bnd (growproc n s) (\<lambda>r s. if r < 0 then ret (-1) s else ret (of_int addr) s)) s)"

function sys_sleep_loop :: "int \<Rightarrow> uint \<Rightarrow> 'a pstate_scheme \<Rightarrow> ('a pstate_scheme, uint64) out" where
  "sys_sleep_loop n ticks0 s =
     (if ticks s - ticks0 < of_int n then
        bnd (myproc s) (\<lambda>me s. case me of None \<Rightarrow> Inl (Fault, s)
        | Some p \<Rightarrow>
            if p_killed (procs s p) \<noteq> 0 then bnd (release tickslock tickslock_update s) (\<lambda>_ s. ret (-1) s)
            else bnd (sleep Ch_ticks tickslock tickslock_update s) (\<lambda>_ s. sys_sleep_loop n ticks0 s))
      else bnd (release tickslock tickslock_update s) (\<lambda>_ s. ret 0 s))"
  by pat_completeness auto

termination
  by (relation "measure (\<lambda>_. 0)") (auto simp: sleep_not_Inr)

declare sys_sleep_loop.simps [simp del]

definition sys_sleep :: "'a mstate_scheme \<Rightarrow> ('a mstate_scheme, uint64) out" where
  "sys_sleep s =
     bnd (argint 0 s) (\<lambda>n s.
     bnd (acquire tickslock tickslock_update s) (\<lambda>_ s. sys_sleep_loop n (ticks s) s))"

definition sys_sleep_return :: "nat \<Rightarrow> bool \<Rightarrow> int \<Rightarrow> uint \<Rightarrow> 'a pstate_scheme \<Rightarrow> ('a pstate_scheme, uint64) out" where
  "sys_sleep_return p ie n ticks0 s =
     bnd (sleep_return p ie tickslock tickslock_update s) (\<lambda>_ s. sys_sleep_loop n ticks0 s)"

definition sys_kill :: "'a mstate_scheme \<Rightarrow> ('a mstate_scheme, uint64) out" where
  "sys_kill s = bnd (argint 0 s) (\<lambda>pid s. bnd (kill pid s) (\<lambda>r s. ret (of_int r) s))"

definition sys_uptime :: "'a pstate_scheme \<Rightarrow> ('a pstate_scheme, uint64) out" where
  "sys_uptime s =
     bnd (acquire tickslock tickslock_update s) (\<lambda>_ s.
       let xticks = ticks s
       in bnd (release tickslock tickslock_update s) (\<lambda>_ s. ret (ucast xticks) s))"

definition state_code :: "procstate \<Rightarrow> int" where
  "state_code st = (case st of UNUSED \<Rightarrow> 0 | USED \<Rightarrow> 1 | SLEEPING \<Rightarrow> 2 | RUNNABLE \<Rightarrow> 3 | RUNNING \<Rightarrow> 4 | ZOMBIE \<Rightarrow> 5)"

text \<open>The 32 bytes of \<^verbatim>\<open>struct procinfo\<close>; the bytes after the end of the name are read as zero.\<close>

record procinfo =
  info_pid :: int
  info_ppid :: int
  info_state :: int
  info_sz :: uint
  info_name :: cptr

definition procinfo_of :: "nat \<Rightarrow> 'a pstate_scheme \<Rightarrow> procinfo" where
  "procinfo_of p s =
     (let q = procs s p
      in \<lparr>info_pid = p_pid q,
          info_ppid = (case p_parent q of None \<Rightarrow> 0 | Some pp \<Rightarrow> p_pid (procs s pp)),
          info_state = state_code (p_state q),
          info_sz = ucast (p_sz q),
          info_name = safestrcpy (\<lambda>_. 0) (p_name q) 16\<rparr>)"

definition procinfo_bytes :: "procinfo \<Rightarrow> uchar list" where
  "procinfo_bytes i = le_bytes 4 (of_int (info_pid i) :: uint) @ le_bytes 4 (of_int (info_ppid i) :: uint) @
     le_bytes 4 (of_int (info_state i) :: uint) @ le_bytes 4 (info_sz i) @ map (info_name i) [0..<16]"

definition sys_getprocinfo :: "'a mstate_scheme \<Rightarrow> ('a mstate_scheme, uint64) out" where
  "sys_getprocinfo s =
     bnd (myproc s) (\<lambda>me s.
     bnd (argaddr 0 s) (\<lambda>info_addr s.
       case me of None \<Rightarrow> Inl (Fault, s)
       | Some p \<Rightarrow>
           bnd (copyout (p_pagetable (procs s p)) info_addr (procinfo_bytes (procinfo_of p s)) s) (\<lambda>r s.
             if r < 0 then ret (-1) s else ret 0 s)))"

definition sys_getsystime :: "'a mstate_scheme \<Rightarrow> ('a mstate_scheme, uint64) out" where
  "sys_getsystime s =
     bnd (myproc s) (\<lambda>me s.
     bnd (argaddr 0 s) (\<lambda>time_addr s.
     bnd (acquire tickslock tickslock_update s) (\<lambda>_ s.
       let t = ticks s;
           uptime = t div 100
       in bnd (release tickslock tickslock_update s) (\<lambda>_ s.
            case me of None \<Rightarrow> Inl (Fault, s)
            | Some p \<Rightarrow>
                bnd (copyout (p_pagetable (procs s p)) time_addr (le_bytes 4 t @ le_bytes 4 uptime) s) (\<lambda>r s.
                  if r < 0 then ret (-1) s else ret 0 s)))))"

fun setpriority_loop :: "int \<Rightarrow> int \<Rightarrow> nat list \<Rightarrow> 'a pstate_scheme \<Rightarrow> ('a pstate_scheme, uint64) out" where
  "setpriority_loop pid priority [] s = ret (-1) s"
| "setpriority_loop pid priority (p # ps) s =
     bnd (acquire (p_lk p) (p_lku p) s) (\<lambda>_ s.
       if p_pid (procs s p) = pid
       then bnd (release (p_lk p) (p_lku p) (upd_proc p (\<lambda>q. q\<lparr>p_priority := priority\<rparr>) s)) (\<lambda>_ s. ret 0 s)
       else bnd (release (p_lk p) (p_lku p) s) (\<lambda>_ s. setpriority_loop pid priority ps s))"

definition sys_setpriority :: "'a mstate_scheme \<Rightarrow> ('a mstate_scheme, uint64) out" where
  "sys_setpriority s =
     bnd (argint 0 s) (\<lambda>pid s.
     bnd (argint 1 s) (\<lambda>priority s.
       if priority < 0 \<or> priority > 10 then ret (-1) s
       else setpriority_loop pid priority [0..<NPROC] s))"

end
