(* ===== verification/Exec.thy ===== *)
theory Exec
  imports Sysproc
begin

text \<open>
  \<^verbatim>\<open>kernel/exec.c\<close>: replacing the image of a process by an ELF file. The arguments are the addresses of the kernel
  pages that hold the argument strings; \<open>mem_str\<close> reads them.
\<close>

section \<open>ELF\<close>

definition ELF_MAGIC :: uint where "ELF_MAGIC = 0x464C457F"
definition ELF_PROG_LOAD :: uint where "ELF_PROG_LOAD = 1"

definition fld :: "nat \<Rightarrow> nat \<Rightarrow> uchar list \<Rightarrow> 'a::len word" where
  "fld off n bs = le_word (take n (drop off bs))"

record elfhdr =
  e_magic :: uint
  e_entry :: uint64
  e_phoff :: uint64
  e_phnum :: ushort

definition elf_decode :: "uchar list \<Rightarrow> elfhdr" where
  "elf_decode bs = \<lparr>e_magic = fld 0 4 bs, e_entry = fld 24 8 bs, e_phoff = fld 32 8 bs, e_phnum = fld 56 2 bs\<rparr>"

record proghdr =
  ph_type :: uint
  ph_off :: uint64
  ph_vaddr :: uint64
  ph_filesz :: uint64
  ph_memsz :: uint64

definition ph_decode :: "uchar list \<Rightarrow> proghdr" where
  "ph_decode bs = \<lparr>ph_type = fld 0 4 bs, ph_off = fld 8 8 bs, ph_vaddr = fld 16 8 bs, ph_filesz = fld 32 8 bs,
     ph_memsz = fld 40 8 bs\<rparr>"

section \<open>Loading\<close>

fun loadseg_loop ::
  "uint64 \<Rightarrow> uint64 \<Rightarrow> nat \<Rightarrow> uint \<Rightarrow> uint \<Rightarrow> uint list \<Rightarrow> 'a fstate_scheme \<Rightarrow> ('a fstate_scheme, int) out" where
  "loadseg_loop pagetable va ip off sz [] s = ret 0 s"
| "loadseg_loop pagetable va ip off sz (i # is) s =
     bnd (walkaddr pagetable (va + ucast i) s) (\<lambda>pa s.
       if pa = 0 then panic ''loadseg: address should exist'' s
       else let n = (if sz - i < ucast PGSIZE then sz - i else ucast PGSIZE)
            in bnd (readi ip (D_phys pa) (off + i) n s) (\<lambda>(r, _) s.
                 if r \<noteq> uint n then ret (-1) s else loadseg_loop pagetable va ip off sz is s))"

definition page_offsets :: "uint \<Rightarrow> uint list" where
  "page_offsets sz = map (\<lambda>k. of_nat (4096 * k)) [0..<(unat sz + 4095) div 4096]"

definition loadseg :: "uint64 \<Rightarrow> uint64 \<Rightarrow> nat \<Rightarrow> uint \<Rightarrow> uint \<Rightarrow> 'a fstate_scheme \<Rightarrow> ('a fstate_scheme, int) out" where
  "loadseg pagetable va ip off sz s = loadseg_loop pagetable va ip off sz (page_offsets sz) s"

text \<open>
  The loop over the program headers, \<open>k\<close> headers left at file offset \<open>off\<close>: \<open>Inr sz\<close> when all segments are
  loaded, \<open>Inl sz\<close> for \<^verbatim>\<open>goto bad\<close> with the size reached so far.
\<close>

fun exec_load :: "nat \<Rightarrow> uint64 \<Rightarrow> nat \<Rightarrow> uint \<Rightarrow> uint64 \<Rightarrow> 'a fstate_scheme \<Rightarrow> ('a fstate_scheme, uint64 + uint64) out" where
  "exec_load 0 pagetable ip off sz s = ret (Inr sz) s"
| "exec_load (Suc k) pagetable ip off sz s =
     bnd (readi ip D_local off 56 s) (\<lambda>(r, bs) s.
       let ph = ph_decode bs
       in if r \<noteq> 56 then ret (Inl sz) s
          else if ph_type ph \<noteq> ELF_PROG_LOAD then exec_load k pagetable ip (off + 56) sz s
          else if ph_memsz ph < ph_filesz ph then ret (Inl sz) s
          else if ph_vaddr ph + ph_memsz ph < ph_vaddr ph then ret (Inl sz) s
          else bnd (uvmalloc pagetable sz (ph_vaddr ph + ph_memsz ph) s) (\<lambda>sz1 s.
                 if sz1 = 0 then ret (Inl sz) s
                 else if ph_vaddr ph mod PGSIZE \<noteq> 0 then ret (Inl sz1) s
                 else bnd (loadseg pagetable (ph_vaddr ph) ip (ucast (ph_off ph)) (ucast (ph_filesz ph)) s) (\<lambda>r s.
                        if r < 0 then ret (Inl sz1) s
                        else exec_load k pagetable ip (off + 56) sz1 s)))"

section \<open>The argument stack\<close>

definition mem_str :: "uint64 \<Rightarrow> 'a mstate_scheme \<Rightarrow> cptr" where
  "mem_str a s = (\<lambda>i. mem s (a + of_nat i))"

text \<open>
  Pushing the argument strings: the stack pointer and the pointers pushed so far, or \<open>None\<close> for \<^verbatim>\<open>goto bad\<close>.
\<close>

fun exec_args ::
  "uint64 \<Rightarrow> uint64 \<Rightarrow> uint64 list \<Rightarrow> uint64 \<Rightarrow> uint64 list \<Rightarrow> 'a mstate_scheme \<Rightarrow>
   ('a mstate_scheme, (uint64 \<times> uint64 list) option) out" where
  "exec_args pagetable stackbase [] sp1 ustack s = ret (Some (sp1, ustack)) s"
| "exec_args pagetable stackbase (a # argv) sp1 ustack s =
     (if length ustack \<ge> MAXARG then ret None s
      else case strlen (mem_str a s) of
             None \<Rightarrow> Inl (Spin, s)
           | Some len \<Rightarrow>
               let sp1 = sp1 - (of_nat len + 1);
                   sp1 = sp1 - sp1 mod 16
               in if sp1 < stackbase then ret None s
                  else bnd (copyout pagetable sp1 (ld_bytes (mem s) a (len + 1)) s) (\<lambda>r s.
                         if r < 0 then ret None s
                         else exec_args pagetable stackbase argv sp1 (ustack @ [sp1]) s))"

section \<open>exec\<close>

definition exec_bad :: "uint64 \<Rightarrow> uint64 \<Rightarrow> nat option \<Rightarrow> 'a kstate_scheme \<Rightarrow> ('a kstate_scheme, int) out" where
  "exec_bad pagetable sz ipo s =
     bnd (if pagetable \<noteq> 0 then proc_freepagetable pagetable sz s else ret () s) (\<lambda>_ s.
     bnd (case ipo of None \<Rightarrow> ret () s | Some ip \<Rightarrow> bnd (iunlockput ip s) (\<lambda>_ s. end_op s)) (\<lambda>_ s.
     ret (-1) s))"

text \<open>The part of the path after its last slash.\<close>

definition path_last :: "uchar list \<Rightarrow> uchar list" where
  "path_last path = rev (takeWhile (\<lambda>c. c \<noteq> slash) (rev path))"

definition exec_commit ::
  "nat \<Rightarrow> uchar list \<Rightarrow> uint64 \<Rightarrow> uint64 \<Rightarrow> uint64 \<Rightarrow> uint64 \<Rightarrow> nat \<Rightarrow> uint64 \<Rightarrow> 'a kstate_scheme \<Rightarrow> ('a kstate_scheme, int) out" where
  "exec_commit p path pagetable sz oldsz sp1 argc entry s =
     (let s = tf_set tf_a1 sp1 p s;
          s = upd_proc p (\<lambda>q. q\<lparr>p_name := safestrcpy (p_name q) (put_bytes (\<lambda>_. 0) 0 (path_last path)) 16\<rparr>) s;
          oldpagetable = p_pagetable (procs s p);
          s = upd_proc p (\<lambda>q. q\<lparr>p_pagetable := pagetable\<rparr>) s;
          s = upd_proc p (\<lambda>q. q\<lparr>p_sz := sz\<rparr>) s;
          s = tf_set tf_epc entry p s;
          s = tf_set tf_sp sp1 p s
      in bnd (proc_freepagetable oldpagetable oldsz s) (\<lambda>_ s. ret (int argc) s))"

text \<open>From the allocation of the stack on; the inode is released already.\<close>

definition exec_stack ::
  "nat \<Rightarrow> uchar list \<Rightarrow> uint64 list \<Rightarrow> uint64 \<Rightarrow> uint64 \<Rightarrow> uint64 \<Rightarrow> 'a kstate_scheme \<Rightarrow> ('a kstate_scheme, int) out" where
  "exec_stack p path argv pagetable sz0 entry s =
     (let oldsz = p_sz (procs s p);
          sz = PGROUNDUP sz0
      in bnd (uvmalloc pagetable sz (sz + 2 * PGSIZE) s) (\<lambda>sz1 s.
           if sz1 = 0 then exec_bad pagetable sz None s
           else bnd (uvmclear pagetable (sz1 - 2 * PGSIZE) s) (\<lambda>_ s.
             let stackbase = sz1 - PGSIZE
             in bnd (exec_args pagetable stackbase argv sz1 [] s) (\<lambda>r s.
                  case r of None \<Rightarrow> exec_bad pagetable sz1 None s
                  | Some (sp1, ustack) \<Rightarrow>
                      let argc = length ustack;
                          sp1 = sp1 - (of_nat argc + 1) * 8;
                          sp1 = sp1 - sp1 mod 16
                      in if sp1 < stackbase then exec_bad pagetable sz1 None s
                         else bnd (copyout pagetable sp1 (concat (map (le_bytes 8) (ustack @ [0]))) s) (\<lambda>r s.
                                if r < 0 then exec_bad pagetable sz1 None s
                                else exec_commit p path pagetable sz1 oldsz sp1 argc entry s)))))"

definition exec :: "uchar list \<Rightarrow> uint64 list \<Rightarrow> 'a kstate_scheme \<Rightarrow> ('a kstate_scheme, int) out" where
  "exec path argv s = curproc (\<lambda>p s.
     bnd (begin_op s) (\<lambda>_ s.
     bnd (namei path s) (\<lambda>ipo s.
       case ipo of None \<Rightarrow> bnd (end_op s) (\<lambda>_ s. ret (-1) s)
       | Some ip \<Rightarrow>
           bnd (ilock (Some ip) s) (\<lambda>_ s.
           bnd (readi ip D_local 0 64 s) (\<lambda>(r, bs) s.
             let elf = elf_decode bs
             in if r \<noteq> 64 then exec_bad 0 0 (Some ip) s
                else if e_magic elf \<noteq> ELF_MAGIC then exec_bad 0 0 (Some ip) s
                else bnd (proc_pagetable p s) (\<lambda>pagetable s.
                       if pagetable = 0 then exec_bad 0 0 (Some ip) s
                       else bnd (exec_load (unat (e_phnum elf)) pagetable ip (ucast (e_phoff elf)) 0 s) (\<lambda>r s.
                              case r of Inl sz \<Rightarrow> exec_bad pagetable sz (Some ip) s
                              | Inr sz \<Rightarrow>
                                  bnd (iunlockput ip s) (\<lambda>_ s.
                                  bnd (end_op s) (\<lambda>_ s.
                                  curproc (\<lambda>p s. exec_stack p path argv pagetable sz (e_entry elf) s) s))))))))) s"

end
