(* ===== verification/Sysfile.thy ===== *)
theory Sysfile
  imports Exec
begin

text \<open>
  \<^verbatim>\<open>kernel/sysfile.c\<close>: the file-system calls. Each handler is the whole C function: argument checks, the
  transaction brackets \<^verbatim>\<open>begin_op\<close>/\<^verbatim>\<open>end_op\<close>, and every error exit.
\<close>

section \<open>Descriptors\<close>

definition argfd :: "nat \<Rightarrow> 'a mstate_scheme \<Rightarrow> ('a mstate_scheme, (nat \<times> nat) option) out" where
  "argfd n s =
     bnd (argint n s) (\<lambda>fd s.
       if fd < 0 \<or> fd \<ge> int NOFILE then ret None s
       else curproc (\<lambda>p s. case p_ofile (procs s p) (nat fd) of None \<Rightarrow> ret None s | Some f \<Rightarrow> ret (Some (nat fd, f)) s) s)"

definition fdalloc :: "nat \<Rightarrow> 'a pstate_scheme \<Rightarrow> ('a pstate_scheme, nat option) out" where
  "fdalloc f s = curproc (\<lambda>p s.
     case List.find (\<lambda>fd. p_ofile (procs s p) fd = None) [0..<NOFILE] of
       None \<Rightarrow> ret None s
     | Some fd \<Rightarrow> ret (Some fd) (upd_proc p (\<lambda>q. q\<lparr>p_ofile := (p_ofile q)(fd := Some f)\<rparr>) s)) s"

definition clear_fd :: "nat \<Rightarrow> nat \<Rightarrow> 'a pstate_scheme \<Rightarrow> 'a pstate_scheme" where
  "clear_fd p fd s = upd_proc p (\<lambda>q. q\<lparr>p_ofile := (p_ofile q)(fd := None)\<rparr>) s"

definition sys_dup :: "'a kstate_scheme \<Rightarrow> ('a kstate_scheme, uint64) out" where
  "sys_dup s =
     bnd (argfd 0 s) (\<lambda>r s. case r of None \<Rightarrow> ret (-1) s
     | Some (_, f) \<Rightarrow>
         bnd (fdalloc f s) (\<lambda>r s. case r of None \<Rightarrow> ret (-1) s
         | Some fd \<Rightarrow> bnd (filedup f s) (\<lambda>_ s. ret (of_nat fd) s)))"

definition sys_read :: "'a kstate_scheme \<Rightarrow> ('a kstate_scheme, uint64) out" where
  "sys_read s =
     bnd (argfd 0 s) (\<lambda>r s. case r of None \<Rightarrow> ret (-1) s
     | Some (_, f) \<Rightarrow>
         bnd (argint 2 s) (\<lambda>n s.
         bnd (argaddr 1 s) (\<lambda>p s.
         bnd (fileread f p n s) (\<lambda>r s. ret (of_int r) s))))"

definition sys_write :: "'a kstate_scheme \<Rightarrow> ('a kstate_scheme, uint64) out" where
  "sys_write s =
     bnd (argfd 0 s) (\<lambda>r s. case r of None \<Rightarrow> ret (-1) s
     | Some (_, f) \<Rightarrow>
         bnd (argint 2 s) (\<lambda>n s.
         bnd (argaddr 1 s) (\<lambda>p s.
         bnd (filewrite f p n s) (\<lambda>r s. ret (of_int r) s))))"

definition sys_close :: "'a kstate_scheme \<Rightarrow> ('a kstate_scheme, uint64) out" where
  "sys_close s =
     bnd (argfd 0 s) (\<lambda>r s. case r of None \<Rightarrow> ret (-1) s
     | Some (fd, f) \<Rightarrow> curproc (\<lambda>p s. bnd (fileclose f (clear_fd p fd s)) (\<lambda>_ s. ret 0 s)) s)"

definition sys_fstat :: "'a kstate_scheme \<Rightarrow> ('a kstate_scheme, uint64) out" where
  "sys_fstat s =
     bnd (argfd 0 s) (\<lambda>r s. case r of None \<Rightarrow> ret (-1) s
     | Some (_, f) \<Rightarrow> bnd (argaddr 1 s) (\<lambda>st s. bnd (filestat f st s) (\<lambda>r s. ret (of_int r) s)))"

section \<open>Links\<close>

definition sys_fail :: "'a kstate_scheme \<Rightarrow> ('a kstate_scheme, uint64) out" where
  "sys_fail s = bnd (end_op s) (\<lambda>_ s. ret (-1) s)"

definition sys_link_bad :: "nat \<Rightarrow> 'a kstate_scheme \<Rightarrow> ('a kstate_scheme, uint64) out" where
  "sys_link_bad ip s =
     bnd (ilock (Some ip) s) (\<lambda>_ s.
     bnd (iupdate ip (upd_inode ip (\<lambda>x. x\<lparr>i_nlink := i_nlink x - 1\<rparr>) s)) (\<lambda>_ s.
     bnd (iunlockput ip s) (\<lambda>_ s. sys_fail s)))"

definition sys_link :: "'a kstate_scheme \<Rightarrow> ('a kstate_scheme, uint64) out" where
  "sys_link s =
     bnd (argpath 0 s) (\<lambda>old s. case old of None \<Rightarrow> ret (-1) s
     | Some old \<Rightarrow>
     bnd (argpath 1 s) (\<lambda>new s. case new of None \<Rightarrow> ret (-1) s
     | Some new \<Rightarrow>
         bnd (begin_op s) (\<lambda>_ s.
         bnd (namei old s) (\<lambda>ipo s. case ipo of None \<Rightarrow> sys_fail s
         | Some ip \<Rightarrow>
             bnd (ilock (Some ip) s) (\<lambda>_ s.
               if i_type (itable s ip) = T_DIR then bnd (iunlockput ip s) (\<lambda>_ s. sys_fail s)
               else bnd (iupdate ip (upd_inode ip (\<lambda>x. x\<lparr>i_nlink := i_nlink x + 1\<rparr>) s)) (\<lambda>_ s.
                    bnd (iunlock (Some ip) s) (\<lambda>_ s.
                    bnd (nameiparent new s) (\<lambda>(dpo, name) s. case dpo of None \<Rightarrow> sys_link_bad ip s
                    | Some dp \<Rightarrow>
                        bnd (ilock (Some dp) s) (\<lambda>_ s.
                        bnd (if i_dev (itable s dp) \<noteq> i_dev (itable s ip) then ret (-1) s
                             else dirlink dp name (i_inum (itable s ip)) s) (\<lambda>r s.
                          if r < 0 then bnd (iunlockput dp s) (\<lambda>_ s. sys_link_bad ip s)
                          else bnd (iunlockput dp s) (\<lambda>_ s.
                               bnd (iput ip s) (\<lambda>_ s.
                               bnd (end_op s) (\<lambda>_ s. ret 0 s)))))))))))))"

fun isdirempty_loop :: "nat \<Rightarrow> uint list \<Rightarrow> 'a fstate_scheme \<Rightarrow> ('a fstate_scheme, bool) out" where
  "isdirempty_loop dp [] s = ret True s"
| "isdirempty_loop dp (off # offs) s =
     bnd (readi dp D_local off 16 s) (\<lambda>(r, de) s.
       if r \<noteq> 16 then panic ''isdirempty: readi'' s
       else if de_inum de \<noteq> 0 then ret False s
       else isdirempty_loop dp offs s)"

definition isdirempty :: "nat \<Rightarrow> 'a fstate_scheme \<Rightarrow> ('a fstate_scheme, bool) out" where
  "isdirempty dp s = isdirempty_loop dp (drop 2 (de_offsets (i_size (itable s dp)))) s"

definition sys_unlink_bad :: "nat \<Rightarrow> 'a kstate_scheme \<Rightarrow> ('a kstate_scheme, uint64) out" where
  "sys_unlink_bad dp s = bnd (iunlockput dp s) (\<lambda>_ s. sys_fail s)"

definition sys_unlink :: "'a kstate_scheme \<Rightarrow> ('a kstate_scheme, uint64) out" where
  "sys_unlink s =
     bnd (argpath 0 s) (\<lambda>path s. case path of None \<Rightarrow> ret (-1) s
     | Some path \<Rightarrow>
         bnd (begin_op s) (\<lambda>_ s.
         bnd (nameiparent path s) (\<lambda>(dpo, name) s. case dpo of None \<Rightarrow> sys_fail s
         | Some dp \<Rightarrow>
             bnd (ilock (Some dp) s) (\<lambda>_ s.
               if namecmp name (cstring ''.'') = 0 \<or> namecmp name (cstring ''..'') = 0 then sys_unlink_bad dp s
               else bnd (dirlookup dp name s) (\<lambda>r s. case r of None \<Rightarrow> sys_unlink_bad dp s
               | Some (ip, off) \<Rightarrow>
                   bnd (ilock (Some ip) s) (\<lambda>_ s.
                     if sint (i_nlink (itable s ip)) < 1 then panic ''unlink: nlink < 1'' s
                     else bnd (if i_type (itable s ip) = T_DIR then isdirempty ip s else ret True s) (\<lambda>e s.
                       if i_type (itable s ip) = T_DIR \<and> \<not> e
                       then bnd (iunlockput ip s) (\<lambda>_ s. sys_unlink_bad dp s)
                       else bnd (writei dp (S_local (replicate 16 0)) off 16 s) (\<lambda>r s.
                         if r \<noteq> 16 then panic ''unlink: writei'' s
                         else bnd (if i_type (itable s ip) = T_DIR
                                   then iupdate dp (upd_inode dp (\<lambda>x. x\<lparr>i_nlink := i_nlink x - 1\<rparr>) s)
                                   else ret () s) (\<lambda>_ s.
                              bnd (iunlockput dp s) (\<lambda>_ s.
                              bnd (iupdate ip (upd_inode ip (\<lambda>x. x\<lparr>i_nlink := i_nlink x - 1\<rparr>) s)) (\<lambda>_ s.
                              bnd (iunlockput ip s) (\<lambda>_ s.
                              bnd (end_op s) (\<lambda>_ s. ret 0 s)))))))))))))"

section \<open>Creating and opening\<close>

definition create :: "uchar list \<Rightarrow> ushort \<Rightarrow> ushort \<Rightarrow> ushort \<Rightarrow> 'a fstate_scheme \<Rightarrow> ('a fstate_scheme, nat option) out" where
  "create path ty major minor s =
     bnd (nameiparent path s) (\<lambda>(dpo, name) s. case dpo of None \<Rightarrow> ret None s
     | Some dp \<Rightarrow>
         bnd (ilock (Some dp) s) (\<lambda>_ s.
         bnd (dirlookup dp name s) (\<lambda>r s. case r of
           Some (ip, _) \<Rightarrow>
             bnd (iunlockput dp s) (\<lambda>_ s.
             bnd (ilock (Some ip) s) (\<lambda>_ s.
               if ty = T_FILE \<and> (i_type (itable s ip) = T_FILE \<or> i_type (itable s ip) = T_DEVICE) then ret (Some ip) s
               else bnd (iunlockput ip s) (\<lambda>_ s. ret None s)))
         | None \<Rightarrow>
             bnd (ialloc (i_dev (itable s dp)) ty s) (\<lambda>ip s.
             bnd (ilock (Some ip) s) (\<lambda>_ s.
             bnd (iupdate ip (upd_inode ip (\<lambda>x. x\<lparr>i_major := major, i_minor := minor, i_nlink := 1\<rparr>) s)) (\<lambda>_ s.
             bnd (if ty = T_DIR then
                    bnd (iupdate dp (upd_inode dp (\<lambda>x. x\<lparr>i_nlink := i_nlink x + 1\<rparr>) s)) (\<lambda>_ s.
                    bnd (dirlink ip (cstring ''.'') (i_inum (itable s ip)) s) (\<lambda>r s.
                      if r < 0 then panic ''create dots'' s
                      else bnd (dirlink ip (cstring ''..'') (i_inum (itable s dp)) s) (\<lambda>r s.
                             if r < 0 then panic ''create dots'' s else ret () s)))
                  else ret () s) (\<lambda>_ s.
             bnd (dirlink dp name (i_inum (itable s ip)) s) (\<lambda>r s.
               if r < 0 then panic ''create: dirlink'' s
               else bnd (iunlockput dp s) (\<lambda>_ s. ret (Some ip) s))))))))) "

definition O_WRONLY :: uint where "O_WRONLY = 1"
definition O_RDWR :: uint where "O_RDWR = 2"
definition O_CREATE :: uint where "O_CREATE = 0x200"
definition O_TRUNC :: uint where "O_TRUNC = 0x400"

definition open_file :: "nat \<Rightarrow> nat \<Rightarrow> uint \<Rightarrow> 'a kstate_scheme \<Rightarrow> 'a kstate_scheme" where
  "open_file f ip omode s =
     (let s = (if i_type (itable s ip) = T_DEVICE
               then upd_file f (\<lambda>x. x\<lparr>f_type := FD_DEVICE, f_major := i_major (itable s ip)\<rparr>) s
               else upd_file f (\<lambda>x. x\<lparr>f_type := FD_INODE, f_off := 0\<rparr>) s)
      in upd_file f (\<lambda>x. x\<lparr>f_ip := Some ip, f_readable := (omode AND O_WRONLY = 0),
           f_writable := (omode AND O_WRONLY \<noteq> 0 \<or> omode AND O_RDWR \<noteq> 0)\<rparr>) s)"

definition sys_open_ip :: "nat \<Rightarrow> uint \<Rightarrow> 'a kstate_scheme \<Rightarrow> ('a kstate_scheme, uint64) out" where
  "sys_open_ip ip omode s =
     (if i_type (itable s ip) = T_DEVICE \<and> (sint (i_major (itable s ip)) < 0 \<or> sint (i_major (itable s ip)) \<ge> NDEV)
      then bnd (iunlockput ip s) (\<lambda>_ s. sys_fail s)
      else bnd (filealloc s) (\<lambda>fo s. case fo of None \<Rightarrow> bnd (iunlockput ip s) (\<lambda>_ s. sys_fail s)
           | Some f \<Rightarrow>
               bnd (fdalloc f s) (\<lambda>fdo s. case fdo of
                 None \<Rightarrow> bnd (fileclose f s) (\<lambda>_ s. bnd (iunlockput ip s) (\<lambda>_ s. sys_fail s))
               | Some fd \<Rightarrow>
                   let s = open_file f ip omode s
                   in bnd (if omode AND O_TRUNC \<noteq> 0 \<and> i_type (itable s ip) = T_FILE then itrunc ip s else ret () s) (\<lambda>_ s.
                      bnd (iunlock (Some ip) s) (\<lambda>_ s.
                      bnd (end_op s) (\<lambda>_ s. ret (of_nat fd) s))))))"

definition sys_open :: "'a kstate_scheme \<Rightarrow> ('a kstate_scheme, uint64) out" where
  "sys_open s =
     bnd (argpath 0 s) (\<lambda>path s. case path of None \<Rightarrow> ret (-1) s
     | Some path \<Rightarrow>
         bnd (argint 1 s) (\<lambda>om s.
           let omode = of_int om :: uint
           in bnd (begin_op s) (\<lambda>_ s.
                if omode AND O_CREATE \<noteq> 0
                then bnd (create path T_FILE 0 0 s) (\<lambda>ipo s. case ipo of None \<Rightarrow> sys_fail s
                     | Some ip \<Rightarrow> sys_open_ip ip omode s)
                else bnd (namei path s) (\<lambda>ipo s. case ipo of None \<Rightarrow> sys_fail s
                     | Some ip \<Rightarrow>
                         bnd (ilock (Some ip) s) (\<lambda>_ s.
                           if i_type (itable s ip) = T_DIR \<and> omode \<noteq> 0
                           then bnd (iunlockput ip s) (\<lambda>_ s. sys_fail s)
                           else sys_open_ip ip omode s)))))"

definition sys_mkdir :: "'a kstate_scheme \<Rightarrow> ('a kstate_scheme, uint64) out" where
  "sys_mkdir s =
     bnd (begin_op s) (\<lambda>_ s.
     bnd (argpath 0 s) (\<lambda>path s. case path of None \<Rightarrow> sys_fail s
     | Some path \<Rightarrow>
         bnd (create path T_DIR 0 0 s) (\<lambda>ipo s. case ipo of None \<Rightarrow> sys_fail s
         | Some ip \<Rightarrow> bnd (iunlockput ip s) (\<lambda>_ s. bnd (end_op s) (\<lambda>_ s. ret 0 s)))))"

definition sys_mknod :: "'a kstate_scheme \<Rightarrow> ('a kstate_scheme, uint64) out" where
  "sys_mknod s =
     bnd (begin_op s) (\<lambda>_ s.
     bnd (argpath 0 s) (\<lambda>path s. case path of None \<Rightarrow> sys_fail s
     | Some path \<Rightarrow>
         bnd (argint 1 s) (\<lambda>major s.
         bnd (argint 2 s) (\<lambda>minor s.
         bnd (create path T_DEVICE (of_int major) (of_int minor) s) (\<lambda>ipo s. case ipo of None \<Rightarrow> sys_fail s
         | Some ip \<Rightarrow> bnd (iunlockput ip s) (\<lambda>_ s. bnd (end_op s) (\<lambda>_ s. ret 0 s)))))))"

definition sys_chdir :: "'a kstate_scheme \<Rightarrow> ('a kstate_scheme, uint64) out" where
  "sys_chdir s = curproc (\<lambda>p s.
     bnd (begin_op s) (\<lambda>_ s.
     bnd (argpath 0 s) (\<lambda>path s. case path of None \<Rightarrow> sys_fail s
     | Some path \<Rightarrow>
         bnd (namei path s) (\<lambda>ipo s. case ipo of None \<Rightarrow> sys_fail s
         | Some ip \<Rightarrow>
             bnd (ilock (Some ip) s) (\<lambda>_ s.
               if i_type (itable s ip) \<noteq> T_DIR then bnd (iunlockput ip s) (\<lambda>_ s. sys_fail s)
               else bnd (iunlock (Some ip) s) (\<lambda>_ s.
                    bnd (case p_cwd (procs s p) of None \<Rightarrow> Inl (Fault, s) | Some cwd \<Rightarrow> iput cwd s) (\<lambda>_ s.
                    bnd (end_op s) (\<lambda>_ s.
                    ret 0 (upd_proc p (\<lambda>q. q\<lparr>p_cwd := Some ip\<rparr>) s)))))))))  s"

section \<open>exec and pipe\<close>

fun kfree_all :: "uint64 list \<Rightarrow> 'a mstate_scheme \<Rightarrow> ('a mstate_scheme, unit) out" where
  "kfree_all [] s = ret () s"
| "kfree_all (a # as) s = bnd (kfree a s) (\<lambda>_ s. kfree_all as s)"

text \<open>
  The loop that copies in the argument strings, \<open>k\<close> slots left: whether it succeeded, and the pages in
  \<^verbatim>\<open>argv\<close> so far.
\<close>

fun sys_exec_args :: "nat \<Rightarrow> uint64 \<Rightarrow> uint64 list \<Rightarrow> 'a mstate_scheme \<Rightarrow> ('a mstate_scheme, bool \<times> uint64 list) out" where
  "sys_exec_args 0 uargv argv s = ret (False, argv) s"
| "sys_exec_args (Suc k) uargv argv s =
     bnd (fetchaddr (uargv + 8 * of_nat (length argv)) s) (\<lambda>r s. case r of None \<Rightarrow> ret (False, argv) s
     | Some uarg \<Rightarrow>
         if uarg = 0 then ret (True, argv) s
         else bnd (kalloc s) (\<lambda>pa s.
                if pa = 0 then ret (False, argv) s
                else bnd (fetchstr uarg 4096 s) (\<lambda>(r, bs) s.
                       let s = s\<lparr>mem := st_bytes (mem s) pa bs\<rparr>
                       in if r < 0 then ret (False, argv @ [pa]) s
                          else sys_exec_args k uargv (argv @ [pa]) s)))"

definition sys_exec :: "'a kstate_scheme \<Rightarrow> ('a kstate_scheme, uint64) out" where
  "sys_exec s =
     bnd (argpath 0 s) (\<lambda>path s. case path of None \<Rightarrow> ret (-1) s
     | Some path \<Rightarrow>
         bnd (argaddr 1 s) (\<lambda>uargv s.
         bnd (sys_exec_args MAXARG uargv [] s) (\<lambda>(ok, argv) s.
           if ok then bnd (exec path argv s) (\<lambda>r s. bnd (kfree_all argv s) (\<lambda>_ s. ret (of_int r) s))
           else bnd (kfree_all argv s) (\<lambda>_ s. ret (-1) s))))"

definition close_both :: "nat \<Rightarrow> nat \<Rightarrow> 'a kstate_scheme \<Rightarrow> ('a kstate_scheme, uint64) out" where
  "close_both rfil wfil s = bnd (fileclose rfil s) (\<lambda>_ s. bnd (fileclose wfil s) (\<lambda>_ s. ret (-1) s))"

definition sys_pipe :: "'a kstate_scheme \<Rightarrow> ('a kstate_scheme, uint64) out" where
  "sys_pipe s = curproc (\<lambda>p s.
     bnd (argaddr 0 s) (\<lambda>fdarray s.
     bnd (pipealloc s) (\<lambda>r s. case r of None \<Rightarrow> ret (-1) s
     | Some (rfil, wfil) \<Rightarrow>
         bnd (fdalloc rfil s) (\<lambda>fd0 s. case fd0 of None \<Rightarrow> close_both rfil wfil s
         | Some fd0 \<Rightarrow>
             bnd (fdalloc wfil s) (\<lambda>fd1 s. case fd1 of None \<Rightarrow> close_both rfil wfil (clear_fd p fd0 s)
             | Some fd1 \<Rightarrow>
                 bnd (copyout (p_pagetable (procs s p)) fdarray (le_bytes 4 (of_nat fd0 :: uint)) s) (\<lambda>r s.
                   if r < 0 then close_both rfil wfil (clear_fd p fd1 (clear_fd p fd0 s))
                   else bnd (copyout (p_pagetable (procs s p)) (fdarray + 4) (le_bytes 4 (of_nat fd1 :: uint)) s) (\<lambda>r s.
                     if r < 0 then close_both rfil wfil (clear_fd p fd1 (clear_fd p fd0 s))
                     else ret 0 s)))))))  s"

end
