(* ===== verification/Trap.thy ===== *)
theory Trap
  imports Sysfile
begin

text \<open>
  \<^verbatim>\<open>kernel/plic.c\<close>, the dispatcher \<^verbatim>\<open>syscall\<close> of \<^verbatim>\<open>kernel/syscall.c\<close>, \<^verbatim>\<open>kernel/trap.c\<close>, \<^verbatim>\<open>forkret\<close> and \<^verbatim>\<open>kernel/main.c\<close>.
  The assembly entry and exit paths (\<^verbatim>\<open>trampoline.S\<close>, \<^verbatim>\<open>kernelvec.S\<close>) are not modelled: \<open>usertrapret\<close> ends with
  the arguments that it passes to \<^verbatim>\<open>userret\<close>.
\<close>

section \<open>Supervisor registers and the PLIC\<close>

definition cs :: "'a tstate_scheme \<Rightarrow> csr" where
  "cs s = csrs s (tp s)"

definition upd_cs :: "(csr \<Rightarrow> csr) \<Rightarrow> 'a tstate_scheme \<Rightarrow> 'a tstate_scheme" where
  "upd_cs h s = s\<lparr>csrs := (csrs s)(tp s := h (csrs s (tp s)))\<rparr>"

definition r_sstatus :: "'a tstate_scheme \<Rightarrow> uint64" where
  "r_sstatus s = (csr_sstatus (cs s) AND NOT SSTATUS_SIE) OR (if intr (mycpu s) then SSTATUS_SIE else 0)"

definition w_sstatus :: "uint64 \<Rightarrow> 'a tstate_scheme \<Rightarrow> 'a tstate_scheme" where
  "w_sstatus x s = set_mycpu ((mycpu s)\<lparr>intr := (x AND SSTATUS_SIE \<noteq> 0)\<rparr>) (upd_cs (\<lambda>c. c\<lparr>csr_sstatus := x\<rparr>) s)"

definition r_sepc :: "'a tstate_scheme \<Rightarrow> uint64" where "r_sepc s = sepc (cs s)"
definition w_sepc :: "uint64 \<Rightarrow> 'a tstate_scheme \<Rightarrow> 'a tstate_scheme" where "w_sepc x s = upd_cs (\<lambda>c. c\<lparr>sepc := x\<rparr>) s"
definition w_stvec :: "uint64 \<Rightarrow> 'a tstate_scheme \<Rightarrow> 'a tstate_scheme" where "w_stvec x s = upd_cs (\<lambda>c. c\<lparr>stvec := x\<rparr>) s"
definition r_scause :: "'a tstate_scheme \<Rightarrow> uint64" where "r_scause s = scause (cs s)"
definition r_stval :: "'a tstate_scheme \<Rightarrow> uint64" where "r_stval s = stval (cs s)"
definition r_sip :: "'a tstate_scheme \<Rightarrow> uint64" where "r_sip s = sip (cs s)"
definition w_sip :: "uint64 \<Rightarrow> 'a tstate_scheme \<Rightarrow> 'a tstate_scheme" where "w_sip x s = upd_cs (\<lambda>c. c\<lparr>sip := x\<rparr>) s"

abbreviation UART0_IRQ :: uint where "UART0_IRQ \<equiv> 10"
abbreviation VIRTIO0_IRQ :: uint where "VIRTIO0_IRQ \<equiv> 1"
abbreviation PLIC_SENABLE :: "nat \<Rightarrow> uint64" where "PLIC_SENABLE hart \<equiv> PLIC + 0x2080 + of_nat hart * 0x100"
abbreviation PLIC_SPRIORITY :: "nat \<Rightarrow> uint64" where "PLIC_SPRIORITY hart \<equiv> PLIC + 0x201000 + of_nat hart * 0x2000"
abbreviation PLIC_SCLAIM :: "nat \<Rightarrow> uint64" where "PLIC_SCLAIM hart \<equiv> PLIC + 0x201004 + of_nat hart * 0x2000"

definition plic_write :: "uint64 \<Rightarrow> uint \<Rightarrow> 'a tstate_scheme \<Rightarrow> 'a tstate_scheme" where
  "plic_write a v s = s\<lparr>plic_regs := (plic_regs s)(a := v)\<rparr>"

definition plicinit :: "'a tstate_scheme \<Rightarrow> 'a tstate_scheme" where
  "plicinit s = plic_write (PLIC + ucast VIRTIO0_IRQ * 4) 1 (plic_write (PLIC + ucast UART0_IRQ * 4) 1 s)"

definition plicinithart :: "'a tstate_scheme \<Rightarrow> 'a tstate_scheme" where
  "plicinithart s =
     plic_write (PLIC_SPRIORITY (cpuid s)) 0
       (plic_write (PLIC_SENABLE (cpuid s)) (push_bit (unat UART0_IRQ) 1 OR push_bit (unat VIRTIO0_IRQ) 1) s)"

definition plic_claim :: "'a tstate_scheme \<Rightarrow> uint" where
  "plic_claim s = plic_regs s (PLIC_SCLAIM (cpuid s))"

definition plic_complete :: "uint \<Rightarrow> 'a tstate_scheme \<Rightarrow> 'a tstate_scheme" where
  "plic_complete irq s = plic_write (PLIC_SCLAIM (cpuid s)) irq s"

section \<open>System calls\<close>

definition syscalls :: "int \<Rightarrow> ('a tstate_scheme \<Rightarrow> ('a tstate_scheme, uint64) out) option" where
  "syscalls num =
     (if num = 1 then Some sys_fork else if num = 2 then Some sys_exit else if num = 3 then Some sys_wait
      else if num = 4 then Some sys_pipe else if num = 5 then Some sys_read else if num = 6 then Some sys_kill
      else if num = 7 then Some sys_exec else if num = 8 then Some sys_fstat else if num = 9 then Some sys_chdir
      else if num = 10 then Some sys_dup else if num = 11 then Some sys_getpid else if num = 12 then Some sys_sbrk
      else if num = 13 then Some sys_sleep else if num = 14 then Some sys_uptime else if num = 15 then Some sys_open
      else if num = 16 then Some sys_write else if num = 17 then Some sys_mknod else if num = 18 then Some sys_unlink
      else if num = 19 then Some sys_link else if num = 20 then Some sys_mkdir else if num = 21 then Some sys_close
      else if num = 22 then Some sys_getprocinfo else if num = 23 then Some sys_getsystime
      else if num = 24 then Some sys_setpriority else None)"

definition syscall :: "'a tstate_scheme \<Rightarrow> ('a tstate_scheme, unit) out" where
  "syscall s = curproc (\<lambda>p s.
     let num = sint (ucast (tf_get tf_a7 p s) :: uint)
     in case syscalls num of
          Some h \<Rightarrow> bnd (h s) (\<lambda>v s. ret () (tf_set tf_a0 v p s))
        | None \<Rightarrow>
            bnd (printf (ascii ''%d %s: unknown sys call %d'' @ [10])
                   [P_int (p_pid (procs s p)), P_str (Some (name_chars (p_name (procs s p)))), P_int num] s) (\<lambda>_ s.
            ret () (tf_set tf_a0 (-1) p s))) s"

section \<open>Interrupts\<close>

definition trapinit :: "'a pstate_scheme \<Rightarrow> 'a pstate_scheme" where
  "trapinit s = s\<lparr>tickslock := initlock ''time'' (tickslock s)\<rparr>"

definition trapinithart :: "'a tstate_scheme \<Rightarrow> 'a tstate_scheme" where
  "trapinithart s = w_stvec (sym_kernelvec s) s"

definition clockintr :: "'a pstate_scheme \<Rightarrow> ('a pstate_scheme, unit) out" where
  "clockintr s =
     bnd (acquire tickslock tickslock_update s) (\<lambda>_ s.
     bnd (wakeup Ch_ticks (s\<lparr>ticks := ticks s + 1\<rparr>)) (\<lambda>_ s.
     release tickslock tickslock_update s))"

definition devintr :: "'a tstate_scheme \<Rightarrow> ('a tstate_scheme, int) out" where
  "devintr s =
     (let cause = r_scause s
      in if cause AND 0x8000000000000000 \<noteq> 0 \<and> cause AND 0xff = 9 then
           let irq = plic_claim s
           in bnd (if irq = UART0_IRQ then uartintr s
                   else if irq = VIRTIO0_IRQ then virtio_disk_intr s
                   else if irq \<noteq> 0 then printf (ascii ''unexpected interrupt irq=%d'' @ [10]) [P_int (sint irq)] s
                   else ret () s) (\<lambda>_ s.
                ret 1 (if irq \<noteq> 0 then plic_complete irq s else s))
         else if cause = 0x8000000000000001 then
           bnd (if cpuid s = 0 then clockintr s else ret () s) (\<lambda>_ s.
           ret 2 (w_sip (r_sip s AND NOT 2) s))
         else ret 0 s)"

text \<open>
  \<^verbatim>\<open>usertrapret\<close> up to the jump to \<^verbatim>\<open>userret\<close>; its result is the second argument of that call, the user page table.
\<close>

definition usertrapret :: "'a tstate_scheme \<Rightarrow> ('a tstate_scheme, uint64) out" where
  "usertrapret s = curproc (\<lambda>p s.
     let s = intr_off s;
         s = w_stvec (TRAMPOLINE + (sym_uservec s - ld_trampoline s)) s;
         s = tf_set 0 (satp s (tp s)) p s;
         s = tf_set 8 (p_kstack (procs s p) + PGSIZE) p s;
         s = tf_set 16 (sym_usertrap s) p s;
         s = tf_set 32 (of_nat (tp s)) p s;
         x = r_sstatus s;
         x = x AND NOT SSTATUS_SPP;
         x = x OR SSTATUS_SPIE;
         s = w_sstatus x s;
         s = w_sepc (tf_get tf_epc p s) s
     in ret (MAKE_SATP (p_pagetable (procs s p))) s) s"

definition usertrap_tail :: "nat \<Rightarrow> int \<Rightarrow> 'a tstate_scheme \<Rightarrow> ('a tstate_scheme, uint64) out" where
  "usertrap_tail p which_dev s =
     bnd (if p_killed (procs s p) \<noteq> 0 then exit (-1) s else ret () s) (\<lambda>_ s.
     bnd (if which_dev = 2 then yield s else ret () s) (\<lambda>_ s.
     usertrapret s))"

definition usertrap :: "'a tstate_scheme \<Rightarrow> ('a tstate_scheme, uint64) out" where
  "usertrap s =
     (if r_sstatus s AND SSTATUS_SPP \<noteq> 0 then panic ''usertrap: not from user mode'' s
      else let s = w_stvec (sym_kernelvec s) s
           in curproc (\<lambda>p s.
                let s = tf_set tf_epc (r_sepc s) p s
                in if r_scause s = 8 then
                     bnd (if p_killed (procs s p) \<noteq> 0 then exit (-1) s else ret () s) (\<lambda>_ s.
                       let s = tf_set tf_epc (tf_get tf_epc p s + 4) p s;
                           s = intr_on s
                       in bnd (syscall s) (\<lambda>_ s. usertrap_tail p 0 s))
                   else bnd (devintr s) (\<lambda>which_dev s.
                     if which_dev \<noteq> 0 then usertrap_tail p which_dev s
                     else bnd (printf (ascii ''usertrap(): unexpected scause %p pid=%d'' @ [10])
                                 [P_ptr (r_scause s), P_int (p_pid (procs s p))] s) (\<lambda>_ s.
                          bnd (printf (ascii ''            sepc=%p stval=%p'' @ [10])
                                 [P_ptr (r_sepc s), P_ptr (r_stval s)] s) (\<lambda>_ s.
                          usertrap_tail p 0 (upd_proc p (\<lambda>q. q\<lparr>p_killed := 1\<rparr>) s))))) s)"

definition kerneltrap :: "'a tstate_scheme \<Rightarrow> ('a tstate_scheme, unit) out" where
  "kerneltrap s =
     (let epc = r_sepc s;
          status = r_sstatus s;
          cause = r_scause s
      in if status AND SSTATUS_SPP = 0 then panic ''kerneltrap: not from supervisor mode'' s
         else if intr_get s then panic ''kerneltrap: interrupts enabled'' s
         else bnd (devintr s) (\<lambda>which_dev s.
                if which_dev = 0
                then bnd (printf (ascii ''scause %p'' @ [10]) [P_ptr cause] s) (\<lambda>_ s.
                     bnd (printf (ascii ''sepc=%p stval=%p'' @ [10]) [P_ptr (r_sepc s), P_ptr (r_stval s)] s) (\<lambda>_ s.
                     panic ''kerneltrap'' s))
                else bnd (if which_dev = 2
                          then bnd (myproc s) (\<lambda>me s. case me of None \<Rightarrow> ret () s
                                 | Some p \<Rightarrow> if p_state (procs s p) = RUNNING then yield s else ret () s)
                          else ret () s) (\<lambda>_ s.
                     ret () (w_sstatus status (w_sepc epc s)))))"

definition forkret :: "'a tstate_scheme \<Rightarrow> ('a tstate_scheme, uint64) out" where
  "forkret s = curproc (\<lambda>p s.
     bnd (release (p_lk p) (p_lku p) s) (\<lambda>_ s.
     bnd (if fork_first s then fsinit ROOTDEV (s\<lparr>fork_first := False\<rparr>) else ret () s) (\<lambda>_ s.
     usertrapret s))) s"

section \<open>Boot\<close>

text \<open>
  \<^verbatim>\<open>main\<close> up to the call of \<^verbatim>\<open>scheduler\<close>. A hart other than 0 that finds \<^verbatim>\<open>started\<close> unset spins.
\<close>

definition main :: "uint64 \<Rightarrow> 'a tstate_scheme \<Rightarrow> ('a tstate_scheme, unit) out" where
  "main pages_pa s =
     (if cpuid s = 0 then
        let s = consoleinit s;
            s = printfinit s
        in bnd (printf [10] [] s) (\<lambda>_ s.
           bnd (printf (ascii ''xv6 kernel is booting'' @ [10]) [] s) (\<lambda>_ s.
           bnd (printf [10] [] s) (\<lambda>_ s.
           bnd (or_spin s (kinit s)) (\<lambda>_ s.
           bnd (kvminit s) (\<lambda>_ s.
             let s = kvminithart s;
                 s = procinit s;
                 s = trapinit s;
                 s = trapinithart s;
                 s = plicinit s;
                 s = plicinithart s;
                 s = binit s;
                 s = iinit s;
                 s = fileinit s
             in bnd (virtio_disk_init pages_pa s) (\<lambda>_ s.
                bnd (userinit s) (\<lambda>_ s.
                ret () (scheduler_start (s\<lparr>started := True\<rparr>)))))))))
      else if \<not> started s then Inl (Spin, s)
      else bnd (printf (ascii ''hart %d starting'' @ [10]) [P_int (int (cpuid s))] s) (\<lambda>_ s.
             let s = kvminithart s;
                 s = trapinithart s;
                 s = plicinithart s
             in ret () (scheduler_start s)))"

end
