(* ===== verification/Ulib.thy ===== *)
theory Ulib
  imports CString
begin

text \<open>
  \<^verbatim>\<open>user/ulib.c\<close>, the C library of user programs. A constant string is the list of its characters before the
  terminator; routines that write memory work on the byte memory. System calls are parameters. Routines that
  have the same name as one of the kernel carry the prefix \<open>ulib\<close>.
\<close>

type_synonym ustr = "uchar list"

section \<open>Strings\<close>

partial_function (option) strcpy :: "mem \<Rightarrow> uint64 \<Rightarrow> uint64 \<Rightarrow> mem option" where
  "strcpy m s t = (let c = m t; m = m(s := c) in if c \<noteq> 0 then strcpy m (s + 1) (t + 1) else Some m)"

fun strcmp :: "ustr \<Rightarrow> ustr \<Rightarrow> int" where
  "strcmp (a # p) (b # q) = (if a = b then strcmp p q else uint a - uint b)"
| "strcmp (a # p) [] = uint a"
| "strcmp [] (b # q) = - uint b"
| "strcmp [] [] = 0"

fun strchr :: "ustr \<Rightarrow> uchar \<Rightarrow> nat option" where
  "strchr [] c = None"
| "strchr (a # s) c = (if a = c then Some 0 else map_option Suc (strchr s c))"

fun atoi_loop :: "uint \<Rightarrow> ustr \<Rightarrow> uint" where
  "atoi_loop n [] = n"
| "atoi_loop n (c # s) = (if 48 \<le> c \<and> c \<le> 57 then atoi_loop (n * 10 + ucast c - 48) s else n)"

definition atoi :: "ustr \<Rightarrow> int" where
  "atoi s = sint (atoi_loop 0 s)"

section \<open>Memory\<close>

fun ulib_memset_loop :: "mem \<Rightarrow> uint64 \<Rightarrow> uchar \<Rightarrow> nat \<Rightarrow> nat \<Rightarrow> mem" where
  "ulib_memset_loop m dst c i 0 = m"
| "ulib_memset_loop m dst c i (Suc k) = ulib_memset_loop (m(dst + of_nat i := c)) dst c (Suc i) k"

definition ulib_memset :: "mem \<Rightarrow> uint64 \<Rightarrow> uchar \<Rightarrow> uint \<Rightarrow> mem" where
  "ulib_memset m dst c n = ulib_memset_loop m dst c 0 (unat n)"

text \<open>The copy direction depends on the order of the pointers only; \<^verbatim>\<open>n\<close> is an \<^verbatim>\<open>int\<close>.\<close>

definition ulib_memmove :: "mem \<Rightarrow> uint64 \<Rightarrow> uint64 \<Rightarrow> int \<Rightarrow> mem" where
  "ulib_memmove m dst src n =
     (if src > dst then copy_up m dst src (nat n)
      else copy_down m (dst + of_int n) (src + of_int n) (nat n))"

fun ulib_memcmp :: "cptr \<Rightarrow> cptr \<Rightarrow> nat \<Rightarrow> int" where
  "ulib_memcmp p q 0 = 0"
| "ulib_memcmp p q (Suc n) =
     (if p 0 \<noteq> q 0 then uint (p 0) - uint (q 0)
      else ulib_memcmp (\<lambda>i. p (Suc i)) (\<lambda>i. q (Suc i)) n)"

definition ulib_memcpy :: "mem \<Rightarrow> uint64 \<Rightarrow> uint64 \<Rightarrow> uint \<Rightarrow> mem" where
  "ulib_memcpy m dst src n = ulib_memmove m dst src (sint n)"

section \<open>Input\<close>

text \<open>
  \<^verbatim>\<open>read(0, &c, 1)\<close> as a function of the world: the character it delivers, or nothing at the end of the
  input and on an error. \<open>gets_loop rd k bs w\<close> may store \<open>k\<close> more characters.
\<close>

fun gets_loop :: "('w \<Rightarrow> uchar option \<times> 'w) \<Rightarrow> nat \<Rightarrow> uchar list \<Rightarrow> 'w \<Rightarrow> uchar list \<times> 'w" where
  "gets_loop rd 0 bs w = (bs, w)"
| "gets_loop rd (Suc k) bs w =
     (case rd w of
        (None, w) \<Rightarrow> (bs, w)
      | (Some c, w) \<Rightarrow> if c = 10 \<or> c = 13 then (bs @ [c], w) else gets_loop rd k (bs @ [c]) w)"

definition gets :: "('w \<Rightarrow> uchar option \<times> 'w) \<Rightarrow> int \<Rightarrow> 'w \<Rightarrow> uchar list \<times> 'w" where
  "gets rd mx w = gets_loop rd (nat (mx - 1)) [] w"

definition ulib_stat :: "(ustr \<Rightarrow> int \<Rightarrow> 'w \<Rightarrow> int \<times> 'w) \<Rightarrow> (int \<Rightarrow> 'w \<Rightarrow> (int \<times> 'st) \<times> 'w) \<Rightarrow>
    (int \<Rightarrow> 'w \<Rightarrow> 'w) \<Rightarrow> 'st \<Rightarrow> ustr \<Rightarrow> 'w \<Rightarrow> (int \<times> 'st) \<times> 'w" where
  "ulib_stat sys_open sys_fstat sys_close st n w =
     (let (fd, w) = sys_open n 0 w
      in if fd < 0 then ((- 1, st), w)
         else let ((r, st), w) = sys_fstat fd w in ((r, st), sys_close fd w))"

section \<open>Properties\<close>

lemma strchr_Some: "strchr s c = Some i \<longleftrightarrow> i < length s \<and> s ! i = c \<and> c \<notin> set (take i s)"
proof (induction s arbitrary: i)
  case (Cons a s)
  then show ?case by (cases i) auto
qed simp

lemma strchr_None: "strchr s c = None \<longleftrightarrow> c \<notin> set s"
  by (induction s) auto

lemma strchr_split: "c \<notin> set u \<Longrightarrow> strchr (u @ c # v) c = Some (length u)"
  by (induction u) auto

lemma sint_of_int_small: "unat n < 2 ^ 31 \<Longrightarrow> sint (n :: uint) = int (unat n)"
proof -
  assume "unat n < 2 ^ 31"
  then have "int (unat n) < int (2 ^ 31)" by (simp only: of_nat_less_iff)
  then show ?thesis using int_word_sint [of "uint n", where ?'a = 32] by simp
qed

text \<open>
  The \<^verbatim>\<open>memmove\<close> of the user library copies exactly what the one of the kernel copies, although it chooses
  the direction differently: for any overlap, as long as neither region wraps around.
\<close>

lemma ulib_memmove_eq:
  assumes "unat src + unat n < 2 ^ 64" "unat dst + unat n < 2 ^ 64" "unat n < 2 ^ 31"
  shows "ulib_memmove m dst src (sint n) = memmove m dst src n"
proof -
  have sn: "sint n = int (unat n)" using assms(3) sint_of_int_small [of n] by simp
  have n: "unat n \<le> 2 ^ 64" using assms(1) by simp
  have up: "copy_up m dst src (unat n) x = (if unat (x - dst) < unat n then m (src + (x - dst)) else m x)" if "src > dst" for x
    using that assms by (intro copy_up_apply [OF n]) (auto simp: add_of_nat_eq_iff word_less_nat_alt)
  have down: "copy_down m (dst + of_nat (unat n)) (src + of_nat (unat n)) (unat n) x =
      (if unat (x - dst) < unat n then m (src + (x - dst)) else m x)" if "\<not> src > dst" for x
    using that assms by (intro copy_down_apply [OF n]) (auto simp: add_of_nat_eq_iff word_less_nat_alt)
  show ?thesis unfolding memmove_apply [OF assms(1,2)]
    using up down by (auto simp: ulib_memmove_def sn fun_eq_iff)
qed

end
