(* ===== verification/ShSpec.thy ===== *)
theory ShSpec
  imports Sh
begin

text \<open>
  The parser of the shell returns: with enough fuel it yields a command or gives up with a message. The command's
  strings are words of the line, their terminators do not overwrite one another's words, and no argument vector
  overflows.
\<close>

section \<open>The parser returns words\<close>

text \<open>Characters \<open>q\<close> to \<open>eq\<close> are a word that a blank, a symbol or the end of the line delimits.\<close>

definition plain :: "uchar \<Rightarrow> bool" where
  "plain c \<longleftrightarrow> c \<notin> set whitespace \<and> c \<notin> set symbols"

definition word_at :: "ustr \<Rightarrow> nat \<Rightarrow> nat \<Rightarrow> bool" where
  "word_at buf q eq \<longleftrightarrow> q < eq \<and> eq \<le> length buf \<and> (\<forall>i. q \<le> i \<and> i < eq \<longrightarrow> plain (buf ! i))
     \<and> (eq < length buf \<longrightarrow> \<not> plain (buf ! eq))"

lemma skip_word_spec:
  "q \<le> length buf \<Longrightarrow> (\<forall>i. q \<le> i \<and> i < skip_word buf q \<longrightarrow> plain (buf ! i)) \<and> skip_word buf q \<le> length buf
     \<and> (skip_word buf q < length buf \<longrightarrow> \<not> plain (buf ! skip_word buf q))"
proof (induction buf q rule: skip_word.induct)
  case (1 buf q)
  show ?case
  proof (cases "q < length buf \<and> strchr whitespace (chr buf q) = None \<and> strchr symbols (chr buf q) = None")
    case True
    then have e: "skip_word buf q = skip_word buf (Suc q)" by (subst skip_word.simps) simp
    have "plain (buf ! q)" using True by (auto simp: plain_def strchr_None chr_def)
    with 1(1) [OF True] True show ?thesis unfolding e by (metis Suc_leI le_antisym not_less_eq_eq)
  next
    case False
    then have e: "skip_word buf q = q" by (subst skip_word.simps) (simp only: if_False)
    show ?thesis using False 1(2) unfolding e by (auto simp: plain_def strchr_None chr_def)
  qed
qed

lemma skip_space_stop: "skip_space buf s < length buf \<Longrightarrow> chr buf (skip_space buf s) \<notin> set whitespace"
proof (induction buf s rule: skip_space.induct)
  case (1 buf s)
  then show ?case by (metis skip_space.simps strchr_None)
qed

lemma gettoken_word: "gettoken buf ps = (97, q, eq, ps') \<Longrightarrow> word_at buf q eq"
proof -
  assume g: "gettoken buf ps = (97, q, eq, ps')"
  then have c: "chr buf q \<notin> {0, 124, 40, 41, 59, 38, 60, 62}" "q = skip_space buf ps" "eq = skip_word buf q"
    by (auto simp: gettoken_def Let_def split: if_splits)
  then have q: "q < length buf" by (auto simp: chr_def split: if_splits)
  have "strchr whitespace (chr buf q) = None" using skip_space_stop [of buf ps] q c(2) by (simp add: strchr_None)
  moreover have "strchr symbols (chr buf q) = None" using c(1) by (simp add: strchr_None symbols_def)
  ultimately have "skip_word buf q = skip_word buf (Suc q)" using q by (subst skip_word.simps) simp
  with skip_word_le [of "Suc q" buf] have "q < eq" using c(3) by simp
  with skip_word_spec [of q buf] q show "word_at buf q eq" by (auto simp: word_at_def c(3))
qed

text \<open>The tree's pointers delimit words, and \<^verbatim>\<open>argv\<close> has room for the null pointer.\<close>

fun cmd_ok :: "ustr \<Rightarrow> cmd \<Rightarrow> bool" where
  "cmd_ok buf (EXEC av) \<longleftrightarrow> length av < MAXARGS \<and> (\<forall>(q, eq) \<in> set av. word_at buf q eq)"
| "cmd_ok buf (REDIR c f ef mode fd) \<longleftrightarrow> cmd_ok buf c \<and> word_at buf f ef"
| "cmd_ok buf (PIPE c d) \<longleftrightarrow> cmd_ok buf c \<and> cmd_ok buf d"
| "cmd_ok buf (LIST c d) \<longleftrightarrow> cmd_ok buf c \<and> cmd_ok buf d"
| "cmd_ok buf (BACK c) \<longleftrightarrow> cmd_ok buf c"

fun nargs :: "cmd \<Rightarrow> nat" where
  "nargs (EXEC av) = length av"
| "nargs (REDIR c f ef mode fd) = nargs c"
| "nargs _ = 0"

lemma redir_ok: "cmd_ok buf c \<Longrightarrow> word_at buf q eq \<Longrightarrow> cmd_ok buf (redir tok q eq c) \<and> nargs (redir tok q eq c) = nargs c"
  by (auto simp: redir_def)

lemma add_arg_ok:
  "cmd_ok buf c \<Longrightarrow> word_at buf q eq \<Longrightarrow> Suc (nargs c) < MAXARGS \<Longrightarrow>
   cmd_ok buf (add_arg q eq c) \<and> nargs (add_arg q eq c) \<le> Suc (nargs c)"
  by (induction q eq c rule: add_arg.induct) auto

text \<open>The run ends, and a command that it returns has the property.\<close>

definition runs :: "('a \<Rightarrow> bool) \<Rightarrow> 'a parsed option \<Rightarrow> bool" where
  "runs P r \<longleftrightarrow> (case r of None \<Rightarrow> False | Some (Inl e) \<Rightarrow> True | Some (Inr x) \<Rightarrow> P x)"

lemma runs_simps [simp]: "\<not> runs P None" "runs P (Some (Inl e))" "runs P (Some (Inr x)) \<longleftrightarrow> P x"
  by (simp_all add: runs_def)

lemma pbind_simps [simp]:
  "pbind None f = None" "pbind (Some (Inl e)) f = Some (Inl e)" "pbind (Some (Inr x)) f = f x"
  by (simp_all add: pbind_def)

lemma runs_pbind: "runs P r \<Longrightarrow> (\<And>x. P x \<Longrightarrow> runs Q (f x)) \<Longrightarrow> runs Q (pbind r f)"
  by (cases r; cases "the r") auto

lemma runs_mono: "runs P r \<Longrightarrow> (\<And>x. P x \<Longrightarrow> Q x) \<Longrightarrow> runs Q r"
  by (auto simp: runs_def split: option.splits sum.splits)

text \<open>A token that \<^verbatim>\<open>peek\<close> saw brings the pointer forward.\<close>

lemma peek_gettoken:
  assumes "peek buf toks ps = (True, ps1)" "gettoken buf ps1 = (tok, q, eq, ps2)"
  shows "ps < ps2 \<and> ps < length buf"
  using peek_le [OF assms(1)] gettoken_less [OF assms(2) peek_token [OF assms]] by simp

text \<open>The pointer does not go back, and the command is well formed.\<close>

definition parse_post :: "ustr \<Rightarrow> nat \<Rightarrow> cmd \<times> nat \<Rightarrow> bool" where
  "parse_post buf ps r \<longleftrightarrow> cmd_ok buf (fst r) \<and> ps \<le> snd r"

lemma parseredirs_ok:
  "cmd_ok buf c \<Longrightarrow> runs (\<lambda>r. parse_post buf ps r \<and> nargs (fst r) = nargs c) (Some (parseredirs buf c ps))"
proof (induction buf c ps rule: parseredirs.induct)
  case (1 buf c ps)
  obtain b ps1 where p: "peek buf [60, 62] ps = (b, ps1)" by fastforce
  obtain tok q1 eq1 ps2 where g: "gettoken buf ps1 = (tok, q1, eq1, ps2)" using prod_cases4 by blast
  obtain t q eq ps3 where h: "gettoken buf ps2 = (t, q, eq, ps3)" using prod_cases4 by blast
  show ?case
  proof (cases "b \<and> t = 97")
    case True
    with p h have p: "peek buf [60, 62] ps = (True, ps1)" and h: "gettoken buf ps2 = (97, q, eq, ps3)" by auto
    have r: "cmd_ok buf (redir tok q eq c)" "nargs (redir tok q eq c) = nargs c"
      using redir_ok [OF 1(2) gettoken_word [OF h]] by auto
    have e: "parseredirs buf c ps = parseredirs buf (redir tok q eq c) ps3"
      using p g h by (simp add: parseredirs.simps [of buf c ps])
    show ?thesis
      using 1(1) [OF p [symmetric] refl g [symmetric] refl refl h [symmetric] refl refl _ r(1)]
        peek_gettoken [OF p g] gettoken_less [OF h]
      unfolding e by (auto simp: parse_post_def r elim!: runs_mono)
  next
    case False
    then show ?thesis using 1(2) p g h peek_le [OF p]
      by (cases b) (auto simp: parseredirs.simps [of buf c ps] parse_post_def)
  qed
qed

lemma parseexec_loop_ok:
  "cmd_ok buf rc \<Longrightarrow> nargs rc \<le> argc \<Longrightarrow> runs (parse_post buf ps) (Some (parseexec_loop buf argc rc ps))"
proof (induction buf argc rc ps rule: parseexec_loop.induct)
  case (1 buf argc rc ps)
  obtain b ps1 where p: "peek buf [124, 41, 38, 59] ps = (b, ps1)" by fastforce
  obtain tok q eq ps2 where g: "gettoken buf ps1 = (tok, q, eq, ps2)" using prod_cases4 by blast
  note le = peek_le [OF p] gettoken_less(1) [OF g]
  show ?case
  proof (cases "\<not> b \<and> tok = 97 \<and> Suc argc < MAXARGS")
    case True
    with p g have p: "peek buf [124, 41, 38, 59] ps = (False, ps1)" and g: "gettoken buf ps1 = (97, q, eq, ps2)"
      and m: "\<not> MAXARGS \<le> Suc argc" by auto
    have a: "cmd_ok buf (add_arg q eq rc)" "nargs (add_arg q eq rc) \<le> Suc argc"
      using add_arg_ok [OF 1(2) gettoken_word [OF g]] 1(3) True by auto
    show ?thesis
    proof (cases "parseredirs buf (add_arg q eq rc) ps2")
      case (Inl e)
      then show ?thesis using p g m by (simp add: parseexec_loop.simps [of buf argc rc ps])
    next
      case (Inr r)
      obtain rc' ps3 where r: "r = (rc', ps3)" by fastforce
      have e: "parseexec_loop buf argc rc ps = parseexec_loop buf (Suc argc) rc' ps3"
        using p g m Inr by (simp add: parseexec_loop.simps [of buf argc rc ps] r)
      have o: "cmd_ok buf rc'" "nargs rc' \<le> Suc argc" "ps2 \<le> ps3"
        using parseredirs_ok [OF a(1), of ps2] a(2) by (auto simp: Inr r parse_post_def)
      show ?thesis
        using 1(1) [OF p [symmetric] refl g [symmetric] refl refl _ _ m Inr r [symmetric] o(1,2)] le True o(3)
        unfolding e by (auto simp: parse_post_def elim!: runs_mono)
    qed
  next
    case False
    have "ps \<le> skip_space buf ps1" "ps1 \<le> skip_space buf (skip_space buf ps1)"
      using le skip_space_le [of ps1 buf] skip_space_le [of "skip_space buf ps1" buf] by auto
    then have "tok = 0 \<Longrightarrow> ps \<le> ps2" using g by (auto simp: gettoken_def Let_def peek_no_skip split: if_splits)
    with False show ?thesis using 1(2) p g le
      by (cases b) (auto simp: parseexec_loop.simps [of buf argc rc ps] parse_post_def)
  qed
qed

lemma back_loop_ok: "back_loop buf c ps = (c', ps') \<Longrightarrow> ps \<le> ps' \<and> (cmd_ok buf c \<longrightarrow> cmd_ok buf c')"
proof (induction buf c ps rule: back_loop.induct)
  case (1 buf c ps)
  obtain b ps1 where p: "peek buf [38] ps = (b, ps1)" by fastforce
  obtain tok q eq ps2 where g: "gettoken buf ps1 = (tok, q, eq, ps2)" using prod_cases4 by blast
  show ?case
  proof (cases b)
    case True
    with p have p: "peek buf [38] ps = (True, ps1)" by simp
    with 1(2) g have "back_loop buf (BACK c) ps2 = (c', ps')" by (simp add: back_loop.simps [of buf c ps])
    then show ?thesis
      using 1(1) [OF p [symmetric] refl g [symmetric] refl refl] peek_gettoken [OF p g]
      by simp
  next
    case False
    then show ?thesis using 1(2) p peek_le [OF p] by (simp add: back_loop.simps [of buf c ps])
  qed
qed

section \<open>Enough fuel\<close>

text \<open>\<open>fuelled buf k f n\<close>: the procedure \<open>f\<close> returns with \<open>n\<close> calls left, four for every character ahead and \<open>k\<close> more.\<close>

definition fuelled :: "ustr \<Rightarrow> nat \<Rightarrow> (nat \<Rightarrow> ustr \<Rightarrow> nat \<Rightarrow> (cmd \<times> nat) parsed option) \<Rightarrow> nat \<Rightarrow> bool" where
  "fuelled buf k f n \<longleftrightarrow> (\<forall>ps. 4 * (length buf - ps) + k \<le> n \<longrightarrow> runs (parse_post buf ps) (f n buf ps))"

lemma fuelledI: "(\<And>ps. 4 * (length buf - ps) + k \<le> n \<Longrightarrow> runs (parse_post buf ps) (f n buf ps)) \<Longrightarrow> fuelled buf k f n"
  by (simp add: fuelled_def)

lemma fuelledD: "fuelled buf k f n \<Longrightarrow> 4 * (length buf - ps) + k \<le> n \<Longrightarrow> runs (parse_post buf ps) (f n buf ps)"
  by (simp add: fuelled_def)

text \<open>After a token the procedures may start over.\<close>

lemma fuelled_next:
  assumes "fuelled buf k f n" "k \<le> 4" "4 * (length buf - ps) \<le> n" "ps \<le> ps1" "peek buf toks ps1 = (True, ps2)"
    "gettoken buf ps2 = (tok, q, eq, ps3)"
  shows "runs (parse_post buf ps3) (f n buf ps3) \<and> ps \<le> ps3"
proof -
  have "ps1 < ps3" "ps1 < length buf" using peek_gettoken [OF assms(5,6)] by auto
  then have "4 * (length buf - ps3) + 4 \<le> 4 * (length buf - ps)" using assms(4) by linarith
  with fuelledD [OF assms(1), of ps3] assms(2,3,4) \<open>ps1 < ps3\<close> show ?thesis by simp
qed

lemma parseline_step:
  assumes "fuelled buf 4 parseline n" "fuelled buf 3 parsepipe n"
  shows "fuelled buf 4 parseline (Suc n)"
proof (rule fuelledI, unfold parseline.simps, rule runs_pbind [OF fuelledD [OF assms(2)]], goal_cases)
  case (2 ps x)
  obtain c ps0 c' ps1 b ps2 tok q eq ps3 where e: "x = (c, ps0)" "back_loop buf c ps0 = (c', ps1)"
      "peek buf [59] ps1 = (b, ps2)" "gettoken buf ps2 = (tok, q, eq, ps3)"
    by (metis prod.exhaust)
  have o: "cmd_ok buf c'" "ps \<le> ps1" using 2 back_loop_ok [OF e(2)] by (auto simp: parse_post_def e(1))
  show ?case
  proof (cases b)
    case True
    then have "runs (parse_post buf ps3) (parseline n buf ps3) \<and> ps \<le> ps3"
      using fuelled_next [OF assms(1) _ _ o(2) _ e(4)] e(3) 2 by simp
    then show ?thesis using e True o by (auto simp: parse_post_def intro!: runs_pbind)
  qed (use e o peek_le [OF e(3)] in \<open>auto simp: parse_post_def\<close>)
qed simp

lemma parsepipe_step:
  assumes "fuelled buf 3 parsepipe n" "fuelled buf 2 parseexec n"
  shows "fuelled buf 3 parsepipe (Suc n)"
proof (rule fuelledI, unfold parsepipe.simps, rule runs_pbind [OF fuelledD [OF assms(2)]], goal_cases)
  case (2 ps x)
  obtain c ps1 b ps2 tok q eq ps3 where e: "x = (c, ps1)"
      "peek buf [124] ps1 = (b, ps2)" "gettoken buf ps2 = (tok, q, eq, ps3)"
    by (metis prod.exhaust)
  have o: "cmd_ok buf c" "ps \<le> ps1" using 2 by (auto simp: parse_post_def e(1))
  show ?case
  proof (cases b)
    case True
    then have "runs (parse_post buf ps3) (parsepipe n buf ps3) \<and> ps \<le> ps3"
      using fuelled_next [OF assms(1) _ _ o(2) _ e(3)] e(2) 2 by simp
    then show ?thesis using e True o by (auto simp: parse_post_def intro!: runs_pbind)
  qed (use e o peek_le [OF e(2)] in \<open>auto simp: parse_post_def\<close>)
qed simp

lemma parseexec_step:
  assumes "fuelled buf 1 parseblock n"
  shows "fuelled buf 2 parseexec (Suc n)"
proof (rule fuelledI)
  fix ps
  assume n: "4 * (length buf - ps) + 2 \<le> Suc n"
  obtain b ps1 where p: "peek buf [40] ps = (b, ps1)" by fastforce
  have le: "ps \<le> ps1" by (rule peek_le [OF p])
  show "runs (parse_post buf ps) (parseexec (Suc n) buf ps)"
  proof (cases b)
    case True
    have "runs (parse_post buf ps1) (parseblock n buf ps1)" by (rule fuelledD [OF assms]) (use n le in linarith)
    then show ?thesis using p True le by (auto simp: parse_post_def elim: runs_mono)
  next
    case False
    have "runs (parse_post buf ps) (pbind (Some (parseredirs buf (EXEC []) ps1)) (\<lambda>(rc, ps). Some (parseexec_loop buf 0 rc ps)))"
    proof (rule runs_pbind [OF parseredirs_ok], goal_cases)
      case (2 x)
      obtain rc ps2 where x: "x = (rc, ps2)" by fastforce
      show ?case using 2 le parseexec_loop_ok [of buf rc 0 ps2] by (auto simp: x parse_post_def elim: runs_mono)
    qed (simp add: MAXARGS_def)
    with p False show ?thesis by simp
  qed
qed

lemma parseblock_step:
  assumes "fuelled buf 4 parseline n"
  shows "fuelled buf 1 parseblock (Suc n)"
proof (rule fuelledI)
  fix ps
  assume n: "4 * (length buf - ps) + 1 \<le> Suc n"
  obtain b ps1 tok q eq ps2 where p: "peek buf [40] ps = (b, ps1)" "gettoken buf ps1 = (tok, q, eq, ps2)"
    by (metis prod.exhaust)
  show "runs (parse_post buf ps) (parseblock (Suc n) buf ps)"
  proof (cases b)
    case True
    then have r: "runs (parse_post buf ps2) (parseline n buf ps2)" "ps \<le> ps2"
      using fuelled_next [OF assms _ _ order_refl _ p(2)] p(1) n by auto
    have "parse_post buf ps2 x \<Longrightarrow> runs (parse_post buf ps) (case x of (c, ps) \<Rightarrow>
        case peek buf [41] ps of (False, ps) \<Rightarrow> Some (Inl ''syntax - missing )'')
        | (True, ps) \<Rightarrow> (case gettoken buf ps of (_, _, _, ps) \<Rightarrow> Some (parseredirs buf c ps)))" for x
    proof goal_cases
      case 1
      obtain c ps3 b' ps4 tok' q' eq' ps5 where e: "x = (c, ps3)" "peek buf [41] ps3 = (b', ps4)"
          "gettoken buf ps4 = (tok', q', eq', ps5)" by (metis prod.exhaust)
      have "b' \<Longrightarrow> ps3 < ps5" using peek_gettoken [OF _ e(3)] e(2) by simp
      with 1 r(2) e parseredirs_ok [of buf c ps5] show ?case
        by (cases b') (auto simp: parse_post_def elim!: runs_mono)
    qed
    with p True show ?thesis by (auto intro!: runs_pbind [OF r(1)])
  qed (use p in simp)
qed

lemma parse_fuelled:
  "fuelled buf 4 parseline n \<and> fuelled buf 3 parsepipe n \<and> fuelled buf 2 parseexec n \<and> fuelled buf 1 parseblock n"
proof (induction n)
  case 0
  show ?case by (simp add: fuelled_def)
next
  case (Suc n)
  then show ?case by (intro conjI parseline_step parsepipe_step parseexec_step parseblock_step) auto
qed

text \<open>More fuel does not change the outcome.\<close>

lemma pbind_mono:
  "pbind r f \<noteq> None \<Longrightarrow> (r \<noteq> None \<Longrightarrow> r' = r) \<Longrightarrow> (\<And>x. f x \<noteq> None \<Longrightarrow> g x = f x) \<Longrightarrow> pbind r' g = pbind r f"
  by (cases r; cases "the r") auto

lemma parse_mono:
  "(parseline n buf ps \<noteq> None \<longrightarrow> parseline (Suc n) buf ps = parseline n buf ps)
   \<and> (parsepipe n buf ps \<noteq> None \<longrightarrow> parsepipe (Suc n) buf ps = parsepipe n buf ps)
   \<and> (parseexec n buf ps \<noteq> None \<longrightarrow> parseexec (Suc n) buf ps = parseexec n buf ps)
   \<and> (parseblock n buf ps \<noteq> None \<longrightarrow> parseblock (Suc n) buf ps = parseblock n buf ps)"
proof (induction n arbitrary: ps)
  case (Suc n)
  note ih = Suc [THEN conjunct1, rule_format] Suc [THEN conjunct2, THEN conjunct1, rule_format]
    Suc [THEN conjunct2, THEN conjunct2, THEN conjunct1, rule_format] Suc [THEN conjunct2, THEN conjunct2, THEN conjunct2, rule_format]
  show ?case
  proof (intro conjI impI, goal_cases)
    case 1
    then show ?case unfolding parseline.simps(2) [of "Suc n" buf ps] parseline.simps(2) [of n buf ps]
      by (rule pbind_mono [OF _ ih(2)]) (auto split: prod.splits bool.splits intro!: pbind_mono ih(1) simp del: parseline.simps)
  next
    case 2
    then show ?case unfolding parsepipe.simps(2) [of "Suc n" buf ps] parsepipe.simps(2) [of n buf ps]
      by (rule pbind_mono [OF _ ih(3)]) (auto split: prod.splits bool.splits intro!: pbind_mono ih(2) simp del: parsepipe.simps)
  next
    case 3
    then show ?case unfolding parseexec.simps(2) [of "Suc n" buf ps] parseexec.simps(2) [of n buf ps]
      by (auto split: prod.splits bool.splits intro!: ih(4) simp del: parseblock.simps)
  next
    case 4
    then show ?case unfolding parseblock.simps(2) [of "Suc n" buf ps] parseblock.simps(2) [of n buf ps]
      by (auto split: prod.splits bool.splits intro!: pbind_mono ih(1) simp del: parseline.simps)
  qed
qed simp

declare parseline.simps [simp del] parsepipe.simps [simp del] parseexec.simps [simp del] parseblock.simps [simp del]

lemma parseline_more: "parseline n buf ps \<noteq> None \<Longrightarrow> parseline (n + k) buf ps = parseline n buf ps"
proof (induction k)
  case (Suc k)
  then show ?case using parse_mono [of "n + k" buf ps] by simp
qed simp

lemma parsecmd_more: "parsecmd n buf \<noteq> None \<Longrightarrow> parsecmd (n + k) buf = parsecmd n buf"
  using parseline_more [of n buf 0 k] by (cases "parseline n buf 0") (auto simp: parsecmd_def)

lemma parsecmd_runs: "runs (\<lambda>(c, buf'). cmd_ok buf c \<and> buf' = nulterminate c buf) (parsecmd (4 * length buf + 4 + k) buf)"
  unfolding parsecmd_def using parse_fuelled [of buf "4 * length buf + 4 + k"]
  by (intro runs_pbind [where P = "parse_post buf 0"] fuelledD [where k = 4]) (auto simp: parse_post_def split: prod.splits)

text \<open>
  C34. The parser returns on every line: with four calls per character and four more, \<^verbatim>\<open>parsecmd\<close> gives a command or
  gives up with a message, and the outcome does not depend on how much more fuel there is.
\<close>

theorem parsecmd_returns: "\<exists>r. \<forall>k. parsecmd (4 * length buf + 4 + k) buf = Some r"
proof -
  obtain r where "parsecmd (4 * length buf + 4) buf = Some r"
    using parsecmd_runs [of buf 0] by (cases "parsecmd (4 * length buf + 4) buf") auto
  with parsecmd_more [of "4 * length buf + 4" buf] show ?thesis by auto
qed

section \<open>The strings of a command\<close>

fun toks_of :: "cmd \<Rightarrow> (nat \<times> nat) set" where
  "toks_of (EXEC av) = set av"
| "toks_of (REDIR c f ef mode fd) = insert (f, ef) (toks_of c)"
| "toks_of (PIPE c d) = toks_of c \<union> toks_of d"
| "toks_of (LIST c d) = toks_of c \<union> toks_of d"
| "toks_of (BACK c) = toks_of c"

lemma cmd_ok_toks: "cmd_ok buf c \<Longrightarrow> (q, eq) \<in> toks_of c \<Longrightarrow> word_at buf q eq"
  by (induction c) auto

text \<open>The C string at a pointer.\<close>

definition cstr_at :: "ustr \<Rightarrow> nat \<Rightarrow> ustr" where
  "cstr_at buf q = takeWhile (\<lambda>c. c \<noteq> 0) (drop q buf)"

lemma upd_nth: "i < length xs \<Longrightarrow> xs[b := v] ! i = (if b = i then v else xs ! i)"
  by (cases "b = i") simp_all

lemma nulterminate_fold_length [simp]: "length (fold (\<lambda>(q, eq) buf. buf[eq := 0]) av buf) = length buf"
  by (induction av arbitrary: buf) auto

lemma nulterminate_length [simp]: "length (nulterminate c buf) = length buf"
  by (induction c arbitrary: buf) auto

lemma nulterminate_fold:
  "i < length buf \<Longrightarrow>
   fold (\<lambda>(q, eq) buf. buf[eq := 0]) av buf ! i = (if \<exists>q. (q, i) \<in> set av then 0 else (buf ! i :: uchar))"
  by (induction av arbitrary: buf) (auto simp: upd_nth)

lemma nulterminate_nth:
  "i < length buf \<Longrightarrow> nulterminate c buf ! i = (if \<exists>q. (q, i) \<in> toks_of c then 0 else buf ! i)"
  by (induction c arbitrary: buf) (auto simp: nulterminate_fold upd_nth)

lemma cstr_at_word:
  assumes "q < eq" "eq \<le> length b" "\<And>i. q \<le> i \<Longrightarrow> i < eq \<Longrightarrow> b ! i \<noteq> 0" "eq < length b \<Longrightarrow> b ! eq = 0"
  shows "cstr_at b q = take (eq - q) (drop q b)"
  unfolding cstr_at_def by (rule takeWhile_eq_take_P_nth) (use assms in auto)

lemma parsecmd_strings_lemma:
  assumes "parsecmd n buf = Some (Inr (c, buf'))" "0 \<notin> set buf"
  shows "cmd_ok buf c \<and> length buf' = length buf
    \<and> (\<forall>(q, eq) \<in> toks_of c. cstr_at buf' q = take (eq - q) (drop q buf))"
proof -
  have "parsecmd (4 * length buf + 4 + n) buf = Some (Inr (c, buf'))"
    using parsecmd_more [of n buf "4 * length buf + 4"] assms(1) by (simp add: ac_simps)
  then have ok: "cmd_ok buf c" and b: "buf' = nulterminate c buf" using parsecmd_runs [of buf n] by auto
  have "cstr_at buf' q = take (eq - q) (drop q buf)" if t: "(q, eq) \<in> toks_of c" for q eq
  proof -
    have w: "word_at buf q eq" by (rule cmd_ok_toks [OF ok t])
    have nt: "\<not> plain (buf ! i)" if "(q, i) \<in> toks_of c" "i < length buf" for q i
      using that cmd_ok_toks [OF ok] by (auto simp: word_at_def)
    have in_word: "buf' ! i = buf ! i \<and> buf ! i \<noteq> 0" if "q \<le> i" "i < eq" for i
    proof -
      have i: "i < length buf" "plain (buf ! i)" using that w by (auto simp: word_at_def)
      then have "\<not> (\<exists>q. (q, i) \<in> toks_of c)" using nt by blast
      with i assms(2) show ?thesis by (auto simp: b nulterminate_nth dest: nth_mem)
    qed
    have "cstr_at buf' q = take (eq - q) (drop q buf')"
      by (rule cstr_at_word) (use w in_word t in \<open>auto simp: word_at_def b nulterminate_nth\<close>)
    also have "\<dots> = take (eq - q) (drop q buf)"
      by (rule nth_equalityI) (use w in_word in \<open>auto simp: word_at_def b\<close>)
    finally show ?thesis .
  qed
  with ok show ?thesis by (auto simp: b)
qed

text \<open>
  C35. A command that the parser returns is well formed (every argument vector leaves room for the null pointer),
  and after the terminators were written each of its strings reads as the word of the line that its pointers
  delimit: no terminator falls into another word.
\<close>

theorem parsecmd_strings:
  assumes "parsecmd n buf = Some (Inr (c, buf'))" "0 \<notin> set buf"
  shows "cmd_ok buf c \<and> length buf' = length buf
    \<and> (\<forall>(q, eq) \<in> toks_of c. cstr_at buf' q = take (eq - q) (drop q buf))"
  using parsecmd_strings_lemma [OF assms] .

text \<open>\<^verbatim>\<open>"ls>f x"\<close>\<close>

lemma parsecmd_example:
  "parsecmd 28 [108, 115, 62, 102, 32, 120] =
     Some (Inr (REDIR (EXEC [(0, 2), (5, 6)]) 3 4 (O_WRONLY OR O_CREATE OR O_TRUNC) 1, [108, 115, 0, 102, 0, 120]))"
  by code_simp

theorem parsecmd_strings_witness:
  "parsecmd 28 [108, 115, 62, 102, 32, 120] =
     Some (Inr (REDIR (EXEC [(0, 2), (5, 6)]) 3 4 (O_WRONLY OR O_CREATE OR O_TRUNC) 1, [108, 115, 0, 102, 0, 120]))
   \<and> cstr_at [108, 115, 0, 102, 0, 120] 3 = [102]"
  using parsecmd_strings [OF parsecmd_example] parsecmd_example by simp

end
