(* ===== verification/ShPrint.thy ===== *)
theory ShPrint
  imports ShSpec
begin

text \<open>
  The parser of the shell is the inverse of a printer. The printer writes a command tree as a line of tokens,
  each followed by a blank, with parentheses where the grammar needs them; parsing the line gives a tree that
  reads, through the terminated buffer, as the one that was printed.
\<close>

section \<open>Tokens and their text\<close>

datatype token = Sym uchar | Append | Word ustr

fun tok_text :: "token \<Rightarrow> ustr" where
  "tok_text (Sym c) = [c]"
| "tok_text Append = [62, 62]"
| "tok_text (Word w) = w"

fun tok_code :: "token \<Rightarrow> uchar" where
  "tok_code (Sym c) = c"
| "tok_code Append = 43"
| "tok_code (Word w) = 97"

definition good_word :: "ustr \<Rightarrow> bool" where
  "good_word w \<longleftrightarrow> w \<noteq> [] \<and> (\<forall>c \<in> set w. plain c \<and> c \<noteq> 0)"

fun good_tok :: "token \<Rightarrow> bool" where
  "good_tok (Sym c) \<longleftrightarrow> c \<in> set symbols"
| "good_tok Append \<longleftrightarrow> True"
| "good_tok (Word w) \<longleftrightarrow> good_word w"

definition line :: "token list \<Rightarrow> ustr" where
  "line ts = concat (map (\<lambda>t. tok_text t @ [32]) ts)"

lemma line_simps [simp]: "line [] = []" "line (t # ts) = tok_text t @ 32 # line ts"
  by (simp_all add: line_def)

text \<open>The pointer is at the first of the tokens that are left.\<close>

definition ahead :: "ustr \<Rightarrow> nat \<Rightarrow> token list \<Rightarrow> bool" where
  "ahead buf ps ts \<longleftrightarrow> ps \<le> length buf \<and> drop ps buf = line ts \<and> list_all good_tok ts"

definition span_at :: "ustr \<Rightarrow> nat \<times> nat \<Rightarrow> ustr" where
  "span_at buf = (\<lambda>(q, eq). take (eq - q) (drop q buf))"

lemma chr_drop: "drop i buf = u \<Longrightarrow> chr buf i = (case u of [] \<Rightarrow> 0 | c # _ \<Rightarrow> c)"
  by (auto simp: chr_def hd_drop_conv_nth [symmetric] not_less split: list.splits)

lemma skip_space_stay: "chr buf i \<notin> set whitespace \<Longrightarrow> skip_space buf i = i"
  by (subst skip_space.simps) (simp add: strchr_None)

lemma skip_space_blank: "drop i buf = 32 # u \<Longrightarrow> skip_space buf i = skip_space buf (Suc i)"
  using chr_drop [of i buf] by (subst skip_space.simps) (auto simp: strchr_None whitespace_def not_le dest: arg_cong [of _ _ length])

lemma good_tok_first: "good_tok t \<Longrightarrow> \<exists>c u. tok_text t = c # u \<and> c \<notin> set whitespace \<and> c \<noteq> 0"
  by (cases t; cases "tok_text t") (auto simp: good_word_def plain_def symbols_def whitespace_def)

lemma ahead_stay: "ahead buf ps ts \<Longrightarrow> skip_space buf ps = ps"
proof (rule skip_space_stay)
  assume a: "ahead buf ps ts"
  show "chr buf ps \<notin> set whitespace"
  proof (cases ts)
    case Nil
    then show ?thesis using a by (simp add: ahead_def chr_drop [of ps buf "[]"] whitespace_def)
  next
    case (Cons t us)
    with a good_tok_first [of t] chr_drop [of ps buf "line ts"] show ?thesis by (auto simp: ahead_def)
  qed
qed

lemma skip_word_text:
  "drop q buf = w @ 32 # u \<Longrightarrow> \<forall>c \<in> set w. plain c \<Longrightarrow> skip_word buf q = q + length w"
proof (induction w arbitrary: q)
  case Nil
  then show ?case using chr_drop [of q buf "32 # u"]
    by (subst skip_word.simps) (simp add: strchr_None whitespace_def)
next
  case (Cons c w)
  have "drop (Suc q) buf = w @ 32 # u" using Cons.prems(1) by (metis append_Cons drop_Suc list.sel(3) tl_drop)
  moreover have "q < length buf" using Cons.prems(1) by (metis append_Cons drop_all leI list.distinct(1))
  ultimately show ?case using Cons chr_drop [OF Cons.prems(1)]
    by (subst skip_word.simps) (simp add: strchr_None plain_def)
qed

lemma ahead_next:
  assumes "ahead buf ps (t # ts)"
  shows "ahead buf (Suc (ps + length (tok_text t))) ts \<and> skip_space buf (ps + length (tok_text t)) = Suc (ps + length (tok_text t))"
proof -
  have d: "drop (ps + length (tok_text t)) buf = 32 # line ts"
    using assms by (subst add.commute) (simp add: ahead_def flip: drop_drop)
  then have "drop (Suc (ps + length (tok_text t))) buf = line ts" by (metis drop_Suc list.sel(3) tl_drop)
  moreover have "ps + length (tok_text t) < length buf" using d by (metis drop_all leI list.distinct(1))
  ultimately have "ahead buf (Suc (ps + length (tok_text t))) ts" using assms by (simp add: ahead_def)
  with ahead_stay [OF this] skip_space_blank [OF d] show ?thesis by simp
qed

lemma gettoken_ahead:
  assumes "ahead buf ps (t # ts)"
  obtains ps' where "gettoken buf ps = (tok_code t, ps, ps + length (tok_text t), ps')" "ahead buf ps' ts"
    "span_at buf (ps, ps + length (tok_text t)) = tok_text t"
proof
  show "ahead buf (Suc (ps + length (tok_text t))) ts" using ahead_next [OF assms] by simp
  have d: "drop ps buf = tok_text t @ 32 # line ts" "good_tok t" using assms by (auto simp: ahead_def)
  then show "span_at buf (ps, ps + length (tok_text t)) = tok_text t" by (simp add: span_at_def)
  note c = chr_drop [OF d(1)] ahead_stay [OF assms] ahead_next [OF assms]
  show "gettoken buf ps = (tok_code t, ps, ps + length (tok_text t), Suc (ps + length (tok_text t)))"
  proof (cases t)
    case (Sym a)
    have "drop (Suc ps) buf = 32 # line ts" using d(1) Sym by (metis append_Cons append_Nil drop_Suc list.sel(3) tl_drop tok_text.simps(1))
    with c d(2) Sym chr_drop [of "Suc ps" buf] show ?thesis by (auto simp: gettoken_def Let_def symbols_def)
  next
    case Append
    have "drop (Suc ps) buf = 62 # 32 # line ts" using d(1) Append by (metis append_Cons append_Nil drop_Suc list.sel(3) tl_drop tok_text.simps(2))
    with c Append chr_drop [of "Suc ps" buf] show ?thesis by (auto simp: gettoken_def Let_def)
  next
    case (Word w)
    have g: "good_word w" using d(2) Word by simp
    then obtain a v where w: "w = a # v" by (cases w) (auto simp: good_word_def)
    have "skip_word buf ps = ps + length w" using g d(1) Word by (intro skip_word_text) (auto simp: good_word_def)
    moreover have "a \<notin> {0, 124, 40, 41, 59, 38, 60, 62}" using g by (auto simp: w good_word_def plain_def symbols_def)
    ultimately show ?thesis using c Word w by (simp add: gettoken_def Let_def)
  qed
qed

text \<open>What \<^verbatim>\<open>peek\<close> answers when it looks for symbols.\<close>

fun starts :: "ustr \<Rightarrow> token list \<Rightarrow> bool" where
  "starts cs (Sym c # ts) \<longleftrightarrow> c \<in> set cs"
| "starts cs (Append # ts) \<longleftrightarrow> 62 \<in> set cs"
| "starts cs ts \<longleftrightarrow> False"

lemma peek_ahead:
  assumes "ahead buf ps ts" "set cs \<subseteq> set symbols"
  shows "peek buf cs ps = (starts cs ts, ps)"
proof -
  have d: "drop ps buf = line ts" "list_all good_tok ts" using assms(1) by (auto simp: ahead_def)
  note c = chr_drop [OF d(1)]
  have z: "0 \<notin> set symbols" by (simp add: symbols_def)
  show ?thesis
  proof (cases ts)
    case Nil
    with c ahead_stay [OF assms(1)] show ?thesis by (simp add: peek_def)
  next
    case (Cons t us)
    show ?thesis
    proof (cases t)
      case (Sym x)
      with d(2) z Cons have "x \<noteq> 0" by auto
      with Sym Cons c ahead_stay [OF assms(1)] show ?thesis by (auto simp: peek_def Let_def strchr_None)
    next
      case Append
      with Cons c ahead_stay [OF assms(1)] show ?thesis by (auto simp: peek_def Let_def strchr_None)
    next
      case (Word w)
      with d(2) Cons obtain a v where w: "w = a # v" "plain a" by (cases w) (auto simp: good_word_def)
      with assms(2) have "a \<notin> set cs" by (auto simp: plain_def)
      with Word Cons c ahead_stay [OF assms(1)] w show ?thesis by (auto simp: peek_def Let_def strchr_None)
    qed
  qed
qed

lemma gettoken_eof: "ahead buf ps [] \<Longrightarrow> gettoken buf ps = (0, ps, ps, ps)"
  using ahead_stay [of buf ps "[]"] chr_drop [of ps buf "[]"] by (auto simp: gettoken_def Let_def ahead_def)

section \<open>Printing\<close>

text \<open>A command with its strings.\<close>

datatype scmd =
    SEXEC "ustr list"
  | SREDIR scmd ustr uint int
  | SPIPE scmd scmd
  | SLIST scmd scmd
  | SBACK scmd

fun view :: "(nat \<times> nat \<Rightarrow> ustr) \<Rightarrow> cmd \<Rightarrow> scmd" where
  "view f (EXEC av) = SEXEC (map f av)"
| "view f (REDIR c q eq mode fd) = SREDIR (view f c) (f (q, eq)) mode fd"
| "view f (PIPE c d) = SPIPE (view f c) (view f d)"
| "view f (LIST c d) = SLIST (view f c) (view f d)"
| "view f (BACK c) = SBACK (view f c)"

definition redir_tok :: "uint \<Rightarrow> token" where
  "redir_tok mode =
     (if mode = 0 then Sym 60 else if mode = (O_WRONLY OR O_CREATE OR O_TRUNC) then Sym 62 else Append)"

fun print_exec :: "scmd \<Rightarrow> token list"
  and print_pipe :: "scmd \<Rightarrow> token list"
  and print_back :: "scmd \<Rightarrow> token list"
  and print_line :: "scmd \<Rightarrow> token list" where
  "print_exec (SEXEC ws) = map Word ws"
| "print_exec (SREDIR t f mode fd) = print_exec t @ [redir_tok mode, Word f]"
| "print_exec (SPIPE t u) = Sym 40 # print_exec t @ Sym 124 # print_pipe u @ [Sym 41]"
| "print_exec (SLIST t u) = Sym 40 # print_back t @ Sym 59 # print_line u @ [Sym 41]"
| "print_exec (SBACK t) = Sym 40 # print_back t @ [Sym 38, Sym 41]"
| "print_pipe (SPIPE t u) = print_exec t @ Sym 124 # print_pipe u"
| "print_pipe (SEXEC ws) = print_exec (SEXEC ws)"
| "print_pipe (SREDIR t f mode fd) = print_exec (SREDIR t f mode fd)"
| "print_pipe (SLIST t u) = print_exec (SLIST t u)"
| "print_pipe (SBACK t) = print_exec (SBACK t)"
| "print_back (SBACK t) = print_back t @ [Sym 38]"
| "print_back (SEXEC ws) = print_pipe (SEXEC ws)"
| "print_back (SREDIR t f mode fd) = print_pipe (SREDIR t f mode fd)"
| "print_back (SPIPE t u) = print_pipe (SPIPE t u)"
| "print_back (SLIST t u) = print_pipe (SLIST t u)"
| "print_line (SLIST t u) = print_back t @ Sym 59 # print_line u"
| "print_line (SEXEC ws) = print_back (SEXEC ws)"
| "print_line (SREDIR t f mode fd) = print_back (SREDIR t f mode fd)"
| "print_line (SPIPE t u) = print_back (SPIPE t u)"
| "print_line (SBACK t) = print_back (SBACK t)"

text \<open>What a line can say: few enough words, that are words, and the redirections of the grammar.\<close>

fun scmd_ok :: "scmd \<Rightarrow> bool" where
  "scmd_ok (SEXEC ws) \<longleftrightarrow> length ws < MAXARGS \<and> list_all good_word ws"
| "scmd_ok (SREDIR t f mode fd) \<longleftrightarrow> scmd_ok t \<and> good_word f \<and>
     (mode, fd) \<in> {(0, 0), (O_WRONLY OR O_CREATE OR O_TRUNC, 1), (O_WRONLY OR O_CREATE, 1)}"
| "scmd_ok (SPIPE t u) \<longleftrightarrow> scmd_ok t \<and> scmd_ok u"
| "scmd_ok (SLIST t u) \<longleftrightarrow> scmd_ok t \<and> scmd_ok u"
| "scmd_ok (SBACK t) \<longleftrightarrow> scmd_ok t"

section \<open>Redirections and simple commands\<close>

definition redirs :: "scmd \<Rightarrow> (ustr \<times> uint \<times> int) list \<Rightarrow> scmd" where
  "redirs t rs = foldl (\<lambda>t (f, mode, fd). SREDIR t f mode fd) t rs"

definition redir_toks :: "(ustr \<times> uint \<times> int) list \<Rightarrow> token list" where
  "redir_toks rs = concat (map (\<lambda>(f, mode, fd). [redir_tok mode, Word f]) rs)"

definition redir_mode_ok :: "ustr \<times> uint \<times> int \<Rightarrow> bool" where
  "redir_mode_ok = (\<lambda>(f, mode, fd). (mode, fd) \<in> {(0, 0), (O_WRONLY OR O_CREATE OR O_TRUNC, 1), (O_WRONLY OR O_CREATE, 1)})"

lemma redir_tok_code:
  "redir_mode_ok (f, mode, fd) \<Longrightarrow> redir (tok_code (redir_tok mode)) q eq c = REDIR c q eq mode fd"
  by (auto simp: redir_def redir_tok_def redir_mode_ok_def O_WRONLY_def O_CREATE_def O_TRUNC_def)

lemma redir_tok_starts: "starts [60, 62] (redir_tok mode # ts)"
  by (simp add: redir_tok_def)

lemma redir_tok_no_block: "\<not> starts [40] (redir_tok mode # ts)"
  by (simp add: redir_tok_def)

lemma parseredirs_stop:
  assumes "ahead buf ps ts" "\<not> starts [60, 62] ts"
  shows "parseredirs buf c ps = Inr (c, ps)"
  using peek_ahead [OF assms(1), of "[60, 62]"] assms(2)
  by (subst parseredirs.simps) (simp add: symbols_def)

lemma parseredirs_print:
  assumes "ahead buf ps (redir_toks rs @ ts)" "\<not> starts [60, 62] ts" "list_all redir_mode_ok rs"
  shows "\<exists>c' ps'. parseredirs buf c ps = Inr (c', ps') \<and> ahead buf ps' ts
     \<and> view (span_at buf) c' = redirs (view (span_at buf) c) rs"
  using assms
proof (induction rs arbitrary: c ps)
  case Nil
  with parseredirs_stop [of buf ps ts c] show ?case by (simp add: redir_toks_def redirs_def)
next
  case (Cons r rs)
  obtain f mode fd where r: "r = (f, mode, fd)" using prod_cases3 by blast
  have a: "ahead buf ps (redir_tok mode # Word f # redir_toks rs @ ts)" using Cons.prems(1) by (simp add: redir_toks_def r)
  obtain ps1 eq1 where g: "gettoken buf ps = (tok_code (redir_tok mode), ps, eq1, ps1)" "ahead buf ps1 (Word f # redir_toks rs @ ts)"
    by (rule gettoken_ahead [OF a]) (rule that)
  obtain ps2 eq2 where h: "gettoken buf ps1 = (97, ps1, eq2, ps2)" "ahead buf ps2 (redir_toks rs @ ts)" "span_at buf (ps1, eq2) = f"
    using gettoken_ahead [OF g(2)] by (metis tok_code.simps(3) tok_text.simps(3))
  have m: "redir_mode_ok (f, mode, fd)" "list_all redir_mode_ok rs" using Cons.prems(3) by (auto simp: r)
  have "parseredirs buf c ps = parseredirs buf (REDIR c ps1 eq2 mode fd) ps2"
    using peek_ahead [OF a, of "[60, 62]"] g(1) h(1) redir_tok_starts redir_tok_code [OF m(1)]
    by (subst parseredirs.simps) (simp add: symbols_def)
  with Cons.IH [OF h(2) Cons.prems(2) m(2), of "REDIR c ps1 eq2 mode fd"] show ?case
    by (simp add: redirs_def r h(3))
qed

text \<open>Where a simple command ends.\<close>

abbreviation ends_exec :: "token list \<Rightarrow> bool" where
  "ends_exec ts \<equiv> ts = [] \<or> starts [124, 41, 38, 59] ts"

lemma ends_exec_redir: "ends_exec ts \<Longrightarrow> \<not> starts [60, 62] ts"
  by (cases "([60, 62] :: ustr, ts)" rule: starts.cases) auto

lemma parseexec_loop_stop:
  assumes "ahead buf ps ts" "ends_exec ts"
  shows "parseexec_loop buf argc rc ps = Inr (rc, ps)"
  using peek_ahead [OF assms(1), of "[124, 41, 38, 59]"] assms gettoken_eof [of buf ps]
  by (subst parseexec_loop.simps) (auto simp: symbols_def)

lemma parseexec_loop_print:
  assumes "ahead buf ps (map Word ws @ redir_toks rs @ ts)" "ends_exec ts" "list_all redir_mode_ok rs"
    "argc + length ws < MAXARGS" "ws \<noteq> []"
  shows "\<exists>c ps'. parseexec_loop buf argc (EXEC av) ps = Inr (c, ps') \<and> ahead buf ps' ts
     \<and> view (span_at buf) c = redirs (SEXEC (map (span_at buf) av @ ws)) rs"
  using assms
proof (induction ws arbitrary: ps av argc)
  case (Cons w ws)
  have a: "ahead buf ps (Word w # map Word ws @ redir_toks rs @ ts)" using Cons.prems(1) by simp
  obtain ps1 eq where g: "gettoken buf ps = (97, ps, eq, ps1)" "ahead buf ps1 (map Word ws @ redir_toks rs @ ts)" "span_at buf (ps, eq) = w"
    using gettoken_ahead [OF a] by (metis tok_code.simps(3) tok_text.simps(3))
  have p: "peek buf [124, 41, 38, 59] ps = (False, ps)" using peek_ahead [OF a, of "[124, 41, 38, 59]"] by (simp add: symbols_def)
  have m: "\<not> MAXARGS \<le> Suc argc" using Cons.prems(4) by simp
  show ?case
  proof (cases "ws = []")
    case True
    then obtain c ps2 where r: "parseredirs buf (EXEC (av @ [(ps, eq)])) ps1 = Inr (c, ps2)" "ahead buf ps2 ts"
        "view (span_at buf) c = redirs (SEXEC (map (span_at buf) av @ [w])) rs"
      using parseredirs_print [OF _ ends_exec_redir [OF Cons.prems(2)] Cons.prems(3), where c = "EXEC (av @ [(ps, eq)])" and ps = ps1 and buf = buf] g by auto
    then have "parseexec_loop buf argc (EXEC av) ps = Inr (c, ps2)"
      using p g(1) m parseexec_loop_stop [OF r(2) Cons.prems(2)] by (subst parseexec_loop.simps) simp
    with r True show ?thesis by simp
  next
    case False
    then have "\<not> starts [60, 62] (map Word ws @ redir_toks rs @ ts)" by (cases ws) auto
    then have "parseexec_loop buf argc (EXEC av) ps = parseexec_loop buf (Suc argc) (EXEC (av @ [(ps, eq)])) ps1"
      using p g(1) m parseredirs_stop [OF g(2)] by (subst parseexec_loop.simps) simp
    with Cons.IH [OF g(2) Cons.prems(2,3) _ False, of "Suc argc" "av @ [(ps, eq)]"] Cons.prems(4) g(3) show ?thesis by simp
  qed
qed simp

section \<open>The grammar\<close>

text \<open>\<open>f\<close> parses the tokens of \<open>t\<close> up to \<open>ts\<close>, with all fuel that is large enough.\<close>

definition parses :: "(nat \<Rightarrow> ustr \<Rightarrow> nat \<Rightarrow> (cmd \<times> nat) parsed option) \<Rightarrow> ustr \<Rightarrow> nat \<Rightarrow> scmd \<Rightarrow> token list \<Rightarrow> bool" where
  "parses f buf ps t ts \<longleftrightarrow> (\<exists>n c ps'. (\<forall>k. f (n + k) buf ps = Some (Inr (c, ps'))) \<and> ahead buf ps' ts \<and> view (span_at buf) c = t)"

lemma parsesE:
  assumes "parses f buf ps t ts"
  obtains n c ps' where "\<And>k. f (n + k) buf ps = Some (Inr (c, ps'))" "ahead buf ps' ts" "view (span_at buf) c = t"
  using assms unfolding parses_def by blast

lemma parsesI: "(\<And>k. f (n + k) buf ps = Some (Inr (c, ps'))) \<Longrightarrow> ahead buf ps' ts \<Longrightarrow> view (span_at buf) c = t \<Longrightarrow> parses f buf ps t ts"
  unfolding parses_def by blast

lemma parses_exec:
  assumes "ahead buf ps (map Word ws @ redir_toks rs @ ts)" "ends_exec ts" "list_all redir_mode_ok rs" "length ws < MAXARGS"
  shows "parses parseexec buf ps (redirs (SEXEC ws) rs) ts"
proof -
  have "\<not> starts [40] (map Word ws @ redir_toks rs @ ts)"
    using assms(2) by (cases ws; cases rs; cases "([40] :: ustr, ts)" rule: starts.cases) (auto simp: redir_toks_def redir_tok_no_block)
  then have p: "peek buf [40] ps = (False, ps)" using peek_ahead [OF assms(1), of "[40]"] by (simp add: symbols_def)
  have "\<exists>c ps'. pbind (Some (parseredirs buf (EXEC []) ps)) (\<lambda>(rc, ps). Some (parseexec_loop buf 0 rc ps)) = Some (Inr (c, ps'))
      \<and> ahead buf ps' ts \<and> view (span_at buf) c = redirs (SEXEC ws) rs"
  proof (cases "ws = []")
    case True
    with parseredirs_print [OF _ ends_exec_redir [OF assms(2)] assms(3), where c = "EXEC []" and ps = ps and buf = buf] assms(1)
    show ?thesis using parseexec_loop_stop [OF _ assms(2)] by fastforce
  next
    case False
    then have "\<not> starts [60, 62] (map Word ws @ redir_toks rs @ ts)" by (cases ws) auto
    with False parseexec_loop_print [OF assms(1-3), of 0 "[]"] assms(4) parseredirs_stop [OF assms(1)] show ?thesis by simp
  qed
  then obtain c ps' where "pbind (Some (parseredirs buf (EXEC []) ps)) (\<lambda>(rc, ps). Some (parseexec_loop buf 0 rc ps)) = Some (Inr (c, ps'))"
      "ahead buf ps' ts" "view (span_at buf) c = redirs (SEXEC ws) rs" by blast
  with p show ?thesis by (intro parsesI [where n = 1]) (auto simp: parseexec.simps)
qed

lemma parses_block:
  assumes "ahead buf ps (Sym 40 # us)" "\<And>ps. ahead buf ps us \<Longrightarrow> parses parseline buf ps t (Sym 41 # redir_toks rs @ ts)"
    "ends_exec ts" "list_all redir_mode_ok rs"
  shows "parses parseexec buf ps (redirs t rs) ts"
proof -
  have p: "peek buf [40] ps = (True, ps)" using peek_ahead [OF assms(1), of "[40]"] by (simp add: symbols_def)
  obtain ps1 eq where g: "gettoken buf ps = (40, ps, eq, ps1)" "ahead buf ps1 us"
    using gettoken_ahead [OF assms(1)] by (metis tok_code.simps(1))
  obtain n c ps2 where l: "\<And>k. parseline (n + k) buf ps1 = Some (Inr (c, ps2))" "ahead buf ps2 (Sym 41 # redir_toks rs @ ts)" "view (span_at buf) c = t"
    using assms(2) [OF g(2)] by (rule parsesE) (rule that)
  have q: "peek buf [41] ps2 = (True, ps2)" using peek_ahead [OF l(2), of "[41]"] by (simp add: symbols_def)
  obtain ps3 eq3 where h: "gettoken buf ps2 = (41, ps2, eq3, ps3)" "ahead buf ps3 (redir_toks rs @ ts)"
    using gettoken_ahead [OF l(2)] by (metis tok_code.simps(1))
  obtain c' ps4 where r: "parseredirs buf c ps3 = Inr (c', ps4)" "ahead buf ps4 ts" "view (span_at buf) c' = redirs t rs"
    using parseredirs_print [OF h(2) ends_exec_redir [OF assms(3)] assms(4), of c] l(3) by auto
  show ?thesis
    by (rule parsesI [where n = "Suc (Suc n)", OF _ r(2,3)])
      (use p g(1) l(1) q h(1) r(1) in \<open>simp add: parseexec.simps parseblock.simps\<close>)
qed

lemma parses_pipe_last:
  assumes "parses parseexec buf ps t ts" "\<not> starts [124] ts"
  shows "parses parsepipe buf ps t ts"
proof -
  obtain n c ps1 where e: "\<And>k. parseexec (n + k) buf ps = Some (Inr (c, ps1))" "ahead buf ps1 ts" "view (span_at buf) c = t"
    using assms(1) by (rule parsesE) (rule that)
  have "peek buf [124] ps1 = (False, ps1)" using peek_ahead [OF e(2), of "[124]"] assms(2) by (simp add: symbols_def)
  with e(1) show ?thesis by (intro parsesI [where n = "Suc n", OF _ e(2,3)]) (simp add: parsepipe.simps)
qed

lemma parses_pipe_cons:
  assumes "parses parseexec buf ps t (Sym 124 # us)" "\<And>ps. ahead buf ps us \<Longrightarrow> parses parsepipe buf ps u ts"
  shows "parses parsepipe buf ps (SPIPE t u) ts"
proof -
  obtain n c ps1 where e: "\<And>k. parseexec (n + k) buf ps = Some (Inr (c, ps1))" "ahead buf ps1 (Sym 124 # us)" "view (span_at buf) c = t"
    using assms(1) by (rule parsesE) (rule that)
  have p: "peek buf [124] ps1 = (True, ps1)" using peek_ahead [OF e(2), of "[124]"] by (simp add: symbols_def)
  obtain ps2 eq where g: "gettoken buf ps1 = (124, ps1, eq, ps2)" "ahead buf ps2 us"
    using gettoken_ahead [OF e(2)] by (metis tok_code.simps(1))
  obtain m d ps3 where h: "\<And>k. parsepipe (m + k) buf ps2 = Some (Inr (d, ps3))" "ahead buf ps3 ts" "view (span_at buf) d = u"
    using assms(2) [OF g(2)] by (rule parsesE) (rule that)
  have "parsepipe (Suc (n + m) + k) buf ps = Some (Inr (PIPE c d, ps3))" for k
    using e(1) [of "m + k"] h(1) [of "n + k"] p g(1) by (simp add: parsepipe.simps ac_simps)
  then show ?thesis by (rule parsesI [OF _ h(2)]) (simp add: e(3) h(3))
qed

lemma back_loop_print:
  assumes "ahead buf ps (replicate k (Sym 38) @ ts)" "\<not> starts [38] ts"
  shows "\<exists>c' ps'. back_loop buf c ps = (c', ps') \<and> ahead buf ps' ts \<and> view (span_at buf) c' = (SBACK ^^ k) (view (span_at buf) c)"
  using assms(1)
proof (induction k arbitrary: c ps)
  case 0
  then show ?case using peek_ahead [of buf ps ts "[38]"] assms(2) by (subst back_loop.simps) (simp add: symbols_def)
next
  case (Suc k)
  then have a: "ahead buf ps (Sym 38 # replicate k (Sym 38) @ ts)" by simp
  obtain ps1 eq where g: "gettoken buf ps = (38, ps, eq, ps1)" "ahead buf ps1 (replicate k (Sym 38) @ ts)"
    using gettoken_ahead [OF a] by (metis tok_code.simps(1))
  have "back_loop buf c ps = back_loop buf (BACK c) ps1"
    using peek_ahead [OF a, of "[38]"] g(1) by (subst back_loop.simps) (simp add: symbols_def)
  with Suc.IH [OF g(2), of "BACK c"] show ?case by (simp add: funpow_swap1)
qed

lemma parses_line_last:
  assumes "parses parsepipe buf ps t (replicate j (Sym 38) @ ts)" "\<not> starts [38] ts" "\<not> starts [59] ts"
  shows "parses parseline buf ps ((SBACK ^^ j) t) ts"
proof -
  obtain n c ps1 where e: "\<And>k. parsepipe (n + k) buf ps = Some (Inr (c, ps1))" "ahead buf ps1 (replicate j (Sym 38) @ ts)" "view (span_at buf) c = t"
    using assms(1) by (rule parsesE) (rule that)
  obtain c' ps2 where b: "back_loop buf c ps1 = (c', ps2)" "ahead buf ps2 ts" "view (span_at buf) c' = (SBACK ^^ j) t"
    using back_loop_print [OF e(2) assms(2), of c] e(3) by auto
  have "peek buf [59] ps2 = (False, ps2)" using peek_ahead [OF b(2), of "[59]"] assms(3) by (simp add: symbols_def)
  with e(1) b(1) show ?thesis by (intro parsesI [where n = "Suc n", OF _ b(2,3)]) (simp add: parseline.simps)
qed

lemma parses_line_cons:
  assumes "parses parsepipe buf ps t (replicate j (Sym 38) @ Sym 59 # us)" "\<And>ps. ahead buf ps us \<Longrightarrow> parses parseline buf ps u ts"
  shows "parses parseline buf ps (SLIST ((SBACK ^^ j) t) u) ts"
proof -
  obtain n c ps1 where e: "\<And>k. parsepipe (n + k) buf ps = Some (Inr (c, ps1))" "ahead buf ps1 (replicate j (Sym 38) @ Sym 59 # us)" "view (span_at buf) c = t"
    using assms(1) by (rule parsesE) (rule that)
  obtain c' ps2 where b: "back_loop buf c ps1 = (c', ps2)" "ahead buf ps2 (Sym 59 # us)" "view (span_at buf) c' = (SBACK ^^ j) t"
    using back_loop_print [OF e(2), of c] e(3) by auto
  have p: "peek buf [59] ps2 = (True, ps2)" using peek_ahead [OF b(2), of "[59]"] by (simp add: symbols_def)
  obtain ps3 eq where g: "gettoken buf ps2 = (59, ps2, eq, ps3)" "ahead buf ps3 us"
    using gettoken_ahead [OF b(2)] by (metis tok_code.simps(1))
  obtain m d ps4 where h: "\<And>k. parseline (m + k) buf ps3 = Some (Inr (d, ps4))" "ahead buf ps4 ts" "view (span_at buf) d = u"
    using assms(2) [OF g(2)] by (rule parsesE) (rule that)
  have "parseline (Suc (n + m) + k) buf ps = Some (Inr (LIST c' d, ps4))" for k
    using e(1) [of "m + k"] h(1) [of "n + k"] b(1) p g(1) by (simp add: parseline.simps ac_simps)
  then show ?thesis by (rule parsesI [OF _ h(2)]) (simp add: b(3) h(3))
qed

section \<open>Parsing what was printed\<close>

definition exec_ok :: "ustr \<Rightarrow> scmd \<Rightarrow> bool" where
  "exec_ok buf t \<longleftrightarrow> (\<forall>ps ts. ahead buf ps (print_exec t @ ts) \<and> ends_exec ts \<longrightarrow> parses parseexec buf ps t ts)"

definition pipeline_ok :: "ustr \<Rightarrow> scmd \<Rightarrow> bool" where
  "pipeline_ok buf t \<longleftrightarrow> (\<forall>ps ts. ahead buf ps (print_pipe t @ ts) \<and> (ts = [] \<or> starts [41, 38, 59] ts) \<longrightarrow> parses parsepipe buf ps t ts)"

definition line_ok :: "ustr \<Rightarrow> scmd \<Rightarrow> bool" where
  "line_ok buf t \<longleftrightarrow> (\<forall>ps ts. ahead buf ps (print_line t @ ts) \<and> (ts = [] \<or> starts [41] ts) \<longrightarrow> parses parseline buf ps t ts)"

fun is_back :: "scmd \<Rightarrow> bool" where
  "is_back (SBACK t) = True"
| "is_back t = False"

fun compound :: "scmd \<Rightarrow> bool" where
  "compound (SEXEC ws) = False"
| "compound (SREDIR t f mode fd) = False"
| "compound t = True"

fun is_pipe :: "scmd \<Rightarrow> bool" where
  "is_pipe (SPIPE t u) = True"
| "is_pipe t = False"

fun is_list :: "scmd \<Rightarrow> bool" where
  "is_list (SLIST t u) = True"
| "is_list t = False"

lemma print_compound: "compound t \<Longrightarrow> print_exec t = Sym 40 # print_line t @ [Sym 41]"
  by (cases t) auto

lemma print_no_back: "\<not> is_back t \<Longrightarrow> print_back t = print_pipe t"
  by (cases t) auto

lemma print_no_pipe: "\<not> is_pipe t \<Longrightarrow> print_pipe t = print_exec t"
  by (cases t) auto

lemma print_no_list: "\<not> is_list t \<Longrightarrow> print_line t = print_back t"
  by (cases t) auto

lemma print_backs: "\<not> is_back b \<Longrightarrow> print_back ((SBACK ^^ j) b) = print_pipe b @ replicate j (Sym 38)"
  by (induction j) (simp_all add: print_no_back replicate_append_same)

lemma back_split: "\<exists>j b. t = (SBACK ^^ j) b \<and> \<not> is_back b \<and> size b \<le> size t \<and> (is_back t \<longrightarrow> size b < size t) \<and> scmd_ok b = scmd_ok t"
proof (induction t)
  case (SBACK t)
  then obtain j b where "t = (SBACK ^^ j) b" "\<not> is_back b" "size b \<le> size t" "scmd_ok b = scmd_ok t" by blast
  then show ?case by (intro exI [of _ "Suc j"] exI [of _ b]) auto
qed (rule exI [of _ 0], simp)+

lemma redir_split:
  "\<exists>rs b. t = redirs b rs \<and> (compound b \<or> (\<exists>ws. b = SEXEC ws)) \<and> print_exec t = print_exec b @ redir_toks rs \<and> size b \<le> size t
     \<and> (\<not> compound t \<longrightarrow> compound b \<longrightarrow> size b < size t) \<and> (scmd_ok t \<longrightarrow> scmd_ok b \<and> list_all redir_mode_ok rs)"
proof (induction t)
  case (SREDIR t f mode fd)
  then obtain b rs where "t = redirs b rs" "compound b \<or> (\<exists>ws. b = SEXEC ws)" "print_exec t = print_exec b @ redir_toks rs"
    "size b \<le> size t" "scmd_ok t \<longrightarrow> scmd_ok b \<and> list_all redir_mode_ok rs" by blast
  then show ?case by (intro exI [of _ "rs @ [(f, mode, fd)]"] exI [of _ b]) (auto simp: redirs_def redir_toks_def redir_mode_ok_def)
qed (rule exI [of _ "[]"], simp add: redirs_def redir_toks_def)+

lemma starts_mono: "starts cs ts \<Longrightarrow> set cs \<subseteq> set ds \<Longrightarrow> starts ds ts"
  by (cases "(cs, ts)" rule: starts.cases) auto

lemma starts_disjoint: "starts cs ts \<Longrightarrow> set cs \<inter> set ds = {} \<Longrightarrow> \<not> starts ds ts"
  by (cases "(cs, ts)" rule: starts.cases) auto

lemma exec_ok_block:
  assumes "line_ok buf b" "compound b" "list_all redir_mode_ok rs" "print_exec t = print_exec b @ redir_toks rs" "t = redirs b rs"
  shows "exec_ok buf t"
  unfolding exec_ok_def
proof (intro allI impI)
  fix ps ts
  assume a: "ahead buf ps (print_exec t @ ts) \<and> ends_exec ts"
  show "parses parseexec buf ps t ts" unfolding assms(5)
  proof (rule parses_block [OF _ _ _ assms(3)])
    show "ahead buf ps (Sym 40 # (print_line b @ Sym 41 # redir_toks rs @ ts))"
      using a by (simp add: assms(4) print_compound [OF assms(2)])
    show "ends_exec ts" using a by simp
  qed (use assms(1) in \<open>auto simp: line_ok_def\<close>)
qed

lemma exec_ok_simple:
  assumes "length ws < MAXARGS" "list_all redir_mode_ok rs" "print_exec t = print_exec (SEXEC ws) @ redir_toks rs"
    "t = redirs (SEXEC ws) rs"
  shows "exec_ok buf t"
  unfolding exec_ok_def assms(3) using parses_exec [OF _ _ assms(2,1)] by (auto simp: assms(4))

lemma pipeline_ok_last:
  assumes "exec_ok buf t" "\<not> is_pipe t"
  shows "pipeline_ok buf t"
  unfolding pipeline_ok_def
proof (intro allI impI)
  fix ps ts
  assume a: "ahead buf ps (print_pipe t @ ts) \<and> (ts = [] \<or> starts [41, 38, 59] ts)"
  then have "ends_exec ts" "\<not> starts [124] ts" by (auto intro: starts_mono dest: starts_disjoint [where ds = "[124]"])
  with a assms show "parses parsepipe buf ps t ts" by (intro parses_pipe_last) (auto simp: exec_ok_def print_no_pipe)
qed

lemma pipeline_ok_cons: "exec_ok buf t \<Longrightarrow> pipeline_ok buf u \<Longrightarrow> pipeline_ok buf (SPIPE t u)"
  unfolding pipeline_ok_def exec_ok_def by (auto intro!: parses_pipe_cons)

lemma replicate_starts: "ts = [] \<or> starts [41] ts \<or> starts [59] ts \<Longrightarrow> replicate j (Sym 38) @ ts = [] \<or> starts [41, 38, 59] (replicate j (Sym 38) @ ts)"
  by (cases j) (auto intro: starts_mono)

lemma line_ok_last:
  assumes "pipeline_ok buf b" "\<not> is_back b" "t = (SBACK ^^ j) b" "\<not> is_list t"
  shows "line_ok buf t"
  unfolding line_ok_def
proof (intro allI impI)
  fix ps ts
  assume a: "ahead buf ps (print_line t @ ts) \<and> (ts = [] \<or> starts [41] ts)"
  have "print_line t = print_pipe b @ replicate j (Sym 38)"
    using assms(2,4) by (simp add: print_no_list print_backs assms(3))
  with a replicate_starts [of ts j] assms(1) have "parses parsepipe buf ps b (replicate j (Sym 38) @ ts)" by (auto simp: pipeline_ok_def)
  then show "parses parseline buf ps t ts" unfolding assms(3)
    by (rule parses_line_last) (use a in \<open>auto dest: starts_disjoint [where ds = "[38]"] starts_disjoint [where ds = "[59]"]\<close>)
qed

lemma line_ok_cons:
  assumes "pipeline_ok buf b" "\<not> is_back b" "t = (SBACK ^^ j) b" "line_ok buf u"
  shows "line_ok buf (SLIST t u)"
  unfolding line_ok_def
proof (intro allI impI)
  fix ps ts
  assume a: "ahead buf ps (print_line (SLIST t u) @ ts) \<and> (ts = [] \<or> starts [41] ts)"
  have "parses parsepipe buf ps b (replicate j (Sym 38) @ Sym 59 # print_line u @ ts)"
    using a replicate_starts [of "Sym 59 # print_line u @ ts" j] assms(1)
    by (auto simp: pipeline_ok_def assms(3) print_backs [OF assms(2)])
  then show "parses parseline buf ps (SLIST t u) ts" unfolding assms(3)
    by (rule parses_line_cons) (use a assms(4) in \<open>auto simp: line_ok_def\<close>)
qed

lemma print_ok: "scmd_ok t \<Longrightarrow> exec_ok buf t \<and> pipeline_ok buf t \<and> line_ok buf t"
proof (induction t rule: measure_induct_rule [of size])
  case (less t)
  have block: "line_ok buf t \<Longrightarrow> compound t \<Longrightarrow> exec_ok buf t"
    by (rule exec_ok_block [of buf t "[]"]) (auto simp: redir_toks_def redirs_def)
  have line: "pipeline_ok buf t \<Longrightarrow> \<not> is_back t \<Longrightarrow> \<not> is_list t \<Longrightarrow> line_ok buf t"
    by (rule line_ok_last [where j = 0]) auto
  show ?case
  proof (cases t)
    case (SEXEC ws)
    then have "exec_ok buf t" using less.prems by (intro exec_ok_simple [of ws "[]"]) (auto simp: redir_toks_def redirs_def)
    with pipeline_ok_last line SEXEC show ?thesis by simp
  next
    case (SREDIR u f mode fd)
    obtain rs b where r: "t = redirs b rs" "compound b \<or> (\<exists>ws. b = SEXEC ws)" "print_exec t = print_exec b @ redir_toks rs"
      "compound b \<longrightarrow> size b < size t" "scmd_ok b" "list_all redir_mode_ok rs"
      using redir_split [of t] less.prems SREDIR by (metis compound.simps(2))
    have "exec_ok buf t" using r less.IH [of b] by (metis exec_ok_block exec_ok_simple scmd_ok.simps(1))
    with pipeline_ok_last line SREDIR show ?thesis by simp
  next
    case (SPIPE u v)
    then have "pipeline_ok buf t" using less.IH [of u] less.IH [of v] less.prems by (simp add: pipeline_ok_cons)
    with line block SPIPE show ?thesis by simp
  next
    case (SLIST u v)
    obtain j b where b: "u = (SBACK ^^ j) b" "\<not> is_back b" "size b \<le> size u" "scmd_ok b"
      using back_split [of u] less.prems SLIST by auto
    then have "line_ok buf t" using less.IH [of b] less.IH [of v] less.prems SLIST by (auto intro: line_ok_cons)
    with block pipeline_ok_last SLIST show ?thesis by simp
  next
    case (SBACK u)
    obtain j b where b: "t = (SBACK ^^ j) b" "\<not> is_back b" "size b < size t" "scmd_ok b"
      using back_split [of t] less.prems SBACK by (metis is_back.simps(1))
    have "\<not> is_list t" by (simp add: SBACK)
    moreover have "pipeline_ok buf b" using b(3,4) less.IH [of b] by blast
    ultimately have "line_ok buf t" by (intro line_ok_last [OF _ b(2,1)])
    with block pipeline_ok_last SBACK show ?thesis by simp
  qed
qed

lemma view_cong: "(\<And>t. t \<in> toks_of c \<Longrightarrow> f t = g t) \<Longrightarrow> view f c = view g c"
  by (induction c) auto

lemma good_print: "scmd_ok t \<Longrightarrow> list_all good_tok (print_exec t) \<and> list_all good_tok (print_pipe t)
    \<and> list_all good_tok (print_back t) \<and> list_all good_tok (print_line t)"
  by (induction t) (auto simp: symbols_def redir_tok_def list_all_iff)

lemma line_no_nul: "list_all good_tok ts \<Longrightarrow> 0 \<notin> set (line ts)"
proof (induction ts)
  case (Cons t ts)
  then show ?case by (cases t) (auto simp: good_word_def symbols_def)
qed simp

lemma parsecmd_print_lemma:
  assumes "scmd_ok t"
  shows "\<exists>c buf'. parsecmd (4 * length (line (print_line t)) + 4) (line (print_line t)) = Some (Inr (c, buf'))
     \<and> view (\<lambda>(q, eq). cstr_at buf' q) c = t"
proof -
  let ?b = "line (print_line t)"
  have g: "list_all good_tok (print_line t)" using good_print [OF assms] by simp
  then have "ahead ?b 0 (print_line t @ [])" by (simp add: ahead_def)
  then have "parses parseline ?b 0 t []" using print_ok [OF assms, of ?b] unfolding line_ok_def by blast
  then obtain n c ps where p: "\<And>k. parseline (n + k) ?b 0 = Some (Inr (c, ps))" "ahead ?b ps []" "view (span_at ?b) c = t"
    by (rule parsesE) (rule that)
  have "ps = length ?b" using p(2) by (simp add: ahead_def)
  then have r: "parsecmd (n + k) ?b = Some (Inr (c, nulterminate c ?b))" for k
    using p(1) ahead_stay [OF p(2)] by (simp add: parsecmd_def peek_def)
  let ?m = "4 * length ?b + 4"
  have "parsecmd ?m ?b \<noteq> None" using parsecmd_runs [of ?b 0] by (cases "parsecmd ?m ?b") simp_all
  then have m: "parsecmd ?m ?b = Some (Inr (c, nulterminate c ?b))"
    using parsecmd_more [of ?m ?b n] r [of ?m] by (simp add: ac_simps)
  have "view (\<lambda>(q, eq). cstr_at (nulterminate c ?b) q) c = view (span_at ?b) c"
    using parsecmd_strings_lemma [OF m line_no_nul [OF g]] by (intro view_cong) (auto simp: span_at_def)
  with m p(3) show ?thesis by auto
qed

text \<open>
  C33. Printing a command and parsing the line gives the command back: every tree of the grammar whose strings are
  words, with at most nine arguments and the three kinds of redirection, is what the parser makes of its printed
  form, read through the buffer in which the parser terminated the strings.
\<close>

theorem parsecmd_print:
  assumes "scmd_ok t"
  shows "\<exists>c buf'. parsecmd (4 * length (line (print_line t)) + 4) (line (print_line t)) = Some (Inr (c, buf'))
     \<and> view (\<lambda>(q, eq). cstr_at buf' q) c = t"
  using parsecmd_print_lemma [OF assms] .

text \<open>\<^verbatim>\<open>( a < f | b & ) ; c x\<close>\<close>

theorem parsecmd_print_witness:
  "scmd_ok (SLIST (SBACK (SPIPE (SREDIR (SEXEC [[97]]) [102] 0 0) (SBACK (SEXEC [[98]])))) (SEXEC [[99], [120]]))
   \<and> (\<exists>c buf' n. parsecmd n (line (print_line (SLIST (SBACK (SPIPE (SREDIR (SEXEC [[97]]) [102] 0 0) (SBACK (SEXEC [[98]]))))
         (SEXEC [[99], [120]])))) = Some (Inr (c, buf'))
       \<and> view (\<lambda>(q, eq). cstr_at buf' q) c =
           SLIST (SBACK (SPIPE (SREDIR (SEXEC [[97]]) [102] 0 0) (SBACK (SEXEC [[98]])))) (SEXEC [[99], [120]]))"
proof -
  have "scmd_ok (SLIST (SBACK (SPIPE (SREDIR (SEXEC [[97]]) [102] 0 0) (SBACK (SEXEC [[98]])))) (SEXEC [[99], [120]]))"
    by (simp add: MAXARGS_def good_word_def plain_def whitespace_def symbols_def)
  with parsecmd_print [OF this] show ?thesis by blast
qed

end
