(* ===== verification/Uprintf.thy ===== *)
theory Uprintf
  imports Ulib
begin

text \<open>
  \<^verbatim>\<open>user/printf.c\<close>. The functions yield the characters that they write to the file descriptor, in order; every
  character is one \<^verbatim>\<open>write\<close>. The variable arguments are a list of words and strings (a string may be the null
  pointer); an argument of the wrong kind, undefined in C, is read as zero.
\<close>

section \<open>Definitions\<close>

text \<open>\<^verbatim>\<open>digits[k]\<close> of \<^verbatim>\<open>"0123456789ABCDEF"\<close>.\<close>

definition u_digit :: "nat \<Rightarrow> uchar" where
  "u_digit k = (if k < 10 then 48 + of_nat k else 65 + of_nat (k - 10))"

text \<open>The \<^verbatim>\<open>do ... while\<close> loop of \<^verbatim>\<open>printint\<close>: the digits, lowest first. The callers' bases are 10 and 16.\<close>

function u_print_digits :: "nat \<Rightarrow> nat \<Rightarrow> uchar list" where
  "u_print_digits base x =
     u_digit (x mod base) # (if x div base \<noteq> 0 \<and> 2 \<le> base then u_print_digits base (x div base) else [])"
  by pat_completeness auto

termination
  by (relation "measure snd") (auto simp: div_greater_zero_iff intro!: div_less_dividend)

declare u_print_digits.simps [simp del]

definition u_printint :: "int \<Rightarrow> nat \<Rightarrow> bool \<Rightarrow> uchar list" where
  "u_printint xx base sg =
     (let neg = (sg \<and> xx < 0);
          x = (if neg then of_int (- xx) else of_int xx) :: uint
      in rev (u_print_digits base (unat x) @ (if neg then [45] else [])))"

definition u_printptr :: "uint64 \<Rightarrow> uchar list" where
  "u_printptr x = [48, 120] @ map (\<lambda>i. u_digit (unat (drop_bit 60 (push_bit (4 * i) x)))) [0..<16]"

datatype uarg = U_word uint64 | U_str "ustr option"

definition va_word :: "uarg list \<Rightarrow> uint64" where
  "va_word ap = (case ap of U_word x # _ \<Rightarrow> x | _ \<Rightarrow> 0)"

definition va_str :: "uarg list \<Rightarrow> ustr option" where
  "va_str ap = (case ap of U_str x # _ \<Rightarrow> x | _ \<Rightarrow> None)"

text \<open>\<open>pct\<close> is \<^verbatim>\<open>state == '%'\<close>.\<close>

fun vprintf :: "bool \<Rightarrow> ustr \<Rightarrow> uarg list \<Rightarrow> uchar list" where
  "vprintf pct [] ap = []"
| "vprintf pct (c # fmt) ap =
     (if \<not> pct then (if c = 37 then vprintf True fmt ap else c # vprintf False fmt ap)
      else if c = 100 then u_printint (sint (ucast (va_word ap) :: uint)) 10 True @ vprintf False fmt (tl ap)
      else if c = 108 then u_printint (sint (ucast (va_word ap) :: uint)) 10 False @ vprintf False fmt (tl ap)
      else if c = 120 then u_printint (sint (ucast (va_word ap) :: uint)) 16 False @ vprintf False fmt (tl ap)
      else if c = 112 then u_printptr (va_word ap) @ vprintf False fmt (tl ap)
      else if c = 115
      then (case va_str ap of None \<Rightarrow> [40, 110, 117, 108, 108, 41] | Some s \<Rightarrow> s) @ vprintf False fmt (tl ap)
      else if c = 99 then ucast (va_word ap) # vprintf False fmt (tl ap)
      else if c = 37 then c # vprintf False fmt ap
      else 37 # c # vprintf False fmt ap)"

text \<open>The writes, one character each, with the file descriptor they go to.\<close>

definition u_fprintf :: "int \<Rightarrow> ustr \<Rightarrow> uarg list \<Rightarrow> (int \<times> uchar) list" where
  "u_fprintf fd fmt ap = map (Pair fd) (vprintf False fmt ap)"

definition u_printf :: "ustr \<Rightarrow> uarg list \<Rightarrow> (int \<times> uchar) list" where
  "u_printf fmt ap = map (Pair 1) (vprintf False fmt ap)"

section \<open>Properties\<close>

lemma u_digit_range: "k < 10 \<Longrightarrow> 48 \<le> u_digit k \<and> u_digit k \<le> 57 \<and> (ucast (u_digit k) :: uint) = 48 + of_nat k"
proof -
  assume "k < 10"
  then have "k \<in> {0, 1, 2, 3, 4, 5, 6, 7, 8, 9}" by auto
  then show ?thesis by (auto simp: u_digit_def)
qed

definition decimal :: "ustr \<Rightarrow> bool" where
  "decimal s \<longleftrightarrow> (\<forall>c \<in> set s. 48 \<le> c \<and> c \<le> 57)"

lemma atoi_loop_append: "decimal s \<Longrightarrow> atoi_loop n (s @ t) = atoi_loop (atoi_loop n s) t"
  by (induction n s rule: atoi_loop.induct) (auto simp: decimal_def)

lemma u_print_digits_10: "decimal (rev (u_print_digits 10 x)) \<and> atoi_loop 0 (rev (u_print_digits 10 x)) = of_nat x"
proof (induction x rule: less_induct)
  case (less x)
  note d = u_digit_range [of "x mod 10"]
  show ?case
  proof (cases "x div 10 = 0")
    case True
    then have "x mod 10 = x" by simp
    with d True show ?thesis by (subst (1 2) u_print_digits.simps) (auto simp: decimal_def)
  next
    case False
    then have e: "u_print_digits 10 x = u_digit (x mod 10) # u_print_digits 10 (x div 10)"
      by (subst u_print_digits.simps) simp
    have ih: "decimal (rev (u_print_digits 10 (x div 10)))" "atoi_loop 0 (rev (u_print_digits 10 (x div 10))) = of_nat (x div 10)"
      using less [of "x div 10"] False by auto
    have "(of_nat (x div 10) * 10 + of_nat (x mod 10) :: uint) = of_nat (x div 10 * 10 + x mod 10)" by (simp only: of_nat_add of_nat_mult of_nat_numeral)
    then have "(of_nat (x div 10) * 10 + of_nat (x mod 10) :: uint) = of_nat x" by simp
    with d ih show ?thesis unfolding e by (auto simp: atoi_loop_append decimal_def)
  qed
qed

lemma unat_lt: "unat (w :: uint) < 2 ^ 32"
  using unsigned_less [of w] by simp

lemma u_print_digits_length: "2 \<le> base \<Longrightarrow> x < base ^ Suc k \<Longrightarrow> length (u_print_digits base x) \<le> Suc k"
proof (induction k arbitrary: x)
  case 0
  then show ?case by (subst u_print_digits.simps) simp
next
  case (Suc k)
  then have "x div base < base ^ Suc k" by (simp add: div_less_iff_less_mult mult.commute)
  with Suc.IH [OF Suc.prems(1) this] show ?case by (subst u_print_digits.simps) simp
qed



text \<open>
  \<^verbatim>\<open>printint\<close> never writes past its 16-byte buffer, whatever the number, in the two bases that \<^verbatim>\<open>vprintf\<close> uses.
\<close>

lemma printint_fits_buf: "length (u_printint x 10 sg) \<le> 11 \<and> length (u_printint x 16 False) \<le> 8"
proof -
  have a: "unat w < 10 ^ Suc 9" "unat w < 16 ^ Suc 7" for w :: uint
    using unat_lt [of w] by simp_all
  have "length (u_print_digits 10 (unat w)) \<le> 10" "length (u_print_digits 16 (unat w)) \<le> 8" for w :: uint
    using u_print_digits_length [of 10 "unat w" 9, OF _ a(1)] u_print_digits_length [of 16 "unat w" 7, OF _ a(2)]
    by simp_all
  moreover from this(1) have "length (u_print_digits 10 (unat w)) \<le> 11" for w :: uint
    by (rule order_trans) simp
  ultimately show ?thesis by (simp add: u_printint_def Let_def)
qed

end
