(* ===== verification/ShRun.thy ===== *)
theory ShRun
  imports ShPrint Uprintf
begin

text \<open>
  Running commands: \<^verbatim>\<open>runcmd\<close>, \<^verbatim>\<open>fork1\<close>, \<^verbatim>\<open>panic\<close>, \<^verbatim>\<open>getcmd\<close> and the command loop of \<^verbatim>\<open>main\<close> in \<^verbatim>\<open>user/sh.c\<close>. A process
  is the tree of the system calls that it makes; what follows a call depends on the value it returns.
  \<^verbatim>\<open>fork\<close> returns twice, \<^verbatim>\<open>exec\<close> only when it fails.

  The theories about the shell end here: the programs that a line starts, and the files that they have open,
  are those of the command that the line denotes.
\<close>

section \<open>Definitions\<close>

datatype proc =
    Exit int
  | Write int ustr proc
  | Close int proc
  | Open ustr uint "int \<Rightarrow> proc"
  | Dup int proc
  | MkPipe "int \<Rightarrow> int \<Rightarrow> int \<Rightarrow> proc"
  | Exec ustr "ustr list" proc
  | Fork "int \<Rightarrow> proc"
  | Wait proc
  | Chdir ustr "int \<Rightarrow> proc"

text \<open>\<^verbatim>\<open>fprintf(2, ...)\<close> with one string to insert.\<close>

definition err :: "string \<Rightarrow> ustr \<Rightarrow> proc \<Rightarrow> proc" where
  "err fmt s k = Write 2 (vprintf False (map of_char fmt) [U_str (Some s)]) k"

definition sh_panic :: "string \<Rightarrow> proc" where
  "sh_panic s = err (''%s'' @ [CHR 0x0A]) (map of_char s) (Exit 1)"

definition fork1 :: "(int \<Rightarrow> proc) \<Rightarrow> proc" where
  "fork1 k = Fork (\<lambda>pid. if pid = - 1 then sh_panic ''fork'' else k pid)"

text \<open>The strings are read from the buffer \<open>b\<close>. \<^verbatim>\<open>runcmd\<close> never returns, so nothing follows a call of it.\<close>

fun runcmd :: "ustr \<Rightarrow> cmd \<Rightarrow> proc" where
  "runcmd b (EXEC []) = Exit 1"
| "runcmd b (EXEC (a # av)) =
     Exec (cstr_at b (fst a)) (map (\<lambda>a. cstr_at b (fst a)) (a # av))
       (err (''exec %s failed'' @ [CHR 0x0A]) (cstr_at b (fst a)) (Exit 0))"
| "runcmd b (REDIR c f ef mode fd) =
     Close fd (Open (cstr_at b f) mode (\<lambda>r.
       if r < 0 then err (''open %s failed'' @ [CHR 0x0A]) (cstr_at b f) (Exit 1) else runcmd b c))"
| "runcmd b (LIST c d) = fork1 (\<lambda>pid. if pid = 0 then runcmd b c else Wait (runcmd b d))"
| "runcmd b (PIPE c d) =
     MkPipe (\<lambda>r p0 p1.
       if r < 0 then sh_panic ''pipe''
       else fork1 (\<lambda>pid.
         if pid = 0 then Close 1 (Dup p1 (Close p0 (Close p1 (runcmd b c))))
         else fork1 (\<lambda>pid.
           if pid = 0 then Close 0 (Dup p0 (Close p0 (Close p1 (runcmd b d))))
           else Close p0 (Close p1 (Wait (Wait (Exit 0)))))))"
| "runcmd b (BACK c) = fork1 (\<lambda>pid. if pid = 0 then runcmd b c else Exit 0)"

text \<open>\<^verbatim>\<open>runcmd(parsecmd(buf))\<close>, with fuel that is enough for every line.\<close>

definition run_line :: "ustr \<Rightarrow> proc" where
  "run_line buf =
     (case parsecmd (4 * length buf + 4) buf of
        Some (Inr (c, b)) \<Rightarrow> runcmd b c
      | Some (Inl e) \<Rightarrow> sh_panic e
      | None \<Rightarrow> Exit 1)"

text \<open>\<^verbatim>\<open>read(0, &c, 1)\<close> on the characters that are left of the input.\<close>

fun read1 :: "ustr \<Rightarrow> uchar option \<times> ustr" where
  "read1 [] = (None, [])"
| "read1 (c # u) = (Some c, u)"

text \<open>The line that \<^verbatim>\<open>getcmd\<close> leaves in the buffer of 100 characters, and the rest of the input; no line at the end.\<close>

definition getcmd :: "ustr \<Rightarrow> ustr option \<times> ustr" where
  "getcmd inp =
     (let (bs, inp) = gets read1 100 inp; buf = takeWhile (\<lambda>c. c \<noteq> 0) bs
      in (if buf = [] then None else Some buf, inp))"

lemma gets_loop_length: "gets_loop read1 k bs inp = (bs', inp') \<Longrightarrow> length bs + length inp = length bs' + length inp'"
proof (induction k arbitrary: bs inp)
  case (Suc k)
  then show ?case by (cases inp) (auto split: if_splits dest!: Suc.IH)
qed simp

lemma getcmd_less: "getcmd inp = (Some buf, inp') \<Longrightarrow> length inp' < length inp"
  using gets_loop_length [of 99 "[]" inp]
  by (auto simp: getcmd_def gets_def Let_def split: prod.splits if_splits)

function sh_main :: "ustr \<Rightarrow> proc" where
  "sh_main inp =
     Write 2 [36, 32]
       (case getcmd inp of
          (None, inp) \<Rightarrow> Exit 0
        | (Some buf, inp) \<Rightarrow>
            if take 3 buf = [99, 100, 32]
            then Chdir (drop 3 (butlast buf)) (\<lambda>r.
              if r < 0 then err (''cannot cd %s'' @ [CHR 0x0A]) (drop 3 (butlast buf)) (sh_main inp) else sh_main inp)
            else fork1 (\<lambda>pid. if pid = 0 then run_line buf else Wait (sh_main inp)))"
  by pat_completeness auto

termination
  by (relation "measure length") (auto dest!: getcmd_less [OF sym])

section \<open>What a command line starts\<close>

text \<open>
  The documented behaviour of the system calls when they succeed. A process has a table of open files; \<^verbatim>\<open>open\<close>,
  \<^verbatim>\<open>dup\<close> and \<^verbatim>\<open>pipe\<close> take the lowest free descriptors, \<^verbatim>\<open>fork\<close> copies the table. Processes are named by their
  place among the forks, and a pipe by the process that makes it. The outcome of a process tree is the list of
  the programs that it executes, each with its arguments and open files.
\<close>

datatype obj = Shell nat | Opened ustr uint | PipeR "nat list" | PipeW "nat list"

type_synonym table = "obj option list"

fun lowest :: "table \<Rightarrow> nat" where
  "lowest [] = 0"
| "lowest (x # xs) = (if x = None then 0 else Suc (lowest xs))"

definition put :: "obj option \<Rightarrow> table \<Rightarrow> table" where
  "put x tb = tb[lowest tb := x]"

primrec programs :: "(nat list \<Rightarrow> int) \<Rightarrow> proc \<Rightarrow> nat list \<Rightarrow> table \<Rightarrow> (ustr list \<times> table) list" where
  "programs pid (Exit n) path tb = []"
| "programs pid (Write fd s k) path tb = programs pid k path tb"
| "programs pid (Close fd k) path tb = programs pid k path (tb[nat fd := None])"
| "programs pid (Open f mode k) path tb = programs pid (k (int (lowest tb))) path (put (Some (Opened f mode)) tb)"
| "programs pid (Dup fd k) path tb = programs pid k path (put (tb ! nat fd) tb)"
| "programs pid (MkPipe k) path tb =
     (let tb1 = put (Some (PipeR path)) tb; tb2 = put (Some (PipeW path)) tb1
      in programs pid (k 0 (int (lowest tb)) (int (lowest tb1))) path tb2)"
| "programs pid (Exec f av k) path tb = [(av, tb)]"
| "programs pid (Fork k) path tb = programs pid (k 0) (0 # path) tb @ programs pid (k (pid path)) (1 # path) tb"
| "programs pid (Wait k) path tb = programs pid k path tb"
| "programs pid (Chdir f k) path tb = programs pid (k 0) path tb"

text \<open>The meaning of a command: its programs, with redirections and pipes in place.\<close>

fun launched :: "scmd \<Rightarrow> nat list \<Rightarrow> table \<Rightarrow> (ustr list \<times> table) list" where
  "launched (SEXEC ws) path tb = (if ws = [] then [] else [(ws, tb)])"
| "launched (SREDIR t f mode fd) path tb = launched t path (tb[nat fd := Some (Opened f mode)])"
| "launched (SPIPE t u) path tb =
     launched t (0 # path) (tb[1 := Some (PipeW path)]) @ launched u (0 # 1 # path) (tb[0 := Some (PipeR path)])"
| "launched (SLIST t u) path tb = launched t (0 # path) tb @ launched u (1 # path) tb"
| "launched (SBACK t) path tb = launched t (0 # path) tb"

text \<open>Exactly the three standard files are open.\<close>

definition std :: "table \<Rightarrow> bool" where
  "std tb \<longleftrightarrow> (\<exists>a b c n. tb = Some a # Some b # Some c # None # None # replicate n None)"

lemma std_update: "std tb \<Longrightarrow> fd < 3 \<Longrightarrow> std (tb[fd := Some x])"
  by (auto simp: std_def numeral_3_eq_3 less_Suc_eq)

lemma runcmd_launched:
  assumes "\<And>p. 0 < pid p"
  shows "scmd_ok (view (\<lambda>(q, eq). cstr_at b q) c) \<Longrightarrow> std tb \<Longrightarrow>
    programs pid (runcmd b c) path tb = launched (view (\<lambda>(q, eq). cstr_at b q) c) path tb"
proof (induction c arbitrary: path tb)
  case (EXEC av)
  then show ?case by (cases av) (auto simp: split_beta)
next
  case (REDIR c f ef mode fd)
  then obtain x y z n where tb: "tb = Some x # Some y # Some z # None # None # replicate n None" by (auto simp: std_def)
  have fd: "fd = 0 \<or> fd = 1" using REDIR.prems(1) by auto
  then have "put (Some (Opened (cstr_at b f) mode)) (tb[nat fd := None]) = tb[nat fd := Some (Opened (cstr_at b f) mode)]"
    by (auto simp: tb put_def)
  with REDIR fd std_update [OF REDIR.prems(2), of "nat fd"] show ?case by auto
next
  case (PIPE c d)
  then obtain x y z n where tb: "tb = Some x # Some y # Some z # None # None # replicate n None" by (auto simp: std_def)
  have "pid p \<noteq> 0" "pid p \<noteq> - 1" for p using assms [of p] by auto
  then show ?case using PIPE std_update [OF PIPE.prems(2), of 1] std_update [OF PIPE.prems(2), of 0]
    by (simp add: fork1_def put_def tb Let_def)
next
  case (LIST c d)
  then show ?case using assms [of path] by (auto simp: fork1_def)
next
  case (BACK c)
  then show ?case using assms [of path] by (auto simp: fork1_def)
qed



end
