(* ===== verification/Grep.thy ===== *)
theory Grep
  imports Ulib
begin

text \<open>
  \<^verbatim>\<open>user/grep.c\<close>. Pattern and text are the lists of their characters before the terminator, so \<open>[]\<close> is a pointer
  to \<^verbatim>\<open>'\0'\<close> and the tail is the pointer advanced by one. \<^verbatim>\<open>read\<close> is a parameter; \<^verbatim>\<open>write(1, ...)\<close> appends to the
  output.
\<close>

section \<open>The matcher\<close>

abbreviation "ch_star \<equiv> (42 :: uchar)"
abbreviation "ch_dot \<equiv> (46 :: uchar)"
abbreviation "ch_dollar \<equiv> (36 :: uchar)"
abbreviation "ch_caret \<equiv> (94 :: uchar)"
abbreviation "ch_nl \<equiv> (10 :: uchar)"

function matchhere :: "ustr \<Rightarrow> ustr \<Rightarrow> bool" and matchstar :: "uchar \<Rightarrow> ustr \<Rightarrow> ustr \<Rightarrow> bool" where
  "matchhere re text0 =
     (case re of
        [] \<Rightarrow> True
      | c # r \<Rightarrow>
          if r \<noteq> [] \<and> hd r = ch_star then matchstar c (tl r) text0
          else if c = ch_dollar \<and> r = [] then text0 = []
          else case text0 of [] \<Rightarrow> False | t # ts \<Rightarrow> if c = ch_dot \<or> c = t then matchhere r ts else False)"
| "matchstar c re text0 =
     (if matchhere re text0 then True
      else case text0 of [] \<Rightarrow> False | t # ts \<Rightarrow> if t = c \<or> c = ch_dot then matchstar c re ts else False)"
  by pat_completeness auto

termination
proof (relation "measures [\<lambda>x. case x of Inl (re, text0) \<Rightarrow> length re | Inr (c, re, text0) \<Rightarrow> Suc (length re),
    \<lambda>x. case x of Inl (re, text0) \<Rightarrow> length text0 | Inr (c, re, text0) \<Rightarrow> length text0]")
qed (auto simp: length_tl)

declare matchhere.simps [simp del] matchstar.simps [simp del]

fun match_loop :: "ustr \<Rightarrow> ustr \<Rightarrow> bool" where
  "match_loop re [] = matchhere re []"
| "match_loop re (t # ts) = (if matchhere re (t # ts) then True else match_loop re ts)"

definition match :: "ustr \<Rightarrow> ustr \<Rightarrow> bool" where
  "match re text0 = (if re \<noteq> [] \<and> hd re = ch_caret then matchhere (tl re) text0 else match_loop re text0)"

section \<open>The line loop\<close>

text \<open>
  The inner loop of \<^verbatim>\<open>grep\<close> on the text \<open>p\<close> read so far, which \<^verbatim>\<open>strchr\<close> searches up to the first \<^verbatim>\<open>'\0'\<close>.
  Result: the unfinished rest of the buffer and the output.
\<close>

function grep_lines :: "ustr \<Rightarrow> uchar list \<Rightarrow> uchar list \<Rightarrow> uchar list \<times> uchar list" where
  "grep_lines pattern p out =
     (case strchr (takeWhile (\<lambda>c. c \<noteq> 0) p) ch_nl of
        None \<Rightarrow> (p, out)
      | Some q \<Rightarrow>
          grep_lines pattern (drop (q + 1) p)
            (if match pattern (take q p) then out @ take (q + 1) p else out))"
  by pat_completeness auto

termination
  by (relation "measure (\<lambda>(_, p, _). length p)")
    (auto simp: strchr_Some dest: order_less_le_trans [OF _ length_takeWhile_le])

declare grep_lines.simps [simp del]

text \<open>
  The outer loop: \<open>rd n w\<close> is \<^verbatim>\<open>read\<close> of at most \<open>n\<close> bytes, with an empty result at the end of the file and on an
  error; \<open>b\<close> is the contents of the buffer.
\<close>

partial_function (option) grep_loop ::
  "(nat \<Rightarrow> 'w \<Rightarrow> uchar list \<times> 'w) \<Rightarrow> ustr \<Rightarrow> uchar list \<Rightarrow> uchar list \<Rightarrow> 'w \<Rightarrow> (uchar list \<times> 'w) option" where
  "grep_loop rd pattern b out w =
     (let r = rd (1024 - length b - 1) w
      in if fst r = [] then Some (out, snd r)
         else let g = grep_lines pattern (b @ fst r) out
              in grep_loop rd pattern (fst g) (snd g) (snd r))"

definition grep :: "(nat \<Rightarrow> 'w \<Rightarrow> uchar list \<times> 'w) \<Rightarrow> ustr \<Rightarrow> 'w \<Rightarrow> (uchar list \<times> 'w) option" where
  "grep rd pattern w = grep_loop rd pattern [] [] w"

section \<open>What a pattern means\<close>

datatype tok = Star uchar | One uchar | End

fun toks :: "ustr \<Rightarrow> tok list" where
  "toks [] = []"
| "toks [c] = (if c = ch_dollar then [End] else [One c])"
| "toks (c # c' # re) = (if c' = ch_star then Star c # toks re else One c # toks (c' # re))"

definition fits :: "uchar \<Rightarrow> uchar \<Rightarrow> bool" where
  "fits c x \<longleftrightarrow> c = ch_dot \<or> c = x"

text \<open>The words that a pattern describes.\<close>

fun words :: "tok list \<Rightarrow> uchar list set" where
  "words [] = {[]}"
| "words (Star c # ts) = {u @ v | u v. (\<forall>x \<in> set u. fits c x) \<and> v \<in> words ts}"
| "words (One c # ts) = {x # v | x v. fits c x \<and> v \<in> words ts}"
| "words (End # ts) = {[]}"

definition matches :: "tok list \<Rightarrow> uchar list \<Rightarrow> bool" where
  "matches ts text0 \<longleftrightarrow> (\<exists>u v. text0 = u @ v \<and> u \<in> words ts \<and> (End \<in> set ts \<longrightarrow> v = []))"

lemma words_StarI: "\<forall>x \<in> set u. fits c x \<Longrightarrow> v \<in> words ts \<Longrightarrow> u @ v \<in> words (Star c # ts)"
  by auto

lemma matches_Nil [simp]: "matches [] text0"
  by (auto simp: matches_def)

lemma matches_End [simp]: "matches [End] text0 \<longleftrightarrow> text0 = []"
  by (auto simp: matches_def)

lemma matches_One: "matches (One c # ts) text0 \<longleftrightarrow> (\<exists>x v. text0 = x # v \<and> fits c x \<and> matches ts v)"
  unfolding matches_def by (auto simp: append_eq_Cons_conv Cons_eq_append_conv) blast+

lemma matches_Star:
  "matches (Star c # ts) text0 \<longleftrightarrow> matches ts text0 \<or> (\<exists>x v. text0 = x # v \<and> fits c x \<and> matches (Star c # ts) v)"
proof
  assume "matches (Star c # ts) text0"
  then obtain z v where z: "text0 = z @ v" "z \<in> words (Star c # ts)" "End \<in> set ts \<longrightarrow> v = []"
    by (auto simp: matches_def simp del: words.simps)
  then obtain u w where t: "z = u @ w" "\<forall>x \<in> set u. fits c x" "w \<in> words ts" by auto
  show "matches ts text0 \<or> (\<exists>x v. text0 = x # v \<and> fits c x \<and> matches (Star c # ts) v)"
  proof (cases u)
    case Nil
    with z t have "matches ts text0" unfolding matches_def by (intro exI [of _ w] exI [of _ v]) simp
    then show ?thesis ..
  next
    case (Cons x u')
    have "u' @ w \<in> words (Star c # ts)" by (rule words_StarI) (use t Cons in simp_all)
    then have "matches (Star c # ts) ((u' @ w) @ v)" unfolding matches_def
      by (intro exI [of _ "u' @ w"] exI [of _ v]) (use z(3) in simp)
    with z t Cons show ?thesis by (intro disjI2 exI [of _ x] exI [of _ "(u' @ w) @ v"]) simp
  qed
next
  assume "matches ts text0 \<or> (\<exists>x v. text0 = x # v \<and> fits c x \<and> matches (Star c # ts) v)"
  then show "matches (Star c # ts) text0"
  proof
    assume "matches ts text0"
    then obtain u v where "text0 = u @ v" "u \<in> words ts" "End \<in> set ts \<longrightarrow> v = []" by (auto simp: matches_def)
    then show ?thesis unfolding matches_def 
      by (intro exI [of _ u] exI [of _ v]) (use words_StarI [of "[]" c u ts] in simp)
  next
    assume "\<exists>x v. text0 = x # v \<and> fits c x \<and> matches (Star c # ts) v"
    then obtain x z v where z: "text0 = x # z @ v" "fits c x" "z \<in> words (Star c # ts)" "End \<in> set ts \<longrightarrow> v = []"
      by (auto simp: matches_def simp del: words.simps)
    then obtain u w where t: "z = u @ w" "\<forall>x \<in> set u. fits c x" "w \<in> words ts" by auto
    have "(x # u) @ w \<in> words (Star c # ts)" by (rule words_StarI) (use z t in simp_all)
    moreover have "text0 = ((x # u) @ w) @ v" using z t by simp
    ultimately show ?thesis using z(4) unfolding matches_def by (intro exI [of _ "(x # u) @ w"] exI [of _ v]) simp
  qed
qed

lemma match_spec:
  "matchhere re text0 = matches (toks re) text0"
  "matchstar c re text0 = matches (Star c # toks re) text0"
proof (induction re text0 and c re text0 rule: matchhere_matchstar.induct)
  case (1 re text0)
  show ?case
  proof (cases re rule: toks.cases)
    case 1
    then show ?thesis by (simp add: matchhere.simps)
  next
    case (2 c)
    with "1.IH" show ?thesis by (subst matchhere.simps) (auto simp: matches_One fits_def split: list.splits)
  next
    case (3 c c' r)
    with "1.IH" show ?thesis by (subst matchhere.simps) (auto simp: matches_One fits_def split: list.splits)
  qed
next
  case (2 c re text0)
  then show ?case by (subst matchstar.simps, subst matches_Star) (auto simp: fits_def split: list.splits)
qed

text \<open>
  C36. The matcher of \<^verbatim>\<open>grep\<close> decides the language that the pattern describes: a leading \<^verbatim>\<open>^\<close> ties the match to the start
  of the line, otherwise it may start anywhere; \<^verbatim>\<open>.\<close> is any character, \<^verbatim>\<open>c*\<close> any number of \<^verbatim>\<open>c\<close>, and a trailing \<^verbatim>\<open>$\<close> ties
  the match to the end of the line. In particular the backtracking search ends on every input.
\<close>

theorem match_correct:
  "match re text0 \<longleftrightarrow>
     (if re \<noteq> [] \<and> hd re = ch_caret then matches (toks (tl re)) text0
      else \<exists>pre post. text0 = pre @ post \<and> matches (toks re) post)"
proof -
  have "match_loop re w \<longleftrightarrow> (\<exists>pre post. w = pre @ post \<and> matches (toks re) post)" for w
  proof (induction w)
    case Nil
    show ?case by (simp add: match_spec)
  next
    case (Cons a w)
    then show ?case by (auto simp: match_spec Cons_eq_append_conv)
  qed
  note e = this
  show ?thesis unfolding match_def match_spec e by (rule refl)
qed

section \<open>The lines printed\<close>

text \<open>The finished lines of a text that continues the line \<open>cur\<close>, and the unfinished last one.\<close>

fun split_lines :: "uchar list \<Rightarrow> uchar list \<Rightarrow> uchar list list \<times> uchar list" where
  "split_lines cur [] = ([], cur)"
| "split_lines cur (c # s) =
     (if c = ch_nl then (cur # fst (split_lines [] s), snd (split_lines [] s)) else split_lines (cur @ [c]) s)"

definition printed :: "ustr \<Rightarrow> uchar list list \<Rightarrow> uchar list" where
  "printed pattern ls = concat (map (\<lambda>l. l @ [ch_nl]) (filter (match pattern) ls))"

lemma printed_simps [simp]:
  "printed p [] = []" "printed p (l # ls) = (if match p l then l @ [ch_nl] else []) @ printed p ls"
  "printed p (ls @ ls') = printed p ls @ printed p ls'"
  by (simp_all add: printed_def)

lemma split_lines_append:
  "split_lines b (r @ s) =
     (fst (split_lines b r) @ fst (split_lines (snd (split_lines b r)) s), snd (split_lines (snd (split_lines b r)) s))"
  by (induction b r rule: split_lines.induct) auto

lemma split_lines_cur:
  "length b \<le> length (snd (split_lines b s)) \<or> (\<exists>l \<in> set (fst (split_lines b s)). length b \<le> length l)"
proof (induction b s rule: split_lines.induct)
  case (2 cur c s)
  then show ?case by (auto simp: Suc_le_eq intro: less_imp_le) 
qed simp

lemma split_lines_snd: "ch_nl \<notin> set b \<Longrightarrow> ch_nl \<notin> set (snd (split_lines b r))"
  by (induction b r rule: split_lines.induct) auto

lemma split_lines_nonzero: "0 \<notin> set b \<Longrightarrow> 0 \<notin> set r \<Longrightarrow> 0 \<notin> set (snd (split_lines b r))"
  by (induction b r rule: split_lines.induct) auto

lemma grep_lines_eq:
  "ch_nl \<notin> set b \<Longrightarrow> 0 \<notin> set b \<Longrightarrow> 0 \<notin> set r \<Longrightarrow>
   grep_lines pattern (b @ r) out = (snd (split_lines b r), out @ printed pattern (fst (split_lines b r)))"
proof (induction b r arbitrary: out rule: split_lines.induct)
  case (1 cur)
  have e: "takeWhile (\<lambda>c. c \<noteq> 0) cur = cur" using 1 by (auto simp: takeWhile_eq_all_conv)
  have "strchr cur ch_nl = None" using 1 by (simp add: strchr_None)
  then show ?case by (subst grep_lines.simps) (simp add: e del: takeWhile_eq_all_conv)
next
  case (2 cur c s)
  show ?case
  proof (cases "c = ch_nl")
    case False
    with 2 show ?thesis by simp
  next
    case True
    have e: "takeWhile (\<lambda>c. c \<noteq> 0) (cur @ c # s) = cur @ c # s"
      using 2 by (auto simp: takeWhile_eq_all_conv)
    have f: "strchr (cur @ c # s) ch_nl = Some (length cur)" using 2 True by (simp add: strchr_split)
    have "grep_lines pattern (cur @ c # s) out =
        grep_lines pattern s (if match pattern cur then out @ cur @ [c] else out)"
      by (subst grep_lines.simps, unfold e f) simp
    with 2 True show ?thesis by simp
  qed
qed

definition reads :: "(nat \<Rightarrow> uchar list \<Rightarrow> uchar list \<times> uchar list) \<Rightarrow> bool" where
  "reads rd \<longleftrightarrow> (\<forall>n s. \<exists>k \<le> n. rd n s = (take k s, drop k s) \<and> (0 < n \<longrightarrow> s \<noteq> [] \<longrightarrow> 0 < k))"

lemma grep_loop_eq:
  assumes "reads rd"
  shows "ch_nl \<notin> set b \<Longrightarrow> 0 \<notin> set (b @ s) \<Longrightarrow> \<forall>l \<in> insert (snd (split_lines b s)) (set (fst (split_lines b s))). length l < 1023 \<Longrightarrow>
    grep_loop rd pattern b out s = Some (out @ printed pattern (fst (split_lines b s)), [])"
proof (induction "length s" arbitrary: b out s rule: less_induct)
  case less
  let ?n = "1024 - length b - 1"
  obtain k where k: "k \<le> ?n" "rd ?n s = (take k s, drop k s)" "0 < ?n \<longrightarrow> s \<noteq> [] \<longrightarrow> 0 < k"
    using assms unfolding reads_def by blast
  have "length b < 1023" using split_lines_cur [of b s] less.prems(3) by auto
  then have n: "0 < ?n" by simp
  show ?case
  proof (cases "s = []")
    case True
    with k show ?thesis by (subst grep_loop.simps) simp
  next
    case False
    with k n have k0: "0 < k" by simp
    let ?r = "take k s" and ?s = "drop k s"
    let ?b = "snd (split_lines b ?r)"
    have s: "split_lines b s = (fst (split_lines b ?r) @ fst (split_lines ?b ?s), snd (split_lines ?b ?s))"
      using split_lines_append [of b ?r ?s] by simp
    have z: "0 \<notin> set b" "0 \<notin> set ?r" "0 \<notin> set ?s" using less.prems(2) by (auto dest: in_set_takeD in_set_dropD)
    have g: "grep_lines pattern (b @ ?r) out = (?b, out @ printed pattern (fst (split_lines b ?r)))"
      using less.prems(1) z by (intro grep_lines_eq)
    have "grep_loop rd pattern ?b (out @ printed pattern (fst (split_lines b ?r))) ?s =
        Some ((out @ printed pattern (fst (split_lines b ?r))) @ printed pattern (fst (split_lines ?b ?s)), [])"
    proof (rule less.hyps)
      show "length ?s < length s" using k0 False by simp
      show "ch_nl \<notin> set ?b" by (rule split_lines_snd [OF less.prems(1)])
      show "0 \<notin> set (?b @ ?s)" using split_lines_nonzero [OF z(1,2)] z(3) by simp
      show "\<forall>l \<in> insert (snd (split_lines ?b ?s)) (set (fst (split_lines ?b ?s))). length l < 1023"
        using less.prems(3) unfolding s by auto
    qed
    moreover have "?r \<noteq> []" using k0 False by simp
    ultimately show ?thesis using k(2) g s by (subst grep_loop.simps) (simp add: Let_def)
  qed
qed



end
