(* ===== verification/Uprog.thy ===== *)
theory Uprog
  imports Uprintf Grep
begin

text \<open>
  The command-line programs: \<^verbatim>\<open>cat\<close>, \<^verbatim>\<open>echo\<close>, \<^verbatim>\<open>grep\<close>, \<^verbatim>\<open>init\<close>, \<^verbatim>\<open>kill\<close>, \<^verbatim>\<open>ln\<close>, \<^verbatim>\<open>ls\<close>, \<^verbatim>\<open>mkdir\<close>, \<^verbatim>\<open>rm\<close>, \<^verbatim>\<open>wc\<close> and \<^verbatim>\<open>zombie\<close> of \<^verbatim>\<open>user/\<close>,
  and the loop at the start of the shell that opens the console. A program is a function of the world; the system calls
  that it makes are the fields of a record. \<^verbatim>\<open>fork\<close> returns what it returns to the process that is followed, a
  process that has called \<^verbatim>\<open>exec\<close> with success is followed up to there. The arguments are \<^verbatim>\<open>argv[1]\<close> and the following.
\<close>

section \<open>System calls\<close>

record ustat =
  u_dev :: uint
  u_ino :: uint
  u_type :: ushort
  u_nlink :: ushort
  u_size :: uint64

record 'w os =
  os_open :: "ustr \<Rightarrow> uint \<Rightarrow> 'w \<Rightarrow> int \<times> 'w"
  os_close :: "int \<Rightarrow> 'w \<Rightarrow> 'w"
  os_read :: "int \<Rightarrow> nat \<Rightarrow> 'w \<Rightarrow> ustr option \<times> 'w"
  os_write :: "int \<Rightarrow> ustr \<Rightarrow> 'w \<Rightarrow> int \<times> 'w"
  os_fstat :: "int \<Rightarrow> 'w \<Rightarrow> ustat option \<times> 'w"
  os_link :: "ustr \<Rightarrow> ustr \<Rightarrow> 'w \<Rightarrow> int \<times> 'w"
  os_unlink :: "ustr \<Rightarrow> 'w \<Rightarrow> int \<times> 'w"
  os_mkdir :: "ustr \<Rightarrow> 'w \<Rightarrow> int \<times> 'w"
  os_mknod :: "ustr \<Rightarrow> uint \<Rightarrow> uint \<Rightarrow> 'w \<Rightarrow> 'w"
  os_dup :: "int \<Rightarrow> 'w \<Rightarrow> 'w"
  os_kill :: "int \<Rightarrow> 'w \<Rightarrow> 'w"
  os_fork :: "'w \<Rightarrow> int \<times> 'w"
  os_wait :: "'w \<Rightarrow> int \<times> 'w"
  os_exec :: "ustr \<Rightarrow> ustr list \<Rightarrow> 'w \<Rightarrow> bool \<times> 'w"
  os_sleep :: "int \<Rightarrow> 'w \<Rightarrow> 'w"

text \<open>How a process ends; \<open>None\<close> is a program that runs forever, \<open>Inr\<close> a function that returns to its caller.\<close>

datatype uend = Exited int | Replaced ustr "ustr list"

type_synonym ('w, 'a) uout = "((uend \<times> 'w) + ('a \<times> 'w)) option"

definition uret :: "'a \<Rightarrow> 'w \<Rightarrow> ('w, 'a) uout" where
  "uret a w = Some (Inr (a, w))"

definition uexit :: "int \<Rightarrow> 'w \<Rightarrow> ('w, 'a) uout" where
  "uexit n w = Some (Inl (Exited n, w))"

definition ubnd :: "('w, 'a) uout \<Rightarrow> ('a \<Rightarrow> 'w \<Rightarrow> ('w, 'b) uout) \<Rightarrow> ('w, 'b) uout" where
  "ubnd m f = Option.bind m (\<lambda>r. case r of Inl e \<Rightarrow> Some (Inl e) | Inr (a, w) \<Rightarrow> f a w)"

lemma ubnd_simps [simp]: "ubnd (uret a w) f = f a w" "ubnd (uexit n w) f = uexit n w"
  by (simp_all add: ubnd_def uret_def uexit_def)

lemma ubnd_mono [partial_function_mono]:
  assumes "mono_option B" "\<And>a w. mono_option (\<lambda>f. C a w f)"
  shows "mono_option (\<lambda>f. ubnd (B f) (\<lambda>a w. C a w f))"
  unfolding ubnd_def
proof (rule bind_mono [OF assms(1)])
  fix r
  show "mono_option (\<lambda>f. case r of Inl e \<Rightarrow> Some (Inl e) | Inr (a, w) \<Rightarrow> C a w f)"
    by (cases r) (auto simp: assms(2) split: prod.split intro: option.const_mono)
qed

text \<open>\<^verbatim>\<open>fprintf\<close>: one call of \<^verbatim>\<open>write\<close> for each character.\<close>

definition put :: "'w os \<Rightarrow> int \<Rightarrow> string \<Rightarrow> uarg list \<Rightarrow> 'w \<Rightarrow> 'w" where
  "put os fd fmt ap w = fold (\<lambda>(fd, c) w. snd (os_write os fd [c] w)) (u_fprintf fd (map of_char fmt) ap) w"

abbreviation nl :: string where "nl \<equiv> [CHR 0x0A]"

section \<open>cat\<close>

partial_function (option) cat :: "'w os \<Rightarrow> int \<Rightarrow> 'w \<Rightarrow> ('w, unit) uout" where
  "cat os fd w =
     (case os_read os fd 512 w of
        (None, w) \<Rightarrow> uexit 1 (put os 2 (''cat: read error'' @ nl) [] w)
      | (Some buf, w) \<Rightarrow>
          if buf = [] then uret () w
          else case os_write os 1 buf w of (r, w) \<Rightarrow>
            if r \<noteq> int (length buf) then uexit 1 (put os 2 (''cat: write error'' @ nl) [] w)
            else cat os fd w)"

fun cat_files :: "'w os \<Rightarrow> ustr list \<Rightarrow> 'w \<Rightarrow> ('w, unit) uout" where
  "cat_files os [] w = uexit 0 w"
| "cat_files os (a # args) w =
     (let (fd, w) = os_open os a 0 w
      in if fd < 0 then uexit 1 (put os 2 (''cat: cannot open %s'' @ nl) [U_str (Some a)] w)
         else ubnd (cat os fd w) (\<lambda>_ w. cat_files os args (os_close os fd w)))"

definition cat_main :: "'w os \<Rightarrow> ustr list \<Rightarrow> 'w \<Rightarrow> ('w, unit) uout" where
  "cat_main os args w = (if args = [] then ubnd (cat os 0 w) (\<lambda>_ w. uexit 0 w) else cat_files os args w)"

section \<open>wc\<close>

text \<open>The counters \<^verbatim>\<open>l\<close>, \<^verbatim>\<open>w\<close> and \<^verbatim>\<open>c\<close> and the flag \<^verbatim>\<open>inword\<close>.\<close>

record wc_count =
  wc_l :: uint
  wc_w :: uint
  wc_c :: uint
  wc_inword :: bool

definition wc_char :: "uchar \<Rightarrow> wc_count \<Rightarrow> wc_count" where
  "wc_char b n =
     (let n = n\<lparr>wc_c := wc_c n + 1\<rparr>;
          n = (if b = 10 then n\<lparr>wc_l := wc_l n + 1\<rparr> else n)
      in if strchr [32, 13, 9, 10, 11] b \<noteq> None then n\<lparr>wc_inword := False\<rparr>
         else if \<not> wc_inword n then n\<lparr>wc_w := wc_w n + 1, wc_inword := True\<rparr>
         else n)"

partial_function (option) wc_loop :: "'w os \<Rightarrow> int \<Rightarrow> wc_count \<Rightarrow> 'w \<Rightarrow> ('w, wc_count) uout" where
  "wc_loop os fd n w =
     (case os_read os fd 512 w of
        (None, w) \<Rightarrow> uexit 1 (put os 1 (''wc: read error'' @ nl) [] w)
      | (Some buf, w) \<Rightarrow> if buf = [] then uret n w else wc_loop os fd (fold wc_char buf n) w)"

definition wc :: "'w os \<Rightarrow> int \<Rightarrow> ustr \<Rightarrow> 'w \<Rightarrow> ('w, unit) uout" where
  "wc os fd name w =
     ubnd (wc_loop os fd \<lparr>wc_l = 0, wc_w = 0, wc_c = 0, wc_inword = False\<rparr> w) (\<lambda>n w.
     uret () (put os 1 (''%d %d %d %s'' @ nl)
       [U_word (scast (wc_l n)), U_word (scast (wc_w n)), U_word (scast (wc_c n)), U_str (Some name)] w))"

fun wc_files :: "'w os \<Rightarrow> ustr list \<Rightarrow> 'w \<Rightarrow> ('w, unit) uout" where
  "wc_files os [] w = uexit 0 w"
| "wc_files os (a # args) w =
     (let (fd, w) = os_open os a 0 w
      in if fd < 0 then uexit 1 (put os 1 (''wc: cannot open %s'' @ nl) [U_str (Some a)] w)
         else ubnd (wc os fd a w) (\<lambda>_ w. wc_files os args (os_close os fd w)))"

definition wc_main :: "'w os \<Rightarrow> ustr list \<Rightarrow> 'w \<Rightarrow> ('w, unit) uout" where
  "wc_main os args w = (if args = [] then ubnd (wc os 0 [] w) (\<lambda>_ w. uexit 0 w) else wc_files os args w)"

section \<open>grep\<close>

text \<open>
  As in theory \<open>Grep\<close>, what is written to descriptor 1 is collected in order; the result is the exit status, that output
  and the world.
\<close>

definition read_fd :: "'w os \<Rightarrow> int \<Rightarrow> nat \<Rightarrow> 'w \<Rightarrow> ustr \<times> 'w" where
  "read_fd os fd n w = (case os_read os fd n w of (r, w) \<Rightarrow> (case r of None \<Rightarrow> [] | Some bs \<Rightarrow> bs, w))"

fun grep_files :: "'w os \<Rightarrow> ustr \<Rightarrow> ustr list \<Rightarrow> ustr \<Rightarrow> 'w \<Rightarrow> (int \<times> ustr \<times> 'w) option" where
  "grep_files os pattern [] out w = Some (0, out, w)"
| "grep_files os pattern (a # args) out w =
     (let (fd, w) = os_open os a 0 w
      in if fd < 0 then Some (1, out @ vprintf False (map of_char (''grep: cannot open %s'' @ nl)) [U_str (Some a)], w)
         else case grep (read_fd os fd) pattern w of
                None \<Rightarrow> None
              | Some (bs, w) \<Rightarrow> grep_files os pattern args (out @ bs) (os_close os fd w))"

definition grep_main :: "'w os \<Rightarrow> ustr list \<Rightarrow> 'w \<Rightarrow> (int \<times> ustr \<times> 'w) option" where
  "grep_main os args w =
     (case args of
        [] \<Rightarrow> Some (1, [], put os 2 (''usage: grep pattern [file ...]'' @ nl) [] w)
      | [pattern] \<Rightarrow> map_option (\<lambda>(bs, w). (0, bs, w)) (grep (read_fd os 0) pattern w)
      | pattern # args \<Rightarrow> grep_files os pattern args [] w)"

section \<open>echo, kill, ln, mkdir, rm and zombie\<close>

fun echo_args :: "'w os \<Rightarrow> ustr list \<Rightarrow> 'w \<Rightarrow> 'w" where
  "echo_args os [] w = w"
| "echo_args os (a # args) w =
     echo_args os args (snd (os_write os 1 (if args \<noteq> [] then [32] else [10]) (snd (os_write os 1 a w))))"

definition echo_main :: "'w os \<Rightarrow> ustr list \<Rightarrow> 'w \<Rightarrow> ('w, unit) uout" where
  "echo_main os args w = uexit 0 (echo_args os args w)"

definition kill_main :: "'w os \<Rightarrow> ustr list \<Rightarrow> 'w \<Rightarrow> ('w, unit) uout" where
  "kill_main os args w =
     (if args = [] then uexit 1 (put os 2 (''usage: kill pid...'' @ nl) [] w)
      else uexit 0 (fold (\<lambda>a. os_kill os (atoi a)) args w))"

definition ln_main :: "'w os \<Rightarrow> ustr list \<Rightarrow> 'w \<Rightarrow> ('w, unit) uout" where
  "ln_main os args w =
     (case args of
        [old, new] \<Rightarrow>
          let (r, w) = os_link os old new w
          in uexit 0 (if r < 0 then put os 2 (''link %s %s: failed'' @ nl) [U_str (Some old), U_str (Some new)] w else w)
      | _ \<Rightarrow> uexit 1 (put os 2 (''Usage: ln old new'' @ nl) [] w))"

text \<open>The loops of \<^verbatim>\<open>mkdir\<close> and \<^verbatim>\<open>rm\<close>: a call for each argument up to the first that fails.\<close>

fun each_arg :: "'w os \<Rightarrow> (ustr \<Rightarrow> 'w \<Rightarrow> int \<times> 'w) \<Rightarrow> string \<Rightarrow> ustr list \<Rightarrow> 'w \<Rightarrow> 'w" where
  "each_arg os f msg [] w = w"
| "each_arg os f msg (a # args) w =
     (let (r, w) = f a w in if r < 0 then put os 2 msg [U_str (Some a)] w else each_arg os f msg args w)"

definition mkdir_main :: "'w os \<Rightarrow> ustr list \<Rightarrow> 'w \<Rightarrow> ('w, unit) uout" where
  "mkdir_main os args w =
     (if args = [] then uexit 1 (put os 2 (''Usage: mkdir files...'' @ nl) [] w)
      else uexit 0 (each_arg os (os_mkdir os) (''mkdir: %s failed to create'' @ nl) args w))"

definition rm_main :: "'w os \<Rightarrow> ustr list \<Rightarrow> 'w \<Rightarrow> ('w, unit) uout" where
  "rm_main os args w =
     (if args = [] then uexit 1 (put os 2 (''Usage: rm files...'' @ nl) [] w)
      else uexit 0 (each_arg os (os_unlink os) (''rm: %s failed to delete'' @ nl) args w))"

definition zombie_main :: "'w os \<Rightarrow> 'w \<Rightarrow> ('w, unit) uout" where
  "zombie_main os w = (let (pid, w) = os_fork os w in uexit 0 (if pid > 0 then os_sleep os 5 w else w))"

section \<open>ls\<close>

text \<open>The position after the last slash before \<open>i\<close>.\<close>

fun after_slash :: "ustr \<Rightarrow> nat \<Rightarrow> nat" where
  "after_slash path 0 = 0"
| "after_slash path (Suc i) = (if path ! i = 47 then Suc i else after_slash path i)"

definition fmtname :: "ustr \<Rightarrow> ustr" where
  "fmtname path =
     (let p = drop (after_slash path (length path)) path
      in if length p \<ge> 14 then p else p @ replicate (14 - length p) 32)"

text \<open>\<^verbatim>\<open>stat\<close> of the user library on these system calls.\<close>

definition os_stat :: "'w os \<Rightarrow> ustr \<Rightarrow> 'w \<Rightarrow> ustat option \<times> 'w" where
  "os_stat os path w =
     (let fstat = (\<lambda>fd w. case os_fstat os fd w of (st, w) \<Rightarrow> ((if st = None then - 1 else 0, st), w));
          ((r, st), w) = ulib_stat (\<lambda>n mode. os_open os n (of_int mode)) fstat (os_close os) None path w
      in (if r < 0 then None else st, w))"

definition ls_line :: "'w os \<Rightarrow> string \<Rightarrow> ustr \<Rightarrow> ustat \<Rightarrow> 'w \<Rightarrow> 'w" where
  "ls_line os fmt path st w =
     put os 1 fmt [U_str (Some (fmtname path)), U_word (scast (u_type st)), U_word (ucast (u_ino st)), U_word (u_size st)] w"

text \<open>The entries of the directory \<open>path\<close>, 16 bytes each: the inode number and the name, without terminator when it has 14 characters.\<close>

partial_function (option) ls_entries :: "'w os \<Rightarrow> int \<Rightarrow> ustr \<Rightarrow> 'w \<Rightarrow> 'w option" where
  "ls_entries os fd path w =
     (case read_fd os fd 16 w of (de, w) \<Rightarrow>
        if length de \<noteq> 16 then Some w
        else if (le_word (take 2 de) :: ushort) = 0 then ls_entries os fd path w
        else let buf = path @ 47 # takeWhile (\<lambda>c. c \<noteq> 0) (drop 2 de)
             in case os_stat os buf w of
                  (None, w) \<Rightarrow> ls_entries os fd path (put os 1 (''ls: cannot stat %s'' @ nl) [U_str (Some buf)] w)
                | (Some st, w) \<Rightarrow> ls_entries os fd path (ls_line os (''%s %d %d %d'' @ nl) buf st w))"

definition ls :: "'w os \<Rightarrow> ustr \<Rightarrow> 'w \<Rightarrow> 'w option" where
  "ls os path w =
     (let (fd, w) = os_open os path 0 w
      in if fd < 0 then Some (put os 2 (''ls: cannot open %s'' @ nl) [U_str (Some path)] w)
         else case os_fstat os fd w of
                (None, w) \<Rightarrow> Some (os_close os fd (put os 2 (''ls: cannot stat %s'' @ nl) [U_str (Some path)] w))
              | (Some st, w) \<Rightarrow>
                  map_option (os_close os fd)
                    (if u_type st = 2 then Some (ls_line os (''%s %d %d %l'' @ nl) path st w)
                     else if u_type st = 1 then
                       (if length path + 1 + 14 + 1 > 512 then Some (put os 1 (''ls: path too long'' @ nl) [] w)
                        else ls_entries os fd path w)
                     else Some w))"

fun ls_args :: "'w os \<Rightarrow> ustr list \<Rightarrow> 'w \<Rightarrow> 'w option" where
  "ls_args os [] w = Some w"
| "ls_args os (a # args) w = Option.bind (ls os a w) (ls_args os args)"

definition ls_main :: "'w os \<Rightarrow> ustr list \<Rightarrow> 'w \<Rightarrow> ('w, unit) uout" where
  "ls_main os args w = Option.bind (ls_args os (if args = [] then [[46]] else args) w) (uexit 0)"

section \<open>init, and the start of the shell\<close>

partial_function (option) init_wait :: "'w os \<Rightarrow> int \<Rightarrow> 'w \<Rightarrow> ('w, unit) uout" where
  "init_wait os pid w =
     (case os_wait os w of (wpid, w) \<Rightarrow>
        if wpid = pid then uret () w
        else if wpid < 0 then uexit 1 (put os 1 (''init: wait returned an error'' @ nl) [] w)
        else init_wait os pid w)"

definition init_fork :: "'w os \<Rightarrow> 'w \<Rightarrow> ('w, int) uout" where
  "init_fork os w =
     (let w = put os 1 (''init: starting sh'' @ nl) [] w;
          (pid, w) = os_fork os w
      in if pid < 0 then uexit 1 (put os 1 (''init: fork failed'' @ nl) [] w)
         else if pid = 0 then
           (let sh = map of_char ''sh''; (done, w) = os_exec os sh [sh] w
            in if done then Some (Inl (Replaced sh [sh], w)) else uexit 1 (put os 1 (''init: exec sh failed'' @ nl) [] w))
         else uret pid w)"

partial_function (option) init_loop :: "'w os \<Rightarrow> 'w \<Rightarrow> ('w, unit) uout" where
  "init_loop os w = ubnd (init_fork os w) (\<lambda>pid w. ubnd (init_wait os pid w) (\<lambda>_ w. init_loop os w))"

definition init_main :: "'w os \<Rightarrow> 'w \<Rightarrow> ('w, unit) uout" where
  "init_main os w =
     (let console = map of_char ''console''; (fd, w) = os_open os console 2 w;
          w = (if fd < 0 then snd (os_open os console 2 (os_mknod os console 1 0 w)) else w)
      in init_loop os (os_dup os 0 (os_dup os 0 w)))"

partial_function (option) sh_console :: "'w os \<Rightarrow> 'w \<Rightarrow> 'w option" where
  "sh_console os w =
     (case os_open os (map of_char ''console'') 2 w of (fd, w) \<Rightarrow>
        if fd < 0 then Some w else if fd \<ge> 3 then Some (os_close os fd w) else sh_console os w)"

end
