(* ===== verification/UprogSpec.thy ===== *)
theory UprogSpec
  imports Uprog
begin

text \<open>
  What \<^verbatim>\<open>cat\<close> and \<^verbatim>\<open>wc\<close> write, for every way in which \<^verbatim>\<open>read\<close> may cut a file into pieces, and what \<^verbatim>\<open>echo\<close> and the names of
  \<^verbatim>\<open>ls\<close> look like.
\<close>

section \<open>The file system as a program sees it\<close>

text \<open>
  \<open>inp w fd\<close> is what can still be read from a descriptor, \<open>outp w fd\<close> what has been written to it, \<open>files\<close> the contents
  of the files. \<^verbatim>\<open>read\<close> returns at least one byte when there is one, and may return fewer than asked for.
\<close>

definition file_calls :: "'w os \<Rightarrow> ('w \<Rightarrow> int \<Rightarrow> ustr) \<Rightarrow> ('w \<Rightarrow> int \<Rightarrow> ustr) \<Rightarrow> (ustr \<Rightarrow> ustr option) \<Rightarrow> bool" where
  "file_calls os inp outp files \<longleftrightarrow>
     (\<forall>fd n w. 0 < n \<longrightarrow> (\<exists>k \<le> n. \<exists>w'. os_read os fd n w = (Some (take k (inp w fd)), w') \<and> (inp w fd \<noteq> [] \<longrightarrow> 0 < k) \<and>
        inp w' = (inp w)(fd := drop k (inp w fd)) \<and> outp w' = outp w)) \<and>
     (\<forall>fd bs w. \<exists>w'. os_write os fd bs w = (int (length bs), w') \<and> inp w' = inp w \<and> outp w' = (outp w)(fd := outp w fd @ bs)) \<and>
     (\<forall>a w. \<exists>fd w'. os_open os a 0 w = (fd, w') \<and> outp w' = outp w \<and>
        (case files a of None \<Rightarrow> fd < 0 | Some bs \<Rightarrow> 0 \<le> fd \<and> inp w' fd = bs)) \<and>
     (\<forall>fd w. outp (os_close os fd w) = outp w)"

lemma file_readE:
  assumes "file_calls os inp outp files" "0 < n"
  obtains k w' where "k \<le> n" "os_read os fd n w = (Some (take k (inp w fd)), w')" "inp w fd \<noteq> [] \<longrightarrow> 0 < k"
    "inp w' = (inp w)(fd := drop k (inp w fd))" "outp w' = outp w"
  using assms unfolding file_calls_def by meson

lemma file_writeE:
  assumes "file_calls os inp outp files"
  obtains w' where "os_write os fd bs w = (int (length bs), w')" "inp w' = inp w" "outp w' = (outp w)(fd := outp w fd @ bs)"
  using assms unfolding file_calls_def by meson

lemma file_openE:
  assumes "file_calls os inp outp files"
  obtains fd w' where "os_open os a 0 w = (fd, w')" "outp w' = outp w" "case files a of None \<Rightarrow> fd < 0 | Some bs \<Rightarrow> 0 \<le> fd \<and> inp w' fd = bs"
  using assms unfolding file_calls_def by meson

lemma file_close: "file_calls os inp outp files \<Longrightarrow> outp (os_close os fd w) = outp w"
  unfolding file_calls_def by blast

lemma file_write_out: "file_calls os inp outp files \<Longrightarrow> outp (snd (os_write os fd bs w)) = (outp w)(fd := outp w fd @ bs)"
  by (metis file_writeE snd_conv)

lemma put_out:
  assumes "file_calls os inp outp files"
  shows "inp (put os fd fmt ap w) = inp w \<and> outp (put os fd fmt ap w) = (outp w)(fd := outp w fd @ vprintf False (map of_char fmt) ap)"
proof -
  have "inp (fold (\<lambda>(fd, c) w. snd (os_write os fd [c] w)) (map (Pair fd) bs) w) = inp w \<and>
      outp (fold (\<lambda>(fd, c) w. snd (os_write os fd [c] w)) (map (Pair fd) bs) w) = (outp w)(fd := outp w fd @ bs)" for bs
  proof (induction bs arbitrary: w)
    case (Cons c bs)
    obtain w' where w': "os_write os fd [c] w = (int (length [c]), w')" "inp w' = inp w" "outp w' = (outp w)(fd := outp w fd @ [c])"
      by (rule file_writeE [OF assms])
    show ?case using Cons [of w'] w' by (auto simp: fun_eq_iff)
  qed simp
  then show ?thesis by (simp add: put_def u_fprintf_def)
qed

section \<open>cat\<close>

lemma cat_returns:
  assumes "file_calls os inp outp files"
  shows "\<exists>w'. cat os fd w = uret () w' \<and> outp w' = (outp w)(1 := outp w 1 @ inp w fd)"
proof (induction "length (inp w fd)" arbitrary: w rule: less_induct)
  case less
  obtain k w1 where 1: "os_read os fd 512 w = (Some (take k (inp w fd)), w1)" "inp w fd \<noteq> [] \<longrightarrow> 0 < k"
    "inp w1 = (inp w)(fd := drop k (inp w fd))" "outp w1 = outp w" by (rule file_readE [OF assms, of 512 fd w]) auto
  show ?case
  proof (cases "inp w fd = []")
    case True
    then show ?thesis using 1 by (subst cat.simps) (auto simp: uret_def)
  next
    case False
    obtain w2 where 2: "os_write os 1 (take k (inp w fd)) w1 = (int (length (take k (inp w fd))), w2)" "inp w2 = inp w1"
      "outp w2 = (outp w1)(1 := outp w1 1 @ take k (inp w fd))" by (rule file_writeE [OF assms])
    have i2: "inp w2 fd = drop k (inp w fd)" using 1(3) 2(2) by simp
    obtain w' where w': "cat os fd w2 = uret () w'" "outp w' = (outp w2)(1 := outp w2 1 @ inp w2 fd)"
      using less [of w2] i2 False 1(2) by auto
    have "cat os fd w = cat os fd w2" using 1(1) 2(1) False 1(2) by (subst cat.simps) auto
    moreover have "outp w' = (outp w)(1 := outp w 1 @ inp w fd)" using w'(2) i2 2(3) 1(4) by simp
    ultimately show ?thesis using w'(1) by auto
  qed
qed

definition opened :: "(ustr \<Rightarrow> ustr option) \<Rightarrow> ustr list \<Rightarrow> ustr list" where
  "opened files args = takeWhile (\<lambda>a. files a \<noteq> None) args"

lemma opened_simps [simp]: "opened files [] = []" "opened files (a # args) = (if files a = None then [] else a # opened files args)"
  by (simp_all add: opened_def)

text \<open>The message about a file that cannot be opened.\<close>

definition no_file :: "string \<Rightarrow> ustr \<Rightarrow> ustr" where
  "no_file prog a = map of_char (prog @ '': cannot open '') @ a @ [10]"

lemma vprintf_plain: "37 \<notin> set t \<Longrightarrow> vprintf False (t @ fmt) ap = t @ vprintf False fmt ap"
  by (induction t) auto

lemma vprintf_no_file:
  "vprintf False (map of_char (''cat: cannot open %s'' @ nl)) [U_str (Some a)] = no_file ''cat'' a"
  "vprintf False (map of_char (''wc: cannot open %s'' @ nl)) [U_str (Some a)] = no_file ''wc'' a"
  by (simp_all add: no_file_def va_str_def)

lemma cat_files_out:
  assumes fc: "file_calls os inp outp files"
  shows "\<exists>w'. cat_files os args w = uexit (if opened files args = args then 0 else 1) w' \<and>
    outp w' 1 = outp w 1 @ concat (map (\<lambda>a. the (files a)) (opened files args)) \<and>
    outp w' 2 = outp w 2 @ (if opened files args = args then [] else no_file ''cat'' (args ! length (opened files args)))"
proof (induction args arbitrary: w)
  case (Cons a args)
  obtain fd w1 where 1: "os_open os a 0 w = (fd, w1)" "outp w1 = outp w"
    "case files a of None \<Rightarrow> fd < 0 | Some bs \<Rightarrow> 0 \<le> fd \<and> inp w1 fd = bs" by (rule file_openE [OF fc])
  show ?case
  proof (cases "files a")
    case None
    let ?w = "put os 2 (''cat: cannot open %s'' @ nl) [U_str (Some a)] w1"
    have "cat_files os (a # args) w = uexit 1 ?w" using None 1 by simp
    moreover have "outp ?w = (outp w)(2 := outp w 2 @ no_file ''cat'' a)"
      using put_out [OF fc] 1(2) unfolding vprintf_no_file(1) [symmetric] by metis
    ultimately show ?thesis using None by (intro exI [of _ ?w]) simp
  next
    case (Some bs)
    obtain w2 where 2: "cat os fd w1 = uret () w2" "outp w2 = (outp w1)(1 := outp w1 1 @ inp w1 fd)"
      using cat_returns [OF fc] by blast
    have "cat_files os (a # args) w = cat_files os args (os_close os fd w2)" using Some 1(1,3) 2(1) by simp
    moreover have "outp (os_close os fd w2) = (outp w)(1 := outp w 1 @ bs)" using 1(2,3) 2(2) file_close [OF fc, of fd w2] Some by simp
    ultimately show ?thesis using Cons [of "os_close os fd w2"] Some by auto
  qed
qed auto

text \<open>
  C38. \<^verbatim>\<open>cat\<close> with file names copies the files to descriptor 1, one after the other and byte for byte, however the reads
  are cut. At the first file that cannot be opened it stops with a message on descriptor 2 and status 1; otherwise the
  status is 0.
\<close>

theorem cat_correct:
  assumes "file_calls os inp outp files" "args \<noteq> []"
  shows "\<exists>w'. cat_main os args w = uexit (if opened files args = args then 0 else 1) w' \<and>
    outp w' 1 = outp w 1 @ concat (map (\<lambda>a. the (files a)) (opened files args)) \<and>
    outp w' 2 = outp w 2 @ (if opened files args = args then [] else no_file ''cat'' (args ! length (opened files args)))"
  using cat_files_out [OF assms(1), of args w] assms(2) by (simp add: cat_main_def)

section \<open>wc\<close>

definition white :: "uchar \<Rightarrow> bool" where
  "white c \<longleftrightarrow> c \<in> {32, 13, 9, 10, 11}"

text \<open>The number of maximal runs of characters that are not white.\<close>

definition nwords :: "ustr \<Rightarrow> nat" where
  "nwords bs = card {i. i < length bs \<and> \<not> white (bs ! i) \<and> (i = 0 \<or> white (bs ! (i - 1)))}"

definition wc_of :: "ustr \<Rightarrow> wc_count" where
  "wc_of bs = \<lparr>wc_l = of_nat (count_list bs 10), wc_w = of_nat (nwords bs), wc_c = of_nat (length bs),
     wc_inword = (bs \<noteq> [] \<and> \<not> white (last bs))\<rparr>"

lemma words_snoc: "nwords (bs @ [c]) = nwords bs + (if white c \<or> bs \<noteq> [] \<and> \<not> white (last bs) then 0 else 1)"
proof -
  let ?S = "{i. i < length bs \<and> \<not> white (bs ! i) \<and> (i = 0 \<or> white (bs ! (i - 1)))}"
  let ?new = "\<not> white c \<and> (bs = [] \<or> white (last bs))"
  have "{i. i < length (bs @ [c]) \<and> \<not> white ((bs @ [c]) ! i) \<and> (i = 0 \<or> white ((bs @ [c]) ! (i - 1)))} =
      (if ?new then insert (length bs) ?S else ?S)"
    by (cases "bs = []") (auto simp: nth_append less_Suc_eq last_conv_nth)
  moreover have "finite ?S" by simp
  ultimately show ?thesis by (auto simp: nwords_def)
qed

lemma wc_char_of: "wc_char c (wc_of bs) = wc_of (bs @ [c])"
proof -
  have "strchr [32, 13, 9, 10, 11] c \<noteq> None \<longleftrightarrow> white c" unfolding strchr_None white_def by auto
  then show ?thesis by (simp add: wc_char_def wc_of_def words_snoc Let_def)
qed

lemma fold_wc_char: "fold wc_char cs (wc_of bs) = wc_of (bs @ cs)"
  by (induction cs arbitrary: bs) (simp_all add: wc_char_of)

lemma wc_loop_returns:
  assumes fc: "file_calls os inp outp files"
  shows "\<exists>w'. wc_loop os fd (wc_of bs) w = uret (wc_of (bs @ inp w fd)) w' \<and> outp w' = outp w"
proof (induction "length (inp w fd)" arbitrary: w bs rule: less_induct)
  case less
  obtain k w1 where 1: "os_read os fd 512 w = (Some (take k (inp w fd)), w1)" "inp w fd \<noteq> [] \<longrightarrow> 0 < k"
    "inp w1 = (inp w)(fd := drop k (inp w fd))" "outp w1 = outp w" by (rule file_readE [OF fc, of 512 fd w]) auto
  show ?case
  proof (cases "inp w fd = []")
    case True
    then show ?thesis using 1 by (subst wc_loop.simps) (auto simp: uret_def)
  next
    case False
    have i1: "inp w1 fd = drop k (inp w fd)" using 1(3) by simp
    have "wc_loop os fd (wc_of bs) w = wc_loop os fd (wc_of (bs @ take k (inp w fd))) w1"
      using 1(1,2) False by (subst wc_loop.simps) (simp add: fold_wc_char)
    then show ?thesis using less [of w1 "bs @ take k (inp w fd)"] i1 False 1(2,4) by auto
  qed
qed

definition dec :: "nat \<Rightarrow> ustr" where
  "dec n = rev (u_print_digits 10 n)"

text \<open>The line of output for a file.\<close>

definition wc_line :: "ustr \<Rightarrow> ustr \<Rightarrow> ustr" where
  "wc_line name bs = dec (count_list bs 10) @ [32] @ dec (nwords bs) @ [32] @ dec (length bs) @ [32] @ name @ [10]"

lemma printint_dec:
  assumes "n < 2 ^ 31"
  shows "u_printint (sint (ucast (scast (of_nat n :: uint) :: uint64) :: uint)) 10 True = dec n"
proof -
  have u: "ucast (scast (of_nat n :: uint) :: uint64) = (of_nat n :: uint)" by (rule bit_word_eqI) (simp add: bit_simps)
  have "unat (of_nat n :: uint) = n" using assms by (simp add: unat_of_nat take_bit_nat_eq_self)
  then show ?thesis using sint_of_int_small [of "of_nat n :: uint"] assms by (simp add: u u_printint_def dec_def)
qed

lemma words_le: "nwords bs \<le> length bs"
proof -
  have "nwords bs \<le> card {..<length bs}" unfolding nwords_def by (intro card_mono) auto
  then show ?thesis by simp
qed

lemma wc_returns:
  assumes fc: "file_calls os inp outp files" and len: "length (inp w fd) < 2 ^ 31"
  shows "\<exists>w'. wc os fd name w = uret () w' \<and> outp w' = (outp w)(1 := outp w 1 @
    wc_line name (inp w fd))"
proof -
  let ?bs = "inp w fd" and ?fmt = "''%d %d %d %s'' @ nl"
  have z: "\<lparr>wc_l = 0, wc_w = 0, wc_c = 0, wc_inword = False\<rparr> = wc_of []" by (simp add: wc_of_def nwords_def)
  obtain w1 where 1: "wc_loop os fd (wc_of []) w = uret (wc_of ?bs) w1" "outp w1 = outp w" using wc_loop_returns [OF fc, of fd "[]" w] by auto
  let ?ap = "[U_word (scast (wc_l (wc_of ?bs))), U_word (scast (wc_w (wc_of ?bs))), U_word (scast (wc_c (wc_of ?bs))), U_str (Some name)]"
  have "count_list ?bs 10 < 2 ^ 31" "nwords ?bs < 2 ^ 31" using len words_le [of ?bs] count_le_length [of ?bs 10] by linarith+
  then have vp: "vprintf False (map of_char ?fmt) ?ap = wc_line name ?bs"
    using len by (simp add: wc_line_def va_word_def va_str_def wc_of_def printint_dec)
  have "wc os fd name w = uret () (put os 1 ?fmt ?ap w1)" by (simp only: wc_def z 1(1) ubnd_simps)
  then show ?thesis using conjunct2 [OF put_out [OF fc, of 1 ?fmt ?ap w1], unfolded vp 1(2)] by blast
qed

lemma wc_files_out:
  assumes fc: "file_calls os inp outp files" and len: "\<forall>a bs. files a = Some bs \<longrightarrow> length bs < 2 ^ 31"
  shows "\<exists>w'. wc_files os args w = uexit (if opened files args = args then 0 else 1) w' \<and>
    outp w' = (outp w)(1 := outp w 1 @ concat (map (\<lambda>a. wc_line a (the (files a))) (opened files args)) @
      (if opened files args = args then [] else no_file ''wc'' (args ! length (opened files args))))"
proof (induction args arbitrary: w)
  case (Cons a args)
  obtain fd w1 where 1: "os_open os a 0 w = (fd, w1)" "outp w1 = outp w"
    "case files a of None \<Rightarrow> fd < 0 | Some bs \<Rightarrow> 0 \<le> fd \<and> inp w1 fd = bs" by (rule file_openE [OF fc])
  show ?case
  proof (cases "files a")
    case None
    let ?w = "put os 1 (''wc: cannot open %s'' @ nl) [U_str (Some a)] w1"
    have "wc_files os (a # args) w = uexit 1 ?w" using None 1 by simp
    moreover have "outp ?w = (outp w)(1 := outp w 1 @ no_file ''wc'' a)"
      using put_out [OF fc] 1(2) unfolding vprintf_no_file(2) [symmetric] by metis
    ultimately show ?thesis using None by (intro exI [of _ ?w]) simp
  next
    case (Some bs)
    then have bs: "inp w1 fd = bs" "0 \<le> fd" "length bs < 2 ^ 31" using 1(3) len by auto
    obtain w2 where 2: "wc os fd a w1 = uret () w2" "outp w2 = (outp w1)(1 := outp w1 1 @ wc_line a bs)"
      using wc_returns [OF fc, of w1 fd a] bs by auto
    have "wc_files os (a # args) w = wc_files os args (os_close os fd w2)" using bs(2) 1(1) 2(1) by simp
    moreover have "outp (os_close os fd w2) = (outp w)(1 := outp w 1 @ wc_line a bs)" using 1(2) 2(2) file_close [OF fc, of fd w2] by simp
    moreover obtain w' where "wc_files os args (os_close os fd w2) = uexit (if opened files args = args then 0 else 1) w'"
        "outp w' = (outp (os_close os fd w2))(1 := outp (os_close os fd w2) 1 @ concat (map (\<lambda>a. wc_line a (the (files a))) (opened files args)) @
          (if opened files args = args then [] else no_file ''wc'' (args ! length (opened files args))))"
      using Cons [of "os_close os fd w2"] by blast
    ultimately show ?thesis using Some by (intro exI [of _ w']) (simp add: fun_eq_iff)
  qed
qed auto

text \<open>
  C39. \<^verbatim>\<open>wc\<close> with file names prints, for each file in turn, the number of newlines, of maximal runs of characters other than
  white space, and of bytes, in decimal, and the name; a word that two reads cut in the middle counts once. At the first
  file that cannot be opened it stops with a message and status 1.
\<close>

theorem wc_correct:
  assumes "file_calls os inp outp files" "\<forall>a bs. files a = Some bs \<longrightarrow> length bs < 2 ^ 31" "args \<noteq> []"
  shows "\<exists>w'. wc_main os args w = uexit (if opened files args = args then 0 else 1) w' \<and>
    outp w' = (outp w)(1 := outp w 1 @ concat (map (\<lambda>a. wc_line a (the (files a))) (opened files args)) @
      (if opened files args = args then [] else no_file ''wc'' (args ! length (opened files args))))"
  using wc_files_out [OF assms(1,2), of args w] assms(3) by (simp add: wc_main_def)

section \<open>echo and ls\<close>

lemma echo_out:
  assumes fc: "file_calls os inp outp files" and "args \<noteq> []"
  shows "\<exists>w'. echo_main os args w = uexit 0 w' \<and>
    outp w' = (outp w)(1 := outp w 1 @ hd args @ concat (map (\<lambda>a. 32 # a) (tl args)) @ [10])"
proof -
  have "outp (echo_args os (a # args) w) = (outp w)(1 := outp w 1 @ a @ concat (map (\<lambda>a. 32 # a) args) @ [10])" for a args
    by (induction args arbitrary: a w) (simp_all add: file_write_out [OF fc] fun_eq_iff)
  from this [of "hd args" "tl args"] show ?thesis using assms(2) by (auto simp: echo_main_def simp del: echo_args.simps)
qed

lemma after_slash_last:
  assumes "47 \<notin> set nm"
  shows "after_slash (dir @ 47 # nm) (length (dir @ 47 # nm)) = Suc (length dir)" "after_slash nm (length nm) = 0"
proof -
  have "after_slash (dir @ 47 # nm) (Suc (length dir) + i) = Suc (length dir)" if "i \<le> length nm" for i
    using that
  proof (induction i)
    case (Suc i)
    then have "(dir @ 47 # nm) ! (Suc (length dir) + i) = nm ! i" by (simp add: nth_append)
    moreover have "nm ! i \<noteq> 47" using assms Suc.prems by (metis Suc_le_lessD nth_mem)
    ultimately show ?case using Suc by simp
  qed (simp add: nth_append)
  from this [of "length nm"] show "after_slash (dir @ 47 # nm) (length (dir @ 47 # nm)) = Suc (length dir)" by simp
  have "after_slash nm i = 0" if "i \<le> length nm" for i
    using that assms by (induction i) (auto simp: Suc_le_eq dest: nth_mem)
  then show "after_slash nm (length nm) = 0" by simp
qed

text \<open>The last component of the path, padded with blanks to the length of a directory name.\<close>

lemma fmtname_last:
  assumes "47 \<notin> set nm"
  shows "fmtname (dir @ 47 # nm) = nm @ replicate (14 - length nm) 32" "fmtname nm = nm @ replicate (14 - length nm) 32"
  using after_slash_last [OF assms] by (simp_all add: fmtname_def Let_def)

section \<open>Witnesses\<close>

text \<open>A world of what can be read and what has been written, in which a read returns at most two bytes.\<close>

definition demo_os :: "(ustr \<Rightarrow> ustr option) \<Rightarrow> ((int \<Rightarrow> ustr) \<times> (int \<Rightarrow> ustr)) os" where
  "demo_os files =
     \<lparr>os_open = (\<lambda>a m (i, u). case files a of None \<Rightarrow> (- 1, (i, u)) | Some bs \<Rightarrow> (3, (i(3 := bs), u))), os_close = (\<lambda>fd w. w),
      os_read = (\<lambda>fd n (i, u). (Some (take (min n 2) (i fd)), (i(fd := drop (min n 2) (i fd)), u))),
      os_write = (\<lambda>fd bs (i, u). (int (length bs), (i, u(fd := u fd @ bs)))), os_fstat = (\<lambda>fd w. (None, w)),
      os_link = (\<lambda>a b w. (- 1, w)), os_unlink = (\<lambda>a w. (- 1, w)), os_mkdir = (\<lambda>a w. (- 1, w)), os_mknod = (\<lambda>a m n w. w),
      os_dup = (\<lambda>fd w. w), os_kill = (\<lambda>pid w. w), os_fork = (\<lambda>w. (- 1, w)), os_wait = (\<lambda>w. (- 1, w)),
      os_exec = (\<lambda>a av w. (False, w)), os_sleep = (\<lambda>n w. w)\<rparr>"

lemma demo_calls: "file_calls (demo_os files) fst snd files"
proof -
  have r: "\<exists>k \<le> n. \<exists>w'. os_read (demo_os files) fd n w = (Some (take k (fst w fd)), w') \<and> (fst w fd \<noteq> [] \<longrightarrow> 0 < k) \<and>
      fst w' = (fst w)(fd := drop k (fst w fd)) \<and> snd w' = snd w" if "0 < n" for fd n w
    using that by (intro exI [of _ "min n 2"]) (auto simp: demo_os_def split: prod.split)
  show ?thesis unfolding file_calls_def using r by (auto simp: demo_os_def split: option.split)
qed

theorem cat_correct_witness:
  "\<exists>w'. cat_main (demo_os (\<lambda>a. if a = [97] then Some [1, 2, 3] else None)) [[97], [97], [98]] (\<lambda>_. [], \<lambda>_. []) = uexit 1 w' \<and>
     snd w' 1 = [1, 2, 3, 1, 2, 3] \<and> snd w' 2 = no_file ''cat'' [98]"
  using cat_correct [OF demo_calls, of "[[97], [97], [98]]" "\<lambda>a. if a = [97] then Some [1, 2, 3] else None" "(\<lambda>_. [], \<lambda>_. [])"]
  by simp

theorem wc_correct_witness:
  "\<exists>w'. wc_main (demo_os (\<lambda>a. if a = [97] then Some [104, 105, 32, 121, 10] else None)) [[97]] (\<lambda>_. [], \<lambda>_. []) = uexit 0 w' \<and>
     snd w' 1 = [49, 32, 50, 32, 53, 32, 97, 10]"
proof -
  let ?f = "\<lambda>a. if a = [97] then Some [104, 105, 32, 121, 10 :: uchar] else None"
  have "nwords ((((([] @ [104]) @ [105]) @ [32]) @ [121]) @ [10]) = 2" unfolding words_snoc by (simp add: white_def nwords_def)
  then have w: "nwords [104, 105, 32, 121, 10] = 2" by simp
  have d: "dec 1 = [49]" "dec 2 = [50]" "dec 5 = [53]" by (simp_all add: dec_def u_print_digits.simps u_digit_def)
  have d5: "dec (Suc (Suc (Suc (Suc (Suc 0))))) = [53]" using d(3) by (simp add: eval_nat_numeral)
  have l: "wc_line [97] [104, 105, 32, 121, 10] = [49, 32, 50, 32, 53, 32, 97, 10]" using w d d5 by (simp add: wc_line_def)
  have "\<forall>a bs. ?f a = Some bs \<longrightarrow> length bs < 2 ^ 31" by auto
  from wc_correct [OF demo_calls this, of "[[97]]" "(\<lambda>_. [], \<lambda>_. [])"]
  obtain w' where w': "wc_main (demo_os ?f) [[97]] (\<lambda>_. [], \<lambda>_. []) = uexit 0 w'" "snd w' = (\<lambda>_. [])(1 := wc_line [97] [104, 105, 32, 121, 10])"
    by auto
  have "snd w' 1 = [49, 32, 50, 32, 53, 32, 97, 10]" unfolding w'(2) l by simp
  then show ?thesis using w'(1) by blast
qed

end
