(* ===== verification/Umalloc.thy ===== *)
theory Umalloc
  imports Prelude
begin

text \<open>
  \<^verbatim>\<open>user/umalloc.c\<close>, the memory allocator of user programs. The headers are a store indexed by address; the static
  header \<^verbatim>\<open>base\<close> has the address \<open>u_base\<close>. The system call \<^verbatim>\<open>sbrk\<close> is a function on the part \<open>kern\<close> of the state.
  The two loops over the circular free list are partial functions; that they return is part of what is proved
  in theory \<open>UmallocSpec\<close>.
\<close>

section \<open>The system call\<close>

text \<open>
  What \<^verbatim>\<open>sys_sbrk\<close> does for a program, on the size of its memory, which \<^verbatim>\<open>growproc\<close> keeps in 32 bits. The parameter says
  whether the kernel has the memory for growing from one size to another.
\<close>

definition usbrk :: "(uint \<Rightarrow> uint \<Rightarrow> bool) \<Rightarrow> int \<Rightarrow> uint64 \<Rightarrow> uint64 \<times> uint64" where
  "usbrk avail n psz =
     (let sz = ucast psz :: uint; addr = of_int (sint sz); new = sz + of_int n
      in if n > 0 then
           if new < sz then (addr, ucast sz)
           else if avail sz new then (addr, ucast new)
           else (-1, psz)
         else if n < 0 then (addr, ucast (if new \<ge> sz then sz else new))
         else (addr, ucast sz))"

text \<open>No process grows beyond the physical memory of the machine (128 MB).\<close>

definition in_memory :: "(uint \<Rightarrow> uint \<Rightarrow> bool) \<Rightarrow> uint \<Rightarrow> uint \<Rightarrow> bool" where
  "in_memory avail sz new \<longleftrightarrow> avail sz new \<and> new \<le> 0x8000000"

section \<open>Headers\<close>

record header =
  s_ptr :: uint64
  s_size :: uint

record 'k uheap =
  hdr :: "uint64 \<Rightarrow> header"
  u_base :: uint64
  freep :: uint64
  kern :: 'k

text \<open>Pointer arithmetic on \<^verbatim>\<open>Header *\<close>, in units of 16 bytes.\<close>

definition hadd :: "uint64 \<Rightarrow> uint \<Rightarrow> uint64" where
  "hadd p n = p + 16 * ucast n"

definition set_ptr :: "uint64 \<Rightarrow> uint64 \<Rightarrow> 'k uheap \<Rightarrow> 'k uheap" where
  "set_ptr p v h = h\<lparr>hdr := (hdr h)(p := (hdr h p)\<lparr>s_ptr := v\<rparr>)\<rparr>"

definition set_size :: "uint64 \<Rightarrow> uint \<Rightarrow> 'k uheap \<Rightarrow> 'k uheap" where
  "set_size p n h = h\<lparr>hdr := (hdr h)(p := (hdr h p)\<lparr>s_size := n\<rparr>)\<rparr>"

section \<open>Free\<close>

text \<open>The search for the place of a block in the list, which is ordered by address.\<close>

partial_function (option) free_find :: "'k uheap \<Rightarrow> uint64 \<Rightarrow> uint64 \<Rightarrow> uint64 option" where
  "free_find h bp p =
     (let q = s_ptr (hdr h p)
      in if bp > p \<and> bp < q then Some p
         else if p \<ge> q \<and> (bp > p \<or> bp < q) then Some p
         else free_find h bp q)"

definition free_link :: "uint64 \<Rightarrow> uint64 \<Rightarrow> 'k uheap \<Rightarrow> 'k uheap" where
  "free_link bp p h =
     (let q = s_ptr (hdr h p);
          h = (if hadd bp (s_size (hdr h bp)) = q
               then set_ptr bp (s_ptr (hdr h q)) (set_size bp (s_size (hdr h bp) + s_size (hdr h q)) h)
               else set_ptr bp q h);
          h = (if hadd p (s_size (hdr h p)) = bp
               then set_ptr p (s_ptr (hdr h bp)) (set_size p (s_size (hdr h p) + s_size (hdr h bp)) h)
               else set_ptr p bp h)
      in h\<lparr>freep := p\<rparr>)"

definition u_free :: "uint64 \<Rightarrow> 'k uheap \<Rightarrow> 'k uheap option" where
  "u_free ap h =
     (let bp = ap - 16
      in map_option (\<lambda>p. free_link bp p h) (free_find h bp (freep h)))"

section \<open>Malloc\<close>

definition morecore :: "(int \<Rightarrow> 'k \<Rightarrow> uint64 \<times> 'k) \<Rightarrow> uint \<Rightarrow> 'k uheap \<Rightarrow> (uint64 \<times> 'k uheap) option" where
  "morecore sbrk nu h =
     (let nu = (if nu < 4096 then 4096 else nu);
          (p, k) = sbrk (sint (ucast (ucast nu * 16 :: uint64) :: uint)) (kern h);
          h = h\<lparr>kern := k\<rparr>
      in if p = -1 then Some (0, h)
         else map_option (\<lambda>h. (freep h, h)) (u_free (hadd p 1) (set_size p nu h)))"

text \<open>Taking \<open>nunits\<close> units from the block \<open>p\<close>, whose predecessor in the list is \<open>prevp\<close>.\<close>

definition malloc_take :: "uint \<Rightarrow> uint64 \<Rightarrow> uint64 \<Rightarrow> 'k uheap \<Rightarrow> uint64 \<times> 'k uheap" where
  "malloc_take nunits prevp p h =
     (let (p, h) = (if s_size (hdr h p) = nunits then (p, set_ptr prevp (s_ptr (hdr h p)) h)
                    else let h = set_size p (s_size (hdr h p) - nunits) h;
                             p = hadd p (s_size (hdr h p))
                         in (p, set_size p nunits h))
      in (hadd p 1, h\<lparr>freep := prevp\<rparr>))"

partial_function (option) malloc_loop ::
    "(int \<Rightarrow> 'k \<Rightarrow> uint64 \<times> 'k) \<Rightarrow> uint \<Rightarrow> uint64 \<Rightarrow> uint64 \<Rightarrow> 'k uheap \<Rightarrow> (uint64 \<times> 'k uheap) option" where
  "malloc_loop sbrk nunits prevp p h =
     (if s_size (hdr h p) \<ge> nunits then Some (malloc_take nunits prevp p h)
      else if p = freep h then
        (case morecore sbrk nunits h of
           None \<Rightarrow> None
         | Some (p, h) \<Rightarrow> if p = 0 then Some (0, h) else malloc_loop sbrk nunits p (s_ptr (hdr h p)) h)
      else malloc_loop sbrk nunits p (s_ptr (hdr h p)) h)"

definition malloc_units :: "uint \<Rightarrow> uint" where
  "malloc_units nbytes = ucast ((ucast nbytes + 16 - 1) div 16 + 1 :: uint64)"

text \<open>The free list of a program that has not allocated anything yet.\<close>

definition init_base :: "'k uheap \<Rightarrow> 'k uheap" where
  "init_base h =
     (if freep h = 0 then set_size (u_base h) 0 ((set_ptr (u_base h) (u_base h) h)\<lparr>freep := u_base h\<rparr>) else h)"

definition malloc :: "(int \<Rightarrow> 'k \<Rightarrow> uint64 \<times> 'k) \<Rightarrow> uint \<Rightarrow> 'k uheap \<Rightarrow> (uint64 \<times> 'k uheap) option" where
  "malloc sbrk nbytes h =
     (let h = init_base h; prevp = freep h
      in malloc_loop sbrk (malloc_units nbytes) prevp (s_ptr (hdr h prevp)) h)"

end
