(* ===== verification/UmallocSpec.thy ===== *)
theory UmallocSpec
  imports Umalloc Ulib
begin

text \<open>
  Correctness of the user memory allocator. The free list is the set of the addresses of its blocks, on which
  the pointers go from each block to the next higher one and from the highest to \<^verbatim>\<open>base\<close>. The heap is well
  formed when free and allocated blocks together tile the memory that \<^verbatim>\<open>sbrk\<close> gave to the program, and no two
  free blocks are adjacent.
\<close>

section \<open>Circular order on a set\<close>

definition nxt :: "uint64 set \<Rightarrow> uint64 \<Rightarrow> uint64" where
  "nxt A a = (if \<exists>b\<in>A. a < b then Min {b \<in> A. a < b} else Min A)"

definition steps_to :: "uint64 set \<Rightarrow> uint64 \<Rightarrow> uint64 \<Rightarrow> nat" where
  "steps_to A p q = (if p \<le> q then card {a \<in> A. p < a \<and> a \<le> q} else card {a \<in> A. p < a} + card {a \<in> A. a \<le> q})"

lemma nxt_in: "finite A \<Longrightarrow> A \<noteq> {} \<Longrightarrow> nxt A a \<in> A"
  using Min_in [of "{b \<in> A. a < b}"] Min_in [of A] by (auto simp: nxt_def)

lemma nxt_up: "finite A \<Longrightarrow> b \<in> A \<Longrightarrow> a < b \<Longrightarrow> (\<And>c. c \<in> A \<Longrightarrow> a < c \<Longrightarrow> b \<le> c) \<Longrightarrow> nxt A a = b"
  unfolding nxt_def by (auto intro!: Min_eqI)

lemma nxt_wrap: "finite A \<Longrightarrow> b \<in> A \<Longrightarrow> (\<And>c. c \<in> A \<Longrightarrow> c \<le> a \<and> b \<le> c) \<Longrightarrow> nxt A a = b"
  unfolding nxt_def by (auto intro!: Min_eqI simp: not_less[symmetric])

lemma nxt_cases:
  assumes "finite A" "A \<noteq> {}"
  obtains (up) "nxt A a \<in> A" "a < nxt A a" "\<And>c. c \<in> A \<Longrightarrow> a < c \<Longrightarrow> nxt A a \<le> c"
  | (wrap) "nxt A a \<in> A" "\<And>c. c \<in> A \<Longrightarrow> c \<le> a" "\<And>c. c \<in> A \<Longrightarrow> nxt A a \<le> c"
proof (cases "\<exists>b\<in>A. a < b")
  case True
  then have "{b \<in> A. a < b} \<noteq> {}" "finite {b \<in> A. a < b}" using assms by auto
  with True show thesis using Min_in [of "{b \<in> A. a < b}"] by (intro up) (auto simp: nxt_def)
next
  case False
  then show thesis using assms Min_in [of A] by (intro wrap) (auto simp: nxt_def not_less)
qed

text \<open>Insertion of \<open>b\<close> behind its predecessor, and removal of the successor \<open>q\<close> of \<open>p\<close>.\<close>

lemma nxt_insert:
  assumes "finite A" "p \<in> A" "p < b" "b \<notin> A" "\<And>c. c \<in> A \<Longrightarrow> c < b \<Longrightarrow> c \<le> p" "a \<in> insert b A"
  shows "nxt (insert b A) a = (if a = p then b else if a = b then nxt A p else nxt A a)"
proof -
  have pb: "c \<le> p \<or> b < c" if "c \<in> A" for c using assms(4,5) that by (metis linorder_neqE not_less)
  have pb': "b \<le> c" if "c \<in> A" "p < c" for c using pb [OF that(1)] that(2) by auto
  have ne: "A \<noteq> {}" using assms(2) by auto
  consider "a = p" | "a = b" | "a \<in> A" "a \<noteq> p" "a \<noteq> b" using assms(6) by auto
  then show ?thesis
  proof cases
    case 1
    then show ?thesis using assms(1-3) pb' by (auto intro!: nxt_up)
  next
    case 2
    have "nxt (insert b A) b = nxt A p"
    proof (rule nxt_cases [OF assms(1) ne, of p], goal_cases)
      case 1
      then show ?case using assms(1-3) pb [of "nxt A p"] by (intro nxt_up) auto
    next
      case 2
      have "c \<le> b" if "c \<in> A" for c using 2(2) [OF that] assms(3) by simp
      moreover from this [OF 2(1)] have "nxt A p \<le> b" .
      ultimately show ?case using 2 assms(1) by (intro nxt_wrap) auto
    qed
    then show ?thesis using 2 assms(3) by auto
  next
    case 3
    have "nxt (insert b A) a = nxt A a"
    proof (rule nxt_cases [OF assms(1) ne, of a], goal_cases)
      case 1
      have "nxt A a \<le> b" if "a < b"
      proof -
        have "a < p" using pb [OF 3(1)] 3(2) that by auto
        then show ?thesis using 1(3) [OF assms(2)] assms(3) by simp
      qed
      with 1 show ?case using assms(1) by (intro nxt_up) auto
    next
      case 2
      have "b < a" using 2(2) [OF assms(2)] pb [OF 3(1)] 3(2) by auto
      moreover have "nxt A a \<le> b" using 2(3) [OF assms(2)] assms(3) by simp
      ultimately show ?case using 2 assms(1) by (intro nxt_wrap) auto
    qed
    then show ?thesis using 3 by simp
  qed
qed

lemma nxt_remove:
  assumes "finite A" "p \<in> A" "q = nxt A p" "q \<noteq> p" "m \<in> A" "m < q" "a \<in> A - {q}"
  shows "nxt (A - {q}) a = (if a = p then nxt A q else nxt A a)"
proof -
  have q: "q \<in> A" using nxt_in [of A p] assms(1-3) by auto
  have up: "p < q" "\<And>c. c \<in> A \<Longrightarrow> p < c \<Longrightarrow> q \<le> c"
    using nxt_cases [of A p] assms by (metis empty_iff not_less)+
  let ?B = "A - {q}"
  have b: "finite ?B" "q \<notin> ?B" "insert q ?B = A" "p \<in> ?B" using assms q by auto
  have "nxt A a = (if a = p then q else if a = q then nxt ?B p else nxt ?B a)" if "a \<in> A" for a
    using nxt_insert [of ?B p q a] b up(1) that assms(2) up(2) by (metis DiffD1 not_le_imp_less not_less)
  from this [OF q] this [of a] assms(4,7) q show ?thesis by auto
qed

lemma steps_to_self [simp]: "steps_to A p p = 0"
proof -
  have "{a \<in> A. p < a \<and> a \<le> p} = {}" by auto
  then show ?thesis by (simp only: steps_to_def order_refl if_True card.empty)
qed

lemma steps_to_next:
  assumes "finite A" "p \<in> A" "q \<in> A" "p \<noteq> q"
  shows "steps_to A p q = Suc (steps_to A (nxt A p) q)"
proof -
  have ne: "A \<noteq> {}" using assms(2) by auto
  let ?n = "nxt A p"
  have cs: "card (insert ?n X) = Suc (card X)" if "?n \<notin> X" "X \<subseteq> A" for X
    using that assms(1) finite_subset card_insert_disjoint by metis
  show ?thesis
  proof (rule nxt_cases [OF assms(1) ne, of p], goal_cases)
    case 1
    have gt: "{a \<in> A. p < a \<and> P a} = (if P ?n then insert ?n {a \<in> A. ?n < a \<and> P a} else {a \<in> A. ?n < a \<and> P a})" for P
      using 1 by (auto dest: 1(3) simp: le_less)
    have nq: "?n \<le> q \<longleftrightarrow> p < q" using 1(2,3) assms(3) by (metis less_le_trans)
    show ?case using gt [of "\<lambda>a. a \<le> q"] gt [of "\<lambda>_. True"] nq assms(4) 1(1) cs
      by (cases "p < q") (auto simp: steps_to_def)
  next
    case 2
    have "{a \<in> A. p < a} = {}" "{a \<in> A. a \<le> q} = insert ?n {a \<in> A. ?n < a \<and> a \<le> q}"
      using 2 assms(3) by (auto simp: not_less le_less)
    moreover have "\<not> p \<le> q" "?n \<le> q" using 2(2,3) assms(3,4) by (auto dest: antisym)
    ultimately show ?case using cs [of "{a \<in> A. ?n < a \<and> a \<le> q}"] by (simp add: steps_to_def)
  qed
qed

text \<open>The walk from the successor of \<open>f\<close> visits every element before \<open>f\<close>.\<close>

lemma steps_to_last:
  assumes "finite A" "f \<in> A" "q \<in> A"
  shows "steps_to A (nxt A f) q \<le> steps_to A (nxt A f) f"
proof -
  have ne: "A \<noteq> {}" using assms(2) by auto
  let ?n = "nxt A f"
  show ?thesis
  proof (rule nxt_cases [OF assms(1) ne, of f], goal_cases)
    case 1
    have "card {a \<in> A. ?n < a \<and> a \<le> q} \<le> card {a \<in> A. ?n < a}" by (intro card_mono) (use assms(1) in auto)
    moreover have "card {a \<in> A. a \<le> q} \<le> card {a \<in> A. a \<le> f}" if "\<not> ?n \<le> q"
    proof (intro card_mono)
      have "q \<le> f" using 1(3) [OF assms(3)] that by (meson not_less)
      then show "{a \<in> A. a \<le> q} \<subseteq> {a \<in> A. a \<le> f}" by auto
    qed (use assms(1) in auto)
    moreover have "\<not> ?n \<le> f" using 1(2) by simp
    ultimately show ?case by (simp add: steps_to_def)
  next
    case 2
    have "card {a \<in> A. ?n < a \<and> a \<le> q} \<le> card {a \<in> A. ?n < a \<and> a \<le> f}"
      using 2(2) assms(1) by (intro card_mono) auto
    then show ?case using 2(3) assms(2,3) by (simp add: steps_to_def)
  qed
qed

section \<open>Blocks that tile a region\<close>

definition tiles :: "nat \<Rightarrow> nat \<Rightarrow> uint64 set \<Rightarrow> (uint64 \<Rightarrow> nat) \<Rightarrow> bool" where
  "tiles lo hi S z \<longleftrightarrow>
     (\<forall>a\<in>S. 0 < z a \<and> lo \<le> unat a \<and> unat a + 16 * z a \<le> hi) \<and>
     (\<forall>a\<in>S. \<forall>b\<in>S. a < b \<longrightarrow> unat a + 16 * z a \<le> unat b) \<and>
     (\<forall>x. lo \<le> x \<and> x < hi \<longrightarrow> (\<exists>a\<in>S. unat a \<le> x \<and> x < unat a + 16 * z a))"

lemma tiles_cong: "tiles lo hi S z \<Longrightarrow> (\<And>a. a \<in> S \<Longrightarrow> z' a = z a) \<Longrightarrow> tiles lo hi S z'"
  unfolding tiles_def by simp

lemma tilesD:
  assumes "tiles lo hi S z" "a \<in> S"
  shows "0 < z a" "lo \<le> unat a" "unat a + 16 * z a \<le> hi" "\<And>b. b \<in> S \<Longrightarrow> a < b \<Longrightarrow> unat a + 16 * z a \<le> unat b"
  using assms unfolding tiles_def by blast+

lemma tiles_cover: "tiles lo hi S z \<Longrightarrow> lo \<le> x \<Longrightarrow> x < hi \<Longrightarrow> \<exists>a\<in>S. unat a \<le> x \<and> x < unat a + 16 * z a"
  unfolding tiles_def by blast

lemma tilesI:
  assumes "\<And>a. a \<in> S \<Longrightarrow> 0 < z a \<and> lo \<le> unat a \<and> unat a + 16 * z a \<le> hi"
    "\<And>a b. a \<in> S \<Longrightarrow> b \<in> S \<Longrightarrow> a < b \<Longrightarrow> unat a + 16 * z a \<le> unat b"
    "\<And>x. lo \<le> x \<Longrightarrow> x < hi \<Longrightarrow> \<exists>a\<in>S. unat a \<le> x \<and> x < unat a + 16 * z a"
  shows "tiles lo hi S z"
  unfolding tiles_def using assms by (intro conjI ballI allI impI) auto

lemma tiles_merge:
  assumes t: "tiles lo hi S z" and a: "a \<in> S" "b \<in> S" "unat a + 16 * z a = unat b"
  shows "tiles lo hi (S - {b}) (z(a := z a + z b))"
proof (rule tilesI)
  have ab: "a < b" using tilesD(1) [OF t a(1)] a(3) by (simp add: word_less_nat_alt)
  show "0 < (z(a := z a + z b)) c \<and> lo \<le> unat c \<and> unat c + 16 * (z(a := z a + z b)) c \<le> hi" if "c \<in> S - {b}" for c
    using that tilesD(1-3) [OF t, of c] tilesD(3) [OF t a(2)] a by auto
  show "unat c + 16 * (z(a := z a + z b)) c \<le> unat d" if "c \<in> S - {b}" "d \<in> S - {b}" "c < d" for c d
  proof (cases "c = a")
    case True
    then have "b \<le> d" using that tilesD(4) [OF t a(1), of d] a(3) by (auto simp: word_le_nat_alt)
    with that have "b < d" by auto
    then show ?thesis using True that tilesD(4) [OF t a(2), of d] a(3) by auto
  qed (use that tilesD(4) [OF t, of c d] in auto)
  show "\<exists>c\<in>S - {b}. unat c \<le> x \<and> x < unat c + 16 * (z(a := z a + z b)) c" if x: "lo \<le> x" "x < hi" for x
  proof -
    obtain c where c: "c \<in> S" "unat c \<le> x" "x < unat c + 16 * z c" using tiles_cover [OF t x] by blast
    show ?thesis
    proof (cases "c = b")
      case True
      then show ?thesis using a ab c by (intro bexI [of _ a]) auto
    qed (use c in auto)
  qed
qed

lemma tiles_split:
  assumes t: "tiles lo hi S z" and p: "p \<in> S" "0 < m" "m < z p" "unat r = unat p + 16 * m"
  shows "r \<notin> S \<and> tiles lo hi (insert r S) (z(p := m, r := z p - m))"
proof
  have pr: "p < r" using p by (simp add: word_less_nat_alt)
  show r: "r \<notin> S" using tilesD(4) [OF t p(1), of r] pr p by auto
  let ?z = "z(p := m, r := z p - m)"
  have rp: "r \<noteq> p" using pr by auto
  show "tiles lo hi (insert r S) ?z"
  proof (rule tilesI)
    have "0 < ?z c \<and> lo \<le> unat c \<and> unat c + 16 * ?z c \<le> hi" if "c \<in> S" "c \<noteq> p" for c
      using tilesD(1-3) [OF t that(1)] that r by auto
    moreover have "0 < ?z c \<and> lo \<le> unat c \<and> unat c + 16 * ?z c \<le> hi" if "c = r \<or> c = p" for c
      using that tilesD(2,3) [OF t p(1)] p(2-4) rp by auto
    ultimately show "0 < ?z c \<and> lo \<le> unat c \<and> unat c + 16 * ?z c \<le> hi" if "c \<in> insert r S" for c
      using that by blast
    show "unat c + 16 * ?z c \<le> unat d" if cd: "c \<in> insert r S" "d \<in> insert r S" "c < d" for c d
    proof -
      consider "c = r" | "d = r" "c \<noteq> r" | "c \<noteq> r" "d \<noteq> r" by blast
      then show ?thesis
      proof cases
        case 1
        then have "p < d" "d \<in> S" using cd pr by auto
        then show ?thesis using 1 tilesD(4) [OF t p(1), of d] p by auto
      next
        case 2
        then have "c \<noteq> p \<longrightarrow> c < p"
          using cd tilesD(4) [OF t p(1), of c] tilesD(1) [OF t, of c] p by (auto simp: word_less_nat_alt linorder_neq_iff)
        then show ?thesis using 2 cd tilesD(4) [OF t, of c p] p by auto
      next
        case 3
        then show ?thesis using cd tilesD(4) [OF t, of c d] p by auto
      qed
    qed
    show "\<exists>c\<in>insert r S. unat c \<le> x \<and> x < unat c + 16 * ?z c" if x: "lo \<le> x" "x < hi" for x
    proof -
      obtain c where c: "c \<in> S" "unat c \<le> x" "x < unat c + 16 * z c" using tiles_cover [OF t x] by blast
      show ?thesis
      proof (cases "c = p")
        case True
        then show ?thesis using c p rp by (cases "x < unat r") (auto intro: bexI [of _ p])
      qed (use c r in auto)
    qed
  qed
qed

lemma tiles_grow:
  assumes t: "tiles lo hi S z" and p: "unat p = hi" "0 < n" "lo \<le> hi"
  shows "p \<notin> S \<and> tiles lo (hi + 16 * n) (insert p S) (z(p := n))"
proof
  show np: "p \<notin> S" using tilesD(1,3) [OF t, of p] p by auto
  have lt: "c < p" if "c \<in> S" for c using tilesD(1,3) [OF t that] p by (simp add: word_less_nat_alt)
  show "tiles lo (hi + 16 * n) (insert p S) (z(p := n))"
  proof (rule tilesI)
    show "\<exists>c\<in>insert p S. unat c \<le> x \<and> x < unat c + 16 * (z(p := n)) c" if "lo \<le> x" "x < hi + 16 * n" for x
      using tiles_cover [OF t that(1)] that p np by (cases "x < hi") auto
    show "unat a + 16 * (z(p := n)) a \<le> unat b" if "a \<in> insert p S" "b \<in> insert p S" "a < b" for a b
      using that lt [of b] lt [of a] np tilesD(3) [OF t, of a] tilesD(4) [OF t, of a b] p by auto
  qed (use np p tilesD(1-3) [OF t] in \<open>auto intro: trans_le_add1\<close>)
qed

section \<open>Well-formed heaps\<close>

definition units :: "'k uheap \<Rightarrow> uint64 \<Rightarrow> nat" where
  "units h a = unat (s_size (hdr h a))"

definition heap_core :: "uint64 set \<Rightarrow> uint64 set \<Rightarrow> nat \<Rightarrow> nat \<Rightarrow> 'k uheap \<Rightarrow> bool" where
  "heap_core A B lo hi h \<longleftrightarrow> finite A \<and> u_base h \<in> A \<and> units h (u_base h) = 0 \<and> unat (u_base h) < lo \<and>
     0 < u_base h \<and> lo \<le> hi \<and> hi < 2 ^ 31 \<and> A \<inter> B = {} \<and> tiles lo hi (A - {u_base h} \<union> B) (units h)"

definition heap_ok :: "uint64 set \<Rightarrow> uint64 set \<Rightarrow> nat \<Rightarrow> nat \<Rightarrow> 'k uheap \<Rightarrow> bool" where
  "heap_ok A B lo hi h \<longleftrightarrow> heap_core A B lo hi h \<and> freep h \<in> A \<and> (\<forall>a\<in>A. s_ptr (hdr h a) = nxt A a) \<and>
     (\<forall>a\<in>A. \<forall>b\<in>A. a < b \<longrightarrow> unat a + 16 * units h a \<noteq> unat b)"

text \<open>In the middle of \<^verbatim>\<open>free\<close>: the block \<open>bp\<close> is in the list, but its predecessor \<open>p\<close> does not point to it yet.\<close>

definition heap_half :: "uint64 set \<Rightarrow> uint64 set \<Rightarrow> nat \<Rightarrow> nat \<Rightarrow> uint64 \<Rightarrow> uint64 \<Rightarrow> 'k uheap \<Rightarrow> bool" where
  "heap_half A B lo hi bp p h \<longleftrightarrow> heap_core A B lo hi h \<and> p \<in> A \<and> bp \<in> A \<and> p < bp \<and> nxt A p = bp \<and>
     (\<forall>a\<in>A - {p}. s_ptr (hdr h a) = nxt A a) \<and>
     (\<forall>a\<in>A. \<forall>b\<in>A. a < b \<longrightarrow> unat a + 16 * units h a = unat b \<longrightarrow> a = p \<and> b = bp)"

lemma heap_halfI:
  assumes "heap_core A B lo hi h" "p \<in> A" "bp \<in> A" "p < bp" "nxt A p = bp"
    "\<And>a. a \<in> A \<Longrightarrow> a \<noteq> p \<Longrightarrow> s_ptr (hdr h a) = nxt A a"
    "units h = z" "\<And>a b. a \<in> A \<Longrightarrow> b \<in> A \<Longrightarrow> a < b \<Longrightarrow> unat a + 16 * z a = unat b \<Longrightarrow> a = p \<and> b = bp"
  shows "heap_half A B lo hi bp p h"
  unfolding heap_half_def using assms(1-6) assms(8) [folded assms(7)] by blast

lemma heap_okI:
  assumes "heap_core A B lo hi h" "freep h \<in> A" "\<And>a. a \<in> A \<Longrightarrow> s_ptr (hdr h a) = nxt A a"
    "units h = z" "\<And>a b. a \<in> A \<Longrightarrow> b \<in> A \<Longrightarrow> a < b \<Longrightarrow> unat a + 16 * z a \<noteq> unat b"
  shows "heap_ok A B lo hi h"
  unfolding heap_ok_def using assms(1-3) assms(5) [folded assms(4)] by blast

lemma heap_simps [simp]:
  "u_base (set_ptr p v h) = u_base h" "u_base (set_size p n h) = u_base h"
  "kern (set_ptr p v h) = kern h" "kern (set_size p n h) = kern h"
  "freep (set_ptr p v h) = freep h" "freep (set_size p n h) = freep h"
  "s_ptr (hdr (set_ptr p v h) a) = (if a = p then v else s_ptr (hdr h a))"
  "s_ptr (hdr (set_size p n h) a) = s_ptr (hdr h a)"
  "s_size (hdr (set_ptr p v h) a) = s_size (hdr h a)"
  "s_size (hdr (set_size p n h) a) = (if a = p then n else s_size (hdr h a))"
  "units (set_ptr p v h) = units h" "units (set_size p n h) = (units h)(p := unat n)"
  "units (h\<lparr>freep := f\<rparr>) = units h" "units (h\<lparr>kern := k\<rparr>) = units h"
  by (auto simp: set_ptr_def set_size_def units_def fun_eq_iff)

lemma heap_core_upd [simp]:
  "heap_core A B lo hi (set_ptr p v h) = heap_core A B lo hi h"
  "heap_core A B lo hi (h\<lparr>freep := f\<rparr>) = heap_core A B lo hi h"
  "heap_core A B lo hi (h\<lparr>kern := k\<rparr>) = heap_core A B lo hi h"
  by (simp_all add: heap_core_def)

text \<open>Ends of blocks do not wrap around.\<close>

lemma unat_hadd: "unat p + 16 * unat n < 2 ^ 64 \<Longrightarrow> unat (hadd p n) = unat p + 16 * unat n"
  using unsigned_less [of n, where ?'a = nat] by (simp add: hadd_def unat_word_ariths unsigned_ucast_eq take_bit_nat_eq_self)

lemma heap_end:
  assumes "heap_core A B lo hi h" "a \<in> A \<union> B"
  shows "unat a + 16 * units h a \<le> hi" "unat (hadd a (s_size (hdr h a))) = unat a + 16 * units h a" "16 * units h a < 2 ^ 31"
proof -
  show 1: "unat a + 16 * units h a \<le> hi"
    using assms tilesD(3) [of lo hi "A - {u_base h} \<union> B" "units h" a] by (cases "a = u_base h") (auto simp: heap_core_def)
  then show "unat (hadd a (s_size (hdr h a))) = unat a + 16 * units h a" "16 * units h a < 2 ^ 31"
    using assms(1) unfolding heap_core_def by (auto simp: units_def intro!: unat_hadd)
qed

lemma heap_base_le:
  assumes "heap_core A B lo hi h" "a \<in> A \<union> B" "a \<noteq> u_base h"
  shows "u_base h < a" "0 < units h a" "lo \<le> unat a"
  using assms tilesD(1,2) [of lo hi "A - {u_base h} \<union> B" "units h" a] by (auto simp: heap_core_def word_less_nat_alt)

section \<open>Free\<close>

lemma free_find_returns:
  assumes h: "heap_ok A B lo hi h" and bp: "bp \<in> B" and p: "p \<in> A"
  obtains p0 where "free_find h bp p = Some p0" "p0 \<in> A" "p0 < bp" "\<And>c. c \<in> A \<Longrightarrow> c < bp \<Longrightarrow> c \<le> p0"
proof -
  have c: "heap_core A B lo hi h" and fin: "finite A" "u_base h \<in> A" "bp \<notin> A"
    and ring: "\<And>a. a \<in> A \<Longrightarrow> s_ptr (hdr h a) = nxt A a"
    using h bp by (auto simp: heap_ok_def heap_core_def)
  have base: "u_base h < bp" using heap_base_le [OF c, of bp] bp fin by auto
  have minb: "u_base h \<le> c" if "c \<in> A" for c using heap_base_le(1) [OF c, of c] that by (cases "c = u_base h") auto
  define p0 where "p0 = Max {c \<in> A. c < bp}"
  have "p0 \<in> {c \<in> A. c < bp}" unfolding p0_def using fin base by (intro Max_in) auto
  then have p0: "p0 \<in> A" "p0 < bp" "\<And>c. c \<in> A \<Longrightarrow> c < bp \<Longrightarrow> c \<le> p0"
    using fin(1) by (auto simp: p0_def intro: Max_ge)
  have "free_find h bp p = Some p0"
    using p
  proof (induction "steps_to A p p0" arbitrary: p rule: less_induct)
    case (less p)
    have ne: "A \<noteq> {}" using fin by auto
    have step: "free_find h bp p = (if p < bp \<and> bp < nxt A p \<or> nxt A p \<le> p \<and> (p < bp \<or> bp < nxt A p) then Some p
        else free_find h bp (nxt A p))"
      by (subst free_find.simps) (auto simp add: Let_def ring less.prems)
    show ?case
    proof (cases "p = p0")
      case True
      have "p < bp \<and> bp < nxt A p \<or> nxt A p \<le> p"
      proof (rule nxt_cases [OF fin(1) ne, of p], goal_cases)
        case 1
        then show ?case using p0(2,3) True fin(3) by (metis linorder_neqE not_less)
      qed (use less.prems in auto)
      then show ?thesis using True p0(2) step by auto
    next
      case False
      have n: "nxt A p \<in> A" using nxt_in [OF fin(1) ne] .
      have "\<not> (p < bp \<and> bp < nxt A p \<or> nxt A p \<le> p \<and> (p < bp \<or> bp < nxt A p))"
      proof (rule nxt_cases [OF fin(1) ne, of p], goal_cases)
        case 1
        have "nxt A p < bp" if "p < bp"
          using p0(3) [OF less.prems that] False 1(3) [OF p0(1)] p0(2) by (auto simp: le_less)
        then show ?case using 1(2) by auto
      next
        case 2
        have "nxt A p = u_base h" using 2 minb fin(2) by (auto intro: antisym)
        moreover have "\<not> p < bp" using False 2(2) [OF p0(1)] p0(3) less.prems by (auto dest: antisym)
        ultimately show ?case using base by auto
      qed
      then show ?thesis
        using step less.hyps [OF _ n] steps_to_next [OF fin(1) less.prems p0(1) False] by auto
    qed
  qed
  with p0 that show thesis by blast
qed

text \<open>The first half of \<^verbatim>\<open>free\<close>: the block joins its upper neighbour when they are adjacent.\<close>

definition free_up :: "uint64 \<Rightarrow> uint64 \<Rightarrow> 'k uheap \<Rightarrow> 'k uheap" where
  "free_up bp q h = (if hadd bp (s_size (hdr h bp)) = q
     then set_ptr bp (s_ptr (hdr h q)) (set_size bp (s_size (hdr h bp) + s_size (hdr h q)) h) else set_ptr bp q h)"

definition free_low :: "uint64 \<Rightarrow> uint64 \<Rightarrow> 'k uheap \<Rightarrow> 'k uheap" where
  "free_low bp p h = (if hadd p (s_size (hdr h p)) = bp
     then set_ptr p (s_ptr (hdr h bp)) (set_size p (s_size (hdr h p) + s_size (hdr h bp)) h) else set_ptr p bp h)"

lemma free_link_eq: "free_link bp p h = (free_low bp p (free_up bp (s_ptr (hdr h p)) h))\<lparr>freep := p\<rparr>"
  by (simp add: free_link_def free_low_def free_up_def Let_def)

lemma size_sum:
  assumes "heap_core A B lo hi h" "a \<in> A \<union> B" "b \<in> A \<union> B"
  shows "unat (s_size (hdr h a) + s_size (hdr h b)) = units h a + units h b"
  using heap_end(3) [OF assms(1,2)] heap_end(3) [OF assms(1,3)] by (simp add: units_def unat_word_ariths)

text \<open>The place \<open>p\<close> of an allocated block \<open>bp\<close> in the list.\<close>

definition free_place :: "uint64 set \<Rightarrow> uint64 set \<Rightarrow> nat \<Rightarrow> nat \<Rightarrow> uint64 \<Rightarrow> uint64 \<Rightarrow> 'k uheap \<Rightarrow> bool" where
  "free_place A B lo hi bp p h \<longleftrightarrow> heap_ok A B lo hi h \<and> bp \<in> B \<and> p \<in> A \<and> p < bp \<and> (\<forall>c\<in>A. c < bp \<longrightarrow> c \<le> p)"

lemma free_placeD:
  assumes "free_place A B lo hi bp p h"
  shows "heap_core A B lo hi h" "finite A" "bp \<in> B" "bp \<notin> A" "p \<in> A" "p < bp" "bp \<noteq> u_base h" "u_base h < bp"
    "\<And>c. c \<in> A \<Longrightarrow> c < bp \<Longrightarrow> c \<le> p" "\<And>a. a \<in> A \<Longrightarrow> s_ptr (hdr h a) = nxt A a"
    "\<And>a b. a \<in> A \<Longrightarrow> b \<in> A \<Longrightarrow> a < b \<Longrightarrow> unat a + 16 * units h a \<noteq> unat b"
    "insert bp A - {u_base h} \<union> (B - {bp}) = A - {u_base h} \<union> B"
  using assms heap_base_le(1) [of A B lo hi h bp] by (auto simp: free_place_def heap_ok_def heap_core_def)

lemma block_below:
  assumes "heap_core A B lo hi h" "a \<in> A \<union> B" "b \<in> A \<union> B" "a < b"
  shows "unat a + 16 * units h a \<le> unat b"
proof (cases "a = u_base h")
  case True
  then show ?thesis using assms(1,4) by (simp add: heap_core_def word_less_nat_alt)
next
  case False
  then have "b \<noteq> u_base h" using heap_base_le(1) [OF assms(1,2)] assms(4) by auto
  with False show ?thesis using assms by (intro tilesD(4) [of lo hi "A - {u_base h} \<union> B"]) (auto simp: heap_core_def)
qed

lemma free_place_next:
  assumes f: "free_place A B lo hi bp p h" and b: "b \<in> A" "unat bp + 16 * units h bp = unat b"
  shows "b = nxt A p"
proof -
  note d = free_placeD [OF f]
  have "0 < units h bp" using heap_base_le(2) [OF d(1)] d(3,7) by auto
  then have "bp < b" using b(2) by (simp add: word_less_nat_alt)
  have "nxt A p = b"
  proof (rule nxt_up [OF d(2) b(1)])
    show "p < b" using \<open>bp < b\<close> d(6) by simp
    show "b \<le> c" if "c \<in> A" "p < c" for c
    proof -
      have "bp < c" using that d(4) d(9) [OF that(1)] by (metis linorder_neqE not_less)
      then show ?thesis using block_below [OF d(1), of bp c] d(3) that b by (simp add: word_le_nat_alt)
    qed
  qed
  then show ?thesis by simp
qed

lemma free_place_prev:
  assumes f: "free_place A B lo hi bp p h" and a: "a \<in> A" "a < bp" "unat a + 16 * units h a = unat bp"
  shows "a = p"
proof (rule ccontr)
  note d = free_placeD [OF f]
  assume "a \<noteq> p"
  then have "a < p" using d(9) [OF a(1,2)] by simp
  then have "unat a + 16 * units h a \<le> unat p" using block_below [OF d(1), of a p] a(1) d(5) by simp
  then show False using a(3) d(6) by (simp add: word_less_nat_alt)
qed

lemma free_up_half:
  assumes f: "free_place A B lo hi bp p h"
  obtains A' where "heap_half A' (B - {bp}) lo hi bp p (free_up bp (s_ptr (hdr h p)) h)" "A' \<subseteq> insert bp A"
proof -
  note d = free_placeD [OF f]
  let ?q = "nxt A p"
  have ne: "A \<noteq> {}" using d(5) by auto
  have q: "s_ptr (hdr h p) = ?q" "?q \<in> A" using d(10) [OF d(5)] nxt_in [OF d(2) ne] by auto
  have e: "unat (hadd bp (s_size (hdr h bp))) = unat bp + 16 * units h bp" using heap_end(2) [OF d(1)] d(3) by simp
  have ins: "nxt (insert bp A) a = (if a = p then bp else if a = bp then ?q else nxt A a)" if "a \<in> insert bp A" for a
    using nxt_insert [OF d(2,5,6,4) d(9) that] .
  show thesis
  proof (cases "hadd bp (s_size (hdr h bp)) = ?q")
    case False
    then have ne: "unat bp + 16 * units h bp \<noteq> unat b" if "b \<in> A" for b using free_place_next [OF f that] e by (auto simp: word_unat_eq_iff)
    have core: "heap_core (insert bp A) (B - {bp}) lo hi (set_ptr bp ?q h)" using d(1,12) by (auto simp: heap_core_def)
    have gap: "a = p \<and> b = bp" if "a \<in> insert bp A" "b \<in> insert bp A" "a < b" "unat a + 16 * units h a = unat b" for a b
    proof -
      have "a \<in> A" using that(1-4) ne [of b] by auto
      moreover from this have "b = bp" using that(2-4) d(11) by blast
      ultimately show ?thesis using that(3,4) free_place_prev [OF f] by simp
    qed
    have ring: "s_ptr (hdr (set_ptr bp ?q h) a) = nxt (insert bp A) a" if "a \<in> insert bp A" "a \<noteq> p" for a
      using that ins [OF that(1)] d(10) [of a] by (cases "a = bp") simp_all
    have "nxt (insert bp A) p = bp" using ins [of p] d(5) by simp
    from heap_halfI [OF core _ _ d(6) this ring _ gap] d(5)
    have "heap_half (insert bp A) (B - {bp}) lo hi bp p (set_ptr bp ?q h)" by simp
    then show thesis using False that [of "insert bp A"] q by (simp add: free_up_def)
  next
    case True
    then have uq: "unat bp + 16 * units h bp = unat ?q" using e by simp
    have bq: "bp < ?q" using heap_base_le(2) [OF d(1), of bp] d(3,7) uq by (simp add: word_less_nat_alt)
    have pq: "p < ?q" "?q \<noteq> p" "u_base h < ?q" using bq d(6,8) by auto
    let ?A = "insert bp (A - {?q})" and ?h = "set_size bp (s_size (hdr h bp) + s_size (hdr h ?q)) h"
    have un: "units ?h = (units h)(bp := units h bp + units h ?q)"
      using size_sum [OF d(1), of bp ?q] d(3) q(2) by simp
    have S: "?A - {u_base h} \<union> (B - {bp}) = A - {u_base h} \<union> B - {?q}"
      using d(1,3,7) q(2) bq by (auto simp: heap_core_def)
    have t: "tiles lo hi (?A - {u_base h} \<union> (B - {bp})) (units ?h)"
      unfolding S un using d(1,3) q(2) uq pq(3) by (intro tiles_merge) (auto simp: heap_core_def)
    have core: "heap_core ?A (B - {bp}) lo hi (set_ptr bp (nxt A ?q) ?h)"
      using d(1,7) t un pq(3) by (auto simp: heap_core_def)
    have rem: "nxt (A - {?q}) a = (if a = p then nxt A ?q else nxt A a)" if "a \<in> A - {?q}" for a
      using nxt_remove [OF d(2,5) refl pq(2) _ pq(3) that] d(1) by (simp add: heap_core_def)
    have ins': "nxt ?A a = (if a = p then bp else if a = bp then nxt (A - {?q}) p else nxt (A - {?q}) a)" if "a \<in> ?A" for a
      using that d(2,4,5,6,9) pq(2) by (intro nxt_insert) auto
    have gap: "a = p \<and> b = bp" if "a \<in> ?A" "b \<in> ?A" "a < b" "unat a + 16 * units ?h a = unat b" for a b
    proof -
      have "unat ?q + 16 * units h ?q \<noteq> unat b" if "b \<in> A"
      proof
        assume eq: "unat ?q + 16 * units h ?q = unat b"
        have "0 < units h ?q" using heap_base_le(2) [OF d(1), of ?q] q(2) pq(3) by auto
        with eq have "?q < b" by (simp add: word_less_nat_alt)
        with d(11) [OF q(2) that] eq show False by simp
      qed
      then have "a \<noteq> bp" using that(2-4) uq unfolding un by (cases "b = bp") auto
      then have a: "a \<in> A" "unat a + 16 * units h a = unat b" using that(1,4) unfolding un by auto
      moreover from this have "b = bp" using that(2,3) d(11) by blast
      ultimately show ?thesis using that(3) free_place_prev [OF f] by simp
    qed
    have ring: "s_ptr (hdr (set_ptr bp (nxt A ?q) ?h) a) = nxt ?A a" if "a \<in> ?A" "a \<noteq> p" for a
      using that ins' [OF that(1)] rem [of p] rem [of a] d(5) d(10) [of a] pq(2) by (cases "a = bp") simp_all
    have "nxt ?A p = bp" using ins' [of p] d(5) pq(2) by simp
    from heap_halfI [OF core _ _ d(6) this ring _ gap] d(5) pq(2)
    have "heap_half ?A (B - {bp}) lo hi bp p (set_ptr bp (nxt A ?q) ?h)" by simp
    then show thesis using True that [of ?A] q d(10) [OF q(2)] by (auto simp: free_up_def)
  qed
qed

text \<open>The second half: the block joins its lower neighbour, or is linked behind it.\<close>

lemma free_low_ok:
  assumes f: "heap_half A B lo hi bp p h"
  defines "h' \<equiv> (free_low bp p h)\<lparr>freep := p\<rparr>"
  obtains A' where "heap_ok A' B lo hi h'" "A' \<subseteq> A" "\<exists>a\<in>A'. units h bp \<le> units h' a"
proof -
  have d: "heap_core A B lo hi h" "p \<in> A" "bp \<in> A" "p < bp" "nxt A p = bp" "\<And>a. a \<in> A \<Longrightarrow> a \<noteq> p \<Longrightarrow> s_ptr (hdr h a) = nxt A a"
    and gap: "\<And>a b. a \<in> A \<Longrightarrow> b \<in> A \<Longrightarrow> a < b \<Longrightarrow> unat a + 16 * units h a = unat b \<Longrightarrow> a = p \<and> b = bp"
    using f unfolding heap_half_def by blast+
  have fin: "finite A" "bp \<notin> B" "u_base h \<in> A" "p \<noteq> bp" using d(1,3,4) by (auto simp: heap_core_def)
  have bb: "bp \<noteq> u_base h" using heap_base_le(1) [OF d(1), of p] d(2,4) by (cases "p = u_base h") auto
  have e: "unat (hadd p (s_size (hdr h p))) = unat p + 16 * units h p" using heap_end(2) [OF d(1)] d(2) by simp
  show thesis
  proof (cases "hadd p (s_size (hdr h p)) = bp")
    case False
    have core: "heap_core A B lo hi ((set_ptr p bp h)\<lparr>freep := p\<rparr>)" using d(1) by simp
    have ring: "s_ptr (hdr ((set_ptr p bp h)\<lparr>freep := p\<rparr>) a) = nxt A a" if "a \<in> A" for a using d(5) d(6) [OF that] by simp
    have gap': "unat a + 16 * units h a \<noteq> unat b" if "a \<in> A" "b \<in> A" "a < b" for a b
    proof
      assume "unat a + 16 * units h a = unat b"
      with gap [OF that this] have "unat (hadd p (s_size (hdr h p))) = unat bp" using e by simp
      with False show False by (simp only: word_unat_eq_iff)
    qed
    from heap_okI [OF core _ ring _ gap'] d(2)
    have "heap_ok A B lo hi ((set_ptr p bp h)\<lparr>freep := p\<rparr>)" by simp
    then show thesis using False that [of A] d(3) by (auto simp: h'_def free_low_def)
  next
    case True
    have uq: "unat p + 16 * units h p = unat bp" using e True by simp
    have pb: "p \<noteq> u_base h" using uq d(1,4) by (auto simp: heap_core_def word_less_nat_alt)
    define h1 where "h1 = (set_ptr p (s_ptr (hdr h bp)) (set_size p (s_size (hdr h p) + s_size (hdr h bp)) h))\<lparr>freep := p\<rparr>"
    have un: "units h1 = (units h)(p := units h p + units h bp)"
      using size_sum [OF d(1), of p bp] d(2,3) by (simp add: h1_def)
    have S: "A - {bp} - {u_base h} \<union> B = A - {u_base h} \<union> B - {bp}" using fin(2) by auto
    have t: "tiles lo hi (A - {bp} - {u_base h} \<union> B) (units h1)"
      unfolding S un using d(1-3) uq pb bb by (intro tiles_merge) (auto simp: heap_core_def)
    have ub: "u_base h1 = u_base h" "freep h1 = p" by (simp_all add: h1_def)
    have core: "heap_core (A - {bp}) B lo hi h1"
      using d(1) t un bb pb ub by (auto simp: heap_core_def)
    have lt: "u_base h < bp" using heap_base_le(1) [OF d(1), of bp] d(3) bb by simp
    have rem: "nxt (A - {bp}) a = (if a = p then nxt A bp else nxt A a)" if "a \<in> A - {bp}" for a
      using nxt_remove [OF fin(1) d(2) d(5) [symmetric] fin(4) [symmetric] fin(3) lt that] .
    have ring: "s_ptr (hdr h1 a) = nxt (A - {bp}) a" if "a \<in> A - {bp}" for a
      using that rem [OF that] d(6) [of a] d(6) [OF d(3)] fin(4) by (simp add: h1_def)
    have gap': "unat a + 16 * ((units h)(p := units h p + units h bp)) a \<noteq> unat b" if "a \<in> A - {bp}" "b \<in> A - {bp}" "a < b" for a b
    proof
      assume "unat a + 16 * ((units h)(p := units h p + units h bp)) a = unat b"
      moreover have "bp < b" if "unat bp + 16 * units h bp = unat b"
        using that heap_base_le(2) [OF d(1), of bp] d(3) bb by (simp add: word_less_nat_alt)
      ultimately show False using gap [of a b] gap [OF d(3), of b] that uq fin(4) by (auto split: if_splits)
    qed
    from heap_okI [OF core _ ring un gap'] d(2) fin(4) ub
    have "heap_ok (A - {bp}) B lo hi h1" by simp
    moreover have "h' = h1" using True by (simp add: h'_def h1_def free_low_def)
    moreover have "\<exists>a\<in>A - {bp}. units h bp \<le> units h1 a" using un d(2) fin(4) by (intro bexI [of _ p]) auto
    ultimately show thesis using that [of "A - {bp}"] by auto
  qed
qed

lemma free_link_frame:
  "kern (free_link bp p h) = kern h" "u_base (free_link bp p h) = u_base h" "freep (free_link bp p h) = p"
  "a \<noteq> bp \<Longrightarrow> a \<noteq> p \<Longrightarrow> hdr (free_link bp p h) a = hdr h a"
  by (auto simp: free_link_eq free_low_def free_up_def set_ptr_def set_size_def)

lemma u_free_ok:
  assumes h: "heap_ok A B lo hi h" and bp: "bp \<in> B"
  obtains h' A' where "u_free (bp + 16) h = Some h'" "heap_ok A' (B - {bp}) lo hi h'" "A' \<subseteq> insert bp A"
    "\<And>c. c \<in> B \<Longrightarrow> c \<noteq> bp \<Longrightarrow> hdr h' c = hdr h c" "kern h' = kern h" "u_base h' = u_base h" "\<exists>a\<in>A'. units h bp \<le> units h' a"
proof -
  have fp: "freep h \<in> A" "A \<inter> B = {}" using h by (auto simp: heap_ok_def heap_core_def)
  obtain p where p: "free_find h bp (freep h) = Some p" "p \<in> A" "p < bp" "\<And>c. c \<in> A \<Longrightarrow> c < bp \<Longrightarrow> c \<le> p"
    using free_find_returns [OF h bp fp(1)] by blast
  have place: "free_place A B lo hi bp p h" using h bp p by (simp add: free_place_def)
  let ?h1 = "free_up bp (s_ptr (hdr h p)) h"
  obtain A1 where A1: "heap_half A1 (B - {bp}) lo hi bp p ?h1" "A1 \<subseteq> insert bp A" using free_up_half [OF place] by blast
  obtain A2 where A2: "heap_ok A2 (B - {bp}) lo hi (free_link bp p h)" "A2 \<subseteq> A1" "\<exists>a\<in>A2. units ?h1 bp \<le> units (free_link bp p h) a"
    using free_low_ok [OF A1(1)] unfolding free_link_eq by blast
  have "nxt A p \<in> A" using nxt_in [OF free_placeD(2) [OF place]] p(2) by blast
  then have "units h bp \<le> units ?h1 bp"
    using size_sum [OF free_placeD(1) [OF place], of bp "nxt A p"] bp free_placeD(10) [OF place p(2)] by (simp add: free_up_def)
  moreover have "c \<noteq> p" if "c \<in> B" for c using that p(2) fp(2) by auto
  ultimately show thesis
    using A1(2) A2 p(1) that [of "free_link bp p h" A2] by (auto simp: u_free_def free_link_frame dest: order_trans)
qed

lemma heap_ok_init_base:
  assumes "heap_ok A B lo hi h"
  shows "init_base h = h"
proof -
  have c: "heap_core A B lo hi h" "freep h \<in> A" "0 < u_base h" using assms by (auto simp: heap_ok_def heap_core_def)
  then have "freep h \<noteq> 0" using heap_base_le(1) [OF c(1), of "freep h"] by (cases "freep h = u_base h") auto
  then show ?thesis by (simp add: init_base_def)
qed

section \<open>Malloc\<close>

lemma hadd_1 [simp]: "hadd p 1 = p + 16"
  by (simp add: hadd_def)

lemma size_le_iff: "n \<le> s_size (hdr h a) \<longleftrightarrow> unat n \<le> units h a"
  by (simp add: units_def word_le_nat_alt)

text \<open>The number of units for a request: the payload rounded up, and the header.\<close>

lemma malloc_units_bounds:
  assumes "unat nbytes \<le> 2 ^ 31 - 48"
  shows "unat nbytes + 16 \<le> 16 * unat (malloc_units nbytes)" "16 * unat (malloc_units nbytes) < 2 ^ 31" "0 < malloc_units nbytes"
    "16 * unat (malloc_units nbytes) < unat nbytes + 32"
proof -
  have "unat ((ucast nbytes + 16 - 1) div 16 + 1 :: uint64) = (unat nbytes + 15) div 16 + 1"
    using assms by (simp add: unat_word_ariths unat_div unsigned_ucast_eq take_bit_nat_eq_self unat_sub_if_size)
  then have "unat (malloc_units nbytes) = (unat nbytes + 15) div 16 + 1"
    using assms unfolding malloc_units_def by (simp add: unsigned_ucast_eq take_bit_nat_eq_self)
  then show "unat nbytes + 16 \<le> 16 * unat (malloc_units nbytes)" "16 * unat (malloc_units nbytes) < 2 ^ 31" "0 < malloc_units nbytes"
      "16 * unat (malloc_units nbytes) < unat nbytes + 32"
    using assms by (auto simp: word_less_nat_alt)
qed

lemma malloc_take_ok:
  assumes h: "heap_ok A B lo hi h" and q: "q \<in> A" "prev \<in> A" "nxt A prev = q" "0 < n" "n \<le> s_size (hdr h q)"
  obtains r h' A' where "malloc_take n prev q h = (r + 16, h')" "heap_ok A' (insert r B) lo hi h'" "r \<notin> B" "s_size (hdr h' r) = n"
    "\<And>c. c \<in> B \<Longrightarrow> hdr h' c = hdr h c" "kern h' = kern h" "u_base h' = u_base h"
proof -
  have core: "heap_core A B lo hi h" and ring: "\<And>a. a \<in> A \<Longrightarrow> s_ptr (hdr h a) = nxt A a"
    and gap: "\<And>a b. a \<in> A \<Longrightarrow> b \<in> A \<Longrightarrow> a < b \<Longrightarrow> unat a + 16 * units h a \<noteq> unat b"
    using h by (auto simp: heap_ok_def)
  have fin: "finite A" "A \<inter> B = {}" "u_base h \<in> A" "units h (u_base h) = 0"
    and tl: "tiles lo hi (A - {u_base h} \<union> B) (units h)" using core by (auto simp: heap_core_def)
  have n: "0 < unat n" "unat n \<le> units h q" using q(4,5) by (auto simp: size_le_iff word_less_nat_alt)
  have qb: "q \<noteq> u_base h" using n fin(4) by auto
  have lt: "u_base h < q" "0 < units h q" using heap_base_le(1,2) [OF core, of q] q(1) qb by auto
  have pq: "q \<noteq> prev" using nxt_cases [OF fin(1), of q] q(1,3) fin(3) lt by (metis empty_iff leD less_irrefl)
  show thesis
  proof (cases "s_size (hdr h q) = n")
    case True
    let ?h = "(set_ptr prev (nxt A q) h)\<lparr>freep := prev\<rparr>"
    have S: "A - {q} - {u_base h} \<union> insert q B = A - {u_base h} \<union> B" using q(1) qb by auto
    have c: "heap_core (A - {q}) (insert q B) lo hi ?h" using core S qb by (auto simp: heap_core_def)
    have "s_ptr (hdr ?h a) = nxt (A - {q}) a" if "a \<in> A - {q}" for a
      using nxt_remove [OF fin(1) q(2) q(3) [symmetric] pq fin(3) lt(1) that] ring [of a] that by simp
    from heap_okI [OF c _ this, of "units h"] gap q(2) pq have "heap_ok (A - {q}) (insert q B) lo hi ?h" by auto
    moreover have "hdr ?h c = hdr h c" if "c \<in> B" for c using that q(2) fin(2) by (auto simp: set_ptr_def)
    moreover have "q \<notin> B" "malloc_take n prev q h = (q + 16, ?h)" using q(1) fin(2) True ring [OF q(1)] by (auto simp: malloc_take_def)
    ultimately show thesis using True by (intro that [of q ?h "A - {q}"]) simp_all
  next
    case False
    define m where "m = s_size (hdr h q) - n"
    define r where "r = hadd q m"
    have m: "unat m = units h q - unat n" using q(5) by (simp add: m_def unat_sub units_def)
    have mlt: "0 < unat m" "unat m < units h q" using m n False by (auto simp: units_def word_unat_eq_iff)
    have r: "unat r = unat q + 16 * unat m"
      using heap_end(1) [OF core, of q] q(1) mlt core unfolding r_def by (intro unat_hadd) (auto simp: heap_core_def)
    from tiles_split [OF tl _ mlt r] q(1) qb
    have rS: "r \<notin> A - {u_base h} \<union> B" and t: "tiles lo hi (insert r (A - {u_base h} \<union> B)) ((units h)(q := unat m, r := units h q - unat m))"
      by auto
    have rq: "u_base h < r" "r \<noteq> q" using lt(1) r mlt(1) by (auto simp: word_less_nat_alt)
    have rA: "r \<notin> A" "r \<notin> B" using rS rq by auto
    let ?h = "(set_size r n (set_size q m h))\<lparr>freep := prev\<rparr>"
    have un: "units ?h = (units h)(q := unat m, r := units h q - unat m)" using m n by (auto simp: fun_eq_iff)
    have S: "A - {u_base h} \<union> insert r B = insert r (A - {u_base h} \<union> B)" using rA rq by auto
    have c: "heap_core A (insert r B) lo hi ?h"
      using core t rA qb rq unfolding heap_core_def un by (auto simp: S)
    have ring': "s_ptr (hdr ?h a) = nxt A a" if "a \<in> A" for a using ring [OF that] by simp
    have "unat a + 16 * units ?h a \<noteq> unat b" if ab: "a \<in> A" "b \<in> A" "a < b" for a b
    proof (cases "a = q")
      case True
      then show ?thesis using block_below [OF core, of a b] ab mlt rq(2) unfolding un by auto
    next
      case False
      then show ?thesis using gap [OF ab] ab(1) rA unfolding un by auto
    qed
    from heap_okI [OF c _ ring' refl this] q(2) have "heap_ok A (insert r B) lo hi ?h" by simp
    moreover have "hdr ?h c = hdr h c" if "c \<in> B" for c using that q(1) fin(2) rA(2) by (auto simp: set_size_def)
    moreover have "malloc_take n prev q h = (r + 16, ?h)" using False by (simp add: malloc_take_def Let_def m_def r_def)
    ultimately show thesis using rA by (intro that [of r ?h A]) simp_all
  qed
qed

text \<open>
  What the allocator relies on of \<^verbatim>\<open>sbrk\<close>: a request to grow fails with -1 and changes nothing, or returns the old
  end of the memory and moves it up.
\<close>

locale sbrk_call =
  fixes sbrk :: "int \<Rightarrow> 'k \<Rightarrow> uint64 \<times> 'k"
    and brk :: "'k \<Rightarrow> nat"
  assumes sbrk_grow: "0 < n \<Longrightarrow> n < 2 ^ 31 \<Longrightarrow> brk k < 2 ^ 31 \<Longrightarrow>
    (\<exists>k'. sbrk n k = (-1, k') \<and> brk k' = brk k) \<or>
    (\<exists>k'. sbrk n k = (of_nat (brk k), k') \<and> brk k' = brk k + nat n \<and> brk k' < 2 ^ 31)"
begin

lemma morecore_ok:
  assumes h: "heap_ok A B lo (brk (kern h)) h" and n: "0 < unat n" "16 * unat n < 2 ^ 31"
  obtains (full) h' where "morecore sbrk n h = Some (0, h')" "heap_ok A B lo (brk (kern h')) h'" "hdr h' = hdr h" "u_base h' = u_base h"
  | (grown) h' A' where "morecore sbrk n h = Some (freep h', h')" "freep h' \<noteq> 0" "heap_ok A' B lo (brk (kern h')) h'"
      "\<exists>a\<in>A'. n \<le> s_size (hdr h' a)" "\<And>c. c \<in> B \<Longrightarrow> hdr h' c = hdr h c" "u_base h' = u_base h"
proof -
  have core: "heap_core A B lo (brk (kern h)) h" using h by (simp add: heap_ok_def)
  have hi: "brk (kern h) < 2 ^ 31" "lo \<le> brk (kern h)" "u_base h \<in> A" "unat (u_base h) < lo" "0 < u_base h"
    using core by (auto simp: heap_core_def)
  define nu :: uint where "nu = (if n < 4096 then 4096 else n)"
  have nu: "0 < unat nu" "16 * unat nu < 2 ^ 31" "n \<le> nu" using n by (auto simp: nu_def word_less_nat_alt word_le_nat_alt)
  define m where "m = unat nu"
  have m: "0 < 16 * int m" "16 * int m < 2 ^ 31" "nat (16 * int m) = 16 * m" using nu(1,2) unfolding m_def [symmetric] by auto
  have "sint (ucast (ucast nu * 16 :: uint64) :: uint) = 16 * int m"
  proof -
    have "unat (ucast nu * 16 :: uint64) = 16 * unat nu"
      using nu(2) by (simp add: unat_word_ariths unsigned_ucast_eq take_bit_nat_eq_self)
    then have "unat (ucast (ucast nu * 16 :: uint64) :: uint) = 16 * unat nu"
      using nu(2) by (simp add: unsigned_ucast_eq take_bit_nat_eq_self)
    then show ?thesis using nu(2) by (simp add: sint_of_int_small m_def)
  qed
  note run = morecore_def [of sbrk n h, folded nu_def, unfolded Let_def this]
  consider k where "sbrk (16 * int m) (kern h) = (-1, k)" "brk k = brk (kern h)"
    | k where "sbrk (16 * int m) (kern h) = (of_nat (brk (kern h)), k)" "brk k = brk (kern h) + 16 * m" "brk k < 2 ^ 31"
    using sbrk_grow [OF m(1,2) hi(1)] unfolding m(3) by blast
  then show thesis
  proof cases
    case (1 k)
    then show thesis using h by (intro full [of "h\<lparr>kern := k\<rparr>"]) (simp_all add: run heap_ok_def)
  next
    case (2 k)
    let ?hp = "of_nat (brk (kern h)) :: uint64" and ?h = "set_size (of_nat (brk (kern h))) nu (h\<lparr>kern := k\<rparr>)"
    have hp: "unat ?hp = brk (kern h)" using hi(1) by (simp add: unat_of_nat take_bit_nat_eq_self)
    then have nm: "?hp \<noteq> -1" using hi(1) by (auto simp: unsigned_minus_1_eq_mask mask_eq_exp_minus_1)
    have S: "A - {u_base h} \<union> insert ?hp B = insert ?hp (A - {u_base h} \<union> B)" if "?hp \<noteq> u_base h" "?hp \<notin> A" using that by auto
    have nb: "?hp \<noteq> u_base h" using hp hi(2,4) by auto
    from tiles_grow [OF _ hp nu(1) hi(2)] core nb
    have t: "?hp \<notin> A \<union> B" "tiles lo (brk k) (insert ?hp (A - {u_base h} \<union> B)) ((units h)(?hp := unat nu))"
      using 2(2) by (auto simp: heap_core_def m_def)
    have "heap_core A (insert ?hp B) lo (brk k) ?h"
      using core t nb hi(2) 2(2,3) by (auto simp: heap_core_def S)
    then have "heap_ok A (insert ?hp B) lo (brk k) ?h"
      using h t(1) unfolding heap_ok_def by (auto simp del: heap_core_upd)
    then obtain h' A' where f: "u_free (?hp + 16) ?h = Some h'" "heap_ok A' (insert ?hp B - {?hp}) lo (brk k) h'"
      "\<And>c. c \<in> insert ?hp B \<Longrightarrow> c \<noteq> ?hp \<Longrightarrow> hdr h' c = hdr ?h c" "kern h' = kern ?h" "u_base h' = u_base ?h" "\<exists>a\<in>A'. units ?h ?hp \<le> units h' a"
      by (rule u_free_ok [OF _ insertI1]) (rule that; assumption)
    have B: "insert ?hp B - {?hp} = B" using t(1) by auto
    have fp: "freep h' \<in> A'" "heap_core A' B lo (brk k) h'" using f(2) B by (auto simp: heap_ok_def)
    then have "freep h' \<noteq> 0" using heap_base_le(1) [OF fp(2), of "freep h'"] hi(5) f(5) by (cases "freep h' = u_base h'") auto
    moreover have "hdr h' c = hdr h c" if "c \<in> B" for c using f(3) [of c] that t(1) by (auto simp: set_size_def)
    moreover have "\<exists>a\<in>A'. n \<le> s_size (hdr h' a)" using f(6) nu(3) by (auto simp: size_le_iff units_def word_le_nat_alt intro: order_trans)
    moreover have "morecore sbrk n h = Some (freep h', h')" using f(1) nm 2(1) by (simp add: run)
    ultimately show thesis using f(2,4,5) B by (intro grown [of h' A']) simp_all
  qed
qed

text \<open>
  The walk along the free list: it stops at a block that is large enough, or at \<open>freep\<close> when none of the blocks
  on the way is.
\<close>

lemma malloc_scan:
  assumes h: "heap_ok A B lo hi h" and p: "p \<in> A" "prev \<in> A" "nxt A prev = p"
  shows "\<exists>prev' q. prev' \<in> A \<and> q \<in> A \<and> nxt A prev' = q \<and> malloc_loop sbrk n prev p h = malloc_loop sbrk n prev' q h \<and>
    (n \<le> s_size (hdr h q) \<or>
     q = freep h \<and> \<not> n \<le> s_size (hdr h q) \<and> (\<forall>a\<in>A. steps_to A p a \<le> steps_to A p (freep h) \<longrightarrow> \<not> n \<le> s_size (hdr h a)))"
  using p
proof (induction "steps_to A p (freep h)" arbitrary: p prev rule: less_induct)
  case (less p)
  have fin: "finite A" "freep h \<in> A" "s_ptr (hdr h p) = nxt A p" using h less.prems(1) by (auto simp: heap_ok_def heap_core_def)
  consider "n \<le> s_size (hdr h p)" | "\<not> n \<le> s_size (hdr h p)" "p = freep h" | "\<not> n \<le> s_size (hdr h p)" "p \<noteq> freep h" by blast
  then show ?case
  proof cases
    case 2
    have "a = p" if "a \<in> A" "steps_to A p a \<le> steps_to A p (freep h)" for a
      using that steps_to_next [OF fin(1) less.prems(1) that(1)] 2(2) by (cases "a = p") auto
    with 2 less.prems show ?thesis by blast
  next
    case 3
    have run: "malloc_loop sbrk n prev p h = malloc_loop sbrk n p (nxt A p) h"
      using 3 fin(3) by (subst malloc_loop.simps) simp
    have nx: "nxt A p \<in> A" using nxt_in [OF fin(1)] fin(2) by blast
    note st = steps_to_next [OF fin(1) less.prems(1)]
    from less.hyps [OF _ nx less.prems(1) refl] st [OF fin(2) 3(2)] obtain prev' q where
      q: "prev' \<in> A" "q \<in> A" "nxt A prev' = q" "malloc_loop sbrk n p (nxt A p) h = malloc_loop sbrk n prev' q h"
      "n \<le> s_size (hdr h q) \<or> q = freep h \<and> \<not> n \<le> s_size (hdr h q) \<and>
        (\<forall>a\<in>A. steps_to A (nxt A p) a \<le> steps_to A (nxt A p) (freep h) \<longrightarrow> \<not> n \<le> s_size (hdr h a))" by auto
    have "\<not> n \<le> s_size (hdr h a)" if "a \<in> A" "steps_to A p a \<le> steps_to A p (freep h)" "\<not> n \<le> s_size (hdr h q)" for a
      using that q(5) st [OF that(1)] st [OF fin(2) 3(2)] 3(1) by (cases "a = p") auto
    with q run show ?thesis by auto
  qed (use less.prems in blast)
qed

text \<open>A walk that starts behind \<open>freep\<close> finds a block when there is one.\<close>

lemma malloc_loop_fits:
  assumes h: "heap_ok A B lo hi h" and n: "0 < n" and a: "\<exists>a\<in>A. n \<le> s_size (hdr h a)"
  obtains r h' A' where "malloc_loop sbrk n (freep h) (nxt A (freep h)) h = Some (r + 16, h')" "heap_ok A' (insert r B) lo hi h'"
    "r \<notin> B" "s_size (hdr h' r) = n" "\<And>c. c \<in> B \<Longrightarrow> hdr h' c = hdr h c" "kern h' = kern h" "u_base h' = u_base h"
proof -
  have fin: "finite A" "freep h \<in> A" using h by (auto simp: heap_ok_def heap_core_def)
  have nx: "nxt A (freep h) \<in> A" using nxt_in [OF fin(1)] fin(2) by blast
  obtain prev q where q: "prev \<in> A" "q \<in> A" "nxt A prev = q" "n \<le> s_size (hdr h q)"
      "malloc_loop sbrk n (freep h) (nxt A (freep h)) h = malloc_loop sbrk n prev q h"
    using malloc_scan [OF h nx fin(2) refl, of n] a steps_to_last [OF fin] by blast
  have run: "malloc_loop sbrk n (freep h) (nxt A (freep h)) h = Some (malloc_take n prev q h)"
    unfolding q(5) using q(4) by (subst malloc_loop.simps) simp
  show thesis by (rule malloc_take_ok [OF h q(2,1,3) n q(4)]) (rule that; (assumption | simp add: run)?)
qed

lemma malloc_loop_ok:
  assumes h: "heap_ok A B lo (brk (kern h)) h" and n: "0 < n" "16 * unat n < 2 ^ 31"
  obtains (full) h' where "malloc_loop sbrk n (freep h) (nxt A (freep h)) h = Some (0, h')" "heap_ok A B lo (brk (kern h')) h'"
      "hdr h' = hdr h" "u_base h' = u_base h" "\<forall>a\<in>A. \<not> n \<le> s_size (hdr h a)"
  | (block) r h' A' where "malloc_loop sbrk n (freep h) (nxt A (freep h)) h = Some (r + 16, h')"
      "heap_ok A' (insert r B) lo (brk (kern h')) h'" "r \<notin> B" "s_size (hdr h' r) = n" "\<And>c. c \<in> B \<Longrightarrow> hdr h' c = hdr h c" "u_base h' = u_base h"
proof (cases "\<exists>a\<in>A. n \<le> s_size (hdr h a)")
  case True
  show thesis
  proof (rule malloc_loop_fits [OF h n(1) True], goal_cases)
    case (1 r h' A')
    then show ?case by (intro block [of r h' A']) simp_all
  qed
next
  case False
  have fin: "finite A" "freep h \<in> A" using h by (auto simp: heap_ok_def heap_core_def)
  have nx: "nxt A (freep h) \<in> A" using nxt_in [OF fin(1)] fin(2) by blast
  obtain prev q where "q \<in> A" "malloc_loop sbrk n (freep h) (nxt A (freep h)) h = malloc_loop sbrk n prev q h"
      "n \<le> s_size (hdr h q) \<or> q = freep h"
    using malloc_scan [OF h nx fin(2) refl, of n] by metis
  with False have q: "\<not> n \<le> s_size (hdr h (freep h))" "malloc_loop sbrk n (freep h) (nxt A (freep h)) h = malloc_loop sbrk n prev (freep h) h"
    by auto
  then have run: "malloc_loop sbrk n (freep h) (nxt A (freep h)) h = (case morecore sbrk n h of None \<Rightarrow> None
      | Some (p, h) \<Rightarrow> if p = 0 then Some (0, h) else malloc_loop sbrk n p (s_ptr (hdr h p)) h)"
    by (subst q(2), subst malloc_loop.simps) simp
  have n0: "0 < unat n" using n(1) by (simp add: word_less_nat_alt)
  show thesis
  proof (rule morecore_ok [OF h n0 n(2)], goal_cases)
    case (1 h')
    then show ?case using False by (intro full [of h']) (simp_all add: run)
  next
    case (2 h' A')
    have fp: "s_ptr (hdr h' (freep h')) = nxt A' (freep h')" using 2(3) by (simp add: heap_ok_def)
    show ?case
    proof (rule malloc_loop_fits [OF 2(3) n(1) 2(4)], goal_cases)
      case (1 r h2 A2)
      then show ?case using 2(1,2,5,6) fp by (intro block [of r h2 A2]) (simp_all add: run)
    qed
  qed
qed

lemma malloc_ok:
  assumes h: "heap_ok A B lo (brk (kern h)) (init_base h)" and n: "unat nbytes \<le> 2 ^ 31 - 48"
  shows "\<exists>ap h' A'. malloc sbrk nbytes h = Some (ap, h') \<and> init_base h' = h' \<and> (\<forall>c\<in>B. hdr h' c = hdr h c) \<and> u_base h' = u_base h \<and>
    (if ap = 0 then heap_ok A' B lo (brk (kern h')) h' \<and> (\<forall>a\<in>A'. unat (s_size (hdr h' a)) < unat (malloc_units nbytes))
     else ap - 16 \<notin> B \<and> heap_ok A' (insert (ap - 16) B) lo (brk (kern h')) h' \<and> s_size (hdr h' (ap - 16)) = malloc_units nbytes)"
proof -
  let ?h = "init_base h" and ?n = "malloc_units nbytes"
  have kb: "kern ?h = kern h" "u_base ?h = u_base h" "\<And>c. c \<in> B \<Longrightarrow> hdr ?h c = hdr h c"
    using h by (auto simp: init_base_def set_size_def set_ptr_def heap_ok_def heap_core_def)
  have fp: "s_ptr (hdr ?h (freep ?h)) = nxt A (freep ?h)" using h by (simp add: heap_ok_def)
  have run: "malloc sbrk nbytes h = malloc_loop sbrk ?n (freep ?h) (nxt A (freep ?h)) ?h"
    by (simp add: malloc_def Let_def fp)
  note m = malloc_units_bounds [OF n]
  show ?thesis
  proof (rule malloc_loop_ok [of A B lo ?h, OF _ m(3,2)], goal_cases)
    case 1
    then show ?case using h kb by simp
  next
    case (2 h')
    then show ?case using kb heap_ok_init_base [OF 2(2)] by (intro exI [of _ 0] exI [of _ h'] exI [of _ A]) (simp add: run word_less_nat_alt not_le)
  next
    case (3 r h' A')
    have c: "heap_core A' (insert r B) lo (brk (kern h')) h'" using 3(2) by (simp add: heap_ok_def)
    then have "unat r < 2 ^ 31" using heap_end(1) [OF c, of r] by (simp add: heap_core_def)
    then have "unat (r + 16) \<noteq> 0" by (simp add: unat_word_ariths)
    then have "r + 16 \<noteq> 0" by auto
    then show ?case using 3 kb heap_ok_init_base [OF 3(2)] by (intro exI [of _ "r + 16"] exI [of _ h'] exI [of _ A']) (simp add: run)
  qed
qed

end

section \<open>The allocator on the system call\<close>

interpretation usb: sbrk_call "usbrk (in_memory avail)" unat for avail
proof
  fix n :: int and k :: uint64
  assume n: "0 < n" "n < 2 ^ 31" and k: "unat k < 2 ^ 31"
  let ?z = "ucast k :: uint" and ?n = "of_int n :: uint"
  have z: "unat ?z = unat k" using k by (simp add: unsigned_ucast_eq take_bit_nat_eq_self)
  have un: "unat ?n = nat n" using n by (simp add: unat_eq_nat_uint uint_word_of_int)
  have nw: "unat (?z + ?n) = unat k + nat n" using k n z un by (simp add: unat_word_ariths)
  have ge: "\<not> ?z + ?n < ?z" using nw z by (simp add: word_less_nat_alt)
  have a: "of_int (sint ?z) = (of_nat (unat k) :: uint64)" using z k by (simp add: sint_of_int_small)
  show "(\<exists>k'. usbrk (in_memory avail) n k = (-1, k') \<and> unat k' = unat k) \<or>
    (\<exists>k'. usbrk (in_memory avail) n k = (of_nat (unat k), k') \<and> unat k' = unat k + nat n \<and> unat k' < 2 ^ 31)"
  proof (cases "in_memory avail ?z (?z + ?n)")
    case True
    then have "unat (?z + ?n) \<le> 0x8000000" by (simp add: in_memory_def word_le_nat_alt)
    then have "unat (ucast (?z + ?n) :: uint64) = unat k + nat n" "unat k + nat n < 2 ^ 31"
      using nw by (simp_all add: unsigned_ucast_eq take_bit_nat_eq_self)
    then show ?thesis using True n ge a by (simp add: usbrk_def Let_def)
  next
    case False
    then show ?thesis using n ge by (simp add: usbrk_def Let_def)
  qed
qed


lemma u_free_ex:
  assumes "heap_ok A B lo hi h" "bp \<in> B"
  shows "\<exists>h' A'. u_free (bp + 16) h = Some h' \<and> heap_ok A' (B - {bp}) lo hi h' \<and> kern h' = kern h \<and>
    (\<forall>c\<in>B - {bp}. hdr h' c = hdr h c) \<and> (\<exists>a\<in>A'. s_size (hdr h bp) \<le> s_size (hdr h' a))"
  by (rule u_free_ok [OF assms]) (auto simp: size_le_iff units_def)

text \<open>
  C9. \<^verbatim>\<open>free\<close> of an allocated block of a well-formed heap always returns; the block is free afterwards, joined with its
  free neighbours, the other allocated blocks keep their headers, and the heap stays well formed.
\<close>

theorem free_correct:
  assumes "heap_ok A B lo hi h" "bp \<in> B"
  shows "\<exists>h' A'. u_free (bp + 16) h = Some h' \<and> heap_ok A' (B - {bp}) lo hi h' \<and> kern h' = kern h \<and>
    (\<forall>c\<in>B - {bp}. hdr h' c = hdr h c) \<and> (\<exists>a\<in>A'. s_size (hdr h bp) \<le> s_size (hdr h' a))"
  using assms by (rule u_free_ex)

section \<open>Programs\<close>

text \<open>
  The states of the heap that a program can reach by \<^verbatim>\<open>malloc\<close>, and by \<^verbatim>\<open>free\<close> of pointers that it got and has not freed
  yet; \<open>L\<close> is the set of these pointers.
\<close>

inductive heap_run :: "(uint \<Rightarrow> uint \<Rightarrow> bool) \<Rightarrow> uint64 uheap \<Rightarrow> uint64 set \<Rightarrow> uint64 uheap \<Rightarrow> bool" for avail h0 where
  start: "heap_run avail h0 {} h0"
| alloc: "heap_run avail h0 L h \<Longrightarrow> unat n \<le> 2 ^ 31 - 48 \<Longrightarrow> malloc (usbrk (in_memory avail)) n h = Some (ap, h') \<Longrightarrow>
    heap_run avail h0 (if ap = 0 then L else insert ap L) h'"
| release: "heap_run avail h0 L h \<Longrightarrow> ap \<in> L \<Longrightarrow> u_free ap h = Some h' \<Longrightarrow> heap_run avail h0 (L - {ap}) h'"

definition fresh_heap :: "uint64 uheap \<Rightarrow> bool" where
  "fresh_heap h \<longleftrightarrow> freep h = 0 \<and> 0 < u_base h \<and> u_base h < kern h \<and> kern h < 0x80000000"

lemma fresh_heap_ok:
  assumes "fresh_heap h"
  shows "heap_ok {u_base h} {} (unat (kern h)) (unat (kern h)) (init_base h)"
proof -
  have "units (init_base h) (u_base h) = 0" "freep (init_base h) = u_base h" "u_base (init_base h) = u_base h"
    "s_ptr (hdr (init_base h) (u_base h)) = u_base h"
    using assms by (simp_all add: fresh_heap_def init_base_def set_size_def set_ptr_def units_def)
  moreover have "nxt {u_base h} (u_base h) = u_base h" by (simp add: nxt_def)
  ultimately show ?thesis using assms
    by (simp add: heap_ok_def heap_core_def tiles_def fresh_heap_def word_less_nat_alt)
qed

lemma unat_plus_16: "unat (x :: uint64) < 2 ^ 31 \<Longrightarrow> unat (x + 16) = unat x + 16"
  by (simp add: unat_word_ariths)

lemma heap_run_ok:
  assumes "heap_run avail h0 L h" "fresh_heap h0"
  shows "\<exists>A. heap_ok A ((\<lambda>a. a - 16) ` L) (unat (kern h0)) (unat (kern h)) (init_base h) \<and> (L \<noteq> {} \<longrightarrow> init_base h = h)"
  using assms
proof (induction rule: heap_run.induct)
  case start
  then show ?case using fresh_heap_ok by auto
next
  case (alloc L h n ap h')
  then obtain A where A: "heap_ok A ((\<lambda>a. a - 16) ` L) (unat (kern h0)) (unat (kern h)) (init_base h)" by blast
  from usb.malloc_ok [OF A alloc.hyps(2), of avail] alloc.hyps(3) show ?case by (auto split: if_splits)
next
  case (release L h ap h')
  then obtain A where A: "heap_ok A ((\<lambda>a. a - 16) ` L) (unat (kern h0)) (unat (kern h)) h" "init_base h = h" by force
  have d: "(\<lambda>a. a - 16) ` L - {ap - 16} = (\<lambda>a. a - 16) ` (L - {ap})" by auto
  from release.hyps(2) have "ap - 16 \<in> (\<lambda>a. a - 16) ` L" by blast
  from u_free_ex [OF A(1) this] release.hyps(3) d
  obtain A' where A': "heap_ok A' ((\<lambda>a. a - 16) ` (L - {ap})) (unat (kern h0)) (unat (kern h')) h'" by auto
  then show ?case using heap_ok_init_base [OF A'] by auto
qed


section \<open>The first allocation, and requests that are too large\<close>

lemma malloc_fresh:
  fixes n nu :: uint
  assumes h: "fresh_heap h" and n: "n = malloc_units nbytes" "nu = (if n < 4096 then 4096 else n)" "0 < n"
    and k: "sbrk (sint (ucast (ucast nu * 16 :: uint64) :: uint)) (kern h) = (p, k)" "p \<noteq> -1" "u_base h < p" "hadd p nu \<noteq> u_base h"
  shows "malloc sbrk nbytes h =
    Some (malloc_take n (u_base h) p (free_link p (u_base h) (set_size p nu ((init_base h)\<lparr>kern := k\<rparr>))))"
proof -
  let ?b = "u_base h" and ?h1 = "init_base h" and ?h2 = "set_size p nu ((init_base h)\<lparr>kern := k\<rparr>)"
  let ?h3 = "free_link p ?b ?h2"
  have 1: "freep ?h1 = ?b" "u_base ?h1 = ?b" "s_ptr (hdr ?h1 ?b) = ?b" "s_size (hdr ?h1 ?b) = 0" "kern ?h1 = kern h"
    using h by (simp_all add: fresh_heap_def init_base_def)
  have b: "0 < ?b" "?b \<noteq> p" "?b \<noteq> 0" using h k(3) by (auto simp: fresh_heap_def)
  have "free_find ?h2 p ?b = Some ?b" using b k(3) 1 by (subst free_find.simps) (simp add: Let_def)
  then have uf: "u_free (hadd p 1) ?h2 = Some ?h3" using 1 by (simp add: u_free_def)
  have 3: "freep ?h3 = ?b" "s_ptr (hdr ?h3 ?b) = p" "s_size (hdr ?h3 p) = nu"
    using b k(4) 1 by (auto simp: free_link_frame free_link_eq free_low_def free_up_def hadd_def)
  have mc: "morecore sbrk n ?h1 = Some (?b, ?h3)"
    unfolding morecore_def Let_def n(2) [symmetric] 1(5) k(1) using uf k(2) 3(1) by simp
  have le: "n \<le> nu" using n(2) by auto
  have "malloc sbrk nbytes h = malloc_loop sbrk n ?b ?b ?h1" using 1 n(1) by (simp add: malloc_def Let_def)
  also have "\<dots> = malloc_loop sbrk n ?b p ?h3" using n(3) 1 mc b 3 by (subst malloc_loop.simps) auto
  also have "\<dots> = Some (malloc_take n ?b p ?h3)" using 3(3) le by (subst malloc_loop.simps) simp
  finally show ?thesis .
qed

text \<open>
  C21. The conversion of the size to the \<^verbatim>\<open>int\<close> argument of \<^verbatim>\<open>sbrk\<close> drops its upper bits: the largest request makes the
  memory grow by 16 bytes only, and \<^verbatim>\<open>malloc\<close> returns a pointer to its end instead of a null pointer.
\<close>

theorem malloc_overflow:
  assumes "fresh_heap h" "unat (kern h) < 0x7ff0000" "avail (ucast (kern h)) (ucast (kern h) + 16)"
  shows "\<exists>h'. malloc (usbrk (in_memory avail)) 0xFFFFFFFF h = Some (kern h + 16, h') \<and> kern h' = kern h + 16"
proof -
  have n: "malloc_units 0xFFFFFFFF = 0x10000001" by (simp add: malloc_units_def)
  have z: "unat (ucast (kern h) :: uint) = unat (kern h)" using assms(2) by (simp add: unsigned_ucast_eq take_bit_nat_eq_self)
  have z16: "unat (ucast (kern h) + 16 :: uint) = unat (kern h) + 16" using assms(2) z by (simp add: unat_word_ariths)
  have av: "in_memory avail (ucast (kern h)) (ucast (kern h) + 16)" "\<not> (ucast (kern h) + 16 :: uint) < ucast (kern h)"
    using assms(2,3) z z16 by (simp_all add: in_memory_def word_le_nat_alt word_less_nat_alt)
  have k: "of_int (sint (ucast (kern h) :: uint)) = kern h" using z assms(2) by (simp add: sint_of_int_small)
  have "unat (ucast (ucast (kern h) + 16 :: uint) :: uint64) = unat (kern h + 16)"
    using z16 assms(2) by (simp add: unsigned_ucast_eq take_bit_nat_eq_self unat_word_ariths)
  then have k16: "ucast (ucast (kern h) + 16 :: uint) = kern h + 16" by (simp add: word_unat_eq_iff)
  have "usbrk (in_memory avail) 16 (kern h) = (kern h, kern h + 16)" using av k k16 by (simp add: usbrk_def Let_def)
  then have s: "usbrk (in_memory avail) (sint (ucast (ucast (0x10000001 :: uint) * 16 :: uint64) :: uint)) (kern h) = (kern h, kern h + 16)"
    by simp
  have b: "u_base h < kern h" "unat (u_base h) < unat (kern h)" using assms(1) by (auto simp: fresh_heap_def word_less_nat_alt)
  have "unat (hadd (kern h) 0x10000001) = unat (kern h) + 16 * 0x10000001" using assms(2) unat_hadd [of "kern h" "0x10000001"] by simp
  then have ne: "hadd (kern h) 0x10000001 \<noteq> u_base h" using b(2) by auto
  have nm: "kern h \<noteq> -1" using assms(2) by (auto simp: unsigned_minus_1_eq_mask mask_eq_exp_minus_1)
  let ?h3 = "free_link (kern h) (u_base h) (set_size (kern h) 0x10000001 ((init_base h)\<lparr>kern := kern h + 16\<rparr>))"
  have "s_size (hdr ?h3 (kern h)) = 0x10000001"
    using b ne assms(1) by (auto simp: fresh_heap_def init_base_def free_link_eq free_low_def free_up_def hadd_def)
  then show ?thesis using malloc_fresh [where sbrk = "usbrk (in_memory avail)" and nu = "0x10000001", OF assms(1) n [symmetric] _ _ s nm b(1) ne]
    by (simp add: malloc_take_def free_link_frame)
qed

section \<open>A first heap\<close>

definition demo_heap :: "uint64 uheap" where
  "demo_heap = \<lparr>hdr = (\<lambda>_. \<lparr>s_ptr = 0, s_size = 0\<rparr>), u_base = 0x2000, freep = 0, kern = 0x4000\<rparr>"

lemma demo_fresh: "fresh_heap demo_heap"
  by (simp add: fresh_heap_def demo_heap_def)

text \<open>The first request of 100 bytes takes the last 8 of the 4096 new units.\<close>

lemma demo_malloc:
  obtains h where "malloc (usbrk (in_memory (\<lambda>_ _. True))) 100 demo_heap = Some (0x13f90, h)"
proof -
  have n: "malloc_units 100 = 8" by (simp add: malloc_units_def)
  have s: "usbrk (in_memory (\<lambda>_ _. True)) (sint (ucast (ucast (4096 :: uint) * 16 :: uint64) :: uint)) (kern demo_heap) = (0x4000, 0x14000)"
    by (simp add: usbrk_def in_memory_def demo_heap_def)
  from malloc_fresh [where sbrk = "usbrk (in_memory (\<lambda>_ _. True))" and nu = 4096, OF demo_fresh n [symmetric] _ _ s]
  have "\<exists>h. malloc (usbrk (in_memory (\<lambda>_ _. True))) 100 demo_heap = Some (0x13f90, h)"
    by (simp add: demo_heap_def init_base_def hadd_def free_link_def malloc_take_def set_ptr_def set_size_def Let_def)
  then show thesis using that by blast
qed


lemma demo_run:
  obtains h where "heap_run (\<lambda>_ _. True) demo_heap {0x13f90} h"
proof -
  obtain h where "malloc (usbrk (in_memory (\<lambda>_ _. True))) 100 demo_heap = Some (0x13f90, h)" by (rule demo_malloc)
  from heap_run.alloc [OF heap_run.start _ this] show thesis using that by simp
qed

theorem free_correct_witness: "\<exists>h h'. heap_run (\<lambda>_ _. True) demo_heap {0x13f90} h \<and> u_free 0x13f90 h = Some h'"
proof -
  obtain h where h: "heap_run (\<lambda>_ _. True) demo_heap {0x13f90} h" by (rule demo_run)
  from heap_run_ok [OF h demo_fresh] obtain A where "heap_ok A {0x13f80} (unat (kern demo_heap)) (unat (kern h)) h" by auto
  from free_correct [OF this singletonI] h show ?thesis by auto
qed


theorem malloc_overflow_witness: "\<exists>h'. malloc (usbrk (in_memory (\<lambda>_ _. True))) 0xFFFFFFFF demo_heap = Some (0x4010, h') \<and> kern h' = 0x4010"
  using malloc_overflow [OF demo_fresh, of "\<lambda>_ _. True"] by (simp add: demo_heap_def)

end
