(* ===== verification/Usbrk.thy ===== *)
theory Usbrk
  imports Sysproc Umalloc
begin

text \<open>
  The system call \<^verbatim>\<open>sbrk\<close> as the user memory allocator sees it: whenever \<^verbatim>\<open>sys_sbrk\<close> returns, its value and the new
  size of the process are those of \<open>usbrk\<close>, for some answer of the page allocator.
\<close>

text \<open>The view of the state that the memory routines keep: the processes, and which process runs on which hart.\<close>

definition run_view :: "'a mstate_scheme \<Rightarrow> nat \<times> (nat \<Rightarrow> proc) \<times> (nat \<Rightarrow> nat option)" where
  "run_view s = (tp s, procs s, \<lambda>h. cpu_proc (cpus s h))"

lemma run_view_simps [simp]:
  "run_view (mem_update f s) = run_view s" "run_view (freelist_update g s) = run_view s" "run_view (kmem_lock_update k s) = run_view s"
  by (simp_all add: run_view_def)

lemma run_view_cpus: "(\<And>h. cpu_proc (c h) = cpu_proc (cpus s h)) \<Longrightarrow> run_view (s\<lparr>cpus := c\<rparr>) = run_view s"
  by (simp add: run_view_def)

lemma run_view_push_off [simp]: "run_view (push_off s) = run_view s"
  by (simp add: push_off_eq run_view_cpus)

lemma keeps_run_view_pop_off: "keeps run_view s (pop_off s)"
  by (auto simp: pop_off_def Let_def intr_on_def set_mycpu_def mycpu_def cpuid_def intro!: run_view_cpus)

lemma keeps_view_lock:
  assumes "run_view t = run_view s"
  shows "keeps run_view s (acquire kmem_lock kmem_lock_update t)" "keeps run_view s (release kmem_lock kmem_lock_update t)"
  using assms by (auto simp: acquire_def release_def Let_def intro!: keeps_trans [OF keeps_run_view_pop_off])

lemma keeps_view_kalloc: "run_view t = run_view s \<Longrightarrow> keeps run_view s (kalloc t)"
  unfolding kalloc_def Let_def by (intro keeps_bnd keeps_view_lock) auto

lemma keeps_view_kfree: "run_view t = run_view s \<Longrightarrow> keeps run_view s (kfree pa t)"
  unfolding kfree_def Let_def by (auto intro!: keeps_bnd keeps_view_lock)

lemma keeps_view_walk_level: "run_view t = run_view s \<Longrightarrow> keeps run_view s (walk_level l pt va b t)"
proof (induction l pt va b t arbitrary: s rule: walk_level.induct)
  case (2 l pt va b t)
  then show ?case unfolding walk_level.simps Let_def
    by (auto intro!: keeps_bnd keeps_view_kalloc)
qed simp

lemma keeps_view_walk: "run_view t = run_view s \<Longrightarrow> keeps run_view s (walk pt va b t)"
  by (simp add: walk_def keeps_view_walk_level)

lemma keeps_view_mappages_loop: "run_view t = run_view s \<Longrightarrow> keeps run_view s (mappages_loop pt a l pa perm t)"
proof (induction pt a l pa perm t arbitrary: s rule: mappages_loop.induct)
  case (1 pt a l pa perm t)
  show ?case by (subst mappages_loop.simps) (auto simp: Let_def 1 intro!: keeps_bnd keeps_view_walk)
qed

lemma keeps_view_uvmunmap_loop: "run_view t = run_view s \<Longrightarrow> keeps run_view s (uvmunmap_loop pt a e fr t)"
proof (induction "unat MAXVA - unat a" arbitrary: a fr s t rule: less_induct)
  case less
  show ?case
    by (subst uvmunmap_loop.simps)
      (auto simp: Let_def less.prems intro!: keeps_bnd keeps_view_walk keeps_view_kfree less.hyps below_MAXVA_step dest: walk_returns)
qed

lemma keeps_view_uvmdealloc: "run_view t = run_view s \<Longrightarrow> keeps run_view s (uvmdealloc pt old new t)"
  by (auto simp: uvmdealloc_def uvmunmap_def Let_def intro!: keeps_bnd keeps_view_uvmunmap_loop)

lemma keeps_view_uvmalloc_loop: "run_view t = run_view s \<Longrightarrow> keeps run_view s (uvmalloc_loop pt old a new t)"
proof (induction pt old a new t arbitrary: s rule: uvmalloc_loop.induct)
  case (1 pt old a new t)
  show ?case
    by (subst uvmalloc_loop.simps) (auto simp: Let_def mappages_def 1
      intro!: keeps_bnd keeps_view_kalloc keeps_view_kfree keeps_view_uvmdealloc keeps_view_mappages_loop)
qed

text \<open>The values of the two routines that change the size.\<close>

lemma uvmalloc_loop_value: "uvmalloc_loop pt old a new s = Inr (r, t) \<Longrightarrow> r = 0 \<or> r = new"
proof (induction pt old a new s rule: uvmalloc_loop.induct)
  case (1 pt old a new s)
  from "1.prems" show ?case
    by (subst (asm) uvmalloc_loop.simps) (auto simp: Let_def bnd_eq_Inr ret_def split: if_splits dest: "1.IH")
qed

lemma uvmalloc_value:
  assumes "uvmalloc pt old new s = Inr (r, t)"
  shows "run_view t = run_view s" "if new < old then r = old else r = 0 \<or> r = new"
  using assms keeps_view_uvmalloc_loop [of s s pt "PGROUNDUP old" "PGROUNDUP old" new]
  by (auto simp: uvmalloc_def keeps_def ret_def split: if_splits dest: uvmalloc_loop_value)

lemma uvmdealloc_value:
  assumes "uvmdealloc pt old new s = Inr (r, t)"
  shows "run_view t = run_view s" "r = (if new \<ge> old then old else new)"
  using assms keeps_view_uvmdealloc [of s s pt old new] by (auto simp: uvmdealloc_def keeps_def ret_def bnd_eq_Inr split: if_splits)

lemma myproc_value:
  assumes "myproc s = Inr (p, t)"
  shows "run_view t = run_view s" "p = cpu_proc (cpus s (tp s))"
proof -
  from assms obtain u where "pop_off (push_off s) = Inr ((), u)" "t = u" "p = cpu_proc (mycpu (push_off s))"
    by (auto simp: myproc_def Let_def bnd_eq_Inr ret_def)
  with keeps_run_view_pop_off [of "push_off s"] show "run_view t = run_view s" "p = cpu_proc (cpus s (tp s))"
    by (simp add: keeps_def, simp add: mycpu_def cpuid_def push_off_eq)
qed

lemma run_viewD: "run_view t = run_view s \<Longrightarrow> procs t = procs s \<and> cpu_proc (cpus t (tp t)) = cpu_proc (cpus s (tp s))"
  unfolding run_view_def by (metis prod.inject)

lemma growproc_usbrk:
  assumes g: "growproc n s = Inr (r, t)" and p: "cpu_proc (cpus s (tp s)) = Some p" and n: "- (2 ^ 31) \<le> n" "n < 2 ^ 31"
  defines "sz \<equiv> p_sz (procs s p)"
  shows "\<exists>avail. usbrk avail n sz = (if r < 0 then -1 else of_int (sint (ucast sz :: uint)), p_sz (procs t p))"
proof -
  obtain u where u: "myproc s = Inr (Some p, u)" "procs u = procs s"
    using g myproc_value [of s] run_viewD p by (auto simp: growproc_def curproc_def bnd_eq_Inr split: option.splits) blast
  let ?z = "ucast sz :: uint" and ?pt = "p_pagetable (procs u p)"
  have uc: "ucast (ucast x :: uint64) = x" for x :: uint by (rule bit_word_eqI) (simp add: bit_simps)
  have ul: "(ucast x :: uint64) < ucast y \<longleftrightarrow> x < y" for x y :: uint
    using unsigned_less [of x, where ?'a = nat] unsigned_less [of y, where ?'a = nat]
    by (simp add: word_less_nat_alt unsigned_ucast_eq take_bit_nat_eq_self)
  consider "n > 0" | "n < 0" | "n = 0" by linarith
  then show ?thesis
  proof cases
    case 1
    have nz: "?z + of_int n \<noteq> 0" if "\<not> ?z + of_int n < ?z"
    proof
      assume a: "?z + of_int n = 0"
      with that have "?z = 0" by (simp add: not_less)
      with a have "uint (of_int n :: uint) = 0" by simp
      with 1 n(2) show False by (simp add: uint_word_of_int)
    qed
    from g 1 u obtain r1 s1 where v: "uvmalloc ?pt (ucast ?z) (ucast (?z + of_int n)) u = Inr (r1, s1)"
      and t: "r = (if (ucast r1 :: uint) = 0 then -1 else 0)"
        "t = (if (ucast r1 :: uint) = 0 then s1 else upd_proc p (\<lambda>q. q\<lparr>p_sz := ucast (ucast r1 :: uint)\<rparr>) s1)"
      by (auto simp: growproc_def curproc_def Let_def sz_def bnd_eq_Inr ret_def split: if_splits)
    from uvmalloc_value [OF v] u(2) have s1: "procs s1 = procs s" and r1: "if ?z + of_int n < ?z then r1 = ucast ?z else r1 = 0 \<or> r1 = ucast (?z + of_int n)"
      using run_viewD [OF uvmalloc_value(1) [OF v]] by (auto simp: ul)
    have "?z \<noteq> 0" if "?z + of_int n < ?z" using that by (auto simp: word_less_nat_alt)
    with 1 nz t s1 r1 show ?thesis
      by (intro exI [of _ "\<lambda>_ _. (ucast r1 :: uint) \<noteq> 0"]) (auto simp: usbrk_def Let_def uc upd_proc_def sz_def split: if_splits)
  next
    case 2
    from g 2 u obtain r1 s1 where v: "uvmdealloc ?pt (ucast ?z) (ucast (?z + of_int n)) u = Inr (r1, s1)"
      and t: "r = 0" "t = upd_proc p (\<lambda>q. q\<lparr>p_sz := ucast (ucast r1 :: uint)\<rparr>) s1"
      by (auto simp: growproc_def curproc_def Let_def sz_def bnd_eq_Inr ret_def split: if_splits)
    from uvmdealloc_value [OF v] 2 t show ?thesis
      by (auto simp: usbrk_def Let_def uc upd_proc_def not_less [symmetric] ul)
  next
    case 3
    then show ?thesis using g u by (auto simp: growproc_def curproc_def usbrk_def Let_def sz_def upd_proc_def ret_def)
  qed
qed

lemma sys_sbrk_usbrk:
  assumes r: "sys_sbrk s = Inr (v, t)" and p: "cpu_proc (cpus s (tp s)) = Some p"
  shows "\<exists>n u avail. argint 0 s = Inr (n, u) \<and> usbrk avail n (p_sz (procs s p)) = (v, p_sz (procs t p))"
proof -
  from r obtain n u where n: "argint 0 s = Inr (n, u)" by (auto simp: sys_sbrk_def bnd_eq_Inr)
  have u: "run_view u = run_view s" "- (2 ^ 31) \<le> n" "n < 2 ^ 31"
    using n myproc_value(1) [of s] sint_ge [of "ucast _ :: uint"] sint_lt [of "ucast _ :: uint"]
    by (auto simp: argint_def argraw_def curproc_def bnd_eq_Inr ret_def split: option.splits if_splits)
  note uD = run_viewD [OF u(1)]
  obtain u2 where m: "myproc u = Inr (Some p, u2)"
    using r n p uD myproc_value(2) [of u] by (auto simp: sys_sbrk_def curproc_def bnd_eq_Inr split: option.splits)
  note u2 = run_viewD [OF myproc_value(1) [OF m]]
  from r n m obtain g t' where g: "growproc n u2 = Inr (g, t')" "t = t'"
      "v = (if g < 0 then -1 else of_int (sint (ucast (p_sz (procs u2 p)) :: uint)))"
    by (auto simp: sys_sbrk_def curproc_def Let_def bnd_eq_Inr ret_def split: if_splits)
  have pr: "procs u2 = procs s" "cpu_proc (cpus u2 (tp u2)) = Some p" using p uD u2 by auto
  from growproc_usbrk [OF g(1) pr(2) u(2,3)] g n show ?thesis unfolding pr by auto
qed

end
