(* ===== verification/Mkfs.thy ===== *)
theory Mkfs
  imports Dir
begin

text \<open>
  \<^verbatim>\<open>mkfs/mkfs.c\<close>, the program that builds the initial file system on the host. The image is a function from sector
  numbers to sectors, with the number of sectors that the image file has; the files that go into it are a function
  from path names to the results of successive calls of \<^verbatim>\<open>read\<close> (or \<open>None\<close> when a file cannot be opened). A failed assertion
  and \<^verbatim>\<open>die\<close> stop the run. Functions with the name of one of the kernel carry the prefix \<open>mk\<close>.
\<close>

section \<open>Globals\<close>

definition NINODES :: nat where "NINODES = 200"
definition nbitmap :: nat where "nbitmap = FSSIZE div (BSIZE * 8) + 1"
definition ninodeblocks :: nat where "ninodeblocks = NINODES div IPB + 1"
definition nlog :: nat where "nlog = LOGSIZE"

record mkfs =
  img :: "uint \<Rightarrow> cptr"
  nsect :: nat
  mk_sb :: superblock
  freeinode :: uint
  freeblock :: uint

text \<open>Conversion to little-endian byte order, on a host that is little-endian itself.\<close>

definition xshort :: "ushort \<Rightarrow> ushort" where
  "xshort x = le_word [ucast x, ucast (drop_bit 8 x)]"

definition xint :: "uint \<Rightarrow> uint" where
  "xint x = le_word [ucast x, ucast (drop_bit 8 x), ucast (drop_bit 16 x), ucast (drop_bit 24 x)]"

section \<open>Sectors and inodes\<close>

text \<open>The sector at the file offset \<^verbatim>\<open>sec * BSIZE\<close>, a product of 32 bits.\<close>

definition sector :: "uint \<Rightarrow> uint" where
  "sector sec = sec * of_nat BSIZE div of_nat BSIZE"

definition wsect :: "uint \<Rightarrow> cptr \<Rightarrow> mkfs \<Rightarrow> (mkfs, unit) out" where
  "wsect sec buf s =
     ret () (s\<lparr>img := (img s)(sector sec := buf), nsect := max (nsect s) (unat (sector sec) + 1)\<rparr>)"

definition rsect :: "uint \<Rightarrow> mkfs \<Rightarrow> (mkfs, cptr) out" where
  "rsect sec s = (if unat (sector sec) < nsect s then ret (img s (sector sec)) s else panic ''read'' s)"

text \<open>An inode on the disk, with the fields of the in-memory inode that the disk does not have left at 0.\<close>

definition din0 :: inode where
  "din0 = \<lparr>i_dev = 0, i_inum = 0, i_ref = 0, i_lock = \<lparr>sl_locked = False, sl_lk = \<lparr>locked = False, lk_name = [], lk_cpu = None\<rparr>,
     sl_name = [], sl_pid = 0\<rparr>, i_valid = False, i_type = 0, i_major = 0, i_minor = 0, i_nlink = 0, i_size = 0, i_addrs = (\<lambda>_. 0)\<rparr>"

definition winode :: "uint \<Rightarrow> inode \<Rightarrow> mkfs \<Rightarrow> (mkfs, unit) out" where
  "winode inum ip s =
     (let bn = IBLOCK inum (mk_sb s)
      in bnd (rsect bn s) (\<lambda>buf s. wsect bn (dinode_store (dip inum) ip buf) s))"

definition rinode :: "uint \<Rightarrow> mkfs \<Rightarrow> (mkfs, inode) out" where
  "rinode inum s = bnd (rsect (IBLOCK inum (mk_sb s)) s) (\<lambda>buf s. ret (dinode_load buf (dip inum) din0) s)"

definition mk_ialloc :: "ushort \<Rightarrow> mkfs \<Rightarrow> (mkfs, uint) out" where
  "mk_ialloc ty s =
     (let inum = freeinode s;
          s = s\<lparr>freeinode := freeinode s + 1\<rparr>;
          din = din0\<lparr>i_type := xshort ty, i_nlink := xshort 1, i_size := xint 0\<rparr>
      in bnd (winode inum din s) (\<lambda>_ s. ret inum s))"

definition mk_balloc :: "int \<Rightarrow> mkfs \<Rightarrow> (mkfs, unit) out" where
  "mk_balloc used s =
     (if \<not> used < int (BSIZE * 8) then panic ''assert'' s
      else wsect (sb_bmapstart (mk_sb s)) (fold bit_set [0..<nat used] (\<lambda>_. 0)) s)"

section \<open>Appending to a file\<close>

text \<open>The block for \<^verbatim>\<open>fbn\<close>, allocated when the file does not have it yet: its number and the inode.\<close>

definition iappend_block :: "inode \<Rightarrow> nat \<Rightarrow> mkfs \<Rightarrow> (mkfs, uint \<times> inode) out" where
  "iappend_block din fbn s =
     (if fbn < NDIRECT then
        let (din, s) = (if xint (i_addrs din fbn) = 0
                        then (din\<lparr>i_addrs := (i_addrs din)(fbn := xint (freeblock s))\<rparr>, s\<lparr>freeblock := freeblock s + 1\<rparr>)
                        else (din, s))
        in ret (xint (i_addrs din fbn), din) s
      else
        let (din, s) = (if xint (i_addrs din NDIRECT) = 0
                        then (din\<lparr>i_addrs := (i_addrs din)(NDIRECT := xint (freeblock s))\<rparr>, s\<lparr>freeblock := freeblock s + 1\<rparr>)
                        else (din, s))
        in bnd (rsect (xint (i_addrs din NDIRECT)) s) (\<lambda>indirect s.
             if get32 indirect (4 * (fbn - NDIRECT)) = 0
             then let indirect = put32 indirect (4 * (fbn - NDIRECT)) (xint (freeblock s));
                      s = s\<lparr>freeblock := freeblock s + 1\<rparr>
                  in bnd (wsect (xint (i_addrs din NDIRECT)) indirect s) (\<lambda>_ s.
                       ret (xint (get32 indirect (4 * (fbn - NDIRECT))), din) s)
             else ret (xint (get32 indirect (4 * (fbn - NDIRECT))), din) s))"

lemma left_in_block: "unat ((off div of_nat BSIZE + 1) * of_nat BSIZE - off :: uint) = BSIZE - unat off mod BSIZE"
proof -
  have e: "(off div of_nat BSIZE + 1) * of_nat BSIZE - off = of_nat BSIZE - off mod of_nat BSIZE"
    by (simp add: distrib_right minus_div_mult_eq_mod [symmetric])
  show ?thesis unfolding e by (simp add: BSIZE_def unat_sub word_le_nat_alt unat_mod_distrib)
qed

lemma some_left: "0 < unat ((off div of_nat BSIZE + 1) * of_nat BSIZE - off :: uint)"
  unfolding left_in_block by (simp add: BSIZE_def)

function iappend_loop :: "inode \<Rightarrow> uint \<Rightarrow> uchar list \<Rightarrow> mkfs \<Rightarrow> (mkfs, inode \<times> uint) out" where
  "iappend_loop din off p s =
     (if p = [] then ret (din, off) s
      else let fbn = off div of_nat BSIZE
           in if \<not> unat fbn < MAXFILE then panic ''assert'' s
              else bnd (iappend_block din (unat fbn) s) (\<lambda>(x, din) s.
                     let n1 = min (length p) (unat ((fbn + 1) * of_nat BSIZE - off))
                     in bnd (rsect x s) (\<lambda>buf s.
                        bnd (wsect x (put_bytes buf (unat (off - fbn * of_nat BSIZE)) (take n1 p)) s) (\<lambda>_ s.
                        iappend_loop din (off + of_nat n1) (drop n1 p) s))))"
  by pat_completeness auto

termination
  by (relation "measure (\<lambda>(_, _, p, _). length p)") (use some_left in \<open>auto simp: min_def simp del: unat_gt_0\<close>)

declare iappend_loop.simps [simp del]

definition iappend :: "uint \<Rightarrow> uchar list \<Rightarrow> mkfs \<Rightarrow> (mkfs, unit) out" where
  "iappend inum p s =
     bnd (rinode inum s) (\<lambda>din s.
     bnd (iappend_loop din (xint (i_size din)) p s) (\<lambda>(din, off) s.
     winode inum (din\<lparr>i_size := xint off\<rparr>) s))"

section \<open>The program\<close>

definition sb_encode :: "superblock \<Rightarrow> cptr" where
  "sb_encode q = put32 (put32 (put32 (put32 (put32 (put32 (put32 (put32 (\<lambda>_. 0) 0 (sb_magic q)) 4 (sb_size q)) 8 (sb_nblocks q))
     12 (sb_ninodes q)) 16 (sb_nlog q)) 20 (sb_logstart q)) 24 (sb_inodestart q)) 28 (sb_bmapstart q)"

text \<open>\<^verbatim>\<open>strncpy\<close> into the zeroed name of a directory entry.\<close>

definition de_name_of :: "uchar list \<Rightarrow> cptr" where
  "de_name_of nm = (\<lambda>i. if i < length nm \<and> i < DIRSIZ then nm ! i else 0)"

definition mk_dirent :: "uint \<Rightarrow> uchar list \<Rightarrow> mkfs \<Rightarrow> (mkfs, unit) out" where
  "mk_dirent inum nm s = iappend ROOTINO (de_encode (xshort (ucast inum)) (de_name_of nm)) s"

definition user_prefix :: "uchar list" where "user_prefix = [117, 115, 101, 114, 47]"

definition shortname :: "uchar list \<Rightarrow> uchar list" where
  "shortname arg = (if take 5 arg = user_prefix then drop 5 arg else arg)"

definition strip_underscore :: "uchar list \<Rightarrow> uchar list" where
  "strip_underscore nm = (if nm \<noteq> [] \<and> hd nm = 95 then tl nm else nm)"

fun mk_copy :: "uint \<Rightarrow> uchar list list \<Rightarrow> mkfs \<Rightarrow> (mkfs, unit) out" where
  "mk_copy inum [] s = ret () s"
| "mk_copy inum (buf # rest) s =
     (if buf = [] then ret () s else bnd (iappend inum buf s) (\<lambda>_ s. mk_copy inum rest s))"

definition mk_file :: "(uchar list \<Rightarrow> uchar list list option) \<Rightarrow> uchar list \<Rightarrow> mkfs \<Rightarrow> (mkfs, unit) out" where
  "mk_file host arg s =
     (let nm = shortname arg
      in if slash \<in> set nm then panic ''assert'' s
         else case host arg of
                None \<Rightarrow> panic ''open'' s
              | Some reads \<Rightarrow>
                  let nm = strip_underscore nm
                  in bnd (mk_ialloc T_FILE s) (\<lambda>inum s.
                     bnd (mk_dirent inum nm s) (\<lambda>_ s.
                     mk_copy inum reads s)))"

fun mk_files :: "(uchar list \<Rightarrow> uchar list list option) \<Rightarrow> uchar list list \<Rightarrow> mkfs \<Rightarrow> (mkfs, unit) out" where
  "mk_files host [] s = ret () s"
| "mk_files host (arg # args) s = bnd (mk_file host arg s) (\<lambda>_ s. mk_files host args s)"

fun wsects :: "nat list \<Rightarrow> cptr \<Rightarrow> mkfs \<Rightarrow> (mkfs, unit) out" where
  "wsects [] buf s = ret () s"
| "wsects (i # is) buf s = bnd (wsect (of_nat i) buf s) (\<lambda>_ s. wsects is buf s)"

definition mk_super :: superblock where
  "mk_super = (let nmeta = 2 + nlog + ninodeblocks + nbitmap
     in \<lparr>sb_magic = FSMAGIC, sb_size = xint (of_nat FSSIZE), sb_nblocks = xint (of_nat (FSSIZE - nmeta)),
         sb_ninodes = xint (of_nat NINODES), sb_nlog = xint (of_nat nlog), sb_logstart = xint 2,
         sb_inodestart = xint (of_nat (2 + nlog)), sb_bmapstart = xint (of_nat (2 + nlog + ninodeblocks))\<rparr>)"

text \<open>The size of the root directory, rounded to the end of a block.\<close>

definition mk_fix_root :: "mkfs \<Rightarrow> (mkfs, unit) out" where
  "mk_fix_root s =
     bnd (rinode ROOTINO s) (\<lambda>din s.
       let off = xint (i_size din);
           off = (off div of_nat BSIZE + 1) * of_nat BSIZE
       in winode ROOTINO (din\<lparr>i_size := xint off\<rparr>) s)"

text \<open>The globals at the start, and the run up to \<^verbatim>\<open>exit\<close> for the arguments after the name of the image.\<close>

definition mk_start :: mkfs where
  "mk_start = \<lparr>img = (\<lambda>_ _. 0), nsect = 0, mk_sb = mk_super, freeinode = 1,
     freeblock = of_nat (2 + nlog + ninodeblocks + nbitmap)\<rparr>"

definition mk_main :: "(uchar list \<Rightarrow> uchar list list option) \<Rightarrow> uchar list list \<Rightarrow> (mkfs, unit) out" where
  "mk_main host args =
     bnd (wsects [0..<FSSIZE] (\<lambda>_. 0) mk_start) (\<lambda>_ s.
     bnd (wsect 1 (sb_encode (mk_sb s)) s) (\<lambda>_ s.
     bnd (mk_ialloc T_DIR s) (\<lambda>rootino s.
       if rootino \<noteq> ROOTINO then panic ''assert'' s
       else
         bnd (mk_dirent rootino [46] s) (\<lambda>_ s.
         bnd (mk_dirent rootino [46, 46] s) (\<lambda>_ s.
         bnd (mk_files host args s) (\<lambda>_ s.
         bnd (mk_fix_root s) (\<lambda>_ s.
         mk_balloc (sint (freeblock s)) s)))))))"

end
