(* ===== verification/BioList.thy ===== *)
theory BioList
  imports Bio
begin

text \<open>
  The LRU list of the buffer cache is a well-formed doubly linked list of all buffers: what the walks of
  \<^verbatim>\<open>bget\<close> find on it, and that the six assignments of \<^verbatim>\<open>brelse\<close> move a buffer to its front.
\<close>

section \<open>Doubly linked lists\<close>

fun chain :: "(nat \<Rightarrow> nat) \<Rightarrow> (nat \<Rightarrow> nat) \<Rightarrow> nat list \<Rightarrow> bool" where
  "chain N P (a # b # ys) \<longleftrightarrow> N a = b \<and> P b = a \<and> chain N P (b # ys)"
| "chain N P ys \<longleftrightarrow> True"

lemma chain_append: "chain N P (xs @ a # ys) \<longleftrightarrow> chain N P (xs @ [a]) \<and> chain N P (a # ys)"
proof (induction xs)
  case (Cons x xs)
  then show ?case by (cases xs) auto
qed simp

lemma chain_cong:
  "(\<And>x. x \<in> set (butlast ys) \<Longrightarrow> N x = N' x) \<Longrightarrow> (\<And>x. x \<in> set (tl ys) \<Longrightarrow> P x = P' x) \<Longrightarrow>
   chain N P ys = chain N' P' ys"
proof (induction ys)
  case (Cons a ys)
  then show ?case by (cases ys) auto
qed simp

lemma chain_unlink:
  assumes "chain N P (u @ p # b # n # v)" "p \<notin> set u" "p \<notin> set (butlast (n # v))"
    "n \<notin> set (tl (u @ [p]))" "n \<notin> set v"
  shows "chain (N(p := n)) (P(n := p)) (u @ p # n # v)"
proof -
  have c: "chain N P (u @ [p])" "chain N P (n # v)"
    using assms(1) chain_append [of N P u p "b # n # v"] by auto
  have "chain (N(p := n)) (P(n := p)) (u @ [p]) = chain N P (u @ [p])"
    by (rule chain_cong) (use assms(2,4) in auto)
  moreover have "chain (N(p := n)) (P(n := p)) (n # v) = chain N P (n # v)"
    by (rule chain_cong) (use assms(3,5) in auto)
  ultimately show ?thesis using c chain_append [of "N(p := n)" "P(n := p)" u p "n # v"] by simp
qed

lemma chain_insert:
  assumes "chain N P (h # m # R)" "b \<notin> set (m # R)" "b \<noteq> h" "h \<notin> set (butlast (m # R))" "m \<notin> set R"
  shows "chain (N(b := m, h := b)) (P(b := h, m := b)) (h # b # m # R)"
proof -
  have "chain (N(b := m, h := b)) (P(b := h, m := b)) (m # R) = chain N P (m # R)"
    by (rule chain_cong) (use assms in \<open>auto split: if_splits dest: in_set_butlastD\<close>)
  with assms show ?thesis by auto
qed

text \<open>
  \<open>dll B xs\<close>: starting from the head, the links of \<open>B\<close> visit all buffers, in the order \<open>xs\<close>, and come back.
\<close>

definition dll :: "(nat \<Rightarrow> buf) \<Rightarrow> nat list \<Rightarrow> bool" where
  "dll B xs \<longleftrightarrow> distinct xs \<and> set xs = {0..<NBUF} \<and>
     chain (\<lambda>i. b_next (B i)) (\<lambda>i. b_prev (B i)) (bhead # xs @ [bhead])"

lemma dll_props:
  assumes "dll B xs"
  shows "distinct xs" "set xs = {0..<NBUF}" "bhead \<notin> set xs" "length xs = NBUF"
  using assms distinct_card [of xs] by (auto simp: dll_def bhead_def)

lemma bget_find_chain:
  "chain (\<lambda>i. b_next (B i)) P (ys @ [bhead]) \<Longrightarrow> bhead \<notin> set ys \<Longrightarrow> length ys < k \<Longrightarrow>
   bget_find k dev bno (hd (ys @ [bhead])) B = Some (List.find (\<lambda>b. b_dev (B b) = dev \<and> b_blockno (B b) = bno) ys)"
proof (induction ys arbitrary: k)
  case Nil
  then show ?case by (cases k) auto
next
  case (Cons a ys)
  then obtain k' where k: "k = Suc k'" by (cases k) auto
  have "chain (\<lambda>i. b_next (B i)) P (ys @ [bhead])" "b_next (B a) = hd (ys @ [bhead])"
    using Cons.prems(1) by (cases ys; simp)+
  with Cons k show ?case by simp
qed

lemma bget_lru_chain:
  "chain N (\<lambda>i. b_prev (B i)) (bhead # ys) \<Longrightarrow> bhead \<notin> set ys \<Longrightarrow> length ys < k \<Longrightarrow>
   bget_lru k (last (bhead # ys)) B = Some (List.find (\<lambda>b. b_refcnt (B b) = 0) (rev ys))"
proof (induction ys arbitrary: k rule: rev_induct)
  case Nil
  then show ?case by (cases k) auto
next
  case (snoc a ys)
  then obtain k' where k: "k = Suc k'" by (cases k) auto
  have "chain N (\<lambda>i. b_prev (B i)) (bhead # ys)" "b_prev (B a) = last (bhead # ys)"
  proof -
    have "bhead # ys = butlast (bhead # ys) @ [last (bhead # ys)]" by (rule append_butlast_last_id [symmetric]) simp
    then have e: "bhead # ys @ [a] = butlast (bhead # ys) @ last (bhead # ys) # [a]"
      by (metis append_Cons append_assoc append_Nil)
    have "chain N (\<lambda>i. b_prev (B i)) (butlast (bhead # ys) @ [last (bhead # ys)]) \<and>
        chain N (\<lambda>i. b_prev (B i)) [last (bhead # ys), a]"
      using snoc.prems(1) unfolding e by (subst (asm) chain_append)
    then show "chain N (\<lambda>i. b_prev (B i)) (bhead # ys)" "b_prev (B a) = last (bhead # ys)"
      by (simp_all del: butlast.simps last.simps)
  qed
  with snoc k show ?case by simp
qed

text \<open>A buffer without its links; equal cores mean equal contents, identity, locks and counts.\<close>

definition core :: "buf \<Rightarrow> buf" where
  "core x = x\<lparr>b_prev := 0, b_next := 0\<rparr>"

lemma upd_buf_simps [simp]:
  "bufs (upd_buf i h s) j = (if j = i then h (bufs s i) else bufs s j)"
  "disk (upd_buf i h s) = disk s" "dhist (upd_buf i h s) = dhist s" "bcache_lock (upd_buf i h s) = bcache_lock s"
  "procs (upd_buf i h s) = procs s" "quiet (upd_buf i h s) = quiet s" "cur (upd_buf i h s) = cur s"
  "calm p (upd_buf i h s) = calm p s"
  by (simp_all add: upd_buf_def quiet_def mycpu_def cpuid_def cur_def calm_def locks_free_def p_lk_def)

lemma upd_buf_twice [simp]: "upd_buf i h (upd_buf i k s) = upd_buf i (\<lambda>x. h (k x)) s"
  by (simp add: upd_buf_def)

section \<open>Moving a buffer to the front\<close>

text \<open>The links that the six assignments of \<^verbatim>\<open>brelse\<close> leave behind.\<close>

lemma brelse_front_fields:
  assumes "b_prev (bufs s b) = p" "b_next (bufs s b) = n" "n \<noteq> b" "p \<noteq> b" "b \<noteq> bhead"
  defines "N1 \<equiv> (\<lambda>i. b_next (bufs s i))(p := n)" and "P1 \<equiv> (\<lambda>i. b_prev (bufs s i))(n := p)"
  shows "b_next (bufs (brelse_front b s) i) = (N1(b := N1 bhead, bhead := b)) i"
    "b_prev (bufs (brelse_front b s) i) = (P1(b := bhead, N1 bhead := b)) i"
    "core (bufs (brelse_front b s) i) = core (bufs s i)"
proof -
  define t1 where "t1 = upd_buf n (\<lambda>x. x\<lparr>b_prev := p\<rparr>) s"
  define t2 where "t2 = upd_buf p (\<lambda>x. x\<lparr>b_next := n\<rparr>) t1"
  define t4 where "t4 = upd_buf b (\<lambda>x. x\<lparr>b_next := N1 bhead, b_prev := bhead\<rparr>) t2"
  define t5 where "t5 = upd_buf (N1 bhead) (\<lambda>x. x\<lparr>b_prev := b\<rparr>) t4"
  have 1: "b_next (bufs t1 b) = n" "b_prev (bufs t1 b) = p" using assms(1-3) by (simp_all add: t1_def)
  have f2: "b_next (bufs t2 j) = N1 j" "b_prev (bufs t2 j) = P1 j" "core (bufs t2 j) = core (bufs s j)" for j
    by (simp_all add: t2_def t1_def N1_def P1_def core_def)
  have f4: "b_next (bufs t4 j) = (N1(b := N1 bhead)) j" "b_prev (bufs t4 j) = (P1(b := bhead)) j"
    "core (bufs t4 j) = core (bufs s j)" for j
    using f2 [of j] by (auto simp: t4_def core_def)
  have f5: "b_next (bufs t5 j) = (N1(b := N1 bhead)) j" "b_prev (bufs t5 j) = (P1(b := bhead, N1 bhead := b)) j"
    "core (bufs t5 j) = core (bufs s j)" for j
    using f4 [of j] by (auto simp: t5_def core_def)
  have "brelse_front b s = upd_buf bhead (\<lambda>x. x\<lparr>b_next := b\<rparr>) t5"
    unfolding brelse_front_def Let_def assms(1,2) t1_def [symmetric] 1 t2_def [symmetric] f2
    using assms(5) f4(1) [of bhead] by (simp add: t4_def [symmetric] t5_def [symmetric])
  with f5 show "b_next (bufs (brelse_front b s) i) = (N1(b := N1 bhead, bhead := b)) i"
    "b_prev (bufs (brelse_front b s) i) = (P1(b := bhead, N1 bhead := b)) i"
    "core (bufs (brelse_front b s) i) = core (bufs s i)"
    using assms(5) by (auto simp: core_def)
qed

lemma brelse_front_links:
  assumes "dll (bufs s) xs" "b \<in> set xs"
  shows "dll (bufs (brelse_front b s)) (b # remove1 b xs)"
    and "brelse_front b s = s\<lparr>bufs := bufs (brelse_front b s)\<rparr>"
    and "core (bufs (brelse_front b s) i) = core (bufs s i)"
proof -
  let ?B = "bufs s" and ?N = "\<lambda>i. b_next (bufs s i)" and ?P = "\<lambda>i. b_prev (bufs s i)" and ?t = "brelse_front b s"
  from assms(2) obtain as cs where xs: "xs = as @ b # cs" by (meson split_list)
  note d = dll_props [OF assms(1)]
  have b: "b \<noteq> bhead" "b \<notin> set as" "b \<notin> set cs" using d(1,3) assms(2) xs by auto
  define u p n v where "u = butlast (bhead # as)" and "p = last (bhead # as)"
    and "n = hd (cs @ [bhead])" and "v = tl (cs @ [bhead])"
  have up: "bhead # as = u @ [p]" unfolding u_def p_def by (rule append_butlast_last_id [symmetric]) simp
  have nv: "cs @ [bhead] = n # v" unfolding n_def v_def by simp
  have c: "chain ?N ?P (u @ p # b # n # v)"
  proof -
    have "bhead # xs @ [bhead] = (bhead # as) @ b # (cs @ [bhead])" by (simp add: xs)
    also have "\<dots> = u @ p # b # n # v" unfolding up nv by simp
    finally show ?thesis using assms(1) by (simp add: dll_def)
  qed
  have links: "?P b = p" "?N b = n"
    using c by (subst (asm) chain_append, simp)+
  define N1 P1 where "N1 = ?N(p := n)" and "P1 = ?P(n := p)"
  define m R where "m = hd (as @ cs @ [bhead])" and "R = tl (as @ cs @ [bhead])"
  have mR: "as @ cs @ [bhead] = m # R" unfolding m_def R_def by simp
  have dist: "distinct (as @ cs)" "bhead \<notin> set (as @ cs)" using d(1,3) by (auto simp: xs)
  have c1: "chain N1 P1 (u @ p # n # v)" unfolding N1_def P1_def
  proof (rule chain_unlink [OF c])
    have *: "distinct (u @ [p])" using dist unfolding up [symmetric] by auto
    show "p \<notin> set u" using * by simp
    have bl: "butlast (n # v) = cs" unfolding nv [symmetric] by simp
    show "p \<notin> set (butlast (n # v))" unfolding bl p_def using dist last_in_set [of as] by (auto simp: disjoint_iff)
    have tl: "tl (u @ [p]) = as" unfolding up [symmetric] by simp
    show "n \<notin> set (tl (u @ [p]))" unfolding tl n_def using dist by (cases cs) auto
    show "n \<notin> set v" using dist unfolding n_def v_def by (cases cs) auto
  qed
  have l1: "u @ p # n # v = bhead # m # R"
  proof -
    have "u @ p # n # v = (u @ [p]) @ n # v" by simp
    also have "\<dots> = bhead # as @ cs @ [bhead]" unfolding up [symmetric] nv [symmetric] by simp
    finally show ?thesis unfolding mR .
  qed
  have m: "N1 bhead = m" using c1 unfolding l1 by simp
  have c2: "chain (N1(b := m, bhead := b)) (P1(b := bhead, m := b)) (bhead # b # m # R)"
  proof (rule chain_insert)
    show "chain N1 P1 (bhead # m # R)" using c1 unfolding l1 .
    have sm: "set (m # R) = set as \<union> set cs \<union> {bhead}" unfolding mR [symmetric] by auto
    show "b \<notin> set (m # R)" unfolding sm using b by simp
    have "butlast (m # R) = as @ cs" unfolding mR [symmetric] by (simp add: butlast_append)
    then show "bhead \<notin> set (butlast (m # R))" using dist by simp
    have "distinct (m # R)" unfolding mR [symmetric] using dist by simp
    then show "m \<notin> set R" by simp
  qed (rule b)
  have nb: "n \<noteq> b" "p \<noteq> b" using b unfolding n_def p_def by (cases cs; auto)+
  have eqN: "(\<lambda>i. b_next (bufs ?t i)) = N1(b := m, bhead := b)"
    and eqP: "(\<lambda>i. b_prev (bufs ?t i)) = P1(b := bhead, m := b)"
    using brelse_front_fields [OF links nb b(1)] m unfolding N1_def [symmetric] P1_def [symmetric] by auto
  have "remove1 b xs = as @ cs" using b by (simp add: xs remove1_append)
  then show "dll (bufs ?t) (b # remove1 b xs)"
    using c2 d(1,2) b unfolding dll_def eqN eqP xs by (auto simp: mR [symmetric])
  show "?t = s\<lparr>bufs := bufs ?t\<rparr>"
    by (simp add: brelse_front_def Let_def upd_buf_def)
  show "core (bufs ?t i) = core (bufs s i)" using brelse_front_fields(3) [OF links nb b(1)] .
qed

section \<open>What the operations do to the buffers\<close>

definition kb :: "'a bstate_scheme \<Rightarrow> nat \<Rightarrow> buf" where
  "kb s i = core (bufs s i)"

lemma core_simps [simp]:
  "b_valid (core x) = b_valid x" "b_disk (core x) = b_disk x" "b_dev (core x) = b_dev x"
  "b_blockno (core x) = b_blockno x" "b_lock (core x) = b_lock x" "b_refcnt (core x) = b_refcnt x"
  "b_data (core x) = b_data x"
  by (simp_all add: core_def)

definition held_by :: "int \<Rightarrow> sleeplock \<Rightarrow> sleeplock" where
  "held_by pid l = l\<lparr>sl_locked := True, sl_pid := pid\<rparr>"

definition unheld :: "sleeplock \<Rightarrow> sleeplock" where
  "unheld l = l\<lparr>sl_locked := False, sl_pid := 0\<rparr>"

lemma bc_enter_simps [simp]: "bufs (bclock.enter s) = bufs s" "disk (bclock.enter s) = disk s"
  by (simp_all add: bclock.enter_def push_off_eq)

lemma upd_buf_enter: "upd_buf i h (bclock.enter s) = bclock.enter (upd_buf i h s)"
  by (simp add: upd_buf_def bclock.enter_def push_off_eq)

lemma bc_release:
  assumes "calm p s" "free_lock (bcache_lock s)"
  shows "release bcache_lock bcache_lock_update (bclock.enter s) = ret () s"
  using assms by (intro bclock.release_enter) (simp_all add: calm_def)

lemma dll_links:
  assumes "dll (bufs s) xs" "\<And>i. b_next (B i) = b_next (bufs s i) \<and> b_prev (B i) = b_prev (bufs s i)"
  shows "dll B xs"
  using assms by (simp add: dll_def)

text \<open>The lookup: the cached buffer if there is one, otherwise the least recently used unreferenced one.\<close>

lemma dll_find:
  assumes "dll B xs"
  shows "bget_find (Suc NBUF) dev bno (b_next (B bhead)) B = Some (List.find (\<lambda>b. b_dev (B b) = dev \<and> b_blockno (B b) = bno) xs)"
    "bget_lru (Suc NBUF) (b_prev (B bhead)) B = Some (List.find (\<lambda>b. b_refcnt (B b) = 0) (rev xs))"
proof -
  note d = dll_props [OF assms]
  let ?N = "\<lambda>i. b_next (B i)" and ?P = "\<lambda>i. b_prev (B i)"
  have c: "chain ?N ?P (bhead # xs @ [bhead])" using assms by (simp add: dll_def)
  then have "chain ?N ?P (xs @ [bhead])" "?N bhead = hd (xs @ [bhead])" by (cases xs; simp)+
  with bget_find_chain [of B ?P xs "Suc NBUF" dev bno] d
  show "bget_find (Suc NBUF) dev bno (b_next (B bhead)) B = Some (List.find (\<lambda>b. b_dev (B b) = dev \<and> b_blockno (B b) = bno) xs)"
    by simp
  have e: "bhead # xs = butlast (bhead # xs) @ [last (bhead # xs)]" by (rule append_butlast_last_id [symmetric]) simp
  have "bhead # xs @ [bhead] = butlast (bhead # xs) @ last (bhead # xs) # [bhead]" using e by (metis append_Cons append_assoc append_Nil)
  with c have "chain ?N ?P (butlast (bhead # xs) @ [last (bhead # xs)]) \<and> chain ?N ?P [last (bhead # xs), bhead]"
    by (metis chain_append)
  then have "chain ?N ?P (bhead # xs)" "?P bhead = last (bhead # xs)" by (simp_all del: butlast.simps last.simps)
  with bget_lru_chain [of ?N B xs "Suc NBUF"] d
  show "bget_lru (Suc NBUF) (b_prev (B bhead)) B = Some (List.find (\<lambda>b. b_refcnt (B b) = 0) (rev xs))"
    by (simp del: last.simps)
qed

end
