(* ===== verification/BioSpec.thy ===== *)
theory BioSpec
  imports BioList
begin

text \<open>
  The buffer cache refines an abstract store of blocks: \<^verbatim>\<open>bread\<close>, \<^verbatim>\<open>bwrite\<close>, \<^verbatim>\<open>brelse\<close>, \<^verbatim>\<open>bpin\<close> and \<^verbatim>\<open>bunpin\<close>
  have simple effects on it that hide the buffers, their replacement and the LRU list.
\<close>

section \<open>The abstract cache\<close>

text \<open>
  What the cache promises its clients about device \<open>d\<close>: \<open>cv\<close> is the current contents of every block, \<open>cd\<close> what is
  on the disk, \<open>cr\<close> how many references a block has, \<open>ch\<close> the blocks locked by the running process. The
  buffers, their replacement and the LRU list do not show.
\<close>

record cache =
  cv :: "uint \<Rightarrow> cptr"
  cd :: "uint \<Rightarrow> cptr"
  cr :: "uint \<Rightarrow> nat"
  ch :: "uint set"

definition buf_ok :: "uint \<Rightarrow> cache \<Rightarrow> int \<Rightarrow> buf \<Rightarrow> bool" where
  "buf_ok d c pid x \<longleftrightarrow> free_lock (sl_lk (b_lock x)) \<and>
     (if b_refcnt x = 0 then \<not> sl_locked (b_lock x) \<and> (b_dev x = d \<longrightarrow> cr c (b_blockno x) = 0)
      else b_dev x = d \<and> b_valid x \<and> unat (b_refcnt x) = cr c (b_blockno x) \<and>
           (sl_locked (b_lock x) \<longleftrightarrow> b_blockno x \<in> ch c) \<and> (sl_locked (b_lock x) \<longrightarrow> sl_pid (b_lock x) = pid)) \<and>
     (b_dev x = d \<longrightarrow> b_valid x \<longrightarrow> b_data x = cv c (b_blockno x))"

definition cores :: "uint \<Rightarrow> cache \<Rightarrow> int \<Rightarrow> (nat \<Rightarrow> buf) \<Rightarrow> bool" where
  "cores d c pid K \<longleftrightarrow>
     (\<forall>i < NBUF. buf_ok d c pid (K i)) \<and>
     (\<forall>i < NBUF. \<forall>j < NBUF. b_dev (K i) = d \<longrightarrow> b_dev (K j) = d \<longrightarrow> b_blockno (K i) = b_blockno (K j) \<longrightarrow> i = j) \<and>
     (\<forall>b. cr c b \<noteq> 0 \<longrightarrow> (\<exists>i < NBUF. b_dev (K i) = d \<and> b_blockno (K i) = b \<and> b_refcnt (K i) \<noteq> 0)) \<and>
     (\<forall>b. cr c b = 0 \<longrightarrow> cv c b = cd c b \<and> b \<notin> ch c)"

definition cache_rel :: "nat \<Rightarrow> uint \<Rightarrow> cache \<Rightarrow> 'a bstate_scheme \<Rightarrow> bool" where
  "cache_rel p d c s \<longleftrightarrow> calm p s \<and> free_lock (bcache_lock s) \<and> (\<exists>xs. dll (bufs s) xs) \<and>
     cores d c (p_pid (procs s p)) (kb s) \<and> cd c = disk s"

text \<open>Buffer \<open>i\<close> caches block \<open>b\<close> and is referenced.\<close>

definition buf_at :: "uint \<Rightarrow> 'a bstate_scheme \<Rightarrow> uint \<Rightarrow> nat \<Rightarrow> bool" where
  "buf_at d s b i \<longleftrightarrow> i < NBUF \<and> b_dev (bufs s i) = d \<and> b_blockno (bufs s i) = b \<and> b_refcnt (bufs s i) \<noteq> 0"

lemma buf_ok_core [simp]: "buf_ok d c pid (core x) = buf_ok d c pid x"
  by (simp add: buf_ok_def)

lemma kb_upd [simp]: "kb (upd_buf i h s) = (kb s)(i := core (h (bufs s i)))"
  by (auto simp: kb_def)

lemma kb_simps [simp]:
  "b_valid (kb s i) = b_valid (bufs s i)" "b_dev (kb s i) = b_dev (bufs s i)"
  "b_blockno (kb s i) = b_blockno (bufs s i)" "b_lock (kb s i) = b_lock (bufs s i)"
  "b_refcnt (kb s i) = b_refcnt (bufs s i)" "b_data (kb s i) = b_data (bufs s i)"
  by (simp_all add: kb_def)

lemma coresI:
  assumes "\<And>i. i < NBUF \<Longrightarrow> buf_ok d c pid (K i)"
    and "\<And>i j. i < NBUF \<Longrightarrow> j < NBUF \<Longrightarrow> b_dev (K i) = d \<Longrightarrow> b_dev (K j) = d \<Longrightarrow>
      b_blockno (K i) = b_blockno (K j) \<Longrightarrow> i = j"
    and "\<And>b. cr c b \<noteq> 0 \<Longrightarrow> \<exists>i < NBUF. b_dev (K i) = d \<and> b_blockno (K i) = b \<and> b_refcnt (K i) \<noteq> 0"
    and "\<And>b. cr c b = 0 \<Longrightarrow> cv c b = cd c b \<and> b \<notin> ch c"
  shows "cores d c pid K"
  unfolding cores_def using assms by blast

text \<open>One buffer changes, on behalf of one block.\<close>

lemma cores_upd:
  assumes c: "cores d c pid K" and i: "i < NBUF" and x: "b_dev x = d" "b_blockno x = b"
    and old: "b_dev (K i) = d \<and> b_blockno (K i) = b \<or>
      b_refcnt (K i) = 0 \<and> (\<forall>j < NBUF. \<not> (b_dev (K j) = d \<and> b_blockno (K j) = b))"
    and ok: "buf_ok d c' pid x"
    and same: "\<And>b'. b' \<noteq> b \<Longrightarrow> cr c' b' = cr c b' \<and> cv c' b' = cv c b' \<and> cd c' b' = cd c b' \<and> (b' \<in> ch c' \<longleftrightarrow> b' \<in> ch c)"
    and zero: "cr c' b = 0 \<Longrightarrow> cv c' b = cd c' b \<and> b \<notin> ch c'"
    and ref: "cr c' b \<noteq> 0 \<Longrightarrow> b_refcnt x \<noteq> 0"
  shows "cores d c' pid (K(i := x))"
proof -
  have uniq: "j = i" if "j < NBUF" "b_dev (K j) = d" "b_blockno (K j) = b" for j
    using c i old that unfolding cores_def by blast
  have K: "j = k" if "j < NBUF" "k < NBUF" "b_dev (K j) = d" "b_dev (K k) = d" "b_blockno (K j) = b_blockno (K k)" for j k
    using c that unfolding cores_def by blast
  show ?thesis
  proof (rule coresI)
    fix j assume j: "j < NBUF"
    have "buf_ok d c' pid (K j)" if "j \<noteq> i"
    proof -
      have "buf_ok d c pid (K j)" using c j by (simp add: cores_def)
      moreover have "b_dev (K j) = d \<Longrightarrow> b_blockno (K j) \<noteq> b" using uniq j that by blast
      ultimately show ?thesis using same [of "b_blockno (K j)"] by (auto simp: buf_ok_def split: if_splits)
    qed
    with ok show "buf_ok d c' pid ((K(i := x)) j)" by simp
  next
    fix j k assume jk: "j < NBUF" "k < NBUF" "b_dev ((K(i := x)) j) = d" "b_dev ((K(i := x)) k) = d"
      "b_blockno ((K(i := x)) j) = b_blockno ((K(i := x)) k)"
    show "j = k"
    proof (cases "j = i")
      case True
      have "k = i"
      proof (rule ccontr)
        assume "k \<noteq> i"
        with True jk x have "b_dev (K k) = d" "b_blockno (K k) = b" by simp_all
        with jk(2) have "k = i" by (rule uniq)
        with \<open>k \<noteq> i\<close> show False ..
      qed
      with True show ?thesis by simp
    next
      case j: False
      show ?thesis
      proof (cases "k = i")
        case True
        with jk x j have "b_dev (K j) = d" "b_blockno (K j) = b" by simp_all
        with jk(1) have "j = i" by (rule uniq)
        with j show ?thesis ..
      next
        case False
        with jk(3-5) j show ?thesis by (intro K [OF jk(1,2)]) simp_all
      qed
    qed
  next
    fix b' assume *: "cr c' b' \<noteq> 0"
    show "\<exists>j < NBUF. b_dev ((K(i := x)) j) = d \<and> b_blockno ((K(i := x)) j) = b' \<and> b_refcnt ((K(i := x)) j) \<noteq> 0"
    proof (cases "b' = b")
      case True
      with i x ref * show ?thesis by (intro exI [of _ i]) simp
    next
      case False
      with same * have "cr c b' \<noteq> 0" by simp
      with c obtain j where j: "j < NBUF" "b_dev (K j) = d" "b_blockno (K j) = b'" "b_refcnt (K j) \<noteq> 0"
        unfolding cores_def by blast
      from this False old have "j \<noteq> i" by auto
      with j show ?thesis by (intro exI [of _ j]) simp
    qed
  next
    fix b' assume "cr c' b' = 0"
    then show "cv c' b' = cd c' b' \<and> b' \<notin> ch c'"
      using c same [of b'] zero unfolding cores_def by (cases "b' = b") simp_all
  qed
qed

section \<open>The operations refine the abstract cache\<close>

definition c_get :: "uint \<Rightarrow> cache \<Rightarrow> cache" where
  "c_get b c = c\<lparr>cr := (cr c)(b := cr c b + 1), ch := insert b (ch c)\<rparr>"

definition c_put :: "uint \<Rightarrow> cache \<Rightarrow> cache" where
  "c_put b c = c\<lparr>cr := (cr c)(b := cr c b - 1), ch := ch c - {b}\<rparr>"

definition c_pin :: "uint \<Rightarrow> cache \<Rightarrow> cache" where
  "c_pin b c = c\<lparr>cr := (cr c)(b := cr c b + 1)\<rparr>"

definition c_unpin :: "uint \<Rightarrow> cache \<Rightarrow> cache" where
  "c_unpin b c = c\<lparr>cr := (cr c)(b := cr c b - 1)\<rparr>"

definition c_set :: "uint \<Rightarrow> cptr \<Rightarrow> cache \<Rightarrow> cache" where
  "c_set b x c = c\<lparr>cv := (cv c)(b := x)\<rparr>"

definition c_flush :: "uint \<Rightarrow> cache \<Rightarrow> cache" where
  "c_flush b c = c\<lparr>cd := (cd c)(b := cv c b)\<rparr>"

lemmas c_defs = c_get_def c_put_def c_pin_def c_unpin_def c_set_def c_flush_def

text \<open>A block can be had: it is referenced already, or fewer than \<open>NBUF\<close> blocks are.\<close>

definition c_room :: "uint \<Rightarrow> cache \<Rightarrow> bool" where
  "c_room b c \<longleftrightarrow> b \<notin> ch c \<and> cr c b < 2 ^ 32 - 1 \<and> (cr c b \<noteq> 0 \<or> card {x. cr c x \<noteq> 0} < NBUF)"

lemma buf_atD:
  assumes "cache_rel p d c s" "buf_at d s b i"
  shows "i < NBUF" "b_dev (bufs s i) = d" "b_blockno (bufs s i) = b" "b_valid (bufs s i)"
    "unat (b_refcnt (bufs s i)) = cr c b" "b_refcnt (bufs s i) \<noteq> 0" "cr c b \<noteq> 0"
    "sl_locked (b_lock (bufs s i)) \<longleftrightarrow> b \<in> ch c" "b \<in> ch c \<Longrightarrow> sl_pid (b_lock (bufs s i)) = p_pid (procs s p)"
    "b_data (bufs s i) = cv c b" "free_lock (sl_lk (b_lock (bufs s i)))"
proof -
  have "buf_ok d c (p_pid (procs s p)) (kb s i)"
    using assms unfolding cache_rel_def cores_def buf_at_def by blast
  moreover have "unat (b_refcnt (bufs s i)) \<noteq> 0" using assms by (simp add: buf_at_def unat_eq_0)
  ultimately show "i < NBUF" "b_dev (bufs s i) = d" "b_blockno (bufs s i) = b" "b_valid (bufs s i)"
    "unat (b_refcnt (bufs s i)) = cr c b" "b_refcnt (bufs s i) \<noteq> 0" "cr c b \<noteq> 0"
    "sl_locked (b_lock (bufs s i)) \<longleftrightarrow> b \<in> ch c" "b \<in> ch c \<Longrightarrow> sl_pid (b_lock (bufs s i)) = p_pid (procs s p)"
    "b_data (bufs s i) = cv c b" "free_lock (sl_lk (b_lock (bufs s i)))"
    using assms(2) by (simp_all add: buf_at_def buf_ok_def)
qed

lemma cache_room:
  assumes "cores d c pid K" "card {x. cr c x \<noteq> 0} < NBUF"
  shows "\<exists>i < NBUF. b_refcnt (K i) = 0"
proof (rule ccontr)
  assume "\<not> ?thesis"
  then have r: "b_refcnt (K i) \<noteq> 0" if "i < NBUF" for i using that by blast
  then have ok: "b_dev (K i) = d \<and> cr c (b_blockno (K i)) \<noteq> 0" if "i < NBUF" for i
    using that assms(1) r [OF that] unfolding cores_def buf_ok_def by (metis unat_eq_0)
  have "inj_on (\<lambda>i. b_blockno (K i)) {0..<NBUF}"
    using assms(1) ok unfolding cores_def inj_on_def by simp
  then have "card ((\<lambda>i. b_blockno (K i)) ` {0..<NBUF}) = NBUF" by (simp add: card_image)
  moreover have "(\<lambda>i. b_blockno (K i)) ` {0..<NBUF} \<subseteq> {x. cr c x \<noteq> 0}" using ok by auto
  moreover have "finite {x. cr c x \<noteq> 0}" by (rule finite)
  ultimately have "NBUF \<le> card {x. cr c x \<noteq> 0}" by (metis card_mono)
  with assms(2) show False by simp
qed

text \<open>The lookups of \<^verbatim>\<open>bget\<close> on a cache in a related state.\<close>

lemma find_cached:
  assumes "cache_rel p d c s"
  shows "\<exists>r. bget_find (Suc NBUF) d b (b_next (bufs s bhead)) (bufs s) = Some r \<and>
    (case r of Some i \<Rightarrow> i < NBUF \<and> b_dev (bufs s i) = d \<and> b_blockno (bufs s i) = b
     | None \<Rightarrow> \<forall>i < NBUF. \<not> (b_dev (bufs s i) = d \<and> b_blockno (bufs s i) = b))"
proof -
  obtain xs where xs: "dll (bufs s) xs" using assms by (auto simp: cache_rel_def)
  then have "set xs = {0..<NBUF}" by (rule dll_props)
  then show ?thesis
    unfolding dll_find(1) [OF xs] by (auto split: option.splits simp: find_None_iff find_Some_iff)
qed

lemma find_unused:
  assumes "cache_rel p d c s" "\<exists>i < NBUF. b_refcnt (bufs s i) = 0"
  shows "\<exists>i < NBUF. bget_lru (Suc NBUF) (b_prev (bufs s bhead)) (bufs s) = Some (Some i) \<and> b_refcnt (bufs s i) = 0"
proof -
  obtain xs where xs: "dll (bufs s) xs" using assms by (auto simp: cache_rel_def)
  then have set: "set xs = {0..<NBUF}" by (rule dll_props)
  with assms(2) have "List.find (\<lambda>b. b_refcnt (bufs s b) = 0) (rev xs) \<noteq> None"
    by (auto simp: find_None_iff)
  then obtain i where i: "List.find (\<lambda>b. b_refcnt (bufs s b) = 0) (rev xs) = Some i" by blast
  then have "i \<in> set (rev xs)" "b_refcnt (bufs s i) = 0" by (auto simp: find_Some_iff nth_mem simp del: set_rev)
  with i set show ?thesis unfolding dll_find(2) [OF xs] by auto
qed

lemma bl_lku_upd: "bl_lku i f s = upd_buf i (\<lambda>x. x\<lparr>b_lock := f (b_lock x)\<rparr>) s"
  by (simp add: bl_lku_def)

lemma bget_lock_eq:
  assumes "calm p s" "free_lock (bcache_lock s)" "free_lock (sl_lk (b_lock (h (bufs s i))))"
    "\<not> sl_locked (b_lock (h (bufs s i)))"
  shows "bget_lock i (upd_buf i h (bclock.enter s)) =
    ret i (upd_buf i (\<lambda>x. (h x)\<lparr>b_lock := held_by (p_pid (procs s p)) (b_lock (h x))\<rparr>) s)"
proof -
  let ?s = "upd_buf i h s"
  have "acquiresleep (bl_lk i) (bl_lku i) (Ch_buf_lock i) ?s =
      ret () (bl_lku i (\<lambda>l. l\<lparr>sl_locked := True, sl_pid := p_pid (procs ?s p)\<rparr>) ?s)"
    using assms by (intro buflock.acquiresleep_free) (simp_all add: inner_def bl_lk_def)
  moreover have "release bcache_lock bcache_lock_update (bclock.enter ?s) = ret () ?s"
    using assms by (intro bc_release [of p]) simp_all
  ultimately show ?thesis
    by (simp add: bget_lock_def upd_buf_enter bl_lku_upd held_by_def)
qed

lemma dll_upd_buf [simp]:
  "b_next (h (bufs s i)) = b_next (bufs s i) \<Longrightarrow> b_prev (h (bufs s i)) = b_prev (bufs s i) \<Longrightarrow>
   dll (bufs (upd_buf i h s)) xs = dll (bufs s) xs"
proof -
  assume "b_next (h (bufs s i)) = b_next (bufs s i)" "b_prev (h (bufs s i)) = b_prev (bufs s i)"
  then have "(\<lambda>j. b_next (bufs (upd_buf i h s) j)) = (\<lambda>j. b_next (bufs s j))"
    "(\<lambda>j. b_prev (bufs (upd_buf i h s) j)) = (\<lambda>j. b_prev (bufs s j))" by auto
  then show ?thesis by (simp only: dll_def)
qed

text \<open>An update of one buffer, for the block \<open>b\<close> it caches then, keeps the relation.\<close>

lemma cache_rel_upd:
  assumes rel: "cache_rel p d c s" and i: "i < NBUF"
    and old: "b_dev (bufs s i) = d \<and> b_blockno (bufs s i) = b \<or>
      b_refcnt (bufs s i) = 0 \<and> (\<forall>j < NBUF. \<not> (b_dev (bufs s j) = d \<and> b_blockno (bufs s j) = b))"
    and h: "b_dev (h (bufs s i)) = d" "b_blockno (h (bufs s i)) = b"
      "b_next (h (bufs s i)) = b_next (bufs s i)" "b_prev (h (bufs s i)) = b_prev (bufs s i)"
    and ok: "buf_ok d c' (p_pid (procs s p)) (h (bufs s i))" and cd: "cd c' = cd c"
    and same: "\<And>b'. b' \<noteq> b \<Longrightarrow> cr c' b' = cr c b' \<and> cv c' b' = cv c b' \<and> (b' \<in> ch c' \<longleftrightarrow> b' \<in> ch c)"
    and zero: "cr c' b = 0 \<Longrightarrow> cv c' b = cd c' b \<and> b \<notin> ch c'"
    and ref: "cr c' b \<noteq> 0 \<Longrightarrow> b_refcnt (h (bufs s i)) \<noteq> 0"
  shows "cache_rel p d c' (upd_buf i h s)"
proof -
  have "cores d c' (p_pid (procs s p)) ((kb s)(i := core (h (bufs s i))))"
    using rel i old h ok cd same zero ref unfolding cache_rel_def by (intro cores_upd [where b = b and c = c]) simp_all
  with rel cd h show ?thesis by (simp add: cache_rel_def)
qed

lemma bread_fill:
  assumes rel: "cache_rel p d c s" and i: "i < NBUF" and b: "b \<notin> ch c"
    and old: "b_dev (bufs s i) = d \<and> b_blockno (bufs s i) = b \<or>
      b_refcnt (bufs s i) = 0 \<and> (\<forall>j < NBUF. \<not> (b_dev (bufs s j) = d \<and> b_blockno (bufs s j) = b))"
    and free: "\<not> sl_locked (b_lock (bufs s i))"
    and h: "b_dev (h (bufs s i)) = d" "b_blockno (h (bufs s i)) = b" "b_lock (h (bufs s i)) = b_lock (bufs s i)"
      "b_next (h (bufs s i)) = b_next (bufs s i)" "b_prev (h (bufs s i)) = b_prev (bufs s i)"
      "unat (b_refcnt (h (bufs s i))) = cr c b + 1"
      "b_valid (h (bufs s i)) \<Longrightarrow> b_data (h (bufs s i)) = cv c b" "\<not> b_valid (h (bufs s i)) \<Longrightarrow> cr c b = 0"
  shows "\<exists>t. bnd (bget_lock i (upd_buf i h (bclock.enter s))) (\<lambda>b s.
       if \<not> b_valid (bufs s b) then ret b (upd_buf b (\<lambda>x. x\<lparr>b_valid := True\<rparr>) (disk_rw b False s)) else ret b s) = ret i t \<and>
     t = s\<lparr>bufs := bufs t\<rparr> \<and> cache_rel p d (c_get b c) t \<and> buf_at d t b i \<and> (\<forall>j. j \<noteq> i \<longrightarrow> bufs t j = bufs s j)"
proof -
  let ?x = "bufs s i" and ?pid = "p_pid (procs s p)"
  define k where "k x = (h x)\<lparr>b_lock := held_by ?pid (b_lock (h x)), b_valid := True, b_data := cv c b\<rparr>" for x
  have ok: "buf_ok d c ?pid (kb s i)" using rel i unfolding cache_rel_def cores_def by blast
  have calm: "calm p s" "free_lock (bcache_lock s)" using rel by (simp_all add: cache_rel_def)
  have e: "bget_lock i (upd_buf i h (bclock.enter s)) =
    ret i (upd_buf i (\<lambda>x. (h x)\<lparr>b_lock := held_by ?pid (b_lock (h x))\<rparr>) s)" (is "_ = ret i ?s1")
    using calm free h ok by (intro bget_lock_eq) (simp_all add: buf_ok_def)
  have "cr c b = 0 \<Longrightarrow> disk s b = cv c b" using rel by (simp add: cache_rel_def cores_def)
  then have "bnd (ret i ?s1) (\<lambda>b s. if \<not> b_valid (bufs s b)
       then ret b (upd_buf b (\<lambda>x. x\<lparr>b_valid := True\<rparr>) (disk_rw b False s)) else ret b s) = ret i (upd_buf i k s)"
    using h by (auto simp: disk_rw_def upd_buf_def k_def intro!: arg_cong [where f = "\<lambda>B. s\<lparr>bufs := B\<rparr>"] ext)
  moreover have r: "b_refcnt (h ?x) \<noteq> 0" using h(6) by auto
  moreover have "cache_rel p d (c_get b c) (upd_buf i k s)"
  proof (rule cache_rel_upd [OF rel i old])
    show "buf_ok d (c_get b c) ?pid (k ?x)"
      using ok h r by (simp add: k_def buf_ok_def c_get_def held_by_def)
  qed (use h r in \<open>simp_all add: k_def c_get_def\<close>)
  moreover have "buf_at d (upd_buf i k s) b i" using i h r by (simp add: buf_at_def k_def)
  ultimately show ?thesis unfolding e by (intro exI [of _ "upd_buf i k s"]) (simp add: upd_buf_def)
qed

lemma bread_eq:
  assumes rel: "cache_rel p d c s" and room: "c_room b c"
  shows "\<exists>i t. bread d b s = ret i t \<and> t = s\<lparr>bufs := bufs t\<rparr> \<and> cache_rel p d (c_get b c) t \<and> buf_at d t b i \<and>
     (\<forall>b' j. buf_at d s b' j \<longrightarrow> buf_at d t b' j)"
proof -
  let ?fill = "\<lambda>b s. if \<not> b_valid (bufs s b)
    then ret b (upd_buf b (\<lambda>x. x\<lparr>b_valid := True\<rparr>) (disk_rw b False s)) else ret b s"
  have acq: "acquire bcache_lock bcache_lock_update s = ret () (bclock.enter s)"
    using rel by (intro bclock.acquire_free) (simp_all add: cache_rel_def calm_def free_lock_def)
  have K: "cores d c (p_pid (procs s p)) (kb s)" using rel by (simp add: cache_rel_def)
  have keep: ?thesis
    if "\<exists>t. bread d b s = ret i t \<and> t = s\<lparr>bufs := bufs t\<rparr> \<and> cache_rel p d (c_get b c) t \<and> buf_at d t b i \<and>
      (\<forall>j. j \<noteq> i \<longrightarrow> bufs t j = bufs s j)" "\<And>b'. buf_at d s b' i \<Longrightarrow> b' = b" for i
  proof -
    from that(1) obtain t where t: "bread d b s = ret i t" "t = s\<lparr>bufs := bufs t\<rparr>" "cache_rel p d (c_get b c) t"
      "buf_at d t b i" "\<And>j. j \<noteq> i \<Longrightarrow> bufs t j = bufs s j" by blast
    have "buf_at d t b' j" if "buf_at d s b' j" for b' j
    proof (cases "j = i")
      case True with that \<open>\<And>b'. buf_at d s b' i \<Longrightarrow> b' = b\<close> t(4) show ?thesis by blast
    next
      case False with that t(5) show ?thesis by (simp add: buf_at_def)
    qed
    with t show ?thesis by blast
  qed
  obtain r where r: "bget_find (Suc NBUF) d b (b_next (bufs s bhead)) (bufs s) = Some r"
    "case r of Some i \<Rightarrow> i < NBUF \<and> b_dev (bufs s i) = d \<and> b_blockno (bufs s i) = b
     | None \<Rightarrow> \<forall>i < NBUF. \<not> (b_dev (bufs s i) = d \<and> b_blockno (bufs s i) = b)"
    using find_cached [OF rel] by blast
  show ?thesis
  proof (cases r)
    case (Some i)
    with r have i: "i < NBUF" "b_dev (bufs s i) = d" "b_blockno (bufs s i) = b" by simp_all
    then have ok: "buf_ok d c (p_pid (procs s p)) (kb s i)" using K unfolding cores_def by blast
    have u: "unat (b_refcnt (bufs s i)) = cr c b" using ok i by (auto simp: buf_ok_def split: if_splits)
    have "bread d b s = bnd (bget_lock i (upd_buf i (\<lambda>x. x\<lparr>b_refcnt := b_refcnt x + 1\<rparr>) (bclock.enter s))) ?fill"
      by (simp add: bread_def bget_def acq r(1) Some del: bget_find.simps bget_lru.simps)
    moreover have "\<exists>t. bnd (bget_lock i (upd_buf i (\<lambda>x. x\<lparr>b_refcnt := b_refcnt x + 1\<rparr>) (bclock.enter s))) ?fill = ret i t \<and>
        t = s\<lparr>bufs := bufs t\<rparr> \<and> cache_rel p d (c_get b c) t \<and> buf_at d t b i \<and> (\<forall>j. j \<noteq> i \<longrightarrow> bufs t j = bufs s j)"
      using room ok i u by (intro bread_fill [OF rel])
        (auto simp: c_room_def buf_ok_def unat_word_ariths split: if_splits)
    ultimately show ?thesis using i by (intro keep [of i]) (auto simp: buf_at_def)
  next
    case None
    with r(2) have new: "\<forall>i < NBUF. \<not> (b_dev (bufs s i) = d \<and> b_blockno (bufs s i) = b)" by simp
    then have cr: "cr c b = 0" using K unfolding cores_def by (metis kb_simps(2,3))
    with room have "card {x. cr c x \<noteq> 0} < NBUF" by (simp add: c_room_def)
    then obtain i where i: "i < NBUF" "bget_lru (Suc NBUF) (b_prev (bufs s bhead)) (bufs s) = Some (Some i)"
      "b_refcnt (bufs s i) = 0" using find_unused [OF rel] cache_room [OF K] by auto
    then have ok: "buf_ok d c (p_pid (procs s p)) (kb s i)" using K unfolding cores_def by blast
    let ?h = "\<lambda>x. x\<lparr>b_dev := d, b_blockno := b, b_valid := False, b_refcnt := 1\<rparr>"
    have "bread d b s = bnd (bget_lock i (upd_buf i ?h (bclock.enter s))) ?fill"
      by (simp add: bread_def bget_def acq r(1) None i(2) del: bget_find.simps bget_lru.simps)
    moreover have "\<exists>t. bnd (bget_lock i (upd_buf i ?h (bclock.enter s))) ?fill = ret i t \<and>
        t = s\<lparr>bufs := bufs t\<rparr> \<and> cache_rel p d (c_get b c) t \<and> buf_at d t b i \<and> (\<forall>j. j \<noteq> i \<longrightarrow> bufs t j = bufs s j)"
      using room ok i new cr by (intro bread_fill [OF rel]) (simp_all add: c_room_def buf_ok_def)
    ultimately show ?thesis using i by (intro keep [of i]) (auto simp: buf_at_def)
  qed
qed

lemma bio_wake [simp]:
  "bufs (wake k q s) = bufs s" "disk (wake k q s) = disk s" "bcache_lock (wake k q s) = bcache_lock s"
  by (simp_all add: wake_def wake_all_def)

lemma upd_buf_wake: "upd_buf i h (wake k q s) = wake k q (upd_buf i h s)"
  by (rule bstate.equality) (simp_all add: upd_buf_def wake_def wake_all_def cong: if_cong)

lemma cache_rel_wake [simp]: "cache_rel p d c (wake k q s) = cache_rel p d c s"
  by (simp add: cache_rel_def kb_def [abs_def])

lemma buf_at_wake [simp]: "buf_at d (wake k q s) b i = buf_at d s b i"
  by (simp add: buf_at_def)

lemma brelse_front_enter: "brelse_front b (bclock.enter s) = bclock.enter (brelse_front b s)"
  by (simp add: brelse_front_def Let_def upd_buf_enter)

lemma brelse_front_rel:
  assumes rel: "cache_rel p d c s" and i: "i < NBUF"
  shows "cache_rel p d c (brelse_front i s)" "brelse_front i s = s\<lparr>bufs := bufs (brelse_front i s)\<rparr>"
    "buf_at d (brelse_front i s) b j = buf_at d s b j"
proof -
  obtain xs where xs: "dll (bufs s) xs" using rel by (auto simp: cache_rel_def)
  have "i \<in> set xs" using dll_props(2) [OF xs] i by simp
  note f = brelse_front_links [OF xs this]
  show e: "brelse_front i s = s\<lparr>bufs := bufs (brelse_front i s)\<rparr>" by (rule f)
  have kb: "kb (brelse_front i s) = kb s" using f(3) by (auto simp: kb_def)
  have "calm p (s\<lparr>bufs := B\<rparr>) = calm p s" for B
    by (simp add: calm_def quiet_def mycpu_def cpuid_def cur_def locks_free_def p_lk_def)
  then have *: "calm p (brelse_front i s) = calm p s" "bcache_lock (brelse_front i s) = bcache_lock s"
    "procs (brelse_front i s) = procs s" "disk (brelse_front i s) = disk s" by (subst e, simp)+
  from rel f(1) show "cache_rel p d c (brelse_front i s)" unfolding cache_rel_def * kb by blast
  from kb have "kb (brelse_front i s) j = kb s j" by simp
  then show "buf_at d (brelse_front i s) b j = buf_at d s b j"
    unfolding buf_at_def by (metis kb_simps(2,3,5))
qed

lemma bwrite_eq:
  assumes rel: "cache_rel p d c s" and at: "buf_at d s b i" and b: "b \<in> ch c"
  shows "bwrite i s = ret () (s\<lparr>disk := (disk s)(b := cv c b), dhist := dhist s @ [(b, cv c b)]\<rparr>)"
    and "cache_rel p d (c_flush b c) (s\<lparr>disk := (disk s)(b := cv c b), dhist := dhist s @ [(b, cv c b)]\<rparr>)"
proof -
  note a = buf_atD [OF rel at]
  have "holdingsleep (bl_lk i) (bl_lku i) s = ret True s"
    using rel a b by (subst buflock.holdingsleep_eq [of p]) (simp_all add: cache_rel_def inner_def bl_lk_def)
  then show "bwrite i s = ret () (s\<lparr>disk := (disk s)(b := cv c b), dhist := dhist s @ [(b, cv c b)]\<rparr>)"
    using a by (simp add: bwrite_def disk_rw_def Let_def)
  have "calm p (s\<lparr>disk := x, dhist := y\<rparr>) = calm p s" for x y
    by (simp add: calm_def quiet_def mycpu_def cpuid_def cur_def locks_free_def p_lk_def)
  moreover have "cores d (c_flush b c) pid K" if "cores d c pid K" for pid K
    using that unfolding cores_def by (auto simp: c_flush_def buf_ok_def)
  ultimately show "cache_rel p d (c_flush b c) (s\<lparr>disk := (disk s)(b := cv c b), dhist := dhist s @ [(b, cv c b)]\<rparr>)"
    using rel by (simp add: cache_rel_def kb_def [abs_def]) (simp add: c_flush_def)
qed

lemma brelse_eq:
  assumes rel: "cache_rel p d c s" and at: "buf_at d s b i" and b: "b \<in> ch c" and clean: "1 < cr c b \<or> cv c b = cd c b"
  shows "\<exists>t. brelse i s = ret () t \<and> t = s\<lparr>procs := procs t, bufs := bufs t\<rparr> \<and>
     procs t = procs (wake (Ch_buf_lock i) p s) \<and> cache_rel p d (c_put b c) t \<and>
     (\<forall>b' j. buf_at d s b' j \<longrightarrow> b' \<noteq> b \<or> 1 < cr c b \<longrightarrow> buf_at d t b' j)"
proof -
  note a = buf_atD [OF rel at]
  let ?ch = "Ch_buf_lock i"
  have calm: "calm p s" and bl: "free_lock (bcache_lock s)" using rel by (simp_all add: cache_rel_def)
  have il: "free_lock (inner (bl_lk i) s)" using a by (simp add: inner_def bl_lk_def)
  have hold: "holdingsleep (bl_lk i) (bl_lku i) s = ret True s"
    using calm il a b by (subst buflock.holdingsleep_eq [of p]) (simp_all add: bl_lk_def)
  define s1 where "s1 = upd_buf i (\<lambda>x. x\<lparr>b_lock := unheld (b_lock x)\<rparr>) s"
  have rls: "releasesleep (bl_lk i) (bl_lku i) ?ch s = ret () (wake ?ch p s1)"
    using buflock.releasesleep_eq [OF calm il, of ?ch] by (simp add: s1_def bl_lku_upd unheld_def)
  let ?w = "wake ?ch p s1"
  have w: "calm p ?w" "free_lock (bcache_lock ?w)" using calm bl by (simp_all add: s1_def)
  have acq: "acquire bcache_lock bcache_lock_update ?w = ret () (bclock.enter ?w)"
    using w by (intro bclock.acquire_free) (simp_all add: calm_def free_lock_def)
  define t0 where "t0 = upd_buf i (\<lambda>x. x\<lparr>b_refcnt := b_refcnt x - 1\<rparr>) ?w"
  define t where "t = (if b_refcnt (bufs t0 i) = 0 then brelse_front i t0 else t0)"
  have t0: "t0 = wake ?ch p (upd_buf i (\<lambda>x. x\<lparr>b_lock := unheld (b_lock x), b_refcnt := b_refcnt x - 1\<rparr>) s)"
    by (simp add: t0_def s1_def upd_buf_wake)
  have rel0: "cache_rel p d (c_put b c) t0"
  proof -
    have ok: "buf_ok d c (p_pid (procs s p)) (kb s i)" using rel a(1) unfolding cache_rel_def cores_def by blast
    have u: "unat (b_refcnt (bufs s i) - 1) = cr c b - 1" using a(5,6) unat_minus_one by metis
    then have z: "b_refcnt (bufs s i) = 1 \<longleftrightarrow> cr c b = 1" using a(5) by (auto simp: word_unat_eq_iff)
    show ?thesis unfolding t0 cache_rel_wake
      using a z u ok clean by (intro cache_rel_upd [OF rel a(1), of b])
        (auto simp: buf_ok_def c_put_def unheld_def)
  qed
  have e0: "t0 = s\<lparr>procs := procs t0, bufs := bufs t0\<rparr>" "procs t0 = procs (wake ?ch p s)"
    unfolding t0 by (simp_all add: upd_buf_def wake_def wake_all_def cong: if_cong)
  have at0: "buf_at d t0 b' j" if "buf_at d s b' j" "b' \<noteq> b \<or> 1 < cr c b" for b' j
    using that a(3,5) unfolding t0 by (auto simp: buf_at_def)
  have t: "t = t0\<lparr>bufs := bufs t\<rparr>" "cache_rel p d (c_put b c) t" "\<And>b' j. buf_at d t b' j = buf_at d t0 b' j"
    using brelse_front_rel [OF rel0 a(1)] rel0 unfolding t_def by simp_all
  have "release bcache_lock bcache_lock_update (bclock.enter t) = ret () t"
    using t(2) by (intro bc_release) (auto simp: cache_rel_def)
  moreover have "b_refcnt (bufs t0 i) = b_refcnt (bufs s1 i) - 1" by (simp add: t0_def)
  ultimately have run: "brelse i s = ret () t"
    by (simp add: brelse_def hold rls acq upd_buf_enter t0_def [symmetric] Let_def brelse_front_enter t_def split: if_splits)
  have "procs t = procs t0" by (subst t(1)) simp
  moreover have "t = s\<lparr>procs := procs t, bufs := bufs t\<rparr>"
    by (subst t(1), subst e0(1), subst (2) t(1)) simp
  ultimately show ?thesis using run e0(2) t(2,3) at0 by (intro exI [of _ t]) simp
qed

lemma bpin_upd:
  assumes rel: "cache_rel p d c s"
  shows "bnd (acquire bcache_lock bcache_lock_update s) (\<lambda>_ s. release bcache_lock bcache_lock_update (upd_buf i h s)) =
    ret () (upd_buf i h s)"
proof -
  have "acquire bcache_lock bcache_lock_update s = ret () (bclock.enter s)"
    using rel by (intro bclock.acquire_free) (simp_all add: cache_rel_def calm_def free_lock_def)
  moreover have "release bcache_lock bcache_lock_update (bclock.enter (upd_buf i h s)) = ret () (upd_buf i h s)"
    using rel by (intro bc_release [of p]) (simp_all add: cache_rel_def)
  ultimately show ?thesis by (simp add: upd_buf_enter)
qed

lemma bpin_eq:
  assumes rel: "cache_rel p d c s" and at: "buf_at d s b i" and n: "cr c b < 2 ^ 32 - 1"
  defines "t \<equiv> upd_buf i (\<lambda>x. x\<lparr>b_refcnt := b_refcnt x + 1\<rparr>) s"
  shows "bpin i s = ret () t" "cache_rel p d (c_pin b c) t" "buf_at d s b' j \<Longrightarrow> buf_at d t b' j"
proof -
  note a = buf_atD [OF rel at]
  show "bpin i s = ret () t" unfolding bpin_def t_def by (rule bpin_upd [OF rel])
  have u: "unat (b_refcnt (bufs s i) + 1) = cr c b + 1" using a(5) n by (simp add: unat_word_ariths)
  then have u0: "b_refcnt (bufs s i) + 1 \<noteq> 0" by (metis Suc_eq_plus1 nat.distinct(1) unat_0)
  have "buf_ok d c (p_pid (procs s p)) (kb s i)" using rel a(1) unfolding cache_rel_def cores_def by blast
  then show "cache_rel p d (c_pin b c) t" unfolding t_def using a u u0
    by (intro cache_rel_upd [OF rel a(1), of b]) (auto simp: buf_ok_def c_pin_def)
  show "buf_at d s b' j \<Longrightarrow> buf_at d t b' j" using u0 by (auto simp: t_def buf_at_def)
qed

lemma bunpin_eq:
  assumes rel: "cache_rel p d c s" and at: "buf_at d s b i" and n: "1 < cr c b"
  defines "t \<equiv> upd_buf i (\<lambda>x. x\<lparr>b_refcnt := b_refcnt x - 1\<rparr>) s"
  shows "bunpin i s = ret () t" "cache_rel p d (c_unpin b c) t" "buf_at d s b' j \<Longrightarrow> buf_at d t b' j"
proof -
  note a = buf_atD [OF rel at]
  show "bunpin i s = ret () t" unfolding bunpin_def t_def by (rule bpin_upd [OF rel])
  have u: "unat (b_refcnt (bufs s i) - 1) = cr c b - 1" using a(5,6) unat_minus_one by metis
  then have u0: "b_refcnt (bufs s i) - 1 \<noteq> 0" using n by (metis diff_is_0_eq not_le unat_0)
  have "buf_ok d c (p_pid (procs s p)) (kb s i)" using rel a(1) unfolding cache_rel_def cores_def by blast
  then show "cache_rel p d (c_unpin b c) t" unfolding t_def using a u u0 n
    by (intro cache_rel_upd [OF rel a(1), of b]) (auto simp: buf_ok_def c_unpin_def)
  show "buf_at d s b' j \<Longrightarrow> buf_at d t b' j" using u0 by (auto simp: t_def buf_at_def)
qed

text \<open>The client writes to the data of a buffer it has locked.\<close>

lemma set_data_eq:
  assumes rel: "cache_rel p d c s" and at: "buf_at d s b i" and b: "b \<in> ch c"
  shows "cache_rel p d (c_set b (f (cv c b)) c) (upd_buf i (\<lambda>x. x\<lparr>b_data := f (b_data x)\<rparr>) s)"
    "buf_at d (upd_buf i (\<lambda>x. x\<lparr>b_data := f (b_data x)\<rparr>) s) b' j = buf_at d s b' j"
proof -
  note a = buf_atD [OF rel at]
  have "buf_ok d c (p_pid (procs s p)) (kb s i)" using rel a(1) unfolding cache_rel_def cores_def by blast
  then show "cache_rel p d (c_set b (f (cv c b)) c) (upd_buf i (\<lambda>x. x\<lparr>b_data := f (b_data x)\<rparr>) s)" using a
    by (intro cache_rel_upd [OF rel a(1), of b]) (auto simp: buf_ok_def c_set_def)
  show "buf_at d (upd_buf i (\<lambda>x. x\<lparr>b_data := f (b_data x)\<rparr>) s) b' j = buf_at d s b' j" by (auto simp: buf_at_def)
qed

section \<open>The cache after boot\<close>

lemma binit_one_links:
  assumes "b < NBUF" "b_next (bufs s bhead) \<noteq> b"
  shows "(\<lambda>i. b_next (bufs (binit_one b s) i)) =
      (\<lambda>i. b_next (bufs s i))(b := b_next (bufs s bhead), bhead := b)"
    "(\<lambda>i. b_prev (bufs (binit_one b s) i)) =
      (\<lambda>i. b_prev (bufs s i))(b := bhead, b_next (bufs s bhead) := b)"
  using assms by (auto simp: binit_one_def Let_def bhead_def)

definition boot_list :: "nat \<Rightarrow> 'a bstate_scheme \<Rightarrow> bool" where
  "boot_list k s \<longleftrightarrow> chain (\<lambda>i. b_next (bufs s i)) (\<lambda>i. b_prev (bufs s i)) (bhead # rev [0..<k] @ [bhead])"

lemma binit_loop:
  assumes "boot_list 0 s" "k \<le> NBUF"
  shows "boot_list k (fold binit_one [0..<k] s)"
  using assms(2)
proof (induction k)
  case (Suc k)
  let ?s = "fold binit_one [0..<k] s"
  obtain m R where mR: "rev [0..<k] @ [bhead] = m # R" by (cases "rev [0..<k] @ [bhead]") auto
  from Suc have c: "chain (\<lambda>i. b_next (bufs ?s i)) (\<lambda>i. b_prev (bufs ?s i)) (bhead # m # R)"
    unfolding mR [symmetric] by (simp add: boot_list_def)
  then have m: "b_next (bufs ?s bhead) = m" by simp
  have set: "set (m # R) = {0..<k} \<union> {bhead}" unfolding mR [symmetric] by auto
  with Suc.prems have mk: "k \<notin> set (m # R)" "k \<noteq> bhead" by (simp_all only: set) (simp_all add: bhead_def)
  have d: "distinct (m # R)" unfolding mR [symmetric] using Suc.prems by (simp add: bhead_def)
  have bl: "butlast (m # R) = rev [0..<k]" unfolding mR [symmetric] by simp
  have "chain ((\<lambda>i. b_next (bufs ?s i))(k := m, bhead := k)) ((\<lambda>i. b_prev (bufs ?s i))(k := bhead, m := k)) (bhead # k # m # R)"
  proof (rule chain_insert [OF c mk])
    show "bhead \<notin> set (butlast (m # R))" unfolding bl using Suc.prems by (simp add: bhead_def)
    show "m \<notin> set R" using d by simp
  qed
  moreover have "bhead # k # m # R = bhead # rev [0..<Suc k] @ [bhead]" unfolding mR [symmetric] by simp
  moreover have "b_next (bufs ?s bhead) \<noteq> k" using mk m by simp
  note binit_one_links [OF _ this]
  ultimately show ?case using Suc.prems m by (simp add: boot_list_def)
qed (use assms(1) in simp)

lemma binit_one_core:
  "b_refcnt (bufs (binit_one b s) i) = b_refcnt (bufs s i)" "b_dev (bufs (binit_one b s) i) = b_dev (bufs s i)"
  "b_lock (bufs (binit_one b s) i) = (if i = b then initsleeplock ''buffer'' (b_lock (bufs s i)) else b_lock (bufs s i))"
  by (auto simp: binit_one_def Let_def)

lemma binit_loop_core:
  "b_refcnt (bufs (fold binit_one xs s) i) = b_refcnt (bufs s i)" "b_dev (bufs (fold binit_one xs s) i) = b_dev (bufs s i)"
  "i \<in> set xs \<Longrightarrow> free_lock (sl_lk (b_lock (bufs (fold binit_one xs s) i))) \<and> \<not> sl_locked (b_lock (bufs (fold binit_one xs s) i))"
proof (induction xs rule: rev_induct)
  case (snoc x xs)
  {
    case 1 then show ?case using snoc by (simp add: binit_one_core)
  next
    case 2 then show ?case using snoc by (simp add: binit_one_core)
  next
    case 3 then show ?case
      using snoc(3) by (auto simp: binit_one_core initsleeplock_def free_lock_def initlock_def)
  }
qed simp_all

lemma binit_frame: "binit s = s\<lparr>bcache_lock := initlock ''bcache'' (bcache_lock s), bufs := bufs (binit s)\<rparr>"
proof -
  have "\<exists>B. fold binit_one xs s = s\<lparr>bufs := B\<rparr>" for xs and s :: "'a bstate_scheme"
  proof (induction xs arbitrary: s)
    case (Cons x xs)
    have "binit_one x s = s\<lparr>bufs := bufs (binit_one x s)\<rparr>" by (simp add: binit_one_def Let_def upd_buf_def)
    then obtain B where B: "binit_one x s = s\<lparr>bufs := B\<rparr>" by blast
    from Cons [of "s\<lparr>bufs := B\<rparr>"] B show ?case by simp
  next
    case Nil
    show ?case by (rule exI [of _ "bufs s"]) simp
  qed
  from this [of "[0..<NBUF]" "upd_buf bhead (\<lambda>x. x\<lparr>b_next := bhead\<rparr>) (upd_buf bhead (\<lambda>x. x\<lparr>b_prev := bhead\<rparr>)
      (s\<lparr>bcache_lock := initlock ''bcache'' (bcache_lock s)\<rparr>))"]
  obtain B where "binit s = s\<lparr>bcache_lock := initlock ''bcache'' (bcache_lock s), bufs := B\<rparr>"
    unfolding binit_def Let_def by (auto simp: upd_buf_def)
  then show ?thesis by simp
qed

definition c_boot :: "(uint \<Rightarrow> cptr) \<Rightarrow> cache" where
  "c_boot D = \<lparr>cv = D, cd = D, cr = (\<lambda>_. 0), ch = {}\<rparr>"

lemma binit_rel:
  assumes "calm p s" and "\<And>i. i < NBUF \<Longrightarrow> b_refcnt (bufs s i) = 0 \<and> b_dev (bufs s i) = 0" and "d \<noteq> 0"
  shows "cache_rel p d (c_boot (disk s)) (binit s) \<and> dll (bufs (binit s)) (rev [0..<NBUF])"
proof -
  have d: "dll (bufs (binit s)) (rev [0..<NBUF])"
  proof -
    let ?s = "upd_buf bhead (\<lambda>x. x\<lparr>b_next := bhead\<rparr>) (upd_buf bhead (\<lambda>x. x\<lparr>b_prev := bhead\<rparr>)
      (s\<lparr>bcache_lock := initlock ''bcache'' (bcache_lock s)\<rparr>))"
    have "boot_list NBUF (fold binit_one [0..<NBUF] ?s)"
      by (rule binit_loop) (simp_all add: boot_list_def)
    then show ?thesis by (simp add: dll_def binit_def boot_list_def Let_def)
  qed
  have core: "b_refcnt (bufs (binit s) i) = 0" "b_dev (bufs (binit s) i) = 0"
    "free_lock (sl_lk (b_lock (bufs (binit s) i)))" "\<not> sl_locked (b_lock (bufs (binit s) i))" if "i < NBUF" for i
    using assms(2) [OF that] that binit_loop_core(3) [of i "[0..<NBUF]"] unfolding binit_def Let_def binit_loop_core(1,2)
    by (auto simp: bhead_def)
  have "cores d (c_boot (disk s)) pid (kb (binit s))" for pid
    using core assms(3) by (intro coresI) (auto simp: buf_ok_def c_boot_def)
  moreover have "calm p (binit s) \<and> free_lock (bcache_lock (binit s)) \<and> disk (binit s) = disk s \<and> procs (binit s) = procs s"
    using assms(1) by (subst (1 2 3 4) binit_frame)
      (simp add: calm_def quiet_def mycpu_def cpuid_def cur_def locks_free_def p_lk_def free_lock_def initlock_def)
  ultimately show ?thesis using d by (auto simp: cache_rel_def c_boot_def)
qed

section \<open>Frames\<close>

text \<open>Nothing but the buffers, the disk and the sleeping processes has changed.\<close>

definition bframe :: "'a bstate_scheme \<Rightarrow> 'a bstate_scheme \<Rightarrow> bool" where
  "bframe s t \<longleftrightarrow> t = s\<lparr>procs := procs t, bufs := bufs t, disk := disk t, dhist := dhist t\<rparr> \<and>
     (\<forall>i. p_pid (procs t i) = p_pid (procs s i))"

lemma bframe_refl [simp]: "bframe s s"
  unfolding bframe_def by (intro conjI, rule bstate.equality) simp_all

lemma bframe_trans [trans]:
  assumes "bframe s t" "bframe t u"
  shows "bframe s u"
proof -
  have t: "t = s\<lparr>procs := procs t, bufs := bufs t, disk := disk t, dhist := dhist t\<rparr>" using assms(1) by (simp add: bframe_def)
  have u: "u = t\<lparr>procs := procs u, bufs := bufs u, disk := disk u, dhist := dhist u\<rparr>" using assms(2) by (simp add: bframe_def)
  have "u = s\<lparr>procs := procs t, bufs := bufs t, disk := disk t, dhist := dhist t\<rparr>
      \<lparr>procs := procs u, bufs := bufs u, disk := disk u, dhist := dhist u\<rparr>"
    using u unfolding t [symmetric] .
  then have "u = s\<lparr>procs := procs u, bufs := bufs u, disk := disk u, dhist := dhist u\<rparr>" by simp
  with assms show ?thesis by (simp add: bframe_def)
qed

lemma bframe_bufs: "t = s\<lparr>bufs := bufs t\<rparr> \<Longrightarrow> bframe s t"
  unfolding bframe_def by (erule ssubst) (intro conjI, rule bstate.equality, simp_all)

lemma bframe_procs:
  assumes "t = s\<lparr>procs := procs t, bufs := bufs t\<rparr>" "\<And>i. p_pid (procs t i) = p_pid (procs s i)"
  shows "bframe s t"
proof -
  have "s\<lparr>procs := P, bufs := B\<rparr> = s\<lparr>procs := P, bufs := B, disk := disk s, dhist := dhist s\<rparr>" for P B
    by (rule bstate.equality) simp_all
  moreover have "disk t = disk s" "dhist t = dhist s" by (subst assms(1), simp)+
  ultimately show ?thesis using assms by (simp add: bframe_def)
qed

lemma bframe_disk: "bframe s (s\<lparr>disk := D, dhist := H\<rparr>)"
  unfolding bframe_def by (intro conjI, rule bstate.equality) simp_all

lemma bframe_upd_buf: "bframe s (upd_buf i h s)"
  by (rule bframe_bufs) (simp add: upd_buf_def)

lemma bframe_pid: "bframe s t \<Longrightarrow> p_pid (procs t i) = p_pid (procs s i)"
  by (simp add: bframe_def)

section \<open>Rules for the clients\<close>

lemma bread_run:
  assumes "cache_rel p d c s" "c_room b c"
  obtains i t where "bread d b s = ret i t" "bframe s t" "dhist t = dhist s" "cache_rel p d (c_get b c) t" "buf_at d t b i"
    "\<And>b' j. buf_at d s b' j \<Longrightarrow> buf_at d t b' j"
proof -
  from bread_eq [OF assms] obtain i t where *: "bread d b s = ret i t" "t = s\<lparr>bufs := bufs t\<rparr>"
    "cache_rel p d (c_get b c) t" "buf_at d t b i" "\<And>b' j. buf_at d s b' j \<Longrightarrow> buf_at d t b' j" by blast
  have "dhist t = dhist s" by (subst *(2)) simp
  from that [OF *(1) bframe_bufs [OF *(2)] this *(3-5)] show ?thesis .
qed

lemma bwrite_run:
  assumes "cache_rel p d c s" "buf_at d s b i" "b \<in> ch c"
  obtains t where "bwrite i s = ret () t" "bframe s t" "dhist t = dhist s @ [(b, cv c b)]" "cache_rel p d (c_flush b c) t"
    "\<And>b' j. buf_at d s b' j \<Longrightarrow> buf_at d t b' j"
  using bwrite_eq [OF assms] bframe_disk by (intro that) (auto simp: buf_at_def)

lemma brelse_run:
  assumes "cache_rel p d c s" "buf_at d s b i" "b \<in> ch c" "1 < cr c b \<or> cv c b = cd c b"
  obtains t where "brelse i s = ret () t" "bframe s t" "dhist t = dhist s" "cache_rel p d (c_put b c) t"
    "\<And>b' j. buf_at d s b' j \<Longrightarrow> b' \<noteq> b \<or> 1 < cr c b \<Longrightarrow> buf_at d t b' j"
proof -
  from brelse_eq [OF assms] obtain t where *: "brelse i s = ret () t" "t = s\<lparr>procs := procs t, bufs := bufs t\<rparr>"
    "procs t = procs (wake (Ch_buf_lock i) p s)" "cache_rel p d (c_put b c) t"
    "\<And>b' j. buf_at d s b' j \<Longrightarrow> b' \<noteq> b \<or> 1 < cr c b \<Longrightarrow> buf_at d t b' j" by blast
  have "dhist t = dhist s" by (subst *(2)) simp
  moreover have "bframe s t" using *(3) by (intro bframe_procs [OF *(2)]) simp
  ultimately show ?thesis using * by (intro that)
qed

lemma bunpin_run:
  assumes "cache_rel p d c s" "buf_at d s b i" "1 < cr c b"
  obtains t where "bunpin i s = ret () t" "bframe s t" "dhist t = dhist s" "cache_rel p d (c_unpin b c) t"
    "\<And>b' j. buf_at d s b' j \<Longrightarrow> buf_at d t b' j"
  by (rule that [OF bunpin_eq(1) [OF assms] bframe_upd_buf _ bunpin_eq(2,3) [OF assms]]) simp_all

lemma set_run:
  assumes "cache_rel p d c s" "buf_at d s b i" "b \<in> ch c"
  shows "cache_rel p d (c_set b (f (cv c b)) c) (upd_buf i (\<lambda>x. x\<lparr>b_data := f (b_data x)\<rparr>) s)"
    "bframe s (upd_buf i (\<lambda>x. x\<lparr>b_data := f (b_data x)\<rparr>) s)"
    "buf_at d s b' j \<Longrightarrow> buf_at d (upd_buf i (\<lambda>x. x\<lparr>b_data := f (b_data x)\<rparr>) s) b' j"
  using set_data_eq [OF assms] bframe_upd_buf by auto

lemma cache_full:
  assumes rel: "cache_rel p d c s" and n: "card {x. cr c x \<noteq> 0} = NBUF"
  shows "\<forall>i < NBUF. b_refcnt (bufs s i) \<noteq> 0"
proof -
  let ?X = "{x. cr c x \<noteq> 0}"
  have "\<forall>x \<in> ?X. \<exists>i. buf_at d s x i" using rel unfolding cache_rel_def cores_def buf_at_def by simp
  then obtain f where f: "\<And>x. x \<in> ?X \<Longrightarrow> buf_at d s x (f x)" by metis
  have "inj_on f ?X" by (rule inj_onI) (metis f buf_at_def)
  then have "card (f ` ?X) = NBUF" using n by (simp add: card_image)
  moreover have "f ` ?X \<subseteq> {0..<NBUF}" using f by (auto simp: buf_at_def)
  ultimately have "f ` ?X = {0..<NBUF}" by (intro card_seteq) simp_all
  then show ?thesis using f by (metis (no_types, lifting) atLeastLessThan_iff buf_at_def imageE le0)
qed

section \<open>Properties of the cache\<close>

text \<open>
  \<^verbatim>\<open>binit\<close> on the zeroed cache links all buffers into a list, and the cache then shows the contents of the
  disk, with no block referenced or locked.
\<close>

lemma binit_correct:
  assumes "calm p s" and "\<And>i. i < NBUF \<Longrightarrow> b_refcnt (bufs s i) = 0 \<and> b_dev (bufs s i) = 0" and "d \<noteq> 0"
  shows "cache_rel p d (c_boot (disk s)) (binit s) \<and> dll (bufs (binit s)) (rev [0..<NBUF])"
  using assms by (rule binit_rel)

text \<open>
  C17. \<^verbatim>\<open>bread\<close> refines the abstract cache. For a block that the caller has not locked, and while a buffer can be had, it
  returns a locked buffer with the current contents of the block, whether they were cached or had to be
  read; no block changes its contents, and buffers that are in use stay where they are.
\<close>

theorem bread_refines:
  assumes "cache_rel p d c s" "c_room b c"
  shows "\<exists>i t. bread d b s = ret i t \<and> cache_rel p d (c_get b c) t \<and> buf_at d t b i \<and>
    sl_locked (b_lock (bufs t i)) \<and> b_data (bufs t i) = cv c b \<and> (\<forall>b' j. buf_at d s b' j \<longrightarrow> buf_at d t b' j)"
proof -
  obtain i t where t: "bread d b s = ret i t" "bframe s t" "dhist t = dhist s" "cache_rel p d (c_get b c) t" "buf_at d t b i"
    "\<And>b' j. buf_at d s b' j \<Longrightarrow> buf_at d t b' j" by (rule bread_run [OF assms]) (rule that)
  moreover have "b \<in> ch (c_get b c)" "cv (c_get b c) b = cv c b" by (simp_all add: c_get_def)
  ultimately show ?thesis using buf_atD(8,10) [OF t(4,5)] by auto
qed

text \<open>
  C18. \<^verbatim>\<open>brelse\<close> refines the abstract cache: it gives up the lock and one reference of a block that the caller has
  locked, keeping the LRU list well formed, and no block changes its contents. A buffer that nobody refers
  to afterwards must agree with the disk, for it may be recycled at any time.
\<close>

theorem brelse_refines:
  assumes "cache_rel p d c s" "buf_at d s b i" "b \<in> ch c" "1 < cr c b \<or> cv c b = cd c b"
  shows "\<exists>t. brelse i s = ret () t \<and> cache_rel p d (c_put b c) t \<and>
    (\<forall>b' j. buf_at d s b' j \<longrightarrow> b' \<noteq> b \<or> 1 < cr c b \<longrightarrow> buf_at d t b' j)"
  using brelse_eq [OF assms] by blast

text \<open>
  When as many blocks are referenced as there are buffers and the block is not among them, \<^verbatim>\<open>bread\<close> panics, and
  does not touch a buffer that is in use.
\<close>

lemma bread_no_buffers:
  assumes rel: "cache_rel p d c s" and n: "card {x. cr c x \<noteq> 0} = NBUF" and b: "cr c b = 0"
  shows "\<exists>t. bread d b s = panic ''bget: no buffers'' t \<and> bufs t = bufs s"
proof -
  have acq: "acquire bcache_lock bcache_lock_update s = ret () (bclock.enter s)"
    using rel by (intro bclock.acquire_free) (simp_all add: cache_rel_def calm_def free_lock_def)
  have full: "\<forall>i < NBUF. b_refcnt (bufs s i) \<noteq> 0" by (rule cache_full [OF rel n])
  obtain xs where xs: "dll (bufs s) xs" using rel by (auto simp: cache_rel_def)
  then have set: "set xs = {0..<NBUF}" by (rule dll_props)
  have "\<not> (b_dev (bufs s i) = d \<and> b_blockno (bufs s i) = b)" if "i < NBUF" for i
  proof
    assume "b_dev (bufs s i) = d \<and> b_blockno (bufs s i) = b"
    with full that have "buf_at d s b i" by (simp add: buf_at_def)
    with buf_atD(7) [OF rel this] b show False by simp
  qed
  then have "List.find (\<lambda>i. b_dev (bufs s i) = d \<and> b_blockno (bufs s i) = b) xs = None"
    "List.find (\<lambda>i. b_refcnt (bufs s i) = 0) (rev xs) = None"
    using set full by (auto simp: find_None_iff)
  then have "bget d b s = panic ''bget: no buffers'' (bclock.enter s)"
    using dll_find [OF xs] by (simp add: bget_def acq del: bget_find.simps bget_lru.simps)
  then show ?thesis by (intro exI [of _ "bclock.enter s"]) (simp add: bread_def)
qed

section \<open>A concrete cache\<close>

definition buf0 :: buf where
  "buf0 = \<lparr>b_valid = False, b_disk = False, b_dev = 0, b_blockno = 0,
     b_lock = \<lparr>sl_locked = False, sl_lk = new_lock ''sleep lock'', sl_name = ''buffer'', sl_pid = 0\<rparr>,
     b_refcnt = 0, b_prev = 0, b_next = 0, b_data = (\<lambda>_. 0)\<rparr>"

definition demo_bio :: bstate where
  "demo_bio = pipestate.extend demo_pipes \<lparr>bcache_lock = new_lock ''bcache'', bufs = (\<lambda>_. buf0), disk = (\<lambda>b _. ucast b), dhist = []\<rparr>"

lemma calm_extend_pipes [simp]: "calm p (pipestate.extend s x) = calm p s"
  by (simp add: pipestate.defs calm_def quiet_def mycpu_def cpuid_def cur_def locks_free_def p_lk_def)

lemma demo_bio_simps [simp]: "calm 1 demo_bio" "bufs demo_bio i = buf0" "disk demo_bio = (\<lambda>b _. ucast b)"
  using demo_pipes_calm(1) by (simp_all add: demo_bio_def del: One_nat_def) (simp_all add: pipestate.defs)

lemma demo_cache: "cache_rel 1 1 (c_boot (\<lambda>b _. ucast b)) (binit demo_bio)"
  using binit_rel [of 1 demo_bio 1] by (simp add: buf0_def del: One_nat_def)

lemma demo_room: "c_room b (c_boot D)"
  by (simp add: c_room_def c_boot_def NBUF_def MAXOPBLOCKS_def)

theorem bread_refines_witness: "\<exists>i t. bread 1 5 (binit demo_bio) = ret i t \<and> b_data (bufs t i) = (\<lambda>_. 5)"
  using bread_refines [OF demo_cache demo_room, of 5] by (auto simp: c_boot_def)

theorem brelse_refines_witness:
  "\<exists>i t u. bread 1 5 (binit demo_bio) = ret i t \<and> brelse i t = ret () u \<and> cache_rel 1 1 (c_boot (\<lambda>b _. ucast b)) u"
proof -
  let ?c = "c_boot (\<lambda>b _. ucast b)"
  obtain i t where t: "bread 1 5 (binit demo_bio) = ret i t" "bframe (binit demo_bio) t" "dhist t = dhist (binit demo_bio)"
    "cache_rel 1 1 (c_get 5 ?c) t" "buf_at 1 t 5 i" "\<And>b' j. buf_at 1 (binit demo_bio) b' j \<Longrightarrow> buf_at 1 t b' j"
    by (rule bread_run [OF demo_cache demo_room]) (rule that)
  have "5 \<in> ch (c_get 5 ?c)" "cv (c_get 5 ?c) 5 = cd (c_get 5 ?c) 5" by (simp_all add: c_get_def c_boot_def)
  then obtain u where "brelse i t = ret () u" "cache_rel 1 1 (c_put 5 (c_get 5 ?c)) u"
    using brelse_refines [OF t(4,5)] by blast
  moreover have "c_put 5 (c_get 5 ?c) = ?c" by (simp add: c_defs c_boot_def fun_upd_idem)
  ultimately show ?thesis using t(1) by auto
qed

lemma inj_of_nat: "k \<le> 2 ^ 32 \<Longrightarrow> inj_on (of_nat :: nat \<Rightarrow> uint) {0..<k}"
  by (rule inj_onI) (auto simp: unsigned_of_nat take_bit_nat_eq_self dest!: arg_cong [where f = unat])

lemma demo_fill:
  "n \<le> NBUF \<Longrightarrow> \<exists>c s. cache_rel 1 1 c (s :: bstate) \<and> ch c = of_nat ` {0..<n} \<and>
     (\<forall>b. cr c b = (if b \<in> of_nat ` {0..<n} then 1 else 0))"
proof (induction n)
  case 0
  show ?case using demo_cache by (intro exI [of _ "c_boot (\<lambda>b _. ucast b)"] exI [of _ "binit demo_bio"]) (simp add: c_boot_def)
next
  case (Suc n)
  then obtain c and s :: bstate where cs: "cache_rel 1 1 c s" "ch c = of_nat ` {0..<n}"
    "\<And>b. cr c b = (if b \<in> of_nat ` {0..<n} then 1 else 0)" by auto
  have inj: "inj_on (of_nat :: nat \<Rightarrow> uint) {0..<Suc n}"
    using Suc.prems by (intro inj_of_nat) (simp add: NBUF_def MAXOPBLOCKS_def)
  have new: "(of_nat n :: uint) \<notin> of_nat ` {0..<n}"
    using inj unfolding atLeast0_lessThan_Suc inj_on_insert by simp
  have "{x. cr c x \<noteq> 0} = of_nat ` {0..<n}" using cs(3) by auto
  then have "card {x. cr c x \<noteq> 0} \<le> n" using card_image_le [of "{0..<n}" "of_nat :: nat \<Rightarrow> uint"] by simp
  with Suc.prems new have room: "c_room (of_nat n) c" by (simp add: c_room_def cs(2,3))
  obtain i t where t: "bread 1 (of_nat n) s = ret i t" "bframe s t" "dhist t = dhist s" "cache_rel 1 1 (c_get (of_nat n) c) t"
    "buf_at 1 t (of_nat n) i" "\<And>b' j. buf_at 1 s b' j \<Longrightarrow> buf_at 1 t b' j" by (rule bread_run [OF cs(1) room]) (rule that)
  then show ?case using cs(2,3) new
    by (intro exI [of _ "c_get (of_nat n) c"] exI [of _ t]) (auto simp: c_get_def atLeast0_lessThan_Suc)
qed

end
