(* ===== verification/LogSpec.thy ===== *)
theory LogSpec
  imports Log BioSpec
begin

text \<open>
  Crash safety of the log.
\<close>

text \<open>Read a block, change it, write it through and release it.\<close>

definition c_store :: "uint \<Rightarrow> cptr \<Rightarrow> cache \<Rightarrow> cache" where
  "c_store b x c = c\<lparr>cv := (cv c)(b := x), cd := (cd c)(b := x)\<rparr>"

lemma store_eq:
  assumes rel: "cache_rel p d c s" and room: "c_room b c" and "cr c b = 0"
  shows "\<exists>i t1 t. bread d b s = ret i t1 \<and> bframe s t1 \<and>
    bnd (bwrite i (upd_buf i (\<lambda>x. x\<lparr>b_data := f (b_data x)\<rparr>) t1)) (\<lambda>_ s. brelse i s) = ret () t \<and> bframe s t \<and> dhist t = dhist s @ [(b, f (cv c b))] \<and> cache_rel p d (c_store b (f (cv c b)) c) t"
proof -
  define c1 c2 c3 where "c1 = c_get b c" and "c2 = c_set b (f (cv c1 b)) c1" and "c3 = c_flush b c2"
  note cs = c1_def c2_def c3_def c_defs
  have b: "b \<in> ch c1" "b \<in> ch c2" "b \<in> ch c3" "cv c3 b = cd c3 b" by (simp_all add: cs)
  obtain i t1 where 1: "bread d b s = ret i t1" "bframe s t1" "dhist t1 = dhist s" "cache_rel p d c1 t1" "buf_at d t1 b i"
    using bread_run [OF rel room] unfolding c1_def by metis
  let ?t2 = "upd_buf i (\<lambda>x. x\<lparr>b_data := f (b_data x)\<rparr>) t1"
  have 2: "cache_rel p d c2 ?t2" "bframe t1 ?t2" "buf_at d ?t2 b i" "dhist ?t2 = dhist t1"
    unfolding c2_def using set_run [OF 1(4,5) b(1), where f = f] 1(5) by simp_all
  obtain t3 where 3: "bwrite i ?t2 = ret () t3" "bframe ?t2 t3" "dhist t3 = dhist ?t2 @ [(b, cv c2 b)]"
    "cache_rel p d c3 t3" "\<And>b' j. buf_at d ?t2 b' j \<Longrightarrow> buf_at d t3 b' j"
    by (rule bwrite_run [OF 2(1,3) b(2), folded c3_def]) (rule that)
  obtain t4 where 4: "brelse i t3 = ret () t4" "bframe t3 t4" "dhist t4 = dhist t3" "cache_rel p d (c_put b c3) t4"
    by (rule brelse_run [OF 3(4) 3(5) [OF 2(3)] b(3) disjI2 [OF b(4)]]) (rule that)
  have "c_put b c3 = c_store b (f (cv c b)) c"
    using room by (simp add: cs c_store_def c_room_def fun_eq_iff)
  moreover have "bframe s t4" using 1(2) 2(2) 3(2) 4(2) by (blast intro: bframe_trans)
  moreover have "cv c2 b = f (cv c b)" by (simp add: cs)
  ultimately show ?thesis using 1 2 3 4 by (intro exI [of _ i] exI [of _ t1] exI [of _ t4]) simp
qed

section \<open>Copying between the log and the home blocks\<close>

definition cpy :: "cptr \<Rightarrow> cptr \<Rightarrow> cptr" where
  "cpy x y = copy_bytes x 0 y 0 BSIZE"

lemma blk_cpy [simp]: "blk (cpy x y) = blk y"
  by (simp add: cpy_def)

lemma bframe_log: "bframe s t \<Longrightarrow> the_log t = the_log s"
  unfolding bframe_def by (elim conjE) (drule arg_cong [where f = the_log], simp)

text \<open>One round of \<^verbatim>\<open>write_log\<close>: the pinned block \<open>h\<close> is copied to the block \<open>l\<close> of the log.\<close>

lemma write_log_step:
  assumes lg: "the_log s = lg" "d = of_int (l_dev lg)" "l = log_block lg i" "h = home_block lg i"
    and rel: "cache_rel p d c s" and lh: "l \<noteq> h" "l \<notin> ch c" "h \<notin> ch c"
    and r: "cr c l = 0" "cr c h \<noteq> 0" "cr c h < 2 ^ 32 - 1" "card {x. cr c x \<noteq> 0} < NBUF"
  shows "\<exists>t. bframe s t \<and> dhist t = dhist s @ [(l, cpy (cv c l) (cv c h))] \<and>
     cache_rel p d (c_store l (cpy (cv c l) (cv c h)) c) t \<and>
     (\<forall>ts. write_log_loop (i # ts) s = write_log_loop ts t)"
proof -
  define c1 c2 c3 c4 c5 where "c1 = c_get l c" and "c2 = c_get h c1" and "c3 = c_set l (cpy (cv c2 l) (cv c h)) c2"
    and "c4 = c_flush l c3" and "c5 = c_put h c4"
  note cs = c1_def c2_def c3_def c4_def c5_def c_defs
  have m: "l \<in> ch c2" "l \<in> ch c3" "h \<in> ch c4" "1 < cr c4 h" "l \<in> ch c5" "cv c5 l = cd c5 l"
    using lh r by (simp_all add: cs)
  have r1: "c_room l c" using lh r by (simp add: c_room_def)
  have r2: "c_room h c1" using lh r by (simp add: c_room_def cs)
  obtain b1 t1 where 1: "bread d l s = ret b1 t1" "bframe s t1" "dhist t1 = dhist s" "cache_rel p d c1 t1" "buf_at d t1 l b1"
    "\<And>b' j. buf_at d s b' j \<Longrightarrow> buf_at d t1 b' j"
    by (rule bread_run [OF rel r1, folded c1_def]) (rule that)
  obtain b2 t2 where 2: "bread d h t1 = ret b2 t2" "bframe t1 t2" "dhist t2 = dhist t1" "cache_rel p d c2 t2" "buf_at d t2 h b2"
    "\<And>b' j. buf_at d t1 b' j \<Longrightarrow> buf_at d t2 b' j"
    by (rule bread_run [OF 1(4) r2, folded c2_def]) (rule that)
  have h: "b_data (bufs t2 b2) = cv c h" using buf_atD(10) [OF 2(4,5)] by (simp add: cs)
  have l1: "the_log t1 = lg" using bframe_log [OF 1(2)] lg by simp
  let ?t3 = "upd_buf b1 (\<lambda>x. x\<lparr>b_data := cpy (b_data x) (cv c h)\<rparr>) t2"
  have 3: "cache_rel p d c3 ?t3" "bframe t2 ?t3" "\<And>b' j. buf_at d t2 b' j \<Longrightarrow> buf_at d ?t3 b' j"
    unfolding c3_def using set_run [OF 2(4) 2(6) [OF 1(5)] m(1), where f = "\<lambda>x. cpy x (cv c h)"] by simp_all
  obtain t4 where 4: "bwrite b1 ?t3 = ret () t4" "bframe ?t3 t4" "dhist t4 = dhist ?t3 @ [(l, cv c3 l)]"
    "cache_rel p d c4 t4" "\<And>b' j. buf_at d ?t3 b' j \<Longrightarrow> buf_at d t4 b' j"
    by (rule bwrite_run [OF 3(1) 3(3) [OF 2(6) [OF 1(5)]] m(2), folded c4_def]) (rule that)
  obtain t5 where 5: "brelse b2 t4 = ret () t5" "bframe t4 t5" "dhist t5 = dhist t4" "cache_rel p d c5 t5"
    "\<And>b' j. buf_at d t4 b' j \<Longrightarrow> b' \<noteq> h \<or> 1 < cr c4 h \<Longrightarrow> buf_at d t5 b' j"
    by (rule brelse_run [OF 4(4) 4(5) [OF 3(3) [OF 2(5)]] m(3) disjI1 [OF m(4)], folded c5_def]) (rule that)
  obtain t6 where 6: "brelse b1 t5 = ret () t6" "bframe t5 t6" "dhist t6 = dhist t5" "cache_rel p d (c_put l c5) t6"
    by (rule brelse_run [OF 5(4) 5(5) [OF 4(5) [OF 3(3) [OF 2(6) [OF 1(5)]]] disjI1 [OF lh(1)]] m(5) disjI2 [OF m(6)]]) (rule that)
  have "c_put l c5 = c_store l (cpy (cv c l) (cv c h)) c"
    using lh r by (auto simp: cs c_store_def fun_eq_iff)
  moreover have "bframe s t6" using 1(2) 2(2) 3(2) 4(2) 5(2) 6(2) by (blast intro: bframe_trans)
  moreover have "cv c3 l = cpy (cv c l) (cv c h)" by (simp add: cs)
  ultimately show ?thesis using 1(1,3) 2(1,3) 4(1,3) 5(1,3) 6(1,3,4)
    by (intro exI [of _ t6]) (simp add: h cpy_def [symmetric] lg l1)
qed

text \<open>One round of \<^verbatim>\<open>install_trans\<close>: the block \<open>l\<close> of the log is copied to its home \<open>h\<close>.\<close>

definition c_install :: "bool \<Rightarrow> uint \<Rightarrow> uint \<Rightarrow> cache \<Rightarrow> cache" where
  "c_install recovering l h c =
     (c_store h (cpy (cv c h) (cv c l)) c)\<lparr>cr := if recovering then cr c else (cr c)(h := cr c h - 1)\<rparr>"

lemma room_after_get:
  assumes "cr c h \<noteq> 0 \<or> card {x. cr c x \<noteq> 0} + 1 < NBUF" "h \<noteq> l" "h \<notin> ch c" "cr c h < 2 ^ 32 - 1"
  shows "c_room h (c_get l c)"
proof -
  have "{x. cr (c_get l c) x \<noteq> 0} \<subseteq> insert l {x. cr c x \<noteq> 0}" by (auto simp: c_get_def)
  then have "card {x. cr (c_get l c) x \<noteq> 0} \<le> card (insert l {x. cr c x \<noteq> 0})" by (intro card_mono) simp_all
  also have "\<dots> \<le> card {x. cr c x \<noteq> 0} + 1" by (simp add: card_insert_if)
  finally have "card {x. cr (c_get l c) x \<noteq> 0} \<le> card {x. cr c x \<noteq> 0} + 1" .
  moreover have "cr (c_get l c) h = cr c h" "h \<in> ch (c_get l c) \<longleftrightarrow> h \<in> ch c" using assms by (simp_all add: c_get_def)
  ultimately show ?thesis using assms unfolding c_room_def by linarith
qed

lemma install_step:
  assumes lg: "the_log s = lg" "d = of_int (l_dev lg)" "l = log_block lg i" "h = home_block lg i"
    and rel: "cache_rel p d c s" and lh: "l \<noteq> h" "l \<notin> ch c" "h \<notin> ch c"
    and r: "cr c l = 0" "cr c h < 2 ^ 32 - 1" "\<not> recovering \<Longrightarrow> cr c h \<noteq> 0" "card {x. cr c x \<noteq> 0} < NBUF"
      "cr c h \<noteq> 0 \<or> card {x. cr c x \<noteq> 0} + 1 < NBUF"
  shows "\<exists>t. bframe s t \<and> dhist t = dhist s @ [(h, cpy (cv c h) (cv c l))] \<and> cache_rel p d (c_install recovering l h c) t \<and>
     (\<forall>ts. install_trans_loop recovering (i # ts) s = install_trans_loop recovering ts t)"
proof -
  define c1 c2 c3 c4 c5 c6 where "c1 = c_get l c" and "c2 = c_get h c1" and "c3 = c_set h (cpy (cv c2 h) (cv c l)) c2"
    and "c4 = c_flush h c3" and "c5 = (if recovering then c4 else c_unpin h c4)" and "c6 = c_put l c5"
  note cs = c1_def c2_def c3_def c4_def c5_def c6_def c_defs
  have clean: "cv c l = cd c l" using rel r(1) by (simp add: cache_rel_def cores_def)
  have m: "h \<in> ch c2" "h \<in> ch c3" "\<not> recovering \<Longrightarrow> 1 < cr c4 h" "l \<in> ch c5" "cv c5 l = cd c5 l" "h \<in> ch c6" "cv c6 h = cd c6 h"
    using lh r clean by (simp_all add: cs)
  have r1: "c_room l c" using lh r by (simp add: c_room_def)
  have r2: "c_room h c1" unfolding c1_def using lh r by (intro room_after_get) simp_all
  obtain b1 t1 where 1: "bread d l s = ret b1 t1" "bframe s t1" "dhist t1 = dhist s" "cache_rel p d c1 t1" "buf_at d t1 l b1"
    "\<And>b' j. buf_at d s b' j \<Longrightarrow> buf_at d t1 b' j"
    by (rule bread_run [OF rel r1, folded c1_def]) (rule that)
  obtain b2 t2 where 2: "bread d h t1 = ret b2 t2" "bframe t1 t2" "dhist t2 = dhist t1" "cache_rel p d c2 t2" "buf_at d t2 h b2"
    "\<And>b' j. buf_at d t1 b' j \<Longrightarrow> buf_at d t2 b' j"
    by (rule bread_run [OF 1(4) r2, folded c2_def]) (rule that)
  have h: "b_data (bufs t2 b1) = cv c l" using buf_atD(10) [OF 2(4) 2(6) [OF 1(5)]] by (simp add: cs)
  have l1: "the_log t1 = lg" using bframe_log [OF 1(2)] lg by simp
  let ?t3 = "upd_buf b2 (\<lambda>x. x\<lparr>b_data := cpy (b_data x) (cv c l)\<rparr>) t2"
  have 3: "cache_rel p d c3 ?t3" "bframe t2 ?t3" "\<And>b' j. buf_at d t2 b' j \<Longrightarrow> buf_at d ?t3 b' j"
    unfolding c3_def using set_run [OF 2(4,5) m(1), where f = "\<lambda>x. cpy x (cv c l)"] by simp_all
  obtain t4 where 4: "bwrite b2 ?t3 = ret () t4" "bframe ?t3 t4" "dhist t4 = dhist ?t3 @ [(h, cv c3 h)]"
    "cache_rel p d c4 t4" "\<And>b' j. buf_at d ?t3 b' j \<Longrightarrow> buf_at d t4 b' j"
    by (rule bwrite_run [OF 3(1) 3(3) [OF 2(5)] m(2), folded c4_def]) (rule that)
  have at4: "buf_at d t4 l b1" "buf_at d t4 h b2" using 1(5) 2(5,6) 3(3) 4(5) by blast+
  have "\<exists>t5. (if recovering then ret () t4 else bunpin b2 t4) = ret () t5 \<and> bframe t4 t5 \<and> dhist t5 = dhist t4 \<and>
      cache_rel p d c5 t5 \<and> buf_at d t5 l b1 \<and> buf_at d t5 h b2"
  proof (cases recovering)
    case True
    with at4 4(4) show ?thesis by (simp add: c5_def)
  next
    case False
    obtain t5 where "bunpin b2 t4 = ret () t5" "bframe t4 t5" "dhist t5 = dhist t4" "cache_rel p d (c_unpin h c4) t5"
      "\<And>b' j. buf_at d t4 b' j \<Longrightarrow> buf_at d t5 b' j" by (rule bunpin_run [OF 4(4) at4(2) m(3) [OF False]]) (rule that)
    with at4 False show ?thesis by (simp add: c5_def)
  qed
  then obtain t5 where 5: "(if recovering then ret () t4 else bunpin b2 t4) = ret () t5" "bframe t4 t5" "dhist t5 = dhist t4"
    "cache_rel p d c5 t5" "buf_at d t5 l b1" "buf_at d t5 h b2" by blast
  obtain t6 where 6: "brelse b1 t5 = ret () t6" "bframe t5 t6" "dhist t6 = dhist t5" "cache_rel p d c6 t6"
    "\<And>b' j. buf_at d t5 b' j \<Longrightarrow> b' \<noteq> l \<or> 1 < cr c5 l \<Longrightarrow> buf_at d t6 b' j"
    by (rule brelse_run [OF 5(4,5) m(4) disjI2 [OF m(5)], folded c6_def]) (rule that)
  obtain t7 where 7: "brelse b2 t6 = ret () t7" "bframe t6 t7" "dhist t7 = dhist t6" "cache_rel p d (c_put h c6) t7"
    by (rule brelse_run [OF 6(4) 6(5) [OF 5(6) disjI1 [OF lh(1) [symmetric]]] m(6) disjI2 [OF m(7)]]) (rule that)
  have "c_put h c6 = c_install recovering l h c"
    by (rule cache.equality) (use lh r in \<open>auto simp: cs c_store_def c_install_def fun_eq_iff\<close>)
  moreover have "bframe s t7" using 1(2) 2(2) 3(2) 4(2) 5(2) 6(2) 7(2) by (blast intro: bframe_trans)
  moreover have "cv c3 h = cpy (cv c h) (cv c l)" by (simp add: cs)
  ultimately show ?thesis using 1(1,3) 2(1,3) 4(1,3) 5(1,3) 6(1,3) 7(1,3,4)
    by (intro exI [of _ t7]) (simp add: h cpy_def [symmetric] lg l1)
qed

section \<open>The loops\<close>

text \<open>A list of block writes, applied in order.\<close>

definition wr :: "(uint \<times> cptr) list \<Rightarrow> (uint \<Rightarrow> cptr) \<Rightarrow> uint \<Rightarrow> cptr" where
  "wr ws D = fold (\<lambda>(b, x) D. D(b := x)) ws D"

lemma wr_simps [simp]: "wr [] D = D" "wr ((b, x) # ws) D = wr ws (D(b := x))" "wr (us @ ws) D = wr ws (wr us D)"
  by (simp_all add: wr_def)

lemma wr_other: "b \<notin> fst ` set ws \<Longrightarrow> wr ws D b = D b"
  by (induction ws arbitrary: D) auto

lemma wr_map: "distinct ts \<Longrightarrow> inj_on f (set ts) \<Longrightarrow> i \<in> set ts \<Longrightarrow> wr (map (\<lambda>i. (f i, g i)) ts) D (f i) = g i"
proof (induction ts arbitrary: D)
  case (Cons j ts)
  show ?case
  proof (cases "i = j")
    case True
    with Cons.prems have "f i \<notin> fst ` set (map (\<lambda>i. (f i, g i)) ts)" by (auto simp: inj_on_def)
    with True show ?thesis by (simp add: wr_other)
  qed (use Cons in auto)
qed simp

definition c_wr :: "(uint \<times> cptr) list \<Rightarrow> cache \<Rightarrow> cache" where
  "c_wr ws c = c\<lparr>cv := wr ws (cv c), cd := wr ws (cd c)\<rparr>"

lemma c_wr_simps [simp]:
  "cv (c_wr ws c) = wr ws (cv c)" "cd (c_wr ws c) = wr ws (cd c)" "cr (c_wr ws c) = cr c" "ch (c_wr ws c) = ch c"
  "c_wr [] c = c" "c_wr ((b, x) # ws) c = c_wr ws (c_store b x c)"
  by (simp_all add: c_wr_def c_store_def)

lemma c_wr_append: "c_wr (us @ ws) c = c_wr ws (c_wr us c)"
  by (simp add: c_wr_def)

definition log_writes :: "log \<Rightarrow> (uint \<Rightarrow> cptr) \<Rightarrow> nat list \<Rightarrow> (uint \<times> cptr) list" where
  "log_writes l V ts = map (\<lambda>i. (log_block l i, cpy (V (log_block l i)) (V (home_block l i)))) ts"

definition home_writes :: "log \<Rightarrow> (uint \<Rightarrow> cptr) \<Rightarrow> nat list \<Rightarrow> (uint \<times> cptr) list" where
  "home_writes l V ts = map (\<lambda>i. (home_block l i, cpy (V (home_block l i)) (V (log_block l i)))) ts"

lemma wr_log_other: "b \<notin> log_block l ` set ts \<Longrightarrow> wr (log_writes l V ts) D b = D b"
  by (rule wr_other) (auto simp: log_writes_def)

lemma wr_home_other: "b \<notin> home_block l ` set ts \<Longrightarrow> wr (home_writes l V ts) D b = D b"
  by (rule wr_other) (auto simp: home_writes_def)

text \<open>The blocks of the log and the home blocks of the slots \<open>ts\<close> are all different.\<close>

definition slots_ok :: "log \<Rightarrow> nat list \<Rightarrow> bool" where
  "slots_ok l ts \<longleftrightarrow> distinct ts \<and> inj_on (log_block l) (set ts) \<and> inj_on (home_block l) (set ts) \<and>
     log_block l ` set ts \<inter> home_block l ` set ts = {}"

lemma slots_ok_Cons:
  assumes "slots_ok l (i # ts)"
  shows "slots_ok l ts" "log_block l i \<noteq> home_block l i"
    "j \<in> set ts \<Longrightarrow> log_block l j \<noteq> log_block l i \<and> log_block l j \<noteq> home_block l i \<and>
       home_block l j \<noteq> log_block l i \<and> home_block l j \<noteq> home_block l i"
proof -
  have a: "inj_on (log_block l) (insert i (set ts))" "inj_on (home_block l) (insert i (set ts))" "i \<notin> set ts"
    "log_block l ` insert i (set ts) \<inter> home_block l ` insert i (set ts) = {}"
    using assms unfolding slots_ok_def list.set distinct.simps by blast+
  show "slots_ok l ts" using assms a unfolding slots_ok_def by (auto intro: inj_on_subset)
  show "log_block l i \<noteq> home_block l i" using a(4) by blast
  show "log_block l j \<noteq> log_block l i \<and> log_block l j \<noteq> home_block l i \<and>
       home_block l j \<noteq> log_block l i \<and> home_block l j \<noteq> home_block l i" if "j \<in> set ts"
  proof -
    have ne: "i \<noteq> j" using a(3) that by blast
    have "log_block l j \<noteq> log_block l i" using inj_onD [OF a(1), of j i] ne that by blast
    moreover have "home_block l j \<noteq> home_block l i" using inj_onD [OF a(2), of j i] ne that by blast
    ultimately show ?thesis using a(4) that by blast
  qed
qed

lemma write_log_loop_eq:
  assumes "cache_rel p (of_int (l_dev l)) c s" "the_log s = l" "ch c = {}" "slots_ok l ts" "card {x. cr c x \<noteq> 0} < NBUF"
    "\<And>i. i \<in> set ts \<Longrightarrow> cr c (log_block l i) = 0 \<and> cr c (home_block l i) \<noteq> 0 \<and> cr c (home_block l i) < 2 ^ 32 - 1"
  shows "\<exists>t. write_log_loop ts s = ret () t \<and> bframe s t \<and> dhist t = dhist s @ log_writes l (cv c) ts \<and>
     cache_rel p (of_int (l_dev l)) (c_wr (log_writes l (cv c) ts) c) t"
  using assms
proof (induction ts arbitrary: c s)
  case (Cons i ts)
  let ?L = "log_block l i" and ?H = "home_block l i" and ?d = "of_int (l_dev l) :: uint"
  let ?c = "c_store ?L (cpy (cv c ?L) (cv c ?H)) c"
  note ne = slots_ok_Cons [OF Cons.prems(4)]
  have nh: "?L \<notin> ch c" "?H \<notin> ch c" using Cons.prems(3) by simp_all
  have r: "cr c ?L = 0" "cr c ?H \<noteq> 0" "cr c ?H < 2 ^ 32 - 1" using Cons.prems(6) by simp_all
  obtain t where t: "bframe s t" "dhist t = dhist s @ [(?L, cpy (cv c ?L) (cv c ?H))]" "cache_rel p ?d ?c t"
    and step: "\<And>ts. write_log_loop (i # ts) s = write_log_loop ts t"
    using write_log_step [OF Cons.prems(2) refl refl refl Cons.prems(1) ne(2) nh r Cons.prems(5)] by blast
  have same: "log_writes l (cv ?c) ts = log_writes l (cv c) ts"
    using ne(3) by (auto simp: c_store_def log_writes_def)
  have "the_log t = l" using bframe_log [OF t(1)] Cons.prems(2) by simp
  moreover have "ch ?c = {}" "card {x. cr ?c x \<noteq> 0} < NBUF" using Cons.prems(3,5) by (simp_all add: c_store_def)
  moreover have "cr ?c (log_block l j) = 0 \<and> cr ?c (home_block l j) \<noteq> 0 \<and> cr ?c (home_block l j) < 2 ^ 32 - 1" if "j \<in> set ts" for j
    using Cons.prems(6) [of j] that by (simp add: c_store_def)
  ultimately obtain u where u: "write_log_loop ts t = ret () u" "bframe t u" "dhist u = dhist t @ log_writes l (cv c) ts"
    "cache_rel p ?d (c_wr (log_writes l (cv c) ts) ?c) u"
    using Cons.IH [OF t(3) _ _ ne(1)] unfolding same by blast
  have "log_writes l (cv c) (i # ts) = (?L, cpy (cv c ?L) (cv c ?H)) # log_writes l (cv c) ts" by (simp add: log_writes_def)
  with u t(2) step bframe_trans [OF t(1) u(2)] show ?case by (simp del: write_log_loop.simps)
next
  case Nil
  from Nil(1) show ?case by (intro exI [of _ s]) (simp add: log_writes_def)
qed

definition unpinned :: "bool \<Rightarrow> uint set \<Rightarrow> cache \<Rightarrow> cache" where
  "unpinned recovering hs c = (if recovering then c else c\<lparr>cr := (\<lambda>b. if b \<in> hs then cr c b - 1 else cr c b)\<rparr>)"

lemma install_trans_loop_eq:
  assumes "cache_rel p (of_int (l_dev l)) c s" "the_log s = l" "ch c = {}" "slots_ok l ts" "card {x. cr c x \<noteq> 0} < NBUF"
    "\<And>i. i \<in> set ts \<Longrightarrow> cr c (log_block l i) = 0 \<and> cr c (home_block l i) < 2 ^ 32 - 1"
    "recovering \<Longrightarrow> card {x. cr c x \<noteq> 0} + 1 < NBUF" "\<And>i. \<not> recovering \<Longrightarrow> i \<in> set ts \<Longrightarrow> cr c (home_block l i) \<noteq> 0"
  shows "\<exists>t. install_trans_loop recovering ts s = ret () t \<and> bframe s t \<and> dhist t = dhist s @ home_writes l (cv c) ts \<and>
     cache_rel p (of_int (l_dev l)) (unpinned recovering (home_block l ` set ts) (c_wr (home_writes l (cv c) ts) c)) t"
  using assms
proof (induction ts arbitrary: c s)
  case (Cons i ts)
  let ?L = "log_block l i" and ?H = "home_block l i" and ?d = "of_int (l_dev l) :: uint"
  let ?c = "c_install recovering ?L ?H c"
  note ne = slots_ok_Cons [OF Cons.prems(4)]
  have nh: "?L \<notin> ch c" "?H \<notin> ch c" using Cons.prems(3) by simp_all
  have r: "cr c ?L = 0" "cr c ?H < 2 ^ 32 - 1" "\<not> recovering \<Longrightarrow> cr c ?H \<noteq> 0" using Cons.prems(6,8) by simp_all
  have r': "cr c ?H \<noteq> 0 \<or> card {x. cr c x \<noteq> 0} + 1 < NBUF" using Cons.prems(7) r(3) by blast
  obtain t where t: "bframe s t" "dhist t = dhist s @ [(?H, cpy (cv c ?H) (cv c ?L))]" "cache_rel p ?d ?c t"
    and step: "\<And>ts. install_trans_loop recovering (i # ts) s = install_trans_loop recovering ts t"
    using install_step [OF Cons.prems(2) refl refl refl Cons.prems(1) ne(2) nh r Cons.prems(5) r'] by blast
  have same: "home_writes l (cv ?c) ts = home_writes l (cv c) ts"
    using ne(3) by (auto simp: c_store_def c_install_def home_writes_def)
  have le: "card {x. cr ?c x \<noteq> 0} \<le> card {x. cr c x \<noteq> 0}" by (rule card_mono) (auto simp: c_install_def c_store_def)
  have "the_log t = l" using bframe_log [OF t(1)] Cons.prems(2) by simp
  moreover have "ch ?c = {}" using Cons.prems(3) by (simp add: c_store_def c_install_def)
  moreover have "card {x. cr ?c x \<noteq> 0} < NBUF" "recovering \<Longrightarrow> card {x. cr ?c x \<noteq> 0} + 1 < NBUF"
    using le Cons.prems(5,7) by linarith+
  moreover have "cr ?c (log_block l j) = 0 \<and> cr ?c (home_block l j) < 2 ^ 32 - 1" 
      "\<not> recovering \<Longrightarrow> cr ?c (home_block l j) \<noteq> 0" if "j \<in> set ts" for j
    using Cons.prems(6,8) [of j] ne(3) [OF that] that by (simp_all add: c_store_def c_install_def)
  ultimately obtain u where u: "install_trans_loop recovering ts t = ret () u" "bframe t u" "dhist u = dhist t @ home_writes l (cv c) ts"
    "cache_rel p ?d (unpinned recovering (home_block l ` set ts) (c_wr (home_writes l (cv c) ts) ?c)) u"
    using Cons.IH [OF t(3) _ _ ne(1)] unfolding same by blast
  have w: "home_writes l (cv c) (i # ts) = (?H, cpy (cv c ?H) (cv c ?L)) # home_writes l (cv c) ts" by (simp add: home_writes_def)
  have "?H \<notin> home_block l ` set ts" using Cons.prems(4) by (auto simp: slots_ok_def)
  then have "unpinned recovering (home_block l ` set ts) (c_wr (home_writes l (cv c) ts) ?c) =
      unpinned recovering (home_block l ` set (i # ts)) (c_wr (home_writes l (cv c) (i # ts)) c)"
    unfolding w by (intro cache.equality) (auto simp: unpinned_def c_wr_def c_install_def c_store_def fun_eq_iff)
  with u(4) have "cache_rel p ?d (unpinned recovering (home_block l ` set (i # ts)) (c_wr (home_writes l (cv c) (i # ts)) c)) u" by (simp only:)
  moreover have "dhist u = dhist s @ home_writes l (cv c) (i # ts)" unfolding w using u(3) t(2) by simp
  moreover have "install_trans_loop recovering (i # ts) s = ret () u" by (simp only: step u(1))
  ultimately show ?case using bframe_trans [OF t(1) u(2)] by blast
next
  case Nil
  from Nil(1) show ?case by (intro exI [of _ s]) (simp add: home_writes_def unpinned_def)
qed

section \<open>The header\<close>

lemma hdr_encode_other:
  "off + 4 \<le> 4 + 4 * a \<or> 4 + 4 * b \<le> off \<Longrightarrow> a \<le> b \<Longrightarrow>
   get32 (fold (\<lambda>i d. put32 d (4 + 4 * i) (of_int (f i))) [a..<b] d) off = get32 d off"
proof (induction b)
  case (Suc b)
  then show ?case by (cases "a = Suc b") (auto simp: mem_simps)
qed simp

lemma sint_of_int: "- (2 ^ 31) \<le> x \<Longrightarrow> x < 2 ^ 31 \<Longrightarrow> sint (of_int x :: uint) = x"
  by (simp add: int_word_sint)

lemma hdr_encode_decode:
  assumes "0 \<le> n" "n < 2 ^ 31"
  shows "hdr_n (hdr_encode n f d) = n"
    "i < nat n \<Longrightarrow> - (2 ^ 31) \<le> f i \<Longrightarrow> f i < 2 ^ 31 \<Longrightarrow> hdr_block (hdr_encode n f d) i = f i"
proof -
  have "get32 (hdr_encode n f d) 0 = of_int n"
    unfolding hdr_encode_def by (subst hdr_encode_other) (simp_all add: mem_simps)
  then show "hdr_n (hdr_encode n f d) = n" using assms by (simp add: hdr_n_def sint_of_int)
  assume i: "i < nat n" "- (2 ^ 31) \<le> f i" "f i < 2 ^ 31"
  then have "[0..<nat n] = [0..<i] @ i # [Suc i..<nat n]"
    using upt_add_eq_append [of 0 i "nat n - i"] upt_conv_Cons [of i "nat n"] by simp
  then have "get32 (hdr_encode n f d) (4 + 4 * i) = of_int (f i)"
    unfolding hdr_encode_def using i by (simp add: hdr_encode_other mem_simps)
  then show "hdr_block (hdr_encode n f d) i = f i" using i by (simp add: hdr_block_def sint_of_int)
qed

lemma write_head_eq:
  assumes "cache_rel p d c s" "the_log s = l" "d = of_int (l_dev l)" "b = of_int (l_start l)" "c_room b c" "cr c b = 0"
  shows "\<exists>t. write_head s = ret () t \<and> bframe s t \<and> dhist t = dhist s @ [(b, hdr_encode (lh_n l) (lh_block l) (cv c b))] \<and>
    cache_rel p d (c_wr [(b, hdr_encode (lh_n l) (lh_block l) (cv c b))] c) t"
proof -
  obtain i t1 t where *: "bread d b s = ret i t1" "bframe s t1"
    "bnd (bwrite i (upd_buf i (\<lambda>x. x\<lparr>b_data := hdr_encode (lh_n l) (lh_block l) (b_data x)\<rparr>) t1)) (\<lambda>_ s. brelse i s) = ret () t"
    "bframe s t" "dhist t = dhist s @ [(b, hdr_encode (lh_n l) (lh_block l) (cv c b))]"
    "cache_rel p d (c_store b (hdr_encode (lh_n l) (lh_block l) (cv c b)) c) t"
    using store_eq [OF assms(1,5,6), of "hdr_encode (lh_n l) (lh_block l)"] by blast
  have "the_log t1 = l" using bframe_log [OF *(2)] assms(2) by simp
  with * assms(2-4) show ?thesis by (intro exI [of _ t]) (simp add: write_head_def)
qed

lemma upd_log_simps [simp]:
  "the_log (upd_log f s) = f (the_log s)" "dhist (upd_log f s) = dhist s" "disk (upd_log f s) = disk s"
  "procs (upd_log f s) = procs s" "bufs (upd_log f s) = bufs s" "bcache_lock (upd_log f s) = bcache_lock s"
  "calm p (upd_log f s) = calm p s" "quiet (upd_log f s) = quiet s"
  by (simp_all add: upd_log_def calm_def quiet_def mycpu_def cpuid_def cur_def locks_free_def p_lk_def)

lemma cache_rel_upd_log [simp]: "cache_rel p d c (upd_log f s) = cache_rel p d c s"
  by (simp add: cache_rel_def kb_def [abs_def])

lemma buf_at_upd_log [simp]: "buf_at d (upd_log f s) b i = buf_at d s b i"
  by (simp add: buf_at_def)

text \<open>The log with the header of the block \<open>x\<close> loaded.\<close>

definition load_header :: "cptr \<Rightarrow> log \<Rightarrow> log" where
  "load_header x l = l\<lparr>lh_n := hdr_n x, lh_block := (\<lambda>i. if int i < hdr_n x then hdr_block x i else lh_block l i)\<rparr>"

lemma read_head_eq:
  assumes rel: "cache_rel p d c s" and l: "the_log s = l" "d = of_int (l_dev l)" "b = of_int (l_start l)"
    and room: "c_room b c" and r: "cr c b = 0"
  shows "\<exists>t. read_head s = ret () t \<and> the_log t = load_header (cv c b) l \<and> dhist t = dhist s \<and> cache_rel p d c t"
proof -
  obtain i t1 where 1: "bread d b s = ret i t1" "bframe s t1" "dhist t1 = dhist s" "cache_rel p d (c_get b c) t1" "buf_at d t1 b i"
    "\<And>b' j. buf_at d s b' j \<Longrightarrow> buf_at d t1 b' j" by (rule bread_run [OF rel room]) (rule that)
  have l1: "the_log t1 = l" using bframe_log [OF 1(2)] l(1) by simp
  have x: "b_data (bufs t1 i) = cv c b" using buf_atD(10) [OF 1(4,5)] by (simp add: c_get_def)
  let ?t2 = "upd_log (load_header (cv c b)) t1"
  have 2: "cache_rel p d (c_get b c) ?t2" "buf_at d ?t2 b i" "b \<in> ch (c_get b c)" using 1(4,5) by (simp_all add: c_get_def)
  have clean: "cv (c_get b c) b = cd (c_get b c) b" using rel r by (simp add: cache_rel_def cores_def c_get_def)
  obtain t3 where 3: "brelse i ?t2 = ret () t3" "bframe ?t2 t3" "dhist t3 = dhist ?t2" "cache_rel p d (c_put b (c_get b c)) t3"
    by (rule brelse_run [OF 2 disjI2 [OF clean]]) (rule that)
  have "c_put b (c_get b c) = c" using room by (simp add: c_defs c_room_def)
  moreover have "read_head s = ret () t3"
    using 1(1) 3(1) l l1 by (simp add: read_head_def x Let_def load_header_def upd_log_def cong: if_cong)
  moreover have "the_log t3 = load_header (cv c b) l" using bframe_log [OF 3(2)] l1 by simp
  ultimately show ?thesis using 1(3) 3(3,4) by simp
qed

definition recovery_writes :: "log \<Rightarrow> (uint \<Rightarrow> cptr) \<Rightarrow> (uint \<times> cptr) list" where
  "recovery_writes l V = (let S = of_int (l_start l); l1 = load_header (V S) l
     in home_writes l1 V [0..<nat (lh_n l1)] @ [(S, hdr_encode 0 (lh_block l1) (V S))])"

text \<open>The slots in use, their homes and the header block are all different.\<close>

definition log_layout :: "log \<Rightarrow> bool" where
  "log_layout l \<longleftrightarrow> slots_ok l [0..<nat (lh_n l)] \<and>
     of_int (l_start l) \<notin> log_block l ` {0..<nat (lh_n l)} \<union> home_block l ` {0..<nat (lh_n l)}"

lemma recover_eq:
  assumes rel: "cache_rel p d c s" and l: "the_log s = l" "d = of_int (l_dev l)"
    and c: "ch c = {}" "\<And>b. cr c b = 0" and lay: "log_layout (load_header (cv c (of_int (l_start l))) l)"
  shows "\<exists>t. recover_from_log s = ret () t \<and> dhist t = dhist s @ recovery_writes l (cv c) \<and>
     cache_rel p d (c_wr (recovery_writes l (cv c)) c) t"
proof -
  define S where "S = (of_int (l_start l) :: uint)"
  define l1 where "l1 = load_header (cv c S) l"
  define ts where "ts = [0..<nat (lh_n l1)]"
  define c1 where "c1 = c_wr (home_writes l1 (cv c) ts) c"
  have dev: "l_dev l1 = l_dev l" "l_start l1 = l_start l" by (simp_all add: l1_def load_header_def)
  have room: "c_room S c" using c by (simp add: c_room_def NBUF_def MAXOPBLOCKS_def)
  obtain t1 where 1: "read_head s = ret () t1" "the_log t1 = l1" "dhist t1 = dhist s" "cache_rel p d c t1"
    using read_head_eq [OF rel l S_def room c(2)] unfolding l1_def by blast
  have so: "slots_ok l1 ts" "S \<notin> home_block l1 ` set ts"
    using lay unfolding S_def [symmetric] l1_def [symmetric] log_layout_def by (simp_all add: ts_def dev S_def)
  have "\<exists>t. install_trans_loop True ts t1 = ret () t \<and> bframe t1 t \<and> dhist t = dhist t1 @ home_writes l1 (cv c) ts \<and>
     cache_rel p (of_int (l_dev l1)) (unpinned True (home_block l1 ` set ts) (c_wr (home_writes l1 (cv c) ts) c)) t"
    by (rule install_trans_loop_eq) (use 1 l dev c so in \<open>simp_all add: NBUF_def MAXOPBLOCKS_def\<close>)
  then obtain t2 where 2: "install_trans True t1 = ret () t2" "bframe t1 t2" "dhist t2 = dhist t1 @ home_writes l1 (cv c) ts"
    "cache_rel p d c1 t2"
    by (auto simp: unpinned_def install_trans_def 1(2) ts_def l dev c1_def)
  let ?t2 = "upd_log (\<lambda>l. l\<lparr>lh_n := 0\<rparr>) t2" and ?l2 = "l1\<lparr>lh_n := 0\<rparr>"
  have 22: "cache_rel p d c1 ?t2" "the_log ?t2 = ?l2" using 2(4) bframe_log [OF 2(2)] 1(2) by simp_all
  have room2: "c_room S c1" "cr c1 S = 0" "cv c1 S = cv c S"
    using c so(2) by (simp_all add: c1_def c_room_def wr_home_other NBUF_def MAXOPBLOCKS_def)
  obtain t3 where 3: "write_head ?t2 = ret () t3" "dhist t3 = dhist ?t2 @ [(S, hdr_encode 0 (lh_block l1) (cv c S))]"
    "cache_rel p d (c_wr [(S, hdr_encode 0 (lh_block l1) (cv c S))] c1) t3"
    using write_head_eq [OF 22 _ _ room2(1,2)] l(2) dev S_def room2(3) by auto
  have ws: "recovery_writes l (cv c) = home_writes l1 (cv c) ts @ [(S, hdr_encode 0 (lh_block l1) (cv c S))]"
    by (simp add: recovery_writes_def Let_def l1_def S_def ts_def)
  have "c_wr (recovery_writes l (cv c)) c = c_wr [(S, hdr_encode 0 (lh_block l1) (cv c S))] c1"
    unfolding ws c1_def by (rule c_wr_append)
  then show ?thesis using 1(1,3) 2(1,3) 3 unfolding ws by (intro exI [of _ t3]) (simp add: recover_from_log_def)
qed

definition commit_writes :: "log \<Rightarrow> (uint \<Rightarrow> cptr) \<Rightarrow> (uint \<times> cptr) list" where
  "commit_writes l V =
     (let S = of_int (l_start l); ts = [0..<nat (lh_n l)]; W1 = log_writes l V ts;
          H1 = hdr_encode (lh_n l) (lh_block l) (V S)
      in W1 @ [(S, H1)] @ home_writes l (wr W1 V) ts @ [(S, hdr_encode 0 (lh_block l) H1)])"

lemma commit_eq:
  assumes rel: "cache_rel p d c s" and l: "the_log s = l" "d = of_int (l_dev l)" "0 < lh_n l" and lay: "log_layout l"
    and c: "ch c = {}" "card {x. cr c x \<noteq> 0} < NBUF" "cr c (of_int (l_start l)) = 0"
      "\<And>i. i < nat (lh_n l) \<Longrightarrow> cr c (log_block l i) = 0 \<and> cr c (home_block l i) \<noteq> 0 \<and> cr c (home_block l i) < 2 ^ 32 - 1"
  shows "\<exists>t. commit s = ret () t \<and> dhist t = dhist s @ commit_writes l (cv c) \<and> the_log t = l\<lparr>lh_n := 0\<rparr> \<and>
     cache_rel p d (unpinned False (home_block l ` {0..<nat (lh_n l)}) (c_wr (commit_writes l (cv c)) c)) t"
proof -
  define S where "S = (of_int (l_start l) :: uint)"
  define ts where "ts = [0..<nat (lh_n l)]"
  define W1 H1 where "W1 = log_writes l (cv c) ts" and "H1 = hdr_encode (lh_n l) (lh_block l) (cv c S)"
  define W2 where "W2 = home_writes l (wr W1 (cv c)) ts"
  define c1 c2 c3 where "c1 = c_wr W1 c" and "c2 = c_wr [(S, H1)] c1" and "c3 = unpinned False (home_block l ` set ts) (c_wr W2 c2)"
  have so: "slots_ok l ts" "S \<notin> home_block l ` set ts" "S \<notin> log_block l ` set ts"
    using lay unfolding log_layout_def by (simp_all add: ts_def S_def)
  have S1: "cv c1 S = cv c S" using so(3) by (simp add: c1_def W1_def wr_log_other)
  have "home_writes l (cv c2) ts = W2" unfolding W2_def home_writes_def
    using so(2,3) by (auto simp: c2_def c1_def c_wr_def)
  note W2 = this
  obtain t1 where 1: "write_log s = ret () t1" "bframe s t1" "dhist t1 = dhist s @ W1" "cache_rel p d c1 t1"
    using write_log_loop_eq [OF rel [unfolded l(2)] l(1) c(1) so(1) c(2)] c(4)
    by (auto simp: write_log_def l W1_def c1_def ts_def)
  have r1: "c_room S c1" "cr c1 S = 0" using c by (simp_all add: c1_def c_room_def S_def)
  have l1: "the_log t1 = l" using bframe_log [OF 1(2)] l by simp
  obtain t2 where 2: "write_head t1 = ret () t2" "bframe t1 t2" "dhist t2 = dhist t1 @ [(S, H1)]" "cache_rel p d c2 t2"
    using write_head_eq [OF 1(4) l1 l(2) S_def r1] unfolding S1 H1_def [symmetric] c2_def [symmetric] by blast
  have l2: "the_log t2 = l" using bframe_log [OF 2(2)] l1 by simp
  have "\<exists>t. install_trans_loop False ts t2 = ret () t \<and> bframe t2 t \<and> dhist t = dhist t2 @ home_writes l (cv c2) ts \<and>
     cache_rel p (of_int (l_dev l)) (unpinned False (home_block l ` set ts) (c_wr (home_writes l (cv c2) ts) c2)) t"
    by (rule install_trans_loop_eq) (use 2(4) l l2 c so(1) in \<open>auto simp: c2_def c1_def c_wr_def ts_def\<close>)
  then obtain t3 where 3: "install_trans False t2 = ret () t3" "bframe t2 t3" "dhist t3 = dhist t2 @ W2" "cache_rel p d c3 t3"
    unfolding W2 c3_def install_trans_def l2 ts_def [symmetric] l(2) by blast
  let ?t3 = "upd_log (\<lambda>l. l\<lparr>lh_n := 0\<rparr>) t3" and ?l3 = "l\<lparr>lh_n := 0\<rparr>"
  have 33: "cache_rel p d c3 ?t3" "the_log ?t3 = ?l3" using 3(4) bframe_log [OF 3(2)] l2 by simp_all
  have cr3: "cr c3 = (\<lambda>b. if b \<in> home_block l ` set ts then cr c b - 1 else cr c b)" "ch c3 = {}"
    using c(1) by (simp_all add: c3_def c2_def c1_def unpinned_def c_wr_def cong: if_cong)
  have "card {x. cr c3 x \<noteq> 0} \<le> card {x. cr c x \<noteq> 0}" by (rule card_mono) (auto simp: cr3)
  then have r3: "c_room S c3" "cr c3 S = 0" using c(1-3) so(2) by (simp_all add: c_room_def cr3 S_def [symmetric])
  have S3: "cv c3 S = H1" using so(2) by (simp add: c3_def unpinned_def c2_def W2_def wr_home_other c_store_def)
  define W where "W = [(S, hdr_encode 0 (lh_block l) H1)]"
  obtain t4 where 4: "write_head ?t3 = ret () t4" "bframe ?t3 t4" "dhist t4 = dhist ?t3 @ W" "cache_rel p d (c_wr W c3) t4"
    using write_head_eq [OF 33 _ _ r3] l(2) S_def unfolding S3 W_def by auto
  have l4: "the_log t4 = ?l3" using bframe_log [OF 4(2)] 33(2) by simp
  have ws: "commit_writes l (cv c) = W1 @ [(S, H1)] @ W2 @ W"
    by (simp add: commit_writes_def Let_def W1_def W2_def W_def H1_def S_def ts_def)
  have "c_wr W c3 = unpinned False (home_block l ` set ts) (c_wr (commit_writes l (cv c)) c)"
    unfolding ws c_wr_append c3_def c2_def c1_def by (simp add: unpinned_def c_wr_def cong: if_cong)
  moreover have "commit s = ret () t4" using 1(1) 2(1) 3(1) 4(1) l by (simp add: commit_def)
  ultimately show ?thesis using 1(3) 2(3) 3(3) 4(3,4) l4 unfolding ws by (intro exI [of _ t4]) (simp add: ts_def)
qed

section \<open>Crash states\<close>

text \<open>What block \<open>b\<close> of a disk \<open>D\<close> holds once the log has been recovered.\<close>

definition recovered :: "log \<Rightarrow> (uint \<Rightarrow> cptr) \<Rightarrow> uint \<Rightarrow> uchar list" where
  "recovered l D b = blk (wr (recovery_writes l D) D b)"

definition log_start :: "log \<Rightarrow> uint" where
  "log_start l = of_int (l_start l)"

lemma blk_home:
  assumes "slots_ok l ts" "i \<in> set ts"
  shows "blk (wr (home_writes l V ts) D (home_block l i)) = blk (V (log_block l i))"
    "wr (home_writes l V ts) D (log_block l i) = D (log_block l i)"
proof -
  have "wr (home_writes l V ts) D (home_block l i) = cpy (V (home_block l i)) (V (log_block l i))"
    using assms unfolding home_writes_def by (intro wr_map) (simp_all add: slots_ok_def)
  then show "blk (wr (home_writes l V ts) D (home_block l i)) = blk (V (log_block l i))" by simp
  have "log_block l i \<notin> home_block l ` set ts" using assms unfolding slots_ok_def by blast
  then show "wr (home_writes l V ts) D (log_block l i) = D (log_block l i)" by (rule wr_home_other)
qed

lemma blk_log:
  assumes "slots_ok l ts" "i \<in> set ts"
  shows "blk (wr (log_writes l V ts) D (log_block l i)) = blk (V (home_block l i))"
    "wr (log_writes l V ts) D (home_block l i) = D (home_block l i)"
proof -
  have "wr (log_writes l V ts) D (log_block l i) = cpy (V (log_block l i)) (V (home_block l i))"
    using assms unfolding log_writes_def by (intro wr_map) (simp_all add: slots_ok_def)
  then show "blk (wr (log_writes l V ts) D (log_block l i)) = blk (V (home_block l i))" by simp
  have "home_block l i \<notin> log_block l ` set ts" using assms unfolding slots_ok_def by blast
  then show "wr (log_writes l V ts) D (home_block l i) = D (home_block l i)" by (rule wr_log_other)
qed

lemma recovered_empty:
  assumes "hdr_n (D (log_start l)) \<le> 0" "b \<noteq> log_start l"
  shows "recovered l D b = blk (D b)"
  using assms by (simp add: recovered_def recovery_writes_def Let_def load_header_def home_writes_def log_start_def)

text \<open>The header on the disk lists the slots of \<open>l\<close>.\<close>

definition hdr_of :: "log \<Rightarrow> cptr \<Rightarrow> bool" where
  "hdr_of l x \<longleftrightarrow> hdr_n x = lh_n l \<and> (\<forall>i < nat (lh_n l). hdr_block x i = lh_block l i)"

lemma load_header_same:
  assumes "hdr_of l x" "l_start l' = l_start l" "i < nat (lh_n l)"
  shows "home_block (load_header x l') i = home_block l i" "log_block (load_header x l') i = log_block l i"
    "lh_n (load_header x l') = lh_n l"
  using assms by (auto simp: hdr_of_def load_header_def home_block_def log_block_def zless_nat_eq_int_zless)

lemma home_writes_cong:
  assumes "hdr_of l x" "l_start l' = l_start l"
  shows "home_writes (load_header x l') V [0..<nat (lh_n l)] = home_writes l V [0..<nat (lh_n l)]"
  unfolding home_writes_def using load_header_same [OF assms] by simp

lemma recovered_full:
  assumes "hdr_of l (D (log_start l))" "l_start l' = l_start l" "log_layout l"
  shows "i < nat (lh_n l) \<Longrightarrow> recovered l' D (home_block l i) = blk (D (log_block l i))"
    "b \<noteq> log_start l \<Longrightarrow> b \<notin> home_block l ` {0..<nat (lh_n l)} \<Longrightarrow> recovered l' D b = blk (D b)"
proof -
  let ?ts = "[0..<nat (lh_n l)]" and ?S = "log_start l"
  have so: "slots_ok l ?ts" "?S \<notin> home_block l ` set ?ts" using assms(3) by (simp_all add: log_layout_def log_start_def)
  have n: "lh_n (load_header (D ?S) l') = lh_n l" using assms(1) by (simp add: hdr_of_def load_header_def)
  have st: "of_int (l_start l') = ?S" using assms(2) by (simp add: log_start_def)
  have w: "\<exists>h. recovery_writes l' D = home_writes l D ?ts @ [(?S, h)]"
    unfolding recovery_writes_def Let_def st n home_writes_cong [OF assms(1,2)] by blast
  show "recovered l' D (home_block l i) = blk (D (log_block l i))" if "i < nat (lh_n l)"
  proof -
    have "home_block l i \<in> home_block l ` set ?ts" using that by (intro imageI) simp
    with so(2) have "home_block l i \<noteq> ?S" by metis
    with w blk_home(1) [OF so(1)] that show ?thesis by (auto simp: recovered_def)
  qed
  show "recovered l' D b = blk (D b)" if "b \<noteq> ?S" "b \<notin> home_block l ` {0..<nat (lh_n l)}"
    using w that wr_home_other [of b l ?ts D D] by (auto simp: recovered_def)
qed

definition log_area :: "log \<Rightarrow> uint set" where
  "log_area l = insert (log_start l) (log_block l ` {0..<nat (lh_n l)})"

lemma commit_crash:
  assumes lay: "log_layout l" and n: "0 < lh_n l" "lh_n l \<le> 30" and old: "hdr_n (D (log_start l)) = 0"
    and rng: "\<And>i. i < nat (lh_n l) \<Longrightarrow> - (2 ^ 31) \<le> lh_block l i \<and> lh_block l i < 2 ^ 31"
    and l': "l_start l' = l_start l"
    and clean: "\<And>b. b \<notin> home_block l ` {0..<nat (lh_n l)} \<Longrightarrow> V b = D b"
    and k: "k \<le> length (commit_writes l V)" and b: "b \<notin> log_area l"
  shows "recovered l' (wr (take k (commit_writes l V)) D) b = (if k \<le> nat (lh_n l) then blk (D b) else blk (V b))"
proof -
  define S where "S = log_start l"
  define ts where "ts = [0..<nat (lh_n l)]"
  define W1 H1 where "W1 = log_writes l V ts" and "H1 = hdr_encode (lh_n l) (lh_block l) (V S)"
  define W2 H2 where "W2 = home_writes l (wr W1 V) ts" and "H2 = hdr_encode 0 (lh_block l) H1"
  have ws: "commit_writes l V = W1 @ (S, H1) # W2 @ [(S, H2)]"
    by (simp add: commit_writes_def Let_def W1_def W2_def H1_def H2_def S_def ts_def log_start_def)
  have so: "slots_ok l ts" "S \<notin> home_block l ` set ts" "S \<notin> log_block l ` set ts"
    using lay unfolding log_layout_def by (simp_all add: ts_def S_def log_start_def)
  have len: "length W1 = nat (lh_n l)" "length W2 = nat (lh_n l)" by (simp_all add: W1_def W2_def log_writes_def home_writes_def ts_def)
  have b': "b \<noteq> S" "b \<notin> log_block l ` set ts" using b by (auto simp: log_area_def S_def ts_def)
  have S': "of_int (l_start l') = S" "log_start l' = S" using l' by (simp_all add: S_def log_start_def)
  have hd1: "hdr_of l H1" using n rng by (auto simp: hdr_of_def H1_def hdr_encode_decode)
  have hd2: "hdr_n H2 = 0" unfolding H2_def by (rule hdr_encode_decode) simp_all
  show ?thesis
  proof (cases "k \<le> nat (lh_n l)")
    case True
    then have "take k (commit_writes l V) = log_writes l V (take k ts)"
      unfolding ws W1_def using len by (simp add: log_writes_def take_map ts_def)
    moreover have "wr (log_writes l V (take k ts)) D x = D x" if "x \<notin> log_block l ` set ts" for x
      using that by (intro wr_log_other) (auto dest: in_set_takeD)
    ultimately show ?thesis using recovered_empty [of _ l' b] b' so(3) old True by (simp add: S' S_def)
  next
    case False
    define D1 where "D1 = (wr W1 D)(S := H1)"
    obtain j where j: "k = nat (lh_n l) + Suc j" "j \<le> Suc (nat (lh_n l))"
      using False k len unfolding ws by (intro that [of "k - Suc (nat (lh_n l))"]) auto
    have tk: "wr (take k (commit_writes l V)) D = wr (take j (W2 @ [(S, H2)])) D1"
      unfolding ws D1_def using len j by simp
    have D1: "D1 S = H1" "x \<notin> log_block l ` set ts \<Longrightarrow> x \<noteq> S \<Longrightarrow> D1 x = D x" for x
      by (simp_all add: D1_def W1_def wr_log_other)
    have D1L: "blk (D1 (log_block l i)) = blk (V (home_block l i))" if "i \<in> set ts" for i
    proof -
      have "log_block l i \<noteq> S" using so(3) that by blast
      then show ?thesis using blk_log(1) [OF so(1) that, of V D] by (simp add: D1_def W1_def)
    qed
    have goal: "recovered l' (wr (take j (W2 @ [(S, H2)])) D1) b = blk (V b)"
    proof (cases "j \<le> nat (lh_n l)")
      case True
      define D2 where "D2 = wr (home_writes l (wr W1 V) (take j ts)) D1"
      have e: "wr (take j (W2 @ [(S, H2)])) D1 = D2"
        using True len by (simp add: D2_def W2_def home_writes_def take_map ts_def)
      have o: "D2 x = D1 x" if "x \<notin> home_block l ` set ts" for x
        unfolding D2_def using that by (intro wr_home_other) (auto dest: in_set_takeD)
      have hdr: "hdr_of l (D2 (log_start l))" using hd1 o [OF so(2)] D1(1) by (simp add: S_def)
      note full = recovered_full [where D = D2, OF hdr l' lay]
      show ?thesis
      proof (cases "b \<in> home_block l ` set ts")
        case True
        then obtain i where i: "i \<in> set ts" "b = home_block l i" by blast
        then have "log_block l i \<notin> home_block l ` set ts" using so(1) unfolding slots_ok_def by blast
        with full(1) [of i] i D1L [OF i(1)] o show ?thesis unfolding e by (simp add: ts_def)
      next
        case False
        with full(2) [of b] b' o [OF False] D1(2) [of b] clean [of b] show ?thesis unfolding e by (simp add: S_def ts_def)
      qed
    next
      case False
      then have e: "wr (take j (W2 @ [(S, H2)])) D1 = (wr W2 D1)(S := H2)" using len j by simp
      have r: "recovered l' ((wr W2 D1)(S := H2)) b = blk (wr W2 D1 b)"
        using recovered_empty [of "(wr W2 D1)(S := H2)" l' b] hd2 b' S'(2) by simp
      show ?thesis
      proof (cases "b \<in> home_block l ` set ts")
        case True
        then obtain i where i: "i \<in> set ts" "b = home_block l i" by blast
        then show ?thesis unfolding e r using blk_home(1) [OF so(1) i(1), of "wr W1 V" D1] blk_log(1) [OF so(1) i(1), of V V]
          by (simp add: W2_def W1_def)
      next
        case False
        with b' D1(2) [of b] clean [of b] show ?thesis unfolding e r by (simp add: W2_def wr_home_other ts_def)
      qed
    qed
    with False show ?thesis unfolding tk by simp
  qed
qed

text \<open>The header a crash during the commit leaves on the disk: empty, or the one of the transaction.\<close>

lemma wr_mem: "wr ws D b = D b \<or> (b, wr ws D b) \<in> set ws"
proof (induction ws arbitrary: D)
  case (Cons w ws)
  obtain b' x where w: "w = (b', x)" by (cases w)
  have "wr ws (D(b' := x)) b = (D(b' := x)) b \<or> (b, wr ws (D(b' := x)) b) \<in> set ws" by (rule Cons)
  then show ?case unfolding w wr_simps by (cases "b' = b") auto
qed simp

lemma commit_hdr:
  assumes lay: "log_layout l" and n: "0 < lh_n l" "lh_n l \<le> 30" and old: "hdr_n (D (log_start l)) = 0"
    and rng: "\<And>i. i < nat (lh_n l) \<Longrightarrow> - (2 ^ 31) \<le> lh_block l i \<and> lh_block l i < 2 ^ 31"
  shows "hdr_n (wr (take k (commit_writes l V)) D (log_start l)) = 0 \<or> hdr_of l (wr (take k (commit_writes l V)) D (log_start l))"
proof -
  let ?S = "log_start l" and ?ts = "[0..<nat (lh_n l)]" and ?ws = "take k (commit_writes l V)"
  let ?H = "hdr_encode (lh_n l) (lh_block l) (V ?S)"
  have so: "?S \<notin> home_block l ` set ?ts" "?S \<notin> log_block l ` set ?ts"
    using lay by (simp_all add: log_layout_def log_start_def)
  have "x = ?H \<or> x = hdr_encode 0 (lh_block l) ?H" if "(?S, x) \<in> set ?ws" for x
    using in_set_takeD [OF that] so
    by (auto simp: commit_writes_def Let_def log_writes_def home_writes_def log_start_def)
  moreover have "hdr_of l ?H" using n rng by (auto simp: hdr_of_def hdr_encode_decode)
  moreover have "hdr_n (hdr_encode 0 (lh_block l) ?H) = 0" by (rule hdr_encode_decode) simp_all
  ultimately show ?thesis using wr_mem [of ?ws D ?S] old by metis
qed

lemma load_layout:
  assumes "hdr_n x = 0 \<or> hdr_of l x" "l_start l' = l_start l" "log_layout l"
  shows "log_layout (load_header x l')" "log_area (load_header x l') \<subseteq> log_area l"
proof -
  have "log_layout (load_header x l') \<and> log_area (load_header x l') \<subseteq> log_area l"
  proof (cases "hdr_n x = 0")
    case True
    with assms(2) show ?thesis by (simp add: log_layout_def slots_ok_def load_header_def log_area_def log_start_def)
  next
    case False
    with assms have h: "hdr_of l x" by blast
    let ?l = "load_header x l'" and ?I = "{0..<nat (lh_n l)}"
    have n: "lh_n ?l = lh_n l" "l_start ?l = l_start l" using h assms(2) by (simp_all add: hdr_of_def load_header_def)
    have i: "home_block ?l ` ?I = home_block l ` ?I" "log_block ?l ` ?I = log_block l ` ?I"
      "inj_on (home_block ?l) ?I = inj_on (home_block l) ?I" "inj_on (log_block ?l) ?I = inj_on (log_block l) ?I"
      using load_header_same [OF h assms(2)] by (auto intro!: inj_on_cong image_cong)
    with n assms(3) show ?thesis by (simp add: log_layout_def slots_ok_def log_area_def log_start_def)
  qed
  then show "log_layout (load_header x l')" "log_area (load_header x l') \<subseteq> log_area l" by simp_all
qed

text \<open>Crashes during recovery do not matter: the recovery that runs next restores the same contents.\<close>

lemma recovery_crash:
  fixes k :: nat
  assumes lay: "log_layout (load_header (D (log_start l)) l)" and b: "b \<notin> log_area (load_header (D (log_start l)) l)"
  defines "E \<equiv> wr (take k (recovery_writes l D)) D"
  shows "recovered l E b = recovered l D b" "hdr_n (E (log_start l)) = 0 \<or> E (log_start l) = D (log_start l)"
proof -
  let ?S = "log_start l"
  define l1 where "l1 = load_header (D ?S) l"
  define ts where "ts = [0..<nat (lh_n l1)]"
  define h where "h = hdr_encode 0 (lh_block l1) (D ?S)"
  have l1: "l_start l1 = l_start l" "log_start l1 = ?S" "hdr_of l1 (D ?S)"
    by (auto simp: l1_def load_header_def log_start_def hdr_of_def zless_nat_eq_int_zless)
  have ws: "recovery_writes l D = home_writes l1 D ts @ [(?S, h)]"
    by (simp add: recovery_writes_def Let_def l1_def ts_def h_def log_start_def)
  have so: "slots_ok l1 ts" "?S \<notin> home_block l1 ` set ts"
    using lay l1 unfolding l1_def [symmetric] log_layout_def ts_def by (simp_all add: log_start_def)
  have bS: "b \<noteq> ?S" "b \<notin> log_block l1 ` set ts" using b l1 unfolding l1_def [symmetric] log_area_def ts_def by auto
  have "recovered l E b = recovered l D b \<and> (hdr_n (E ?S) = 0 \<or> E ?S = D ?S)"
  proof (cases "k \<le> nat (lh_n l1)")
    case True
    then have E: "E = wr (home_writes l1 D (take k ts)) D"
      unfolding E_def ws by (simp add: home_writes_def take_map ts_def)
    have o: "E x = D x" if "x \<notin> home_block l1 ` set ts" for x
      unfolding E using that by (intro wr_home_other) (auto dest: in_set_takeD)
    have hdr: "hdr_of l1 (E (log_start l1))" using l1 o [OF so(2)] by simp
    note fE = recovered_full [where D = E, OF hdr l1(1) [symmetric] lay [folded l1_def]]
      and fD = recovered_full [where D = D, OF _ l1(1) [symmetric] lay [folded l1_def]]
    show ?thesis
    proof (cases "b \<in> home_block l1 ` set ts")
      case True
      then obtain i where i: "i \<in> set ts" "b = home_block l1 i" by blast
      then have "log_block l1 i \<notin> home_block l1 ` set ts" using so(1) unfolding slots_ok_def by blast
      with fE(1) [of i] fD(1) [of i] i o l1 o [OF so(2)] show ?thesis by (simp add: ts_def)
    next
      case False
      with fE(2) [of b] fD(2) [of b] bS o l1 o [OF so(2)] show ?thesis by (simp add: ts_def)
    qed
  next
    case False
    then have E: "E = wr (recovery_writes l D) D"
      unfolding E_def ws by (simp add: home_writes_def ts_def)
    have "E ?S = h" unfolding E ws by simp
    moreover have "hdr_n h = 0" unfolding h_def by (rule hdr_encode_decode) simp_all
    ultimately show ?thesis using recovered_empty [of E l b] bS E by (simp add: recovered_def)
  qed
  then show "recovered l E b = recovered l D b" "hdr_n (E ?S) = 0 \<or> E ?S = D ?S" by simp_all
qed

definition crash_boots :: "log \<Rightarrow> nat list \<Rightarrow> (uint \<Rightarrow> cptr) \<Rightarrow> uint \<Rightarrow> cptr" where
  "crash_boots l ks D = fold (\<lambda>k D. wr (take k (recovery_writes l D)) D) ks D"

lemma crash_boots_recovered:
  assumes "log_layout (load_header (D (log_start l)) l)" "b \<notin> log_area (load_header (D (log_start l)) l)"
  shows "recovered l (crash_boots l ks D) b = recovered l D b \<and>
    log_layout (load_header (crash_boots l ks D (log_start l)) l)"
  using assms
proof (induction ks arbitrary: D)
  case Nil
  then show ?case by (simp add: crash_boots_def)
next
  case (Cons k ks)
  define E where "E = wr (take k (recovery_writes l D)) D"
  note r = recovery_crash [where D = D and k = k, OF Cons.prems, folded E_def]
  have "log_layout (load_header (E (log_start l)) l) \<and> b \<notin> log_area (load_header (E (log_start l)) l)"
  proof (cases "E (log_start l) = D (log_start l)")
    case True
    with Cons.prems show ?thesis by simp
  next
    case False
    with r(2) have z: "hdr_n (E (log_start l)) = 0 \<or> hdr_of (load_header (D (log_start l)) l) (E (log_start l))" by blast
    have "l_start l = l_start (load_header (D (log_start l)) l)" by (simp add: load_header_def)
    from load_layout [OF z this Cons.prems(1)] Cons.prems(2) show ?thesis by blast
  qed
  with Cons.IH [of E] r(1) show ?case by (simp add: crash_boots_def E_def)
qed

end
