(* ===== verification/LogTx.thy ===== *)
theory LogTx
  imports LogSpec
begin

text \<open>
  Transactions: the invariant of the log between the operations of a transaction, the effect of a
  logged write, the reservation of \<^verbatim>\<open>begin_op\<close>, the commit by the last \<^verbatim>\<open>end_op\<close>, and crash safety.
\<close>

section \<open>The invariant\<close>

definition homes :: "log \<Rightarrow> uint set" where
  "homes l = home_block l ` {0..<nat (lh_n l)}"

text \<open>
  \<open>log_inv l c\<close>: the header on the disk is empty, every slot in use names a different block outside the log, the
  blocks of the transaction are pinned once, and nothing else is referenced or differs from the disk.
\<close>

definition log_inv :: "log \<Rightarrow> cache \<Rightarrow> bool" where
  "log_inv l c \<longleftrightarrow> 0 \<le> lh_n l \<and> lh_n l < l_size l \<and> l_size l \<le> int NBUF \<and> 0 \<le> l_start l \<and> l_start l + l_size l < 2 ^ 31 \<and>
     inj_on (lh_block l) {0..<nat (lh_n l)} \<and>
     (\<forall>i < nat (lh_n l). 0 \<le> lh_block l i \<and> lh_block l i < 2 ^ 31 \<and>
        (lh_block l i < l_start l \<or> l_start l + l_size l \<le> lh_block l i)) \<and>
     ch c = {} \<and> (\<forall>b. cr c b = (if b \<in> homes l then 1 else 0)) \<and> hdr_n (cd c (log_start l)) = 0"

lemma of_int_uint_eq: "0 \<le> x \<Longrightarrow> x < 2 ^ 32 \<Longrightarrow> 0 \<le> y \<Longrightarrow> y < 2 ^ 32 \<Longrightarrow> (of_int x :: uint) = of_int y \<longleftrightarrow> x = y"
  by (simp add: word_of_int_eq_iff take_bit_int_eq_self)

lemma log_inv_layout:
  assumes "log_inv l c"
  shows "log_layout l"
proof -
  let ?I = "{0..<nat (lh_n l)}"
  have i: "0 \<le> lh_n l" "lh_n l < l_size l" "0 \<le> l_start l" "l_start l + l_size l < 2 ^ 31" "l_size l \<le> int NBUF"
    and inj: "inj_on (lh_block l) ?I"
    and b: "\<And>i. i \<in> ?I \<Longrightarrow> 0 \<le> lh_block l i \<and> lh_block l i < 2 ^ 31 \<and>
        (lh_block l i < l_start l \<or> l_start l + l_size l \<le> lh_block l i)"
    using assms by (auto simp: log_inv_def)
  have lb: "log_block l i = of_int (l_start l + int i + 1) \<and> 0 \<le> l_start l + int i + 1 \<and> l_start l + int i + 1 < 2 ^ 31 \<and>
     int i + 1 < l_size l" if "i \<in> ?I" for i
    using that i by (auto simp: log_block_def)
  have "inj_on (log_block l) ?I"
  proof (rule inj_onI)
    fix x y assume "x \<in> ?I" "y \<in> ?I" "log_block l x = log_block l y"
    then show "x = y" using lb [of x] lb [of y] of_int_uint_eq [of "l_start l + int x + 1" "l_start l + int y + 1"] by auto
  qed
  moreover have "inj_on (home_block l) ?I"
  proof (rule inj_onI)
    fix x y assume xy: "x \<in> ?I" "y \<in> ?I" "home_block l x = home_block l y"
    then have "lh_block l x = lh_block l y" using b [of x] b [of y] of_int_uint_eq [of "lh_block l x" "lh_block l y"]
      by (auto simp: home_block_def)
    with inj xy show "x = y" by (auto dest: inj_onD)
  qed
  moreover have "log_block l x \<noteq> home_block l y" if "x \<in> ?I" "y \<in> ?I" for x y
    using lb [OF that(1)] b [OF that(2)] of_int_uint_eq [of "l_start l + int x + 1" "lh_block l y"] by (auto simp: home_block_def)
  moreover have "of_int (l_start l) \<noteq> log_block l x" "of_int (l_start l) \<noteq> home_block l x" if "x \<in> ?I" for x
    using lb [OF that] b [OF that] i of_int_uint_eq [of "l_start l" "l_start l + int x + 1"] of_int_uint_eq [of "l_start l" "lh_block l x"]
    by (auto simp: home_block_def)
  ultimately have "log_block l ` ?I \<inter> home_block l ` ?I = {}" "of_int (l_start l) \<notin> log_block l ` ?I \<union> home_block l ` ?I"
    "inj_on (log_block l) ?I" "inj_on (home_block l) ?I"
    by blast+
  then show ?thesis unfolding log_layout_def slots_ok_def set_upt by simp
qed

section \<open>Crash safety\<close>

lemma homes_card: "0 \<le> lh_n l \<Longrightarrow> card (homes l) \<le> nat (lh_n l)"
  unfolding homes_def using card_image_le [of "{0..<nat (lh_n l)}" "home_block l"] by simp

lemma log_inv_props:
  assumes "log_inv l c"
  shows "ch c = {}" "card {x. cr c x \<noteq> 0} < NBUF" "cr c (of_int (l_start l)) = 0"
    "\<And>i. i < nat (lh_n l) \<Longrightarrow> cr c (log_block l i) = 0 \<and> cr c (home_block l i) \<noteq> 0 \<and> cr c (home_block l i) < 2 ^ 32 - 1"
    "\<And>i. i < nat (lh_n l) \<Longrightarrow> - (2 ^ 31) \<le> lh_block l i \<and> lh_block l i < 2 ^ 31" "lh_n l \<le> 30"
proof -
  have so: "slots_ok l [0..<nat (lh_n l)]" "of_int (l_start l) \<notin> homes l"
    using log_inv_layout [OF assms] by (auto simp: log_layout_def homes_def)
  have cr: "cr c b = (if b \<in> homes l then 1 else 0)" for b using assms by (simp add: log_inv_def)
  then have "{x. cr c x \<noteq> 0} = homes l" by auto
  moreover have n: "0 \<le> lh_n l" "lh_n l < int NBUF" using assms by (auto simp: log_inv_def)
  ultimately show "card {x. cr c x \<noteq> 0} < NBUF" using homes_card [of l] by (simp add: nat_less_iff)
  show "ch c = {}" using assms by (simp add: log_inv_def)
  show "cr c (of_int (l_start l)) = 0" using cr so(2) by simp
  show "lh_n l \<le> 30" using n by (simp add: NBUF_def MAXOPBLOCKS_def)
  show "- (2 ^ 31) \<le> lh_block l i \<and> lh_block l i < 2 ^ 31" if "i < nat (lh_n l)" for i
    using assms that by (fastforce simp: log_inv_def)
  show "cr c (log_block l i) = 0 \<and> cr c (home_block l i) \<noteq> 0 \<and> cr c (home_block l i) < 2 ^ 32 - 1" if "i < nat (lh_n l)" for i
  proof -
    have "home_block l i \<in> homes l" using that by (auto simp: homes_def)
    moreover have "log_block l i \<notin> homes l" using so(1) that unfolding homes_def slots_ok_def by fastforce
    ultimately show ?thesis using cr by simp
  qed
qed

lemma home_not_in_log:
  assumes "log_layout l" "0 < lh_n l"
  shows "home_block l 0 \<notin> log_area l"
proof -
  have "home_block l 0 \<in> home_block l ` {0..<nat (lh_n l)}" using assms(2) by (intro imageI) simp
  moreover have "log_block l ` {0..<nat (lh_n l)} \<inter> home_block l ` {0..<nat (lh_n l)} = {}"
    "of_int (l_start l) \<notin> home_block l ` {0..<nat (lh_n l)}" using assms(1) by (simp_all add: log_layout_def slots_ok_def)
  ultimately show ?thesis unfolding log_area_def log_start_def by (metis disjoint_iff insert_iff)
qed

lemma commit_run:
  assumes rel: "cache_rel p d c s" and l: "the_log s = l" "d = of_int (l_dev l)" and inv: "log_inv l c" "0 < lh_n l"
  obtains t where "commit s = ret () t" "dhist t = dhist s @ commit_writes l (cv c)" "the_log t = l\<lparr>lh_n := 0\<rparr>"
    "cache_rel p d (unpinned False (home_block l ` {0..<nat (lh_n l)}) (c_wr (commit_writes l (cv c)) c)) t"
  using commit_eq [OF rel l inv(2) log_inv_layout [OF inv(1)] log_inv_props(1-4) [OF inv(1)]] that by blast


section \<open>Logged writes\<close>

lemma log_enter_simps [simp]:
  "bufs (loglock.enter s) = bufs s" "disk (loglock.enter s) = disk s" "dhist (loglock.enter s) = dhist s"
  "procs (loglock.enter s) = procs s" "bcache_lock (loglock.enter s) = bcache_lock s"
  "lh_n (the_log (loglock.enter s)) = lh_n (the_log s)" "lh_block (the_log (loglock.enter s)) = lh_block (the_log s)"
  "l_size (the_log (loglock.enter s)) = l_size (the_log s)" "l_outstanding (the_log (loglock.enter s)) = l_outstanding (the_log s)"
  "l_committing (the_log (loglock.enter s)) = l_committing (the_log s)"
  by (simp_all add: loglock.enter_def push_off_eq log_lku_def upd_log_def)

lemma calm_log_enter: "calm p s \<Longrightarrow> calm p (loglock.enter s)"
  by (simp add: calm_def locks_free_def p_lk_def cur_def)

lemma cache_rel_enter: "cache_rel p d c s \<Longrightarrow> cache_rel p d c (loglock.enter s)"
  by (simp add: cache_rel_def calm_log_enter kb_def [abs_def])

lemma buf_at_enter [simp]: "buf_at d (loglock.enter s) b i = buf_at d s b i"
  by (simp add: buf_at_def)

definition l_indep :: "(log \<Rightarrow> log) \<Rightarrow> bool" where
  "l_indep f \<longleftrightarrow> (\<forall>l x. f (l\<lparr>l_lock := x\<rparr>) = (f l)\<lparr>l_lock := x\<rparr> \<and> l_lock (f l) = l_lock l)"

lemma upd_log_enter: "l_indep f \<Longrightarrow> upd_log f (loglock.enter s) = loglock.enter (upd_log f s)"
  by (simp add: loglock.enter_def push_off_eq log_lku_def upd_log_def l_indep_def)

lemma upd_buf_log_enter: "upd_buf i h (loglock.enter s) = loglock.enter (upd_buf i h s)"
  by (simp add: loglock.enter_def push_off_eq log_lku_def upd_log_def upd_buf_def)

lemma log_release:
  assumes "calm p s" "free_lock (l_lock (the_log s))"
  shows "release log_lk log_lku (loglock.enter s) = ret () s"
  using assms by (intro loglock.release_enter) (simp_all add: calm_def log_lk_def)

lemma log_acquire:
  assumes "free_lock (l_lock (the_log s))"
  shows "acquire log_lk log_lku s = ret () (loglock.enter s)"
  using assms by (intro loglock.acquire_free) (simp add: free_lock_def log_lk_def)

lemma log_slot_cong:
  assumes "lh_n l = lh_n l'" "lh_block l = lh_block l'"
  shows "log_slot l b = log_slot l' b"
  unfolding log_slot_def assms by (rule refl)

lemma log_slot_props:
  assumes "0 \<le> lh_n l"
  shows "b \<in> homes l \<Longrightarrow> log_slot l b < nat (lh_n l) \<and> home_block l (log_slot l b) = b"
    "b \<notin> homes l \<Longrightarrow> log_slot l b = nat (lh_n l)"
proof -
  let ?P = "\<lambda>i. home_block l i = b" and ?ts = "[0..<nat (lh_n l)]"
  have e: "log_slot l b = (case List.find ?P ?ts of Some i \<Rightarrow> i | None \<Rightarrow> nat (lh_n l))"
    by (simp add: log_slot_def home_block_def)
  show "log_slot l b = nat (lh_n l)" if "b \<notin> homes l"
  proof -
    have "List.find ?P ?ts = None" using that by (auto simp: find_None_iff homes_def)
    then show ?thesis by (simp add: e)
  qed
  show "log_slot l b < nat (lh_n l) \<and> home_block l (log_slot l b) = b" if "b \<in> homes l"
  proof -
    from that have "List.find ?P ?ts \<noteq> None" by (auto simp: find_None_iff homes_def)
    then obtain i where i: "List.find ?P ?ts = Some i" by blast
    then have "i < nat (lh_n l) \<and> home_block l i = b" by (auto simp: find_Some_iff)
    with i show ?thesis by (simp add: e)
  qed
qed

text \<open>The log once block \<open>b\<close> is part of the transaction.\<close>

definition log_add :: "uint \<Rightarrow> log \<Rightarrow> log" where
  "log_add b l = l\<lparr>lh_block := (lh_block l)(log_slot l b := sint b), lh_n := (if b \<in> homes l then lh_n l else lh_n l + 1)\<rparr>"

lemma log_write_eq:
  assumes rel: "cache_rel p d c s" and l: "the_log s = l" "free_lock (l_lock l)" and at: "buf_at d s b i"
    and n: "0 \<le> lh_n l" "lh_n l < int LOGSIZE" "lh_n l < l_size l - 1" "1 \<le> l_outstanding l" and r: "cr c b < 2 ^ 32 - 1"
  shows "\<exists>t. log_write i s = ret () t \<and> dhist t = dhist s \<and> the_log t = log_add b l \<and>
    cache_rel p d (if b \<in> homes l then c else c_pin b c) t \<and> (\<forall>b' j. buf_at d s b' j \<longrightarrow> buf_at d t b' j) \<and>
    t = s\<lparr>bufs := bufs t, the_log := the_log t\<rparr>"
proof -
  let ?j = "log_slot l b"
  let ?f = "\<lambda>l. l\<lparr>lh_block := (lh_block l)(?j := sint b)\<rparr>"
  let ?s = "upd_log ?f s" and ?g = "\<lambda>l. l\<lparr>lh_n := lh_n l + 1\<rparr>"
  have bno: "b_blockno (bufs s i) = b" using at by (simp add: buf_at_def)
  have sl: "log_slot (the_log (loglock.enter s)) b = ?j" using l by (intro log_slot_cong) simp_all
  have fe: "upd_log ?f (loglock.enter s) = loglock.enter ?s" by (rule upd_log_enter) (simp add: l_indep_def)
  have acq: "acquire log_lk log_lku s = ret () (loglock.enter s)" using l by (intro log_acquire) simp
  have run: "log_write i s = bnd (if int ?j = lh_n l
      then bnd (bpin i (loglock.enter ?s)) (\<lambda>_ s. ret () (upd_log ?g s)) else ret () (loglock.enter ?s))
      (\<lambda>_ s. release log_lk log_lku s)"
    using n l by (simp add: log_write_def acq Let_def bno sl fe)
  have calm: "calm p ?s" using rel by (simp add: cache_rel_def)
  have lk: "free_lock (l_lock (the_log ?s))" using l by simp
  show ?thesis
  proof (cases "b \<in> homes l")
    case True
    then have "int ?j \<noteq> lh_n l" using log_slot_props(1) [OF n(1)] n(1) by fastforce
    then have "log_write i s = ret () ?s" using run log_release [OF calm lk] by simp
    moreover have "the_log ?s = log_add b l" using l True by (simp add: log_add_def)
    moreover have "?s = s\<lparr>bufs := bufs ?s, the_log := the_log ?s\<rparr>" by (rule lstate.equality) (simp_all add: upd_log_def)
    moreover have "dhist ?s = dhist s" "cache_rel p d c ?s" "\<forall>b' j. buf_at d s b' j \<longrightarrow> buf_at d ?s b' j" using rel by simp_all
    ultimately show ?thesis unfolding if_P [OF True] by blast
  next
    case False
    then have j: "int ?j = lh_n l" using log_slot_props(2) [OF n(1)] n(1) by simp
    have rel': "cache_rel p d c (loglock.enter ?s)" "buf_at d (loglock.enter ?s) b i"
      using rel at by (simp_all add: cache_rel_enter)
    define t where "t = upd_log ?g (upd_buf i (\<lambda>x. x\<lparr>b_refcnt := b_refcnt x + 1\<rparr>) ?s)"
    note pin = bpin_eq [OF rel' r]
    have ge: "upd_log ?g (loglock.enter u) = loglock.enter (upd_log ?g u)" for u :: "'a lstate_scheme"
      by (rule upd_log_enter) (simp add: l_indep_def)
    have "bnd (bpin i (loglock.enter ?s)) (\<lambda>_ s. ret () (upd_log ?g s)) = ret () (loglock.enter t)"
      unfolding pin(1) upd_buf_log_enter t_def by (simp add: ge)
    moreover have "release log_lk log_lku (loglock.enter t) = ret () t"
      using calm l by (intro log_release [of p]) (simp_all add: t_def upd_log_def upd_buf_def calm_def quiet_def mycpu_def
          cpuid_def cur_def locks_free_def p_lk_def)
    ultimately have "log_write i s = ret () t" using run j by simp
    moreover have "the_log t = log_add b l" using l False by (simp add: t_def log_add_def upd_buf_def)
    moreover have "cache_rel p d (c_pin b c) t" using bpin_eq(2) [of p d c ?s b i] rel at r by (simp add: t_def)
    moreover have "dhist t = dhist s" by (simp add: t_def)
    moreover have "buf_at d t b' k" if "buf_at d s b' k" for b' k
      using bpin_eq(3) [of p d c ?s b i b' k] rel at r that by (simp add: t_def)
    moreover have "t = s\<lparr>bufs := bufs t, the_log := the_log t\<rparr>"
      by (rule lstate.equality) (simp_all add: t_def upd_log_def upd_buf_def)
    ultimately show ?thesis using False by auto
  qed
qed

lemma sint_small: "uint b < 2 ^ 31 \<Longrightarrow> sint (b :: uint) = uint b"
  using sint_of_int [of "uint b"] by (simp add: order_trans [OF _ uint_ge_0])

lemma log_add_inv:
  assumes inv: "log_inv l c" and n: "lh_n l < l_size l - 1"
    and b: "uint b < 2 ^ 31" "uint b < l_start l \<or> l_start l + l_size l \<le> uint b"
  shows "log_inv (log_add b l) (c\<lparr>cv := V, cr := (cr c)(b := 1)\<rparr>)" "homes (log_add b l) = insert b (homes l)"
    "b \<in> homes l \<Longrightarrow> log_add b l = l"
proof -
  let ?n = "nat (lh_n l)"
  have i: "0 \<le> lh_n l" "inj_on (lh_block l) {0..<?n}"
    "\<And>i. i < ?n \<Longrightarrow> 0 \<le> lh_block l i \<and> lh_block l i < 2 ^ 31 \<and> (lh_block l i < l_start l \<or> l_start l + l_size l \<le> lh_block l i)"
    "\<And>b. cr c b = (if b \<in> homes l then 1 else 0)"
    using inv by (simp_all add: log_inv_def)
  note sb = sint_small [OF b(1)]
  have lb: "lh_block l i = uint b" if "i < ?n" "home_block l i = b" for i
    using i(3) [OF that(1)] that(2) by (auto simp: home_block_def uint_word_of_int_eq take_bit_int_eq_self)
  show same: "log_add b l = l" if "b \<in> homes l"
  proof -
    have "lh_block l (log_slot l b) = uint b" using log_slot_props(1) [OF i(1) that] lb by blast
    then have "(lh_block l)(log_slot l b := uint b) = lh_block l" by (rule fun_upd_idem)
    with that show ?thesis by (simp add: log_add_def sb)
  qed
  have "log_inv (log_add b l) (c\<lparr>cv := V, cr := (cr c)(b := 1)\<rparr>) \<and> homes (log_add b l) = insert b (homes l)"
  proof (cases "b \<in> homes l")
    case True
    with inv show ?thesis by (auto simp: same log_inv_def)
  next
    case False
    then have slot: "log_slot l b = ?n" by (rule log_slot_props(2) [OF i(1)])
    have la: "log_add b l = l\<lparr>lh_block := (lh_block l)(?n := uint b), lh_n := lh_n l + 1\<rparr>"
      using False by (simp add: log_add_def slot sb)
    have nn: "nat (lh_n l + 1) = Suc ?n" "{0..<Suc ?n} = insert ?n {0..<?n}" using i(1) by auto
    have hb: "home_block (log_add b l) ` {0..<?n} = homes l" "home_block (log_add b l) ?n = b"
      by (auto simp: la home_block_def homes_def)
    have h: "homes (log_add b l) = insert b (homes l)"
      using hb unfolding homes_def [of "log_add b l"] by (simp add: la nn)
    have "uint b \<notin> lh_block l ` {0..<?n}"
    proof
      assume "uint b \<in> lh_block l ` {0..<?n}"
      then obtain j where "j < ?n" "lh_block l j = uint b" by auto
      then have "b \<in> homes l" by (auto simp: homes_def home_block_def intro!: image_eqI [of _ _ j])
      with False show False ..
    qed
    then have "inj_on ((lh_block l)(?n := uint b)) {0..<Suc ?n}" 
      using i(2) unfolding nn(2) inj_on_insert by (simp add: fun_upd_image inj_on_fun_updI)
    with h inv i n b la show ?thesis by (auto simp: log_inv_def nn less_Suc_eq log_start_def)
  qed
  then show "log_inv (log_add b l) (c\<lparr>cv := V, cr := (cr c)(b := 1)\<rparr>)" "homes (log_add b l) = insert b (homes l)" by simp_all
qed

lemma logged_write:
  assumes rel: "cache_rel p d c s" and l: "the_log s = l" "d = of_int (l_dev l)" "free_lock (l_lock l)"
    and inv: "log_inv l c" "1 \<le> l_outstanding l" "lh_n l < l_size l - 1"
    and b: "uint b < 2 ^ 31" "uint b < l_start l \<or> l_start l + l_size l \<le> uint b"
  shows "\<exists>t c'. bnd (bread d b s) (\<lambda>i s. bnd (log_write i (upd_buf i (\<lambda>x. x\<lparr>b_data := f (b_data x)\<rparr>) s)) (\<lambda>_ s. brelse i s)) = ret () t \<and>
    dhist t = dhist s \<and> the_log t = log_add b l \<and> cache_rel p d c' t \<and> log_inv (the_log t) c' \<and>
    cv c' = (cv c)(b := f (cv c b)) \<and> cd c' = cd c \<and> homes (the_log t) = insert b (homes l)"
proof -
  note add = log_add_inv [OF inv(1,3) b]
  have cr: "cr c b = (if b \<in> homes l then 1 else 0)" "b \<notin> ch c" "0 \<le> lh_n l" "lh_n l < int LOGSIZE"
    using inv by (auto simp: log_inv_def NBUF_def LOGSIZE_def)
  have room: "c_room b c" using cr log_inv_props(2) [OF inv(1)] by (simp add: c_room_def)
  define c1 c2 where "c1 = c_get b c" and "c2 = c_set b (f (cv c1 b)) c1"
  define c3 where "c3 = (if b \<in> homes l then c2 else c_pin b c2)"
  note cs = c1_def c2_def c3_def c_defs
  have m: "b \<in> ch c1" "cr c2 b < 2 ^ 32 - 1" "b \<in> ch c3" "1 < cr c3 b" using cr by (simp_all add: cs)
  obtain i t1 where 1: "bread d b s = ret i t1" "bframe s t1" "dhist t1 = dhist s" "cache_rel p d c1 t1" "buf_at d t1 b i"
    "\<And>b' j. buf_at d s b' j \<Longrightarrow> buf_at d t1 b' j" by (rule bread_run [OF rel room, folded c1_def]) (rule that)
  let ?t2 = "upd_buf i (\<lambda>x. x\<lparr>b_data := f (b_data x)\<rparr>) t1"
  have 2: "cache_rel p d c2 ?t2" "bframe t1 ?t2" "buf_at d ?t2 b i" "dhist ?t2 = dhist t1"
    unfolding c2_def using set_run [OF 1(4,5) m(1), where f = f] 1(5) by simp_all
  have l2: "the_log ?t2 = l" using bframe_log [OF bframe_trans [OF 1(2) 2(2)]] l(1) by simp
  obtain t3 where 3: "log_write i ?t2 = ret () t3" "dhist t3 = dhist ?t2" "the_log t3 = log_add b l"
    "cache_rel p d c3 t3" "buf_at d t3 b i"
    using log_write_eq [OF 2(1) l2 l(3) 2(3) cr(3,4) inv(3,2) m(2)] 2(3) unfolding c3_def by blast
  obtain t4 where 4: "brelse i t3 = ret () t4" "bframe t3 t4" "dhist t4 = dhist t3" "cache_rel p d (c_put b c3) t4"
    by (rule brelse_run [OF 3(4,5) m(3) disjI1 [OF m(4)]]) (rule that)
  have l4: "the_log t4 = log_add b l" using bframe_log [OF 4(2)] 3(3) by simp
  have "c_put b c3 = c\<lparr>cv := (cv c)(b := f (cv c b)), cr := (cr c)(b := 1)\<rparr>"
    by (rule cache.equality) (use cr in \<open>auto simp: cs fun_eq_iff\<close>)
  with 4 add l4 1 2(4) 3 show ?thesis
    by (intro exI [of _ t4] exI [of _ "c_put b c3"]) simp
qed

text \<open>
  C16. A logged write. Inside a transaction with room in the log, reading a block, changing it, recording it with \<^verbatim>\<open>log_write\<close>
  and releasing it returns; the change is visible in the cache and not on the disk, the block is part of the
  transaction (once, however often it is written), and the invariant of the log holds again.
\<close>

theorem log_write_correct:
  assumes rel: "cache_rel p d c s" and l: "the_log s = l" "d = of_int (l_dev l)" "free_lock (l_lock l)"
    and inv: "log_inv l c" "1 \<le> l_outstanding l" "lh_n l < l_size l - 1"
    and b: "uint b < 2 ^ 31" "uint b < l_start l \<or> l_start l + l_size l \<le> uint b"
  shows "\<exists>t c'. bnd (bread d b s) (\<lambda>i s. bnd (log_write i (upd_buf i (\<lambda>x. x\<lparr>b_data := f (b_data x)\<rparr>) s)) (\<lambda>_ s. brelse i s)) = ret () t \<and>
    dhist t = dhist s \<and> the_log t = log_add b l \<and> cache_rel p d c' t \<and> log_inv (the_log t) c' \<and>
    cv c' = (cv c)(b := f (cv c b)) \<and> cd c' = cd c \<and> homes (the_log t) = insert b (homes l)"
  by (rule logged_write [OF assms])

section \<open>Admission\<close>


text \<open>
  C20. The reservation counts \<^verbatim>\<open>LOGSIZE\<close> = 30 blocks, but a log of \<^verbatim>\<open>nlog\<close> = 30 blocks, which \<^verbatim>\<open>mkfs\<close> makes, has room for 29
  beside its header. \<^verbatim>\<open>begin_op\<close> admits a third operation to an empty log, and when the three use their
  reservations up, the thirtieth block makes \<^verbatim>\<open>log_write\<close> panic.
\<close>

theorem log_overcommitted:
  assumes "calm p s" "the_log s = l" "free_lock (l_lock l)" "\<not> l_committing l" "lh_n l = 0" "l_outstanding l = 2" "l_size l = 30"
  shows "\<exists>t. begin_op (s :: 'a lstate_scheme) = ret () t \<and> the_log t = l\<lparr>l_outstanding := 3\<rparr> \<and>
    (\<forall>(u :: 'a lstate_scheme) i B. the_log u = (the_log t)\<lparr>lh_n := 29, lh_block := B\<rparr> \<longrightarrow>
       log_write i u = panic ''too big a transaction'' (loglock.enter u))"
proof -
  let ?f = "\<lambda>l. l\<lparr>l_outstanding := l_outstanding l + 1\<rparr>"
  have acq: "acquire log_lk log_lku s = ret () (loglock.enter s)" using assms by (intro log_acquire) simp
  have rel: "release log_lk log_lku (loglock.enter (upd_log ?f s)) = ret () (upd_log ?f s)"
    using assms by (intro log_release [of p]) simp_all
  have fe: "upd_log ?f (loglock.enter s) = loglock.enter (upd_log ?f s)" by (rule upd_log_enter) (simp add: l_indep_def)
  have "begin_op s = ret () (upd_log ?f s)"
    using assms rel by (simp add: begin_op_def acq begin_op_loop_def fe MAXOPBLOCKS_def LOGSIZE_def)
  moreover have "log_write i u = panic ''too big a transaction'' (loglock.enter u)"
    if "the_log u = (the_log (upd_log ?f s))\<lparr>lh_n := 29, lh_block := B\<rparr>" for u :: "'a lstate_scheme" and i B
    using assms that log_acquire [of u] by (simp add: log_write_def)
  moreover have "the_log (upd_log ?f s) = l\<lparr>l_outstanding := 3\<rparr>" using assms by simp
  ultimately show ?thesis by blast
qed

section \<open>The last operation commits\<close>

lemma wake_log_enter: "wake k p (loglock.enter s) = loglock.enter (wake k p s)"
  by (rule lstate.equality) (simp_all add: wake_def wake_all_def loglock.enter_def log_lku_def upd_log_def push_off_eq cong: if_cong)

lemma upd_log_wake: "the_log (wake k p s) = the_log s" "dhist (wake k p s) = dhist s"
  by (simp_all add: wake_def wake_all_def)

lemma commit_inv:
  assumes rel: "cache_rel p d c s" and l: "the_log s = l" "d = of_int (l_dev l)" and inv: "log_inv l c"
  shows "\<exists>t c'. commit s = ret () t \<and> the_log t = l\<lparr>lh_n := 0\<rparr> \<and> cache_rel p d c' t \<and> log_inv (l\<lparr>lh_n := 0\<rparr>) c' \<and>
    (\<forall>b. b \<notin> log_area l \<longrightarrow> blk (disk t b) = blk (cv c b))"
proof (cases "0 < lh_n l")
  case False
  with inv have n: "lh_n l = 0" by (simp add: log_inv_def)
  then have e: "l\<lparr>lh_n := 0\<rparr> = l" by (metis log.surjective log.update_convs(7))
  have "cv c b = disk s b" for b
    using rel inv n by (simp add: cache_rel_def cores_def log_inv_def homes_def)
  moreover have "commit s = ret () s" using l n by (simp add: commit_def)
  ultimately show ?thesis unfolding e using rel l inv by metis
next
  case True
  define V ws where "V = cv c" and "ws = commit_writes l (cv c)"
  let ?I = "{0..<nat (lh_n l)}" and ?S = "log_start l"
  define c' where "c' = unpinned False (home_block l ` ?I) (c_wr ws c)"
  obtain t where t: "commit s = ret () t" "the_log t = l\<lparr>lh_n := 0\<rparr>" "cache_rel p d c' t"
    unfolding c'_def ws_def by (rule commit_run [OF rel l inv True])
  note lay = log_inv_layout [OF inv] and ip = log_inv_props [OF inv]
  have cd: "cd c = disk s" "disk t = wr ws (disk s)"
    using rel t(3) by (simp_all add: cache_rel_def c'_def unpinned_def)
  have old: "hdr_n (disk s ?S) = 0" using inv cd by (simp add: log_inv_def)
  have clean: "cv c b = disk s b" if "b \<notin> home_block l ` ?I" for b
    using rel inv that cd by (simp add: cache_rel_def cores_def log_inv_def homes_def)
  have "wr ws D ?S = hdr_encode 0 (lh_block l) (hdr_encode (lh_n l) (lh_block l) (V ?S))" for D
    by (simp add: ws_def commit_writes_def Let_def log_start_def V_def)
  then have h0: "hdr_n (wr ws D ?S) = 0" for D using hdr_encode_decode(1) [of 0] by simp
  have "log_inv (l\<lparr>lh_n := 0\<rparr>) c'"
    using inv h0 by (simp add: log_inv_def c'_def unpinned_def homes_def log_start_def [abs_def])
  moreover have "blk (disk t b) = blk (cv c b)" if b: "b \<notin> log_area l" for b
  proof -
    have "recovered l (wr (take (length ws) ws) (disk s)) b = blk (cv c b)"
      using commit_crash [where D = "disk s" and k = "length ws", OF lay True ip(6) old ip(5) refl clean _ b]
      by (simp add: ws_def commit_writes_def Let_def log_writes_def)
    moreover have "b \<noteq> ?S" using b by (auto simp: log_area_def)
    ultimately show ?thesis using recovered_empty [of "wr ws (disk s)" l b] h0 cd by simp
  qed
  ultimately show ?thesis using t by blast
qed

lemma log_inv_flags [simp]:
  "log_inv (l\<lparr>l_outstanding := x\<rparr>) c = log_inv l c" "log_inv (l\<lparr>l_committing := y\<rparr>) c = log_inv l c"
  by (simp_all add: log_inv_def homes_def home_block_def log_start_def)

lemma log_area_flags [simp]:
  "log_area (l\<lparr>l_outstanding := x\<rparr>) = log_area l" "log_area (l\<lparr>l_committing := y\<rparr>) = log_area l"
  by (simp_all add: log_area_def log_start_def log_block_def [abs_def])

text \<open>
  C15. Durability: the \<^verbatim>\<open>end_op\<close> of the last operation in progress commits. It returns, every block outside the log then
  is on the disk with the contents it had in the cache, the log is empty and open for new operations, and its
  invariant holds.
\<close>

theorem end_op_durable:
  assumes rel: "cache_rel p d c s" and l: "the_log s = l" "d = of_int (l_dev l)" "free_lock (l_lock l)"
    and inv: "log_inv l c" "l_outstanding l = 1" "\<not> l_committing l"
  shows "\<exists>t c'. end_op s = ret () t \<and> the_log t = l\<lparr>l_outstanding := 0, lh_n := 0\<rparr> \<and> cache_rel p d c' t \<and>
    log_inv (the_log t) c' \<and> (\<forall>b. b \<notin> log_area l \<longrightarrow> blk (disk t b) = blk (cv c b))"
proof -
  let ?f = "\<lambda>l. l\<lparr>l_outstanding := l_outstanding l - 1\<rparr>" and ?g = "\<lambda>y l. l\<lparr>l_committing := y\<rparr>"
  have fe: "upd_log ?f (loglock.enter u) = loglock.enter (upd_log ?f u)"
    and ge: "upd_log (?g y) (loglock.enter u) = loglock.enter (upd_log (?g y) u)" for u :: "'a lstate_scheme" and y
    by (rule upd_log_enter; simp add: l_indep_def)+
  have calm: "calm p s" using rel by (simp add: cache_rel_def)
  define s2 where "s2 = upd_log (?g True) (upd_log ?f s)"
  define l2 where "l2 = l\<lparr>l_outstanding := 0, l_committing := True\<rparr>"
  have l2: "the_log s2 = l2" using l inv by (simp add: s2_def l2_def)
  have acq: "acquire log_lk log_lku s = ret () (loglock.enter s)" using l by (intro log_acquire) simp
  have rls: "release log_lk log_lku (loglock.enter s2) = ret () s2"
    using calm l by (intro log_release [of p]) (simp_all add: s2_def)
  have rel2: "cache_rel p d c s2" "d = of_int (l_dev l2)" "log_inv l2 c"
    using rel l inv by (simp_all add: s2_def l2_def)
  obtain t c' where t: "commit s2 = ret () t" "the_log t = l2\<lparr>lh_n := 0\<rparr>" "cache_rel p d c' t" "log_inv (l2\<lparr>lh_n := 0\<rparr>) c'"
    "\<And>b. b \<notin> log_area l2 \<Longrightarrow> blk (disk t b) = blk (cv c b)"
    using commit_inv [OF rel2(1) l2 rel2(2,3)] by blast
  define u where "u = wake Ch_log p (upd_log (?g False) t)"
  have tc: "calm p t" "free_lock (l_lock (the_log t))" using t(2,3) l by (simp_all add: cache_rel_def l2_def)
  have acq2: "acquire log_lk log_lku t = ret () (loglock.enter t)" using tc by (intro log_acquire)
  have wk: "wakeup Ch_log (loglock.enter (upd_log (?g False) t)) = ret () (loglock.enter u)"
    using tc by (subst wakeup_calm [of p]) (simp_all add: calm_log_enter u_def wake_log_enter)
  have rls2: "release log_lk log_lku (loglock.enter u) = ret () u"
    using tc by (intro log_release [of p]) (simp_all add: u_def upd_log_wake)
  have "end_op s = ret () u"
    using inv l by (simp add: end_op_def acq fe Let_def ge s2_def [symmetric] rls t(1) acq2 wk rls2)
  moreover have lu: "the_log u = l\<lparr>l_outstanding := 0, lh_n := 0\<rparr>"
    using t(2) inv(3) by (simp add: u_def upd_log_wake l2_def) 
  moreover have "cache_rel p d c' u" using t(3) by (simp add: u_def)
  moreover have "log_inv (the_log u) c'"
  proof -
    have "the_log u = (l2\<lparr>lh_n := 0\<rparr>)\<lparr>l_committing := False\<rparr>" using t(2) by (simp add: u_def upd_log_wake)
    with t(4) show ?thesis by simp
  qed
  moreover have "blk (disk u b) = blk (cv c b)" if "b \<notin> log_area l" for b
    using t(5) [of b] that by (simp add: u_def l2_def)
  ultimately show ?thesis by blast
qed

section \<open>A concrete transaction\<close>

definition vd0 :: vdisk where
  "vd0 = \<lparr>vdisk_lock = new_lock ''virtio_disk'', vd_desc = (\<lambda>_. \<lparr>d_addr = A_null, d_len = 0, d_flags = 0, d_next = 0\<rparr>),
     avail_idx = 0, avail_ring = (\<lambda>_. 0), used_dev_idx = 0, used_ring = (\<lambda>_. \<lparr>u_id = 0, u_len = 0\<rparr>), vd_free = (\<lambda>_. True),
     used_idx = 0, vd_info = (\<lambda>_. \<lparr>in_b = None, in_status = 0\<rparr>),
     vd_ops = (\<lambda>_. \<lparr>rq_type = 0, rq_reserved = 0, rq_sector = 0\<rparr>), vd_regs = (\<lambda>_. 0)\<rparr>"

definition log0 :: log where
  "log0 = \<lparr>l_lock = new_lock ''log'', l_start = 2, l_size = 30, l_outstanding = 1, l_committing = False, l_dev = 1,
     lh_n = 0, lh_block = (\<lambda>_. 0)\<rparr>"

text \<open>A machine just booted, with the disk \<open>D\<close>.\<close>

definition booted :: "(uint \<Rightarrow> cptr) \<Rightarrow> lstate" where
  "booted D = binit (pipestate.extend demo_pipes \<lparr>bcache_lock = new_lock ''bcache'', bufs = (\<lambda>_. buf0), disk = D, dhist = [],
     vd = vd0, the_log = log0\<rparr>)"

lemma booted_log [simp]: "the_log (booted D) = log0"
  unfolding booted_def by (subst binit_frame) (simp add: pipestate.defs)

lemma booted_disk [simp]: "disk (booted D) = D"
  unfolding booted_def by (subst binit_frame) (simp add: pipestate.defs)

lemma booted_cache: "cache_rel 1 1 (c_boot D) (booted D)"
proof -
  define s where "s = pipestate.extend demo_pipes \<lparr>bcache_lock = new_lock ''bcache'', bufs = (\<lambda>_. buf0), disk = D, dhist = [],
     vd = vd0, the_log = log0\<rparr>"
  have "calm 1 s" using demo_pipes_calm(1) unfolding s_def by (simp only: calm_extend_pipes)
  moreover have "bufs s = (\<lambda>_. buf0)" "disk s = D" by (simp_all add: s_def pipestate.defs)
  ultimately have "cache_rel 1 1 (c_boot D) (binit s)" using binit_rel [of 1 s 1] by (simp add: buf0_def)
  then show ?thesis unfolding booted_def s_def .
qed

lemma hdr_zero: "hdr_n (\<lambda>_. 0) = 0"
  by (simp add: hdr_n_def get32_def get_bytes_def map_replicate_const)

lemma booted_inv: "D 2 = (\<lambda>_. 0) \<Longrightarrow> log_inv log0 (c_boot D)"
  by (simp add: log_inv_def log0_def c_boot_def homes_def log_start_def hdr_zero NBUF_def MAXOPBLOCKS_def)

abbreviation zeros :: "uint \<Rightarrow> cptr" where "zeros \<equiv> \<lambda>_ _. 0"

theorem log_write_correct_witness:
  "\<exists>t c'. bnd (bread 1 40 (booted zeros)) (\<lambda>i s. bnd (log_write i (upd_buf i (\<lambda>x. x\<lparr>b_data := (\<lambda>_. 7)\<rparr>) s)) (\<lambda>_ s. brelse i s)) = ret () t \<and>
    cache_rel 1 1 c' t \<and> cv c' 40 = (\<lambda>_. 7) \<and> disk t 40 = (\<lambda>_. 0) \<and> homes (the_log t) = {40}"
proof -
  have d: "1 = of_int (l_dev log0)" "free_lock (l_lock log0)" "1 \<le> l_outstanding log0" "lh_n log0 < l_size log0 - 1"
    "uint (40 :: uint) < 2 ^ 31" "uint (40 :: uint) < l_start log0 \<or> l_start log0 + l_size log0 \<le> uint (40 :: uint)"
    by (simp_all add: log0_def)
  have inv: "log_inv log0 (c_boot zeros)" by (rule booted_inv) simp
  obtain t c' where t: "bnd (bread 1 40 (booted zeros)) (\<lambda>i s. bnd (log_write i (upd_buf i (\<lambda>x. x\<lparr>b_data := (\<lambda>_. 7)\<rparr>) s)) (\<lambda>_ s. brelse i s)) = ret () t"
    "cache_rel 1 1 c' t" "cv c' = (cv (c_boot zeros))(40 := \<lambda>_. 7)" "cd c' = cd (c_boot zeros)" "homes (the_log t) = insert 40 (homes log0)"
    using log_write_correct [OF booted_cache booted_log d(1,2) inv d(3-6), of "\<lambda>_ _. 7"] by blast
  moreover have "disk t = cd c'" using t(2) by (simp add: cache_rel_def)
  ultimately show ?thesis by (intro exI [of _ t] exI [of _ c']) (simp add: c_boot_def homes_def log0_def)
qed

text \<open>The state with one block in the log, and the states after it.\<close>

lemma demo_tx:
  obtains t :: lstate and c where "cache_rel 1 1 c t" "log_inv (the_log t) c" "lh_n (the_log t) = 1" "cv c 40 = (\<lambda>_. 7)"
    "disk t = zeros" "the_log t = log_add 40 log0" "40 \<notin> log_area (the_log t)"
proof -
  obtain t :: lstate and c where t: "the_log t = log_add 40 log0" "cache_rel 1 1 c t" "log_inv (the_log t) c" "cv c 40 = (\<lambda>_. 7)"
    "cd c = zeros"
    using logged_write [OF booted_cache booted_log _ _ booted_inv, where b = 40 and f = "\<lambda>_ _. 7", of zeros]
    by (auto simp: log0_def c_boot_def)
  moreover have "lh_n (log_add 40 log0) = 1" by (simp add: log_add_def log0_def homes_def)
  moreover have "disk t = zeros" using t(2,5) by (simp add: cache_rel_def)
  moreover have "40 \<notin> log_area (log_add 40 log0)"
    by (simp add: log_area_def log_add_def log0_def homes_def log_start_def log_block_def)
  ultimately show ?thesis using that by simp
qed



theorem log_overcommitted_witness:
  "\<exists>t. begin_op (upd_log (\<lambda>l. l\<lparr>l_outstanding := 2\<rparr>) (booted zeros)) = ret () t"
proof -
  have "calm 1 (upd_log (\<lambda>l. l\<lparr>l_outstanding := 2\<rparr>) (booted zeros))" using booted_cache [of zeros] by (simp add: cache_rel_def)
  then show ?thesis
    using log_overcommitted [of 1 "upd_log (\<lambda>l. l\<lparr>l_outstanding := 2\<rparr>) (booted zeros)" "log0\<lparr>l_outstanding := 2\<rparr>"]
    by (auto simp: log0_def)
qed

theorem end_op_durable_witness: "\<exists>(s :: lstate) t. end_op s = ret () t \<and> disk s 40 = (\<lambda>_. 0) \<and> blk (disk t 40) = blk (\<lambda>_. 7)"
proof -
  obtain s :: lstate and c where s: "cache_rel 1 1 c s" "log_inv (the_log s) c" "lh_n (the_log s) = 1" "cv c 40 = (\<lambda>_. 7)"
    "disk s = zeros" "the_log s = log_add 40 log0" "40 \<notin> log_area (the_log s)" by (rule demo_tx)
  have l: "1 = of_int (l_dev (the_log s))" "free_lock (l_lock (the_log s))" "l_outstanding (the_log s) = 1" "\<not> l_committing (the_log s)"
    by (simp_all add: s(6) log_add_def log0_def)
  obtain t where "end_op s = ret () t" "\<forall>b. b \<notin> log_area (the_log s) \<longrightarrow> blk (disk t b) = blk (cv c b)"
    using end_op_durable [OF s(1) refl l(1,2) s(2) l(3,4)] by blast
  with s(4,5,7) show ?thesis by (intro exI [of _ s] exI [of _ t]) simp
qed

end
