(* ===== verification/FsTx.thy ===== *)
theory FsTx
  imports LogTx Fs
begin

text \<open>
  The file system's view of the disk inside a transaction. \<open>tx p d V H s\<close>: process \<open>p\<close> is in an operation of the
  log of device \<open>d\<close>, the current contents of the blocks are \<open>V\<close>, and \<open>p\<close> holds the buffers of the blocks \<open>H\<close>. The
  cache's references, the pinned blocks and the log header are hidden; the rules for \<^verbatim>\<open>bread\<close>, \<^verbatim>\<open>log_write\<close> and
  \<^verbatim>\<open>brelse\<close> change \<open>V\<close> and \<open>H\<close> only.
\<close>

section \<open>The view\<close>

text \<open>The cache when nothing but the log refers to its blocks.\<close>

definition idle :: "log \<Rightarrow> cache \<Rightarrow> cache" where
  "idle l c = c\<lparr>cr := (\<lambda>b. if b \<in> homes l then 1 else 0), ch := {}\<rparr>"

definition tx_cache :: "log \<Rightarrow> cache \<Rightarrow> bool" where
  "tx_cache l c \<longleftrightarrow> log_inv l (idle l c) \<and> finite (ch c) \<and>
     (\<forall>b. cr c b = (if b \<in> homes l then 1 else 0) + (if b \<in> ch c then 1 else 0)) \<and> (\<forall>b. b \<notin> homes l \<longrightarrow> cv c b = cd c b)"

definition tx :: "nat \<Rightarrow> uint \<Rightarrow> (uint \<Rightarrow> cptr) \<Rightarrow> uint set \<Rightarrow> 'a lstate_scheme \<Rightarrow> bool" where
  "tx p d V H s \<longleftrightarrow> (\<exists>c. cache_rel p d c s \<and> tx_cache (the_log s) c \<and> cv c = V \<and> ch c = H) \<and>
     d = of_int (l_dev (the_log s)) \<and> free_lock (l_lock (the_log s)) \<and> 1 \<le> l_outstanding (the_log s)"

text \<open>How many more blocks the log takes, and how many buffers are left.\<close>

definition log_room :: "'a lstate_scheme \<Rightarrow> int" where
  "log_room s = l_size (the_log s) - 1 - lh_n (the_log s)"

definition home_ok :: "log \<Rightarrow> uint \<Rightarrow> bool" where
  "home_ok l b \<longleftrightarrow> uint b < 2 ^ 31 \<and> (uint b < l_start l \<or> l_start l + l_size l \<le> uint b)"

text \<open>What the block operations leave alone; nothing is written to the disk.\<close>

definition lview :: "'a lstate_scheme \<Rightarrow> 'a lstate_scheme" where
  "lview s = s\<lparr>procs := (\<lambda>i. undefined\<lparr>p_pid := p_pid (procs s i)\<rparr>), bufs := (\<lambda>_. undefined), disk := (\<lambda>_ _. 0),
     the_log := (the_log s)\<lparr>lh_n := 0, lh_block := (\<lambda>_. 0)\<rparr>\<rparr>"

definition lframe :: "'a lstate_scheme \<Rightarrow> 'a lstate_scheme \<Rightarrow> bool" where
  "lframe s t \<longleftrightarrow> lview t = lview s"

lemma lframe_refl [simp]: "lframe s s"
  by (simp add: lframe_def)

lemma lframe_trans [trans]: "lframe s t \<Longrightarrow> lframe t u \<Longrightarrow> lframe s u"
  by (simp add: lframe_def)

lemma lframe_bframe:
  assumes "bframe s t" "dhist t = dhist s"
  shows "lframe s t"
proof -
  have t: "t = s\<lparr>procs := procs t, bufs := bufs t, disk := disk t, dhist := dhist t\<rparr>" "\<forall>i. p_pid (procs t i) = p_pid (procs s i)"
    using assms(1) by (simp_all add: bframe_def)
  show ?thesis unfolding lframe_def
    by (subst t(1)) (simp add: lview_def t(2) assms(2))
qed

lemma lframe_log:
  assumes "t = s\<lparr>bufs := bufs t, the_log := the_log t\<rparr>"
    "(the_log t)\<lparr>lh_n := 0, lh_block := (\<lambda>_. 0)\<rparr> = (the_log s)\<lparr>lh_n := 0, lh_block := (\<lambda>_. 0)\<rparr>"
  shows "lframe s t"
  unfolding lframe_def by (subst assms(1)) (simp add: lview_def assms(2))

lemma lframe_fs:
  assumes "lframe s t"
  shows "sb t = sb s" "itable t = itable s" "itable_lock t = itable_lock s" "dhist t = dhist s" "mem t = mem s"
    "l_size (the_log t) = l_size (the_log s)" "l_start (the_log t) = l_start (the_log s)"
  using assms [unfolded lframe_def, THEN arg_cong, of sb] assms [unfolded lframe_def, THEN arg_cong, of itable]
    assms [unfolded lframe_def, THEN arg_cong, of itable_lock] assms [unfolded lframe_def, THEN arg_cong, of dhist]
    assms [unfolded lframe_def, THEN arg_cong, of mem] assms [unfolded lframe_def, THEN arg_cong, of "\<lambda>s. l_size (the_log s)"]
    assms [unfolded lframe_def, THEN arg_cong, of "\<lambda>s. l_start (the_log s)"]
  by (simp_all add: lview_def)

section \<open>Rules\<close>

lemma tx_room:
  assumes t: "tx_cache l c" and b: "b \<notin> ch c" and room: "int (card (ch c)) \<le> l_size l - 1 - lh_n l"
  shows "c_room b c"
proof -
  have i: "0 \<le> lh_n l" "l_size l \<le> int NBUF" "finite (ch c)" using t by (auto simp: tx_cache_def log_inv_def)
  have cr: "\<And>b. cr c b = (if b \<in> homes l then 1 else 0) + (if b \<in> ch c then 1 else 0)" using t by (simp add: tx_cache_def)
  have "{x. cr c x \<noteq> 0} = homes l \<union> ch c" by (auto simp: cr)
  then have "int (card {x. cr c x \<noteq> 0}) \<le> int (card (homes l)) + int (card (ch c))" using card_Un_le [of "homes l" "ch c"] by simp
  also have "\<dots> \<le> lh_n l + int (card (ch c))" using homes_card [OF i(1)] i(1) by (simp add: le_nat_iff)
  finally have "card {x. cr c x \<noteq> 0} < NBUF" using room i(2) by linarith
  then show ?thesis using b by (auto simp: c_room_def cr)
qed

lemma tx_bread:
  assumes t: "tx p d V H s" and b: "b \<notin> H" and room: "int (card H) \<le> log_room s"
  obtains i t where "bread d b s = ret i t" "tx p d V (insert b H) t" "buf_at d t b i" "b_data (bufs t i) = V b"
    "lframe s t" "the_log t = the_log s" "\<And>b' j. buf_at d s b' j \<Longrightarrow> buf_at d t b' j"
proof -
  obtain c where c: "cache_rel p d c s" "tx_cache (the_log s) c" "cv c = V" "ch c = H" using t by (auto simp: tx_def)
  have "c_room b c" using tx_room [OF c(2)] b room c(4) by (simp add: log_room_def)
  then obtain i u where u: "bread d b s = ret i u" "bframe s u" "dhist u = dhist s" "cache_rel p d (c_get b c) u" "buf_at d u b i"
    "\<And>b' j. buf_at d s b' j \<Longrightarrow> buf_at d u b' j" by (rule bread_run [OF c(1)]) (rule that)
  have l: "the_log u = the_log s" by (rule bframe_log [OF u(2)])
  have "tx_cache (the_log u) (c_get b c)" using c(2,4) b by (auto simp: l tx_cache_def c_get_def idle_def)
  moreover have "cv (c_get b c) = V" "ch (c_get b c) = insert b H" by (simp_all add: c_get_def c)
  ultimately have "tx p d V (insert b H) u" using t u(4) unfolding tx_def l by blast
  moreover have "b_data (bufs u i) = V b" using buf_atD(10) [OF u(4,5)] by (simp add: c_get_def c(3))
  ultimately show ?thesis using that u lframe_bframe [OF u(2,3)] l by blast
qed

lemma tx_brelse:
  assumes t: "tx p d V H s" and at: "buf_at d s b i" and b: "b \<in> H"
  obtains t where "brelse i s = ret () t" "tx p d V (H - {b}) t" "lframe s t" "the_log t = the_log s"
    "\<And>b' j. buf_at d s b' j \<Longrightarrow> b' \<noteq> b \<Longrightarrow> buf_at d t b' j"
proof -
  obtain c where c: "cache_rel p d c s" "tx_cache (the_log s) c" "cv c = V" "ch c = H" using t by (auto simp: tx_def)
  have r: "b \<in> ch c" "1 < cr c b \<or> cv c b = cd c b" using c b by (auto simp: tx_cache_def)
  obtain u where u: "brelse i s = ret () u" "bframe s u" "dhist u = dhist s" "cache_rel p d (c_put b c) u"
    "\<And>b' j. buf_at d s b' j \<Longrightarrow> b' \<noteq> b \<or> 1 < cr c b \<Longrightarrow> buf_at d u b' j"
    by (rule brelse_run [OF c(1) at r]) (rule that)
  have l: "the_log u = the_log s" by (rule bframe_log [OF u(2)])
  have "tx_cache (the_log u) (c_put b c)" using c(2,4) b by (auto simp: l tx_cache_def c_put_def idle_def)
  moreover have "cv (c_put b c) = V" "ch (c_put b c) = H - {b}" by (simp_all add: c_put_def c)
  ultimately have "tx p d V (H - {b}) u" using t u(4) unfolding tx_def l by blast
  then show ?thesis using that u lframe_bframe [OF u(2,3)] l by blast
qed

lemma log_add_consts [simp]:
  "l_size (log_add b l) = l_size l" "l_dev (log_add b l) = l_dev l" "l_lock (log_add b l) = l_lock l"
  "l_outstanding (log_add b l) = l_outstanding l" "l_start (log_add b l) = l_start l"
  "(log_add b l)\<lparr>lh_n := 0, lh_block := g\<rparr> = l\<lparr>lh_n := 0, lh_block := g\<rparr>"
  by (simp_all add: log_add_def)

lemma tx_write:
  assumes t: "tx p d V H s" and at: "buf_at d s b i" and b: "b \<in> H" "home_ok (the_log s) b" and room: "0 < log_room s"
  obtains t where "log_write i (upd_buf i (\<lambda>x. x\<lparr>b_data := f (b_data x)\<rparr>) s) = ret () t" "tx p d (V(b := f (V b))) H t"
    "lframe s t" "log_room s - 1 \<le> log_room t" "\<And>b' j. buf_at d s b' j \<Longrightarrow> buf_at d t b' j"
proof -
  let ?l = "the_log s" and ?s = "upd_buf i (\<lambda>x. x\<lparr>b_data := f (b_data x)\<rparr>) s"
  obtain c where c: "cache_rel p d c s" "tx_cache ?l c" "cv c = V" "ch c = H" using t by (auto simp: tx_def)
  have inv: "log_inv ?l (idle ?l c)" and cr: "\<And>b. cr c b = (if b \<in> homes ?l then 1 else 0) + (if b \<in> ch c then 1 else 0)"
    using c(2) by (auto simp: tx_cache_def)
  have n: "0 \<le> lh_n ?l" "lh_n ?l < l_size ?l - 1" "lh_n ?l < int LOGSIZE" "1 \<le> l_outstanding ?l"
    using inv room t by (auto simp: log_inv_def log_room_def tx_def NBUF_def LOGSIZE_def)
  have b': "b \<in> ch c" using b c by simp
  define c2 where "c2 = c_set b (f (cv c b)) c"
  have 2: "cache_rel p d c2 ?s" "bframe s ?s" "\<And>b' j. buf_at d s b' j \<Longrightarrow> buf_at d ?s b' j"
    unfolding c2_def using set_run [OF c(1) at b', where f = f] by auto
  have l2: "the_log ?s = ?l" by (rule bframe_log [OF 2(2)])
  have r2: "cr c2 b < 2 ^ 32 - 1" by (simp add: c2_def c_set_def cr)
  have fl: "free_lock (l_lock ?l)" using t by (simp add: tx_def)
  obtain u where u: "log_write i ?s = ret () u" "dhist u = dhist ?s" "the_log u = log_add b ?l"
    "cache_rel p d (if b \<in> homes ?l then c2 else c_pin b c2) u" "\<forall>b' j. buf_at d ?s b' j \<longrightarrow> buf_at d u b' j"
    "u = ?s\<lparr>bufs := bufs u, the_log := the_log u\<rparr>"
    using log_write_eq [OF 2(1) l2 fl 2(3) [OF at] n(1,3,2,4) r2] by blast
  define c3 where "c3 = (if b \<in> homes ?l then c2 else c_pin b c2)"
  note bo = b(2) [unfolded home_ok_def, THEN conjunct1] b(2) [unfolded home_ok_def, THEN conjunct2]
  have h: "homes (the_log u) = insert b (homes ?l)" using log_add_inv(2) [OF inv n(2) bo] u(3) by simp
  have "idle (the_log u) c3 = (idle ?l c)\<lparr>cv := cv c3, cr := (cr (idle ?l c))(b := 1)\<rparr>"
    by (rule cache.equality) (auto simp: c3_def c2_def c_defs idle_def h fun_eq_iff)
  then have inv3: "log_inv (the_log u) (idle (the_log u) c3)" using log_add_inv(1) [OF inv n(2) bo, of "cv c3"] u(3) by simp
  have "tx_cache (the_log u) c3" unfolding tx_cache_def
    using inv3 c(2) b' by (auto simp: h c3_def c2_def c_defs tx_cache_def)
  moreover have "cv c3 = V(b := f (V b))" "ch c3 = H" using c(3,4) by (simp_all add: c3_def c2_def c_defs)
  moreover have "cache_rel p d c3 u" using u(4) by (simp add: c3_def)
  ultimately have "tx p d (V(b := f (V b))) H u" using t unfolding tx_def by (auto simp: u(3))
  moreover have "lframe s u"
  proof (rule lframe_trans)
    show "lframe s ?s" by (rule lframe_bframe [OF 2(2)]) simp
    show "lframe ?s u" by (rule lframe_log [OF u(6)]) (simp add: u(3) l2)
  qed
  moreover have "log_room s - 1 \<le> log_room u" by (simp add: log_room_def u(3) log_add_def)
  moreover have "buf_at d u b' j" if "buf_at d s b' j" for b' j using 2(3) [OF that] u(5) by blast
  ultimately show ?thesis using that u(1) by blast
qed

section \<open>A state to start from\<close>

text \<open>The machine of \<^const>\<open>booted\<close> with the super block \<open>q\<close> and an empty inode table.\<close>

definition inode0 :: inode where
  "inode0 = \<lparr>i_dev = 0, i_inum = 0, i_ref = 0, i_lock = \<lparr>sl_locked = False, sl_lk = new_lock ''sleep lock'', sl_name = ''inode'', sl_pid = 0\<rparr>,
     i_valid = False, i_type = 0, i_major = 0, i_minor = 0, i_nlink = 0, i_size = 0, i_addrs = (\<lambda>_. 0)\<rparr>"

definition booted_fs :: "(uint \<Rightarrow> cptr) \<Rightarrow> superblock \<Rightarrow> fstate" where
  "booted_fs D q = lstate.extend (booted D) \<lparr>sb = q, itable_lock = new_lock ''itable'', itable = (\<lambda>_. inode0)\<rparr>"

lemma cache_rel_extend [simp]: "cache_rel p d c (lstate.extend s x) = cache_rel p d c s"
  by (simp add: lstate.defs cache_rel_def calm_def quiet_def mycpu_def cpuid_def cur_def locks_free_def p_lk_def kb_def [abs_def])

lemma booted_fs_simps [simp]: "the_log (booted_fs D q) = log0" "sb (booted_fs D q) = q" "itable (booted_fs D q) = (\<lambda>_. inode0)"
  "log_room (booted_fs D q) = 29"
  using booted_log [of D] by (simp_all add: booted_fs_def lstate.defs log_room_def log0_def)

lemma booted_fs_tx: "D 2 = (\<lambda>_. 0) \<Longrightarrow> tx 1 1 D {} (booted_fs D q)"
proof -
  assume D: "D 2 = (\<lambda>_. 0)"
  have "cache_rel 1 1 (c_boot D) (booted_fs D q)" using booted_cache [of D] by (simp add: booted_fs_def)
  moreover have "tx_cache log0 (c_boot D)"
    using booted_inv [where D = D, OF D] by (simp add: tx_cache_def idle_def c_boot_def homes_def log0_def)
  ultimately show ?thesis unfolding tx_def by (auto simp: log0_def c_boot_def)
qed

end
