(* ===== verification/FsAlloc.thy ===== *)
theory FsAlloc
  imports FsTx
begin

text \<open>
  The block allocator of \<^verbatim>\<open>kernel/fs.c\<close> inside a transaction: \<^verbatim>\<open>balloc\<close> takes the first block whose bit is clear, marks
  and zeroes it; \<^verbatim>\<open>bfree\<close> gives a block back. The free blocks are those whose bit in the bitmap is clear.
\<close>

section \<open>The bitmap\<close>

definition free_bit :: "superblock \<Rightarrow> (uint \<Rightarrow> cptr) \<Rightarrow> nat \<Rightarrow> bool" where
  "free_bit q V b \<longleftrightarrow> bit_free (V (BBLOCK (of_nat b) q)) (b mod BPB)"

definition first_free :: "superblock \<Rightarrow> (uint \<Rightarrow> cptr) \<Rightarrow> nat option" where
  "first_free q V = List.find (free_bit q V) [0..<unat (sb_size q)]"

text \<open>
  The bitmap lies outside the log and its blocks are not held; neither are the free blocks, which are not
  bitmap blocks themselves.
\<close>

definition bitmap_ok :: "log \<Rightarrow> superblock \<Rightarrow> (uint \<Rightarrow> cptr) \<Rightarrow> uint set \<Rightarrow> bool" where
  "bitmap_ok l q V H \<longleftrightarrow> (\<forall>b < unat (sb_size q). home_ok l (BBLOCK (of_nat b) q) \<and> BBLOCK (of_nat b) q \<notin> H \<and>
     (free_bit q V b \<longrightarrow> home_ok l (of_nat b) \<and> of_nat b \<notin> H \<and> (\<forall>x < unat (sb_size q). BBLOCK (of_nat x) q \<noteq> of_nat b)))"

lemma BPB_eq: "BPB = 8192"
  by (simp add: BPB_def BSIZE_def)

lemma BBLOCK_eq: "b < 2 ^ 32 \<Longrightarrow> BBLOCK (of_nat b) q = of_nat (b div BPB) + sb_bmapstart q"
  by (simp add: BBLOCK_def BPB_eq word_arith_nat_div unat_of_nat take_bit_nat_eq_self)

lemma BBLOCK_inj:
  assumes "a < unat (sb_size q)" "b < unat (sb_size q)" "BBLOCK (of_nat a) q = BBLOCK (of_nat b) q"
  shows "a div BPB = b div BPB"
proof -
  have s: "unat (sb_size q) < 2 ^ 32" using unsigned_less [of "sb_size q", where ?'a = nat] by simp
  have "(of_nat (a div BPB) :: uint) = of_nat (b div BPB)" using assms s by (simp add: BBLOCK_eq)
  moreover have "a div BPB < 2 ^ 32" "b div BPB < 2 ^ 32" using assms(1,2) s div_le_dividend by (meson le_less_trans less_trans)+
  ultimately show ?thesis by (simp add: of_nat_eq_iff word_of_nat_eq_iff take_bit_nat_eq_self)
qed

lemma bit_free_bit: "bit_free d bi \<longleftrightarrow> \<not> bit (d (bi div 8)) (bi mod 8)"
proof -
  have "d (bi div 8) AND bit_mask bi = (if bit (d (bi div 8)) (bi mod 8) then bit_mask bi else 0)"
    by (rule bit_word_eqI) (auto simp: bit_mask_def bit_simps)
  moreover have "bit_mask bi \<noteq> 0" unfolding bit_mask_def bit_eq_iff by (auto simp: bit_simps intro!: exI [of _ "bi mod 8"])
  ultimately show ?thesis by (simp add: bit_free_def)
qed

lemma bit_free_set: "bit_free (bit_set a d) b \<longleftrightarrow> bit_free d b \<and> a \<noteq> b"
  by (cases "a div 8 = b div 8")
    (auto simp: bit_free_bit bit_set_def bit_mask_def bit_simps, metis mult_div_mod_eq)

lemma bit_free_clear: "bit_free (bit_clear a d) b \<longleftrightarrow> bit_free d b \<or> a = b"
  by (cases "a div 8 = b div 8")
    (auto simp: bit_free_bit bit_clear_def bit_mask_def bit_simps, metis mult_div_mod_eq)

lemma bit_clear_set: "bit_free d a \<Longrightarrow> bit_clear a (bit_set a d) = d"
  by (rule ext, rule bit_word_eqI) (auto simp: bit_free_bit bit_clear_def bit_set_def bit_mask_def bit_simps)

lemma free_bit_upd:
  assumes "b < unat (sb_size q)" "x < unat (sb_size q)"
  shows "free_bit q (V(BBLOCK (of_nat b) q := bit_set (b mod BPB) (V (BBLOCK (of_nat b) q)))) x \<longleftrightarrow> free_bit q V x \<and> x \<noteq> b"
    "free_bit q (V(BBLOCK (of_nat b) q := bit_clear (b mod BPB) (V (BBLOCK (of_nat b) q)))) x \<longleftrightarrow> free_bit q V x \<or> x = b"
proof -
  have "x = b \<longleftrightarrow> BBLOCK (of_nat x) q = BBLOCK (of_nat b) q \<and> b mod BPB = x mod BPB"
    using BBLOCK_inj [OF assms(2,1)] by (metis mult_div_mod_eq)
  then show "free_bit q (V(BBLOCK (of_nat b) q := bit_set (b mod BPB) (V (BBLOCK (of_nat b) q)))) x \<longleftrightarrow> free_bit q V x \<and> x \<noteq> b"
    "free_bit q (V(BBLOCK (of_nat b) q := bit_clear (b mod BPB) (V (BBLOCK (of_nat b) q)))) x \<longleftrightarrow> free_bit q V x \<or> x = b"
    by (auto simp: free_bit_def bit_free_set bit_free_clear)
qed

section \<open>The operations\<close>

definition zero_block :: "cptr \<Rightarrow> cptr" where
  "zero_block x = put_bytes x 0 (replicate BSIZE 0)"

lemma bzero_run:
  assumes "tx p d V H s" "b \<notin> H" "home_ok (the_log s) b" "int (card H) \<le> log_room s" "0 < log_room s"
  obtains t where "bzero d b s = ret () t" "tx p d (V(b := zero_block (V b))) H t" "lframe s t" "log_room s - 1 \<le> log_room t"
    "\<And>b' j. buf_at d s b' j \<Longrightarrow> b' \<noteq> b \<Longrightarrow> buf_at d t b' j"
proof -
  obtain i t1 where 1: "bread d b s = ret i t1" "tx p d V (insert b H) t1" "buf_at d t1 b i" "b_data (bufs t1 i) = V b"
    "lframe s t1" "the_log t1 = the_log s" "\<And>b' j. buf_at d s b' j \<Longrightarrow> buf_at d t1 b' j"
    by (rule tx_bread [OF assms(1,2,4)]) (rule that)
  have "home_ok (the_log t1) b" "0 < log_room t1" using assms(3,5) 1(6) by (simp_all add: log_room_def)
  then obtain t2 where 2: "log_write i (upd_buf i (\<lambda>x. x\<lparr>b_data := zero_block (b_data x)\<rparr>) t1) = ret () t2"
    "tx p d (V(b := zero_block (V b))) (insert b H) t2" "lframe t1 t2" "log_room t1 - 1 \<le> log_room t2"
    "\<And>b' j. buf_at d t1 b' j \<Longrightarrow> buf_at d t2 b' j"
    by (rule tx_write [OF 1(2,3) insertI1, where f = zero_block]) (rule that)
  obtain t3 where 3: "brelse i t2 = ret () t3" "tx p d (V(b := zero_block (V b))) (insert b H - {b}) t3" "lframe t2 t3" "the_log t3 = the_log t2"
    "\<And>b' j. buf_at d t2 b' j \<Longrightarrow> b' \<noteq> b \<Longrightarrow> buf_at d t3 b' j"
    by (rule tx_brelse [OF 2(2) 2(5) [OF 1(3)] insertI1]) (rule that)
  have "bzero d b s = ret () t3" using 1(1) 2(1) 3(1) by (simp add: bzero_def zero_block_def)
  moreover have "insert b H - {b} = H" using assms(2) by simp
  moreover have "log_room s - 1 \<le> log_room t3" using 2(4) 1(6) 3(4) by (simp add: log_room_def)
  ultimately show ?thesis using that 3(2,5) 1(7) 2(5) lframe_trans [OF 1(5) lframe_trans [OF 2(3) 3(3)]] by simp
qed

lemma find_append: "List.find P (xs @ ys) = (case List.find P xs of None \<Rightarrow> List.find P ys | Some x \<Rightarrow> Some x)"
  by (induction xs) auto

lemma find_SomeD: "List.find P xs = Some x \<Longrightarrow> x \<in> set xs \<and> P x"
  by (induction xs) (auto split: if_splits)

lemma find_shift: "List.find (\<lambda>i. P (m + i)) [0..<n] = map_option (\<lambda>b. b - m) (List.find P [m..<m + n])"
  by (induction n) (auto simp: find_append split: option.splits)

text \<open>One bitmap block: the search in it is the search among the blocks that it describes.\<close>

lemma balloc_segment:
  assumes "k * BPB < unat (sb_size q)"
  shows "List.find (bit_free (V (BBLOCK (of_nat (k * BPB)) q))) [0..<min BPB (unat (sb_size q) - k * BPB)] =
    map_option (\<lambda>b. b - k * BPB) (List.find (free_bit q V) [k * BPB..<min (Suc k * BPB) (unat (sb_size q))])"
proof -
  let ?n = "min BPB (unat (sb_size q) - k * BPB)"
  have s: "unat (sb_size q) < 2 ^ 32" using unsigned_less [of "sb_size q", where ?'a = nat] by simp
  have "free_bit q V (k * BPB + i) = bit_free (V (BBLOCK (of_nat (k * BPB)) q)) i" if "i \<in> set [0..<?n]" for i
  proof -
    have i: "i < BPB" "k * BPB + i < 2 ^ 32" "k * BPB < 2 ^ 32" using that s by auto
    then show ?thesis unfolding free_bit_def BBLOCK_eq [OF i(2)] BBLOCK_eq [OF i(3)] by (simp add: BPB_eq)
  qed
  then have "List.find (bit_free (V (BBLOCK (of_nat (k * BPB)) q))) [0..<?n] = List.find (\<lambda>i. free_bit q V (k * BPB + i)) [0..<?n]"
    by (intro find_cong) auto
  moreover have "k * BPB + ?n = min (Suc k * BPB) (unat (sb_size q))" using assms by (simp add: min_def) arith
  ultimately show ?thesis by (simp only: find_shift)
qed

definition allocated :: "superblock \<Rightarrow> nat \<Rightarrow> (uint \<Rightarrow> cptr) \<Rightarrow> uint \<Rightarrow> cptr" where
  "allocated q b V =
     (let V = V(BBLOCK (of_nat b) q := bit_set (b mod BPB) (V (BBLOCK (of_nat b) q))) in V(of_nat b := zero_block (V (of_nat b))))"

definition balloc_post :: "nat \<Rightarrow> uint \<Rightarrow> (uint \<Rightarrow> cptr) \<Rightarrow> uint set \<Rightarrow> 'a fstate_scheme \<Rightarrow> nat option \<Rightarrow> ('a fstate_scheme, uint) out \<Rightarrow> bool" where
  "balloc_post p d V H s r out \<longleftrightarrow>
     (case r of
        None \<Rightarrow> \<exists>t. out = panic ''balloc: out of blocks'' t
      | Some b \<Rightarrow> \<exists>t. out = ret (of_nat b) t \<and> tx p d (allocated (sb s) b V) H t \<and> lframe s t \<and> log_room s - 2 \<le> log_room t
          \<and> (\<forall>b' j. buf_at d s b' j \<longrightarrow> b' \<in> H \<longrightarrow> buf_at d t b' j))"

lemma balloc_hit:
  fixes s t0 :: "'a fstate_scheme"
  assumes t: "tx p d V (insert bm H) t0" "buf_at d t0 bm i" "lframe s t0" "the_log t0 = the_log s"
    "\<And>b' j. buf_at d s b' j \<Longrightarrow> buf_at d t0 b' j"
    and bm: "bm = BBLOCK (of_nat b) (sb s)" "bm \<notin> H" "home_ok (the_log s) bm"
    and b: "home_ok (the_log s) (of_nat b)" "of_nat b \<notin> H"
    and room: "2 \<le> log_room s" "int (card H) < log_room s"
  shows "balloc_post p d V H s (Some b)
    (bnd (log_write i (upd_buf i (\<lambda>x. x\<lparr>b_data := bit_set (b mod BPB) (b_data x)\<rparr>) t0)) (\<lambda>_ s.
     bnd (brelse i s) (\<lambda>_ s. bnd (bzero d (of_nat b) s) (\<lambda>_ s. ret (of_nat b) s))))"
proof -
  let ?V = "V(bm := bit_set (b mod BPB) (V bm))"
  have r0: "home_ok (the_log t0) bm" "0 < log_room t0" using bm room t(4) by (simp_all add: log_room_def)
  obtain t1 where 1: "log_write i (upd_buf i (\<lambda>x. x\<lparr>b_data := bit_set (b mod BPB) (b_data x)\<rparr>) t0) = ret () t1"
    "tx p d ?V (insert bm H) t1" "lframe t0 t1" "log_room t0 - 1 \<le> log_room t1" "\<And>b' j. buf_at d t0 b' j \<Longrightarrow> buf_at d t1 b' j"
    by (rule tx_write [OF t(1,2) insertI1 r0, where f = "bit_set (b mod BPB)"]) (rule that)
  obtain t2 where 2: "brelse i t1 = ret () t2" "tx p d ?V (insert bm H - {bm}) t2" "lframe t1 t2" "the_log t2 = the_log t1"
    "\<And>b' j. buf_at d t1 b' j \<Longrightarrow> b' \<noteq> bm \<Longrightarrow> buf_at d t2 b' j"
    by (rule tx_brelse [OF 1(2) 1(5) [OF t(2)] insertI1]) (rule that)
  have f2: "lframe s t2" by (rule lframe_trans [OF t(3) lframe_trans [OF 1(3) 2(3)]])
  have tx2: "tx p d ?V H t2" using 2(2) bm(2) by simp
  have r2: "log_room s - 1 \<le> log_room t2" using 1(4) t(4) 2(4) by (simp add: log_room_def)
  have h2: "home_ok (the_log t2) (of_nat b)" using b(1) lframe_fs(6,7) [OF f2] by (simp add: home_ok_def)
  have "int (card H) \<le> log_room t2" "0 < log_room t2" using room r2 by linarith+
  then obtain t3 where 3: "bzero d (of_nat b) t2 = ret () t3" "tx p d (?V(of_nat b := zero_block (?V (of_nat b)))) H t3" "lframe t2 t3"
    "log_room t2 - 1 \<le> log_room t3" "\<And>b' j. buf_at d t2 b' j \<Longrightarrow> b' \<noteq> of_nat b \<Longrightarrow> buf_at d t3 b' j"
    by (rule bzero_run [OF tx2 b(2) h2]) (rule that)
  have "allocated (sb s) b V = ?V(of_nat b := zero_block (?V (of_nat b)))" by (simp add: allocated_def bm(1))
  moreover have "buf_at d t3 b' j" if "buf_at d s b' j" "b' \<in> H" for b' j
    using that t(5) 1(5) 2(5) 3(5) bm(2) b(2) by blast
  ultimately show ?thesis unfolding balloc_post_def using 1(1) 2(1) 3 r2 lframe_trans [OF f2 3(3)] by simp
qed

lemma balloc_post_frame:
  assumes "balloc_post p d V H t r out" "lframe s t" "sb t = sb s" "log_room t = log_room s"
    "\<And>b' j. buf_at d s b' j \<Longrightarrow> b' \<in> H \<Longrightarrow> buf_at d t b' j"
  shows "balloc_post p d V H s r out"
proof (cases r)
  case (Some b)
  then obtain u where "out = ret (of_nat b) u" "tx p d (allocated (sb s) b V) H u" "lframe t u" "log_room s - 2 \<le> log_room u"
      "\<forall>b' j. buf_at d t b' j \<longrightarrow> b' \<in> H \<longrightarrow> buf_at d u b' j"
    using assms(1,3,4) by (auto simp: balloc_post_def)
  with Some lframe_trans [OF assms(2)] assms(5) show ?thesis unfolding balloc_post_def by auto
qed (use assms(1) in \<open>simp add: balloc_post_def\<close>)

lemma balloc_loop_run:
  fixes s :: "'a fstate_scheme"
  assumes "tx p d V H s" "bitmap_ok (the_log s) (sb s) V H" "2 \<le> log_room s" "int (card H) < log_room s"
  shows "balloc_post p d V H s (List.find (free_bit (sb s) V) [m * BPB..<unat (sb_size (sb s))])
    (balloc_loop d (map (\<lambda>k. k * BPB) [m..<(unat (sb_size (sb s)) + BPB - 1) div BPB]) s)"
  using assms
proof (induction "(unat (sb_size (sb s)) + BPB - 1) div BPB - m" arbitrary: m s)
  case 0
  then have "unat (sb_size (sb s)) \<le> m * BPB" by (simp add: BPB_eq) 
  then show ?case using 0(1) by (auto simp: balloc_post_def)
next
  case (Suc j)
  let ?q = "sb s" and ?b = "m * BPB"
  let ?bm = "BBLOCK (of_nat ?b) ?q" and ?n = "(unat (sb_size (sb s)) + BPB - 1) div BPB"
  have m: "?b < unat (sb_size ?q)" "m < ?n" using Suc(2) by (auto simp: BPB_eq)
  have bm: "home_ok (the_log s) ?bm" "?bm \<notin> H" using Suc.prems(2) m(1) unfolding bitmap_ok_def by blast+
  have card: "int (card H) \<le> log_room s" using Suc.prems(4) by simp
  obtain i t0 where 0: "bread d ?bm s = ret i t0" "tx p d V (insert ?bm H) t0" "buf_at d t0 ?bm i" "b_data (bufs t0 i) = V ?bm"
    "lframe s t0" "the_log t0 = the_log s" "\<And>b' j. buf_at d s b' j \<Longrightarrow> buf_at d t0 b' j"
    by (rule tx_bread [OF Suc.prems(1) bm(2) card]) (rule that)
  have q0: "sb t0 = ?q" by (rule lframe_fs [OF 0(5)])
  let ?rest = "map (\<lambda>k. k * BPB) [Suc m..<?n]"
  have ts: "map (\<lambda>k. k * BPB) [m..<?n] = ?b # ?rest" using m(2) by (simp add: upt_conv_Cons)
  have split: "[?b..<unat (sb_size ?q)] = [?b..<min (Suc m * BPB) (unat (sb_size ?q))] @ [Suc m * BPB..<unat (sb_size ?q)]"
  proof (cases "Suc m * BPB \<le> unat (sb_size ?q)")
    case True
    then show ?thesis using upt_add_eq_append [of ?b "Suc m * BPB" "unat (sb_size ?q) - Suc m * BPB"] by simp
  qed simp
  show ?case
  proof (cases "List.find (free_bit ?q V) [?b..<min (Suc m * BPB) (unat (sb_size ?q))]")
    case None
    obtain t1 where 1: "brelse i t0 = ret () t1" "tx p d V (insert ?bm H - {?bm}) t1" "lframe t0 t1" "the_log t1 = the_log t0"
      "\<And>b' j. buf_at d t0 b' j \<Longrightarrow> b' \<noteq> ?bm \<Longrightarrow> buf_at d t1 b' j"
      by (rule tx_brelse [OF 0(2,3) insertI1]) (rule that)
    have f: "lframe s t1" by (rule lframe_trans [OF 0(5) 1(3)])
    have q1: "sb t1 = ?q" by (rule lframe_fs [OF f])
    have l1: "the_log t1 = the_log s" "log_room t1 = log_room s" using 0(6) 1(4) by (simp_all add: log_room_def)
    have "balloc_post p d V H t1 (List.find (free_bit ?q V) [Suc m * BPB..<unat (sb_size ?q)]) (balloc_loop d ?rest t1)"
      using Suc(1) [of t1 "Suc m"] Suc(2) Suc.prems 1(2) bm(2) by (simp add: q1 l1)
    then have "balloc_post p d V H s (List.find (free_bit ?q V) [Suc m * BPB..<unat (sb_size ?q)]) (balloc_loop d ?rest t1)"
      by (rule balloc_post_frame [OF _ f q1 l1(2)]) (use 0(7) 1(5) bm(2) in blast)
    then show ?thesis unfolding ts split find_append None
      using None 0(1,4) 1(1) balloc_segment [OF m(1), of V] by (simp add: q0)
  next
    case (Some b)
    have b: "b \<in> set [?b..<min (Suc m * BPB) (unat (sb_size ?q))]" "free_bit ?q V b" using find_SomeD [OF Some] by blast+
    have bn: "?b \<le> b" "b < Suc m * BPB" "b < unat (sb_size ?q)" using b(1) by auto
    then have m2: "b div BPB = m" by (simp add: BPB_eq)
    have bi: "b - ?b = b mod BPB" "?b + b mod BPB = b" using m2 mult_div_mod_eq [of BPB b] by (simp_all add: mult.commute)
    have "unat (sb_size ?q) < 2 ^ 32" using unsigned_less [of "sb_size ?q", where ?'a = nat] by simp
    then have lt: "?b < 2 ^ 32" "b < 2 ^ 32" using bn by linarith+
    have bme: "?bm = BBLOCK (of_nat b) ?q" unfolding BBLOCK_eq [OF lt(1)] BBLOCK_eq [OF lt(2)] m2 by (simp add: BPB_eq)
    have bo: "home_ok (the_log s) (of_nat b)" "of_nat b \<notin> H" using Suc.prems(2) b(2) bn(3) unfolding bitmap_ok_def by blast+
    have "balloc_post p d V H s (Some b)
      (bnd (log_write i (upd_buf i (\<lambda>x. x\<lparr>b_data := bit_set (b mod BPB) (b_data x)\<rparr>) t0)) (\<lambda>_ s.
       bnd (brelse i s) (\<lambda>_ s. bnd (bzero d (of_nat b) s) (\<lambda>_ s. ret (of_nat b) s))))"
      using balloc_hit [OF 0(2,3,5,6,7) bme bm(2,1) bo Suc.prems(3,4)] by simp
    then show ?thesis unfolding ts split find_append Some
      using 0(1,4) Some balloc_segment [OF m(1), of V] bi by (simp add: q0)
  qed
qed

lemma balloc_run:
  fixes s :: "'a fstate_scheme"
  assumes "tx p d V H s" "bitmap_ok (the_log s) (sb s) V H" "2 \<le> log_room s" "int (card H) < log_room s"
  shows "balloc_post p d V H s (first_free (sb s) V) (balloc d s)"
  using balloc_loop_run [OF assms, of 0] by (simp add: balloc_def balloc_starts_def first_free_def)

lemma zero_block_0: "i < BSIZE \<Longrightarrow> zero_block x i = 0"
  by (simp add: zero_block_def put_bytes_def)

lemma allocated_props:
  assumes "bitmap_ok l q V H" "first_free q V = Some b"
  shows "b < unat (sb_size q)" "free_bit q V b"
    "\<And>x. x < unat (sb_size q) \<Longrightarrow> free_bit q (allocated q b V) x \<longleftrightarrow> free_bit q V x \<and> x \<noteq> b"
    "i < BSIZE \<Longrightarrow> allocated q b V (of_nat b) i = 0"
    "\<And>x. x \<noteq> of_nat b \<Longrightarrow> x \<noteq> BBLOCK (of_nat b) q \<Longrightarrow> allocated q b V x = V x"
    "bitmap_ok l q (allocated q b V) H"
proof -
  show b: "b < unat (sb_size q)" "free_bit q V b" using find_SomeD [OF assms(2) [unfolded first_free_def]] by auto
  have n: "BBLOCK (of_nat x) q \<noteq> of_nat b" if "x < unat (sb_size q)" for x
    using assms(1) b that unfolding bitmap_ok_def by blast
  show f: "free_bit q (allocated q b V) x \<longleftrightarrow> free_bit q V x \<and> x \<noteq> b" if "x < unat (sb_size q)" for x
    using free_bit_upd(1) [OF b(1) that, of V] n [OF that] by (simp add: allocated_def Let_def free_bit_def)
  show "i < BSIZE \<Longrightarrow> allocated q b V (of_nat b) i = 0" by (simp add: allocated_def Let_def zero_block_0)
  show "x \<noteq> of_nat b \<Longrightarrow> x \<noteq> BBLOCK (of_nat b) q \<Longrightarrow> allocated q b V x = V x" for x by (simp add: allocated_def Let_def)
  show "bitmap_ok l q (allocated q b V) H" using assms(1) f unfolding bitmap_ok_def by simp
qed

definition freed :: "superblock \<Rightarrow> nat \<Rightarrow> (uint \<Rightarrow> cptr) \<Rightarrow> uint \<Rightarrow> cptr" where
  "freed q b V = V(BBLOCK (of_nat b) q := bit_clear (b mod BPB) (V (BBLOCK (of_nat b) q)))"

lemma bfree_run:
  fixes s :: "'a fstate_scheme"
  assumes t: "tx p d V H s" and bm: "bitmap_ok (the_log s) (sb s) V H" and b: "b < unat (sb_size (sb s))"
    and room: "int (card H) \<le> log_room s" "0 < log_room s"
  shows "if free_bit (sb s) V b then \<exists>t. bfree d (of_nat b) s = panic ''freeing free block'' t
    else \<exists>t. bfree d (of_nat b) s = ret () t \<and> tx p d (freed (sb s) b V) H t \<and> lframe s t \<and> log_room s - 1 \<le> log_room t
      \<and> (\<forall>b' j. buf_at d s b' j \<longrightarrow> b' \<in> H \<longrightarrow> buf_at d t b' j)"
proof -
  let ?bm = "BBLOCK (of_nat b) (sb s)"
  have o: "home_ok (the_log s) ?bm" "?bm \<notin> H" using bm b unfolding bitmap_ok_def by blast+
  obtain i t1 where 1: "bread d ?bm s = ret i t1" "tx p d V (insert ?bm H) t1" "buf_at d t1 ?bm i" "b_data (bufs t1 i) = V ?bm"
    "lframe s t1" "the_log t1 = the_log s" "\<And>b' j. buf_at d s b' j \<Longrightarrow> buf_at d t1 b' j"
    by (rule tx_bread [OF t o(2) room(1)]) (rule that)
  have "unat (sb_size (sb s)) < 2 ^ 32" using unsigned_less [of "sb_size (sb s)", where ?'a = nat] by simp
  then have ub: "unat (of_nat b :: uint) = b" using b by (simp add: unat_of_nat take_bit_nat_eq_self)
  show ?thesis
  proof (cases "free_bit (sb s) V b")
    case True
    then show ?thesis using 1(1,4) by (auto simp: bfree_def free_bit_def ub)
  next
    case False
    have r: "home_ok (the_log t1) ?bm" "0 < log_room t1" using o room 1(6) by (simp_all add: log_room_def)
    obtain t2 where 2: "log_write i (upd_buf i (\<lambda>x. x\<lparr>b_data := bit_clear (b mod BPB) (b_data x)\<rparr>) t1) = ret () t2"
      "tx p d (V(?bm := bit_clear (b mod BPB) (V ?bm))) (insert ?bm H) t2" "lframe t1 t2" "log_room t1 - 1 \<le> log_room t2"
      "\<And>b' j. buf_at d t1 b' j \<Longrightarrow> buf_at d t2 b' j"
      by (rule tx_write [OF 1(2,3) insertI1 r, where f = "bit_clear (b mod BPB)"]) (rule that)
    obtain t3 where 3: "brelse i t2 = ret () t3" "tx p d (V(?bm := bit_clear (b mod BPB) (V ?bm))) (insert ?bm H - {?bm}) t3" "lframe t2 t3"
      "the_log t3 = the_log t2" "\<And>b' j. buf_at d t2 b' j \<Longrightarrow> b' \<noteq> ?bm \<Longrightarrow> buf_at d t3 b' j"
      by (rule tx_brelse [OF 2(2) 2(5) [OF 1(3)] insertI1]) (rule that)
    have "bfree d (of_nat b) s = ret () t3" using 1(1,4) 2(1) 3(1) False by (simp add: bfree_def free_bit_def ub)
    moreover have "tx p d (freed (sb s) b V) H t3" using 3(2) o(2) by (simp add: freed_def)
    moreover have "log_room s - 1 \<le> log_room t3" using 2(4) 3(4) 1(6) by (simp add: log_room_def)
    moreover have "buf_at d t3 b' j" if "buf_at d s b' j" "b' \<in> H" for b' j using that 1(7) 2(5) 3(5) o(2) by blast
    ultimately show ?thesis using False lframe_trans [OF 1(5) lframe_trans [OF 2(3) 3(3)]] by auto
  qed
qed

text \<open>
  C5. \<^verbatim>\<open>balloc\<close>, inside a transaction with room for two more blocks in the log: it returns the first block that is
  free, with its contents zero and its bit set, and changes no other bit and no other block; nothing is written
  to the disk. When no block is free it panics.
\<close>

theorem balloc_correct:
  fixes s :: "'a fstate_scheme"
  assumes "tx p d V {} s" "bitmap_ok (the_log s) (sb s) V {}" "2 \<le> log_room s"
  shows "case first_free (sb s) V of
      None \<Rightarrow> \<exists>t. balloc d s = panic ''balloc: out of blocks'' t
    | Some b \<Rightarrow> \<exists>t V'. balloc d s = ret (of_nat b) t \<and> tx p d V' {} t \<and> lframe s t \<and> bitmap_ok (the_log t) (sb t) V' {} \<and>
        (\<forall>x < unat (sb_size (sb s)). free_bit (sb s) V' x \<longleftrightarrow> free_bit (sb s) V x \<and> x \<noteq> b) \<and>
        (\<forall>i < BSIZE. V' (of_nat b) i = 0) \<and> (\<forall>x. x \<noteq> of_nat b \<longrightarrow> x \<noteq> BBLOCK (of_nat b) (sb s) \<longrightarrow> V' x = V x)"
proof (cases "first_free (sb s) V")
  case None
  then show ?thesis using balloc_run [OF assms] assms(3) by (simp add: balloc_post_def)
next
  case (Some b)
  then obtain t where t: "balloc d s = ret (of_nat b) t" "tx p d (allocated (sb s) b V) {} t" "lframe s t"
    using balloc_run [OF assms] assms(3) by (auto simp: balloc_post_def)
  have "bitmap_ok (the_log t) (sb t) (allocated (sb s) b V) {}"
    using allocated_props(6) [OF assms(2) Some] lframe_fs [OF t(3)] by (simp add: bitmap_ok_def home_ok_def)
  with t Some allocated_props [OF assms(2) Some] show ?thesis by auto
qed

text \<open>
  C6. \<^verbatim>\<open>bfree\<close> clears the bit of a block that is in use and changes nothing else, so that freeing a block just allocated
  restores the bitmap; freeing a block that is free panics.
\<close>

theorem bfree_correct:
  fixes s :: "'a fstate_scheme"
  assumes "tx p d V {} s" "bitmap_ok (the_log s) (sb s) V {}" "b < unat (sb_size (sb s))" "0 < log_room s"
  shows "if free_bit (sb s) V b then \<exists>t. bfree d (of_nat b) s = panic ''freeing free block'' t
    else \<exists>t V'. bfree d (of_nat b) s = ret () t \<and> tx p d V' {} t \<and> lframe s t \<and>
      (\<forall>x < unat (sb_size (sb s)). free_bit (sb s) V' x \<longleftrightarrow> free_bit (sb s) V x \<or> x = b) \<and>
      (\<forall>x. x \<noteq> BBLOCK (of_nat b) (sb s) \<longrightarrow> V' x = V x) \<and>
      (\<forall>V0. first_free (sb s) V0 = Some b \<and> V = allocated (sb s) b V0 \<and> bitmap_ok (the_log s) (sb s) V0 {} \<longrightarrow>
         V' (BBLOCK (of_nat b) (sb s)) = V0 (BBLOCK (of_nat b) (sb s)))"
proof (cases "free_bit (sb s) V b")
  case True
  then show ?thesis using bfree_run [OF assms(1-3)] assms(4) by simp
next
  case False
  then obtain t where t: "bfree d (of_nat b) s = ret () t" "tx p d (freed (sb s) b V) {} t" "lframe s t"
    using bfree_run [OF assms(1-3)] assms(4) by auto
  have "freed (sb s) b (allocated (sb s) b V0) (BBLOCK (of_nat b) (sb s)) = V0 (BBLOCK (of_nat b) (sb s))"
    if "first_free (sb s) V0 = Some b" "bitmap_ok (the_log s) (sb s) V0 {}" for V0
  proof -
    have "free_bit (sb s) V0 b" "BBLOCK (of_nat b) (sb s) \<noteq> of_nat b"
      using allocated_props(1,2) [OF that(2,1)] that(2) unfolding bitmap_ok_def by blast+
    then show ?thesis by (simp add: freed_def allocated_def Let_def bit_clear_set free_bit_def)
  qed
  then show ?thesis using t False free_bit_upd(2) [OF assms(3)] by (auto simp: freed_def)
qed

section \<open>A small disk\<close>

text \<open>1000 blocks, the first 40 in use: boot block, super block, 30 blocks of log, the bitmap in block 33 and some data.\<close>

definition demo_sb :: superblock where
  "demo_sb = \<lparr>sb_magic = FSMAGIC, sb_size = 1000, sb_nblocks = 900, sb_ninodes = 16, sb_nlog = 30, sb_logstart = 2,
     sb_inodestart = 32, sb_bmapstart = 33\<rparr>"

definition demo_disk :: "uint \<Rightarrow> cptr" where
  "demo_disk b = (if b = 33 then (\<lambda>i. if i < 5 then 255 else 0) else (\<lambda>_. 0))"

lemma demo_BBLOCK: "x < 1000 \<Longrightarrow> BBLOCK (of_nat x) demo_sb = 33"
  by (subst BBLOCK_eq) (simp_all add: BPB_eq demo_sb_def)

lemma demo_free: "x < 1000 \<Longrightarrow> free_bit demo_sb demo_disk x \<longleftrightarrow> 40 \<le> x"
proof -
  assume x: "x < 1000"
  have "n < 8 \<Longrightarrow> bit (255 :: uchar) n" for n
  proof -
    have "(255 :: uchar) = - 1" by simp
    then show "n < 8 \<Longrightarrow> bit (255 :: uchar) n" by (simp only: bit_minus_1_iff) simp
  qed
  moreover have "x div 8 < 5 \<longleftrightarrow> x < 40" by auto
  ultimately show ?thesis using x by (simp add: free_bit_def demo_BBLOCK demo_disk_def bit_free_bit BPB_eq)
qed

lemma demo_first: "first_free demo_sb demo_disk = Some 40"
proof -
  have "List.find (free_bit demo_sb demo_disk) [0..<1000] = List.find (\<lambda>x. 40 \<le> x) [0..<1000]"
    by (rule find_cong) (auto simp: demo_free)
  also have "\<dots> = Some 40" unfolding find_Some_iff by (rule exI [of _ 40]) simp
  finally show ?thesis by (simp add: first_free_def demo_sb_def)
qed

lemma demo_home: "32 \<le> x \<Longrightarrow> x < 1000 \<Longrightarrow> home_ok log0 (of_nat x)"
  by (simp add: home_ok_def log0_def uint_nat unat_of_nat take_bit_nat_eq_self)

lemma demo_bitmap: "bitmap_ok log0 demo_sb demo_disk {}"
proof -
  have "(33 :: uint) \<noteq> of_nat b" if "40 \<le> b" "b < 1000" for b
    using that by (auto simp: unat_of_nat take_bit_nat_eq_self dest!: arg_cong [where f = unat])
  then show ?thesis
    using demo_home [of 33] by (auto simp: bitmap_ok_def demo_sb_def [THEN arg_cong, of sb_size] demo_BBLOCK demo_free demo_home)
qed

theorem balloc_correct_witness:
  "\<exists>t V'. balloc 1 (booted_fs demo_disk demo_sb) = ret 40 t \<and> tx 1 1 V' {} t \<and> \<not> free_bit demo_sb V' 40 \<and> free_bit demo_sb V' 41"
proof -
  have "tx 1 1 demo_disk {} (booted_fs demo_disk demo_sb)" by (rule booted_fs_tx) (simp add: demo_disk_def)
  from balloc_correct [OF this] obtain t V' where "balloc 1 (booted_fs demo_disk demo_sb) = ret 40 t" "tx 1 1 V' {} t"
      "\<And>x. x < 1000 \<Longrightarrow> free_bit demo_sb V' x \<longleftrightarrow> 40 \<le> x \<and> x \<noteq> 40"
    using demo_bitmap by (auto simp: demo_first demo_free demo_sb_def [THEN arg_cong, of sb_size])
  moreover from this(3) [of 40] this(3) [of 41] have "\<not> free_bit demo_sb V' 40" "free_bit demo_sb V' 41" by simp_all
  ultimately show ?thesis by blast
qed

theorem bfree_correct_witness:
  "(\<exists>t. bfree 1 50 (booted_fs demo_disk demo_sb) = panic ''freeing free block'' t) \<and>
   (\<exists>t V'. bfree 1 39 (booted_fs demo_disk demo_sb) = ret () t \<and> tx 1 1 V' {} t \<and> free_bit demo_sb V' 39)"
proof -
  have t: "tx 1 1 demo_disk {} (booted_fs demo_disk demo_sb)" by (rule booted_fs_tx) (simp add: demo_disk_def)
  have "\<exists>t. bfree 1 50 (booted_fs demo_disk demo_sb) = panic ''freeing free block'' t"
    using bfree_correct [OF t, of 50] demo_bitmap by (auto simp: demo_free demo_sb_def [THEN arg_cong, of sb_size])
  moreover obtain u V' where "bfree 1 39 (booted_fs demo_disk demo_sb) = ret () u" "tx 1 1 V' {} u"
      "\<And>x. x < 1000 \<Longrightarrow> free_bit demo_sb V' x \<longleftrightarrow> 40 \<le> x \<or> x = 39"
    using bfree_correct [OF t, of 39] demo_bitmap by (auto simp: demo_free demo_sb_def [THEN arg_cong, of sb_size])
  moreover from this(3) [of 39] have "free_bit demo_sb V' 39" by simp
  ultimately show ?thesis by blast
qed

end
