(* ===== verification/FsFile.thy ===== *)
theory FsFile
  imports FsAlloc Dir
begin

text \<open>
  File contents. The bytes of a file are those of the blocks that its inode maps, directly or through the indirect
  block. \<^verbatim>\<open>readi\<close> returns them; \<^verbatim>\<open>writei\<close> replaces them, allocating blocks with \<^verbatim>\<open>bmap\<close> where the file grows.
\<close>

section \<open>The block map\<close>

definition blk_of :: "(uint \<Rightarrow> cptr) \<Rightarrow> inode \<Rightarrow> nat \<Rightarrow> uint" where
  "blk_of V x bn =
     (if bn < NDIRECT then i_addrs x bn
      else if i_addrs x NDIRECT = 0 then 0 else get32 (V (i_addrs x NDIRECT)) (4 * (bn - NDIRECT)))"

definition file_byte :: "(uint \<Rightarrow> cptr) \<Rightarrow> inode \<Rightarrow> nat \<Rightarrow> uchar" where
  "file_byte V x i = V (blk_of V x (i div BSIZE)) (i mod BSIZE)"

definition file_range :: "(uint \<Rightarrow> cptr) \<Rightarrow> inode \<Rightarrow> nat \<Rightarrow> nat \<Rightarrow> uchar list" where
  "file_range V x off k = map (file_byte V x) [off..<off + k]"

lemma bmap_mapped:
  assumes t: "tx p d V {} s" and x: "itable s ip = x" "i_dev x = d" and bn: "bn < MAXFILE" "blk_of V x bn \<noteq> 0"
  obtains t where "bmap ip bn s = ret (blk_of V x bn) t" "tx p d V {} t" "lframe s t" "the_log t = the_log s"
proof (cases "bn < NDIRECT")
  case True
  then show ?thesis using that [of s] t x bn by (simp add: bmap_def blk_of_def)
next
  case False
  let ?i = "i_addrs x NDIRECT"
  have i: "?i \<noteq> 0" "bn - NDIRECT < NINDIRECT" "blk_of V x bn = get32 (V ?i) (4 * (bn - NDIRECT))"
    using False bn by (auto simp: blk_of_def MAXFILE_def split: if_splits)
  have room: "int (card {}) \<le> log_room s" using t by (auto simp: tx_def tx_cache_def log_inv_def log_room_def)
  obtain j u where u: "bread d ?i s = ret j u" "tx p d V (insert ?i {}) u" "buf_at d u ?i j" "b_data (bufs u j) = V ?i"
    "lframe s u" "the_log u = the_log s" "\<And>b' j. buf_at d s b' j \<Longrightarrow> buf_at d u b' j"
    by (rule tx_bread [OF t _ room]) (auto intro: that)
  obtain w where w: "brelse j u = ret () w" "tx p d V (insert ?i {} - {?i}) w" "lframe u w" "the_log w = the_log u"
    by (rule tx_brelse [OF u(2,3) insertI1]) (rule that)
  have "bmap ip bn s = ret (blk_of V x bn) w"
    using False i u(1,4) w(1) x bn(2) by (simp add: bmap_def Let_def)
  with w u(6) lframe_trans [OF u(5) w(3)] show ?thesis using that by simp
qed

lemma tx_copy:
  assumes "tx p d V H s"
  shows "either_copyout D_local bs s = ret 0 s" "either_copyin (S_local bs) n s = ret (0, take n bs) s"
proof -
  have "quiet s" using assms by (auto simp: tx_def cache_rel_def calm_def)
  then show "either_copyout D_local bs s = ret 0 s" "either_copyin (S_local bs) n s = ret (0, take n bs) s"
    by (simp_all add: either_copyout_def either_copyin_def myproc_quiet)
qed

section \<open>Reading\<close>

lemma BSIZE_pos [simp]: "0 < BSIZE"
  by (simp add: BSIZE_def)

lemma unat_BSIZE:
  "unat ((off :: uint) div of_nat BSIZE) = unat off div BSIZE" "unat ((off :: uint) mod of_nat BSIZE) = unat off mod BSIZE"
  by (simp_all add: BSIZE_def unat_div_distrib unat_mod_distrib)

text \<open>One step of the loops: a chunk stays inside one block, and the counters do not wrap around.\<close>

lemma chunk_facts:
  fixes off n tot :: uint
  assumes "tot < n" "unat off + unat (n - tot) < 2 ^ 32"
  defines "m \<equiv> chunk (n - tot) off"
  shows "0 < unat m" "unat m \<le> unat (n - tot)" "unat off mod BSIZE + unat m \<le> BSIZE" "unat (off + m) = unat off + unat m"
    "unat (n - (tot + m)) = unat (n - tot) - unat m" "tot + m \<le> n"
proof -
  have ne: "n - tot \<noteq> 0" using assms(1) by auto
  note b = chunk_bounds [OF ne, of off, folded m_def]
  show "0 < unat m" "unat m \<le> unat (n - tot)" "unat off mod BSIZE + unat m \<le> BSIZE" using b by auto
  show "unat (off + m) = unat off + unat m" using b(2) assms(2) by (simp add: unat_word_ariths)
  have "n - (tot + m) = (n - tot) - m" by simp
  moreover have "unat ((n - tot) - m) = unat (n - tot) - unat m" using b(2) by (simp add: unat_sub word_le_nat_alt)
  ultimately show "unat (n - (tot + m)) = unat (n - tot) - unat m" by (simp only:)
  have nt: "unat (n - tot) = unat n - unat tot" using assms(1) by (simp add: unat_sub less_imp_le)
  have "unat n < 2 ^ 32" using unsigned_less [of n, where ?'a = nat] by simp
  then have "unat (tot + m) = unat tot + unat m" using b(2) nt assms(1) by (simp add: unat_word_ariths word_less_nat_alt)
  then show "tot + m \<le> n" using b(2) nt assms(1) by (simp add: word_le_nat_alt word_less_nat_alt)
qed

lemma same_block:
  assumes "o1 mod BSIZE + k \<le> BSIZE" "i < k"
  shows "(o1 + i) div BSIZE = o1 div BSIZE" "(o1 + i) mod BSIZE = o1 mod BSIZE + i"
proof -
  have lt: "o1 mod BSIZE + i < BSIZE" using assms by simp
  have "o1 + i = (o1 mod BSIZE + i) + o1 div BSIZE * BSIZE" using mod_div_mult_eq [of o1 BSIZE] by linarith
  then have "(o1 + i) div BSIZE = ((o1 mod BSIZE + i) + o1 div BSIZE * BSIZE) div BSIZE"
    "(o1 + i) mod BSIZE = ((o1 mod BSIZE + i) + o1 div BSIZE * BSIZE) mod BSIZE" by simp_all
  with lt show "(o1 + i) div BSIZE = o1 div BSIZE" "(o1 + i) mod BSIZE = o1 mod BSIZE + i"
    by (simp_all only: mod_mult_self1 div_mult_self1 mod_less div_less BSIZE_pos)
qed

lemma file_range_chunk:
  assumes "o1 mod BSIZE + k \<le> BSIZE"
  shows "get_bytes (V (blk_of V x (o1 div BSIZE))) (o1 mod BSIZE) k = file_range V x o1 k"
  by (rule nth_equalityI) (auto simp: file_range_def file_byte_def same_block [OF assms])

lemma file_range_append: "file_range V x a (k + j) = file_range V x a k @ file_range V x (a + k) j"
  unfolding file_range_def map_append [symmetric] add.assoc [symmetric]
  by (rule arg_cong [where f = "map (file_byte V x)"]) (rule upt_add_eq_append, simp)

lemma tx_room0: "tx p d V {} s \<Longrightarrow> int (card {}) \<le> log_room s"
  by (auto simp: tx_def tx_cache_def log_inv_def log_room_def)

lemma readi_loop_run:
  fixes s :: "'a fstate_scheme"
  assumes map: "\<And>bn. bn * BSIZE < sz \<Longrightarrow> bn < MAXFILE \<and> blk_of V x bn \<noteq> 0" and x: "i_dev x = d" and sz: "sz < 2 ^ 32"
  shows "tx p d V {} s \<Longrightarrow> itable s ip = x \<Longrightarrow> tot \<le> n \<Longrightarrow> unat off + unat (n - tot) \<le> sz \<Longrightarrow>
    \<exists>t. readi_loop ip D_local off n tot s = ret (n, file_range V x (unat off) (unat (n - tot))) t \<and> tx p d V {} t \<and> lframe s t \<and>
      the_log t = the_log s"
proof (induction "unat (n - tot)" arbitrary: s off tot rule: less_induct)
  case less
  show ?case
  proof (cases "tot < n")
    case False
    then have "tot = n" using less.prems(3) by simp
    then show ?thesis using less.prems(1) by (auto simp: readi_loop.simps file_range_def)
  next
    case True
    let ?m = "chunk (n - tot) off" and ?bn = "unat off div BSIZE"
    note c = chunk_facts [OF True, of off]
    have lt: "unat off + unat (n - tot) < 2 ^ 32" using less.prems(4) sz by simp
    note c = c [OF lt]
    have "?bn * BSIZE \<le> unat off" by simp
    then have bn: "?bn < MAXFILE" "blk_of V x ?bn \<noteq> 0" using map [of ?bn] c(1,2) less.prems(4) by linarith+
    obtain t1 where 1: "bmap ip ?bn s = ret (blk_of V x ?bn) t1" "tx p d V {} t1" "lframe s t1" "the_log t1 = the_log s"
      by (rule bmap_mapped [OF less.prems(1,2) x bn]) (rule that)
    have i1: "itable t1 ip = x" using lframe_fs(2) [OF 1(3)] less.prems(2) by simp
    obtain j t2 where 2: "bread d (blk_of V x ?bn) t1 = ret j t2" "tx p d V (insert (blk_of V x ?bn) {}) t2" "buf_at d t2 (blk_of V x ?bn) j"
      "b_data (bufs t2 j) = V (blk_of V x ?bn)" "lframe t1 t2" "the_log t2 = the_log t1" "\<And>b' j. buf_at d t1 b' j \<Longrightarrow> buf_at d t2 b' j"
      by (rule tx_bread [OF 1(2) _ tx_room0 [OF 1(2)]]) (auto intro: that)
    obtain t3 where 3: "brelse j t2 = ret () t3" "tx p d V (insert (blk_of V x ?bn) {} - {blk_of V x ?bn}) t3" "lframe t2 t3"
      "the_log t3 = the_log t2" by (rule tx_brelse [OF 2(2,3) insertI1]) (rule that)
    have f: "lframe s t3" by (rule lframe_trans [OF 1(3) lframe_trans [OF 2(5) 3(3)]])
    have i3: "itable t3 ip = x" using lframe_fs(2) [OF f] less.prems(2) by simp
    have bs: "get_bytes (b_data (bufs t2 j)) (unat off mod BSIZE) (unat ?m) = file_range V x (unat off) (unat ?m)"
      using file_range_chunk [OF c(3)] 2(4) by simp
    obtain t where t: "readi_loop ip D_local (off + ?m) n (tot + ?m) t3 =
        ret (n, file_range V x (unat (off + ?m)) (unat (n - (tot + ?m)))) t" "tx p d V {} t" "lframe t3 t" "the_log t = the_log t3"
      using less.hyps [of "tot + ?m" t3 "off + ?m"] 3(2) i3 c less.prems(4) by auto
    have "file_range V x (unat off) (unat ?m) @ file_range V x (unat (off + ?m)) (unat (n - (tot + ?m))) =
        file_range V x (unat off) (unat (n - tot))"
      using file_range_append [of V x "unat off" "unat ?m" "unat (n - tot) - unat ?m"] c by simp
    then have "readi_loop ip D_local off n tot s = ret (n, file_range V x (unat off) (unat (n - tot))) t"
      using True 1(1) 2(1) 3(1) t(1) bs tx_copy(1) [OF 2(2)] i1 x
      by (subst readi_loop.simps) (simp add: unat_BSIZE Let_def dst_add_def)
    with t lframe_trans [OF f t(3)] 1(4) 2(6) 3(4) show ?thesis by auto
  qed
qed

text \<open>A file without holes: every block below its size is mapped.\<close>

definition mapped :: "(uint \<Rightarrow> cptr) \<Rightarrow> inode \<Rightarrow> bool" where
  "mapped V x \<longleftrightarrow> (\<forall>bn. bn * BSIZE < unat (i_size x) \<longrightarrow> bn < MAXFILE \<and> blk_of V x bn \<noteq> 0)"


text \<open>A file of three bytes in block 35 of the small disk.\<close>

definition file_disk :: "uint \<Rightarrow> cptr" where
  "file_disk = demo_disk(35 := (\<lambda>i. of_nat i + 7))"

definition demo_file :: inode where
  "demo_file = inode0\<lparr>i_dev := 1, i_inum := 1, i_ref := 1, i_valid := True, i_type := T_FILE, i_nlink := 1, i_size := 3,
     i_addrs := (\<lambda>_. 0)(0 := 35)\<rparr>"

definition file_state :: fstate where
  "file_state = upd_inode 0 (\<lambda>_. demo_file) (booted_fs file_disk demo_sb)"

lemma file_state_tx: "tx 1 1 file_disk {} file_state"
proof -
  have "tx 1 1 file_disk {} (booted_fs file_disk demo_sb)" by (rule booted_fs_tx) (simp add: file_disk_def demo_disk_def)
  then show ?thesis by (simp add: file_state_def upd_inode_def tx_def cache_rel_def calm_def quiet_def mycpu_def cpuid_def cur_def
      locks_free_def p_lk_def kb_def [abs_def])
qed

lemma file_state_simps: "itable file_state 0 = demo_file" "sb file_state = demo_sb" "the_log file_state = log0"
  by (simp_all add: file_state_def upd_inode_def)

lemma demo_blk: "blk_of V demo_file a = (if a = 0 then 35 else 0)"
  by (simp add: blk_of_def demo_file_def NDIRECT_def)

lemma demo_file_mapped: "mapped V demo_file"
  by (auto simp: mapped_def demo_blk) (auto simp: demo_file_def BSIZE_def MAXFILE_def NDIRECT_def)


end
