(* ===== verification/FsWrite.thy ===== *)
theory FsWrite
  imports FsFile
begin

text \<open>
  Writing files. The block map of an inode is well formed when its blocks are in use, distinct from each other and
  from the bitmap, the log and the inode's own block. \<^verbatim>\<open>bmap\<close> keeps this when it allocates; \<^verbatim>\<open>writei\<close> then replaces
  the bytes of the file, extends it, and stores the inode.
\<close>

section \<open>Well-formed files\<close>

definition data_ok :: "log \<Rightarrow> superblock \<Rightarrow> uint \<Rightarrow> (uint \<Rightarrow> cptr) \<Rightarrow> uint \<Rightarrow> bool" where
  "data_ok l q inum V b \<longleftrightarrow> unat b < unat (sb_size q) \<and> \<not> free_bit q V (unat b) \<and> home_ok l b \<and>
     (\<forall>y < unat (sb_size q). BBLOCK (of_nat y) q \<noteq> b) \<and> b \<noteq> IBLOCK inum q"

definition own :: "(uint \<Rightarrow> cptr) \<Rightarrow> inode \<Rightarrow> uint set" where
  "own V x = insert (i_addrs x NDIRECT) (blk_of V x ` {0..<MAXFILE}) - {0}"

definition inode_ok :: "log \<Rightarrow> superblock \<Rightarrow> uint \<Rightarrow> bool" where
  "inode_ok l q inum \<longleftrightarrow> home_ok l (IBLOCK inum q) \<and> (\<forall>y < unat (sb_size q). BBLOCK (of_nat y) q \<noteq> IBLOCK inum q)"

definition file_ok :: "log \<Rightarrow> superblock \<Rightarrow> (uint \<Rightarrow> cptr) \<Rightarrow> inode \<Rightarrow> bool" where
  "file_ok l q V x \<longleftrightarrow> bitmap_ok l q V {} \<and> inode_ok l q (i_inum x) \<and>
     (\<forall>b < unat (sb_size q). free_bit q V b \<longrightarrow> b \<noteq> 0 \<and> of_nat b \<noteq> IBLOCK (i_inum x) q) \<and>
     (\<forall>b \<in> own V x. data_ok l q (i_inum x) V b) \<and>
     (\<forall>a < MAXFILE. \<forall>b < MAXFILE. blk_of V x a = blk_of V x b \<and> blk_of V x a \<noteq> 0 \<longrightarrow> a = b) \<and>
     (\<forall>a < MAXFILE. blk_of V x a \<noteq> 0 \<longrightarrow> blk_of V x a \<noteq> i_addrs x NDIRECT)"

definition nfree :: "superblock \<Rightarrow> (uint \<Rightarrow> cptr) \<Rightarrow> nat" where
  "nfree q V = card {b. b < unat (sb_size q) \<and> free_bit q V b}"

lemma nfree_first: "0 < nfree q V \<Longrightarrow> \<exists>b. first_free q V = Some b"
proof -
  assume "0 < nfree q V"
  then have "{b. b < unat (sb_size q) \<and> free_bit q V b} \<noteq> {}" by (auto simp: nfree_def card_gt_0_iff)
  then have "List.find (free_bit q V) [0..<unat (sb_size q)] \<noteq> None" by (auto simp: find_None_iff)
  then show ?thesis by (auto simp: first_free_def)
qed

lemma nfree_alloc:
  assumes "bitmap_ok l q V H" "first_free q V = Some b"
  shows "nfree q (allocated q b V) = nfree q V - 1"
proof -
  note a = allocated_props [OF assms]
  have "{x. x < unat (sb_size q) \<and> free_bit q (allocated q b V) x} = {x. x < unat (sb_size q) \<and> free_bit q V x} - {b}"
    using a(3) by auto
  then show ?thesis using a(1,2) by (simp add: nfree_def card_Diff_singleton)
qed

text \<open>The contents of the blocks of the file decide its block map.\<close>

lemma blk_of_cong: "(i_addrs x NDIRECT \<noteq> 0 \<Longrightarrow> V' (i_addrs x NDIRECT) = V (i_addrs x NDIRECT)) \<Longrightarrow> blk_of V' x = blk_of V x"
  by (rule ext) (simp add: blk_of_def)

lemma own_cong: "(i_addrs x NDIRECT \<noteq> 0 \<Longrightarrow> V' (i_addrs x NDIRECT) = V (i_addrs x NDIRECT)) \<Longrightarrow> own V' x = own V x"
  by (simp add: own_def blk_of_cong [of x V' V])

lemma own_ind: "i_addrs x NDIRECT \<noteq> 0 \<Longrightarrow> i_addrs x NDIRECT \<in> own V x"
  by (simp add: own_def)

lemma own_blk: "bn < MAXFILE \<Longrightarrow> blk_of V x bn \<noteq> 0 \<Longrightarrow> blk_of V x bn \<in> own V x"
  by (simp add: own_def)

text \<open>Allocating a block does not touch the file; the block is new to it.\<close>

lemma alloc_file:
  assumes f: "file_ok l q V x" and a: "first_free q V = Some b"
  defines "V' \<equiv> allocated q b V"
  shows "file_ok l q V' x" "\<And>c. c \<in> own V x \<Longrightarrow> V' c = V c" "blk_of V' x = blk_of V x" "own V' x = own V x"
    "of_nat b \<noteq> (0 :: uint)" "of_nat b \<notin> own V x" "data_ok l q (i_inum x) V' (of_nat b)" "V' (IBLOCK (i_inum x) q) = V (IBLOCK (i_inum x) q)"
proof -
  have bm: "bitmap_ok l q V {}" using f by (simp add: file_ok_def)
  note p = allocated_props [OF bm a, folded V'_def]
  have "unat (sb_size q) < 2 ^ 32" using unsigned_less [of "sb_size q", where ?'a = nat] by simp
  then have ub: "unat (of_nat b :: uint) = b" using p(1) by (simp add: unat_of_nat take_bit_nat_eq_self)
  have b0: "b \<noteq> 0" "of_nat b \<noteq> IBLOCK (i_inum x) q" using f p(1,2) by (auto simp: file_ok_def)
  then show nz: "of_nat b \<noteq> (0 :: uint)" using ub by auto
  show no: "of_nat b \<notin> own V x" using f p(2) ub by (auto simp: file_ok_def data_ok_def)
  have hb: "home_ok l (of_nat b)" "\<forall>y < unat (sb_size q). BBLOCK (of_nat y) q \<noteq> of_nat b" using bm p(1,2) unfolding bitmap_ok_def by auto
  show same: "V' c = V c" if "c \<in> own V x" for c
  proof (rule p(5))
    show "c \<noteq> of_nat b" using that no by auto
    show "c \<noteq> BBLOCK (of_nat b) q" using that f p(1) by (auto simp: file_ok_def data_ok_def)
  qed
  show ib: "V' (IBLOCK (i_inum x) q) = V (IBLOCK (i_inum x) q)"
    by (rule p(5)) (use b0 f p(1) in \<open>auto simp: file_ok_def inode_ok_def\<close>)
  have ind: "V' (i_addrs x NDIRECT) = V (i_addrs x NDIRECT)" if "i_addrs x NDIRECT \<noteq> 0" by (rule same [OF own_ind [OF that]])
  show blk: "blk_of V' x = blk_of V x" by (rule blk_of_cong) (rule ind)
  show own: "own V' x = own V x" by (rule own_cong) (rule ind)
  show "data_ok l q (i_inum x) V' (of_nat b)" using p(1,3) b0 hb by (simp add: data_ok_def ub)
  have "data_ok l q (i_inum x) V' c" if "c \<in> own V x" for c
    using that f p(3) by (auto simp: file_ok_def data_ok_def)
  then show "file_ok l q V' x" using f p(3,6) unfolding file_ok_def blk own by auto
qed

text \<open>A new block enters the map, as a data block or as the indirect block.\<close>

definition same_bits :: "superblock \<Rightarrow> (uint \<Rightarrow> cptr) \<Rightarrow> (uint \<Rightarrow> cptr) \<Rightarrow> bool" where
  "same_bits q V V' \<longleftrightarrow> (\<forall>b < unat (sb_size q). free_bit q V' b = free_bit q V b)"

lemma same_bits_ok:
  assumes "same_bits q V V'"
  shows "bitmap_ok l q V {} \<Longrightarrow> bitmap_ok l q V' {}" "data_ok l q i V b \<Longrightarrow> data_ok l q i V' b" "nfree q V' = nfree q V"
proof -
  show "bitmap_ok l q V {} \<Longrightarrow> bitmap_ok l q V' {}" using assms by (auto simp: same_bits_def bitmap_ok_def)
  show "data_ok l q i V b \<Longrightarrow> data_ok l q i V' b" using assms by (auto simp: same_bits_def data_ok_def)
  have "{b. b < unat (sb_size q) \<and> free_bit q V' b} = {b. b < unat (sb_size q) \<and> free_bit q V b}" using assms by (auto simp: same_bits_def)
  then show "nfree q V' = nfree q V" by (simp add: nfree_def)
qed

lemma attach_data:
  assumes f: "file_ok l q V x" and nb: "nb \<noteq> 0" "nb \<notin> own V x" "data_ok l q (i_inum x) V nb" and bn: "bn < MAXFILE" "blk_of V x bn = 0"
    and bits: "same_bits q V V'" and blk: "\<And>a. a < MAXFILE \<Longrightarrow> blk_of V' x' a = (if a = bn then nb else blk_of V x a)"
    and x: "i_addrs x' NDIRECT = i_addrs x NDIRECT" "i_inum x' = i_inum x"
  shows "file_ok l q V' x'" "own V' x' = insert nb (own V x)"
proof -
  have "blk_of V' x' ` {0..<MAXFILE} = insert nb (blk_of V x ` ({0..<MAXFILE} - {bn}))" using bn(1) blk by (auto simp: image_iff)
  then show own: "own V' x' = insert nb (own V x)" using nb(1) bn by (auto simp: own_def x)
  have old: "blk_of V x a \<noteq> 0 \<Longrightarrow> blk_of V x a \<noteq> nb" if "a < MAXFILE" for a using own_blk [OF that, of V x] nb(2) by auto
  have ind: "nb \<noteq> i_addrs x NDIRECT" using own_ind [of x V] nb(1,2) by auto
  show "file_ok l q V' x'" unfolding file_ok_def
  proof (intro conjI)
    show "bitmap_ok l q V' {}" "inode_ok l q (i_inum x')" using f same_bits_ok(1) [OF bits] by (simp_all add: file_ok_def x)
    show "\<forall>b<unat (sb_size q). free_bit q V' b \<longrightarrow> b \<noteq> 0 \<and> of_nat b \<noteq> IBLOCK (i_inum x') q" using f bits by (simp add: file_ok_def same_bits_def x)
    show "\<forall>b\<in>own V' x'. data_ok l q (i_inum x') V' b" using f nb(3) same_bits_ok(2) [OF bits] by (auto simp: own file_ok_def x)
    show "\<forall>a<MAXFILE. \<forall>b<MAXFILE. blk_of V' x' a = blk_of V' x' b \<and> blk_of V' x' a \<noteq> 0 \<longrightarrow> a = b"
      using f old by (auto simp: blk file_ok_def split: if_splits)
    show "\<forall>a<MAXFILE. blk_of V' x' a \<noteq> 0 \<longrightarrow> blk_of V' x' a \<noteq> i_addrs x' NDIRECT" using f ind by (auto simp: blk x file_ok_def)
  qed
qed

lemma attach_indirect:
  assumes f: "file_ok l q V x" and nb: "nb \<noteq> 0" "nb \<notin> own V x" "data_ok l q (i_inum x) V nb"
    and blk: "\<And>a. a < MAXFILE \<Longrightarrow> blk_of V x' a = blk_of V x a" and x: "i_addrs x NDIRECT = 0" "i_addrs x' NDIRECT = nb" "i_inum x' = i_inum x"
  shows "file_ok l q V x'" "own V x' = insert nb (own V x)"
proof -
  have "blk_of V x' ` {0..<MAXFILE} = blk_of V x ` {0..<MAXFILE}" using blk by (auto simp: image_iff)
  then show own: "own V x' = insert nb (own V x)" using nb(1) x by (auto simp: own_def)
  have "blk_of V x a \<noteq> 0 \<Longrightarrow> blk_of V x a \<noteq> nb" if "a < MAXFILE" for a using own_blk [OF that, of V x] nb(2) by auto
  then show "file_ok l q V x'" using f nb(3) unfolding file_ok_def own by (auto simp: blk x)
qed

lemma get32_zero: "(\<And>i. i < BSIZE \<Longrightarrow> d i = 0) \<Longrightarrow> k < NINDIRECT \<Longrightarrow> get32 d (4 * k) = 0"
proof -
  assume "\<And>i. i < BSIZE \<Longrightarrow> d i = 0" "k < NINDIRECT"
  then have "get_bytes d (4 * k) 4 = replicate 4 0" by (intro get_bytes_eqI) (auto simp: NINDIRECT_def BSIZE_def)
  then show ?thesis by (simp add: get32_def)
qed

text \<open>Data that is written to a block of the file, or to its inode, leaves the bitmap alone.\<close>

lemma same_bits_data: "(\<And>y. y < unat (sb_size q) \<Longrightarrow> BBLOCK (of_nat y) q \<noteq> b) \<Longrightarrow> same_bits q V (V(b := z))"
  by (simp add: same_bits_def free_bit_def)

section \<open>bmap allocates\<close>

text \<open>What the file had it keeps: its blocks, their contents, and everything in the inode but the block map.\<close>

definition kept :: "superblock \<Rightarrow> (uint \<Rightarrow> cptr) \<Rightarrow> inode \<Rightarrow> (uint \<Rightarrow> cptr) \<Rightarrow> inode \<Rightarrow> bool" where
  "kept q V x V' x' \<longleftrightarrow> x' = x\<lparr>i_addrs := i_addrs x'\<rparr> \<and> V' (IBLOCK (i_inum x) q) = V (IBLOCK (i_inum x) q) \<and>
     (\<forall>a < MAXFILE. blk_of V x a \<noteq> 0 \<longrightarrow> blk_of V' x' a = blk_of V x a \<and> V' (blk_of V x a) = V (blk_of V x a))"

lemma kept_refl [simp]: "kept q V x V x"
  by (simp add: kept_def)

lemma kept_trans:
  assumes "kept q V x V1 x1" "kept q V1 x1 V2 x2"
  shows "kept q V x V2 x2"
proof -
  have "x1 = x\<lparr>i_addrs := i_addrs x1\<rparr>" "x2 = x1\<lparr>i_addrs := i_addrs x2\<rparr>" using assms by (auto simp: kept_def)
  then have x: "x2 = x\<lparr>i_addrs := i_addrs x2\<rparr>" "i_inum x1 = i_inum x"
    by (metis inode.surjective inode.update_convs(11), metis inode.select_convs(2) inode.surjective inode.update_convs(11))
  have "blk_of V2 x2 a = blk_of V x a \<and> V2 (blk_of V x a) = V (blk_of V x a)" if "a < MAXFILE" "blk_of V x a \<noteq> 0" for a
  proof -
    have 1: "blk_of V1 x1 a = blk_of V x a" "V1 (blk_of V x a) = V (blk_of V x a)" using assms(1) that by (auto simp: kept_def)
    with that assms(2) show ?thesis by (auto simp: kept_def)
  qed
  with x assms show ?thesis unfolding kept_def by simp
qed

lemma tx_upd_inode [simp]: "tx p d V H (upd_inode ip f s) = tx p d V H s" "buf_at d (upd_inode ip f s) b i = buf_at d s b i"
  "log_room (upd_inode ip f s) = log_room s" "the_log (upd_inode ip f s) = the_log s" "sb (upd_inode ip f s) = sb s"
  by (simp_all add: tx_def upd_inode_def cache_rel_def calm_def quiet_def mycpu_def cpuid_def cur_def locks_free_def p_lk_def
      kb_def [abs_def] buf_at_def log_room_def)

lemma lframe_upd_inode: "lframe s t \<Longrightarrow> lframe (upd_inode ip f s) (upd_inode ip f t)"
  unfolding lframe_def
proof -
  assume a: "lview t = lview s"
  have e: "lview (upd_inode ip f u) = upd_inode ip f (lview u)" for u :: "'a fstate_scheme" by (simp add: lview_def upd_inode_def)
  show "lview (upd_inode ip f t) = lview (upd_inode ip f s)" by (simp only: e a)
qed

lemma file_ok_lframe: "lframe (s :: 'a fstate_scheme) t \<Longrightarrow> file_ok (the_log t) q V x = file_ok (the_log s) q V x"
  using lframe_fs(6,7) [of s t] by (simp add: file_ok_def bitmap_ok_def inode_ok_def data_ok_def home_ok_def)

text \<open>\<^verbatim>\<open>balloc\<close> beside a file whose blocks may be held.\<close>

lemma balloc_file:
  fixes s :: "'a fstate_scheme"
  assumes t: "tx p d V H s" and f: "file_ok (the_log s) (sb s) V x" "H \<subseteq> own V x" and n: "0 < nfree (sb s) V"
    and room: "2 \<le> log_room s" "int (card H) < log_room s"
  obtains nb u V' where "balloc d s = ret nb u" "tx p d V' H u" "lframe s u" "log_room s - 2 \<le> log_room u"
    "\<And>b' j. buf_at d s b' j \<Longrightarrow> b' \<in> H \<Longrightarrow> buf_at d u b' j" "file_ok (the_log s) (sb s) V' x" "\<And>c. c \<in> own V x \<Longrightarrow> V' c = V c"
    "blk_of V' x = blk_of V x" "own V' x = own V x" "nb \<noteq> 0" "nb \<notin> own V x" "data_ok (the_log s) (sb s) (i_inum x) V' nb"
    "\<And>i. i < BSIZE \<Longrightarrow> V' nb i = 0" "V' (IBLOCK (i_inum x) (sb s)) = V (IBLOCK (i_inum x) (sb s))"
    "nfree (sb s) V' = nfree (sb s) V - 1"
proof -
  let ?l = "the_log s" and ?q = "sb s"
  have bm: "bitmap_ok ?l ?q V {}" and d: "\<And>b. b \<in> own V x \<Longrightarrow> data_ok ?l ?q (i_inum x) V b" using f(1) by (auto simp: file_ok_def)
  have fresh: "of_nat b \<notin> H" if "b < unat (sb_size ?q)" "free_bit ?q V b" for b
  proof
    assume "of_nat b \<in> H"
    then have "\<not> free_bit ?q V (unat (of_nat b :: uint))" using f(2) d by (auto simp: data_ok_def)
    moreover have "unat (sb_size ?q) < 2 ^ 32" using unsigned_less [of "sb_size ?q", where ?'a = nat] by simp
    ultimately show False using that by (simp add: unat_of_nat take_bit_nat_eq_self)
  qed
  have bmh: "bitmap_ok ?l ?q V H" using bm fresh f(2) d unfolding bitmap_ok_def data_ok_def by blast
  obtain b where b: "first_free ?q V = Some b" using nfree_first [OF n] by blast
  obtain u where u: "balloc d s = ret (of_nat b) u" "tx p d (allocated ?q b V) H u" "lframe s u" "log_room s - 2 \<le> log_room u"
    "\<forall>b' j. buf_at d s b' j \<longrightarrow> b' \<in> H \<longrightarrow> buf_at d u b' j"
    using balloc_run [OF t bmh room] b by (auto simp: balloc_post_def)
  note a = alloc_file [OF f(1) b]
  show ?thesis
    by (rule that [OF u(1-4) _ a(1) a(2) a(3,4,5,6,7) allocated_props(4) [OF bm b] a(8) nfree_alloc [OF bm b]]) (use u(5) in auto)
qed

text \<open>The outcome of \<^verbatim>\<open>bmap\<close> from the state \<open>s\<close>, in which at most \<open>k\<close> blocks were written and \<open>j\<close> allocated.\<close>

definition bmap_post :: "nat \<Rightarrow> uint \<Rightarrow> nat \<Rightarrow> nat \<Rightarrow> (uint \<Rightarrow> cptr) \<Rightarrow> int \<Rightarrow> nat \<Rightarrow> 'a fstate_scheme \<Rightarrow> ('a fstate_scheme, uint) out \<Rightarrow> bool" where
  "bmap_post p d ip bn V k j s out \<longleftrightarrow> (\<exists>t V' x'. out = ret (blk_of V' x' bn) t \<and> blk_of V' x' bn \<noteq> 0 \<and> tx p d V' {} t \<and>
     lframe (upd_inode ip (\<lambda>_. x') s) t \<and> file_ok (the_log s) (sb s) V' x' \<and> kept (sb s) V (itable s ip) V' x' \<and>
     log_room s - k \<le> log_room t \<and> nfree (sb s) V \<le> nfree (sb s) V' + j)"

lemma upd_inode_const: "upd_inode ip (\<lambda>_. itable s ip) s = s" "upd_inode ip (\<lambda>_. y) (upd_inode ip (\<lambda>_. x) s) = upd_inode ip (\<lambda>_. y) s"
  "itable (upd_inode ip f s) ip = f (itable s ip)"
  by (simp_all add: upd_inode_def)

lemma bmap_direct:
  fixes s :: "'a fstate_scheme"
  assumes t: "tx p d V {} s" and f: "file_ok (the_log s) (sb s) V (itable s ip)" and bn: "bn < NDIRECT" "i_addrs (itable s ip) bn = 0"
    and n: "0 < nfree (sb s) V" and room: "2 \<le> log_room s"
  shows "bmap_post p d ip bn V 2 1 s (bnd (balloc d s) (\<lambda>addr s. ret addr (upd_inode ip (\<lambda>x. x\<lparr>i_addrs := (i_addrs x)(bn := addr)\<rparr>) s)))"
proof -
  let ?x = "itable s ip" and ?q = "sb s"
  obtain nb u V' where u: "balloc d s = ret nb u" "tx p d V' {} u" "lframe s u" "log_room s - 2 \<le> log_room u"
    "file_ok (the_log s) ?q V' ?x" "\<And>c. c \<in> own V ?x \<Longrightarrow> V' c = V c"
    "blk_of V' ?x = blk_of V ?x" "own V' ?x = own V ?x" "nb \<noteq> 0" "nb \<notin> own V ?x" "data_ok (the_log s) ?q (i_inum ?x) V' nb"
    "V' (IBLOCK (i_inum ?x) ?q) = V (IBLOCK (i_inum ?x) ?q)" "nfree ?q V' = nfree ?q V - 1"
    by (rule balloc_file [OF t f empty_subsetI n room]) (use room in \<open>auto intro: that\<close>)
  define x' where "x' = ?x\<lparr>i_addrs := (i_addrs ?x)(bn := nb)\<rparr>"
  have bn': "bn < MAXFILE" "bn \<noteq> NDIRECT" using bn by (simp_all add: MAXFILE_def)
  have ind: "i_addrs x' NDIRECT = i_addrs ?x NDIRECT" "i_inum x' = i_inum ?x" using bn' by (simp_all add: x'_def)
  have blk: "blk_of V' x' a = (if a = bn then nb else blk_of V' ?x a)" for a using bn bn' by (auto simp: blk_of_def x'_def)
  have z: "blk_of V' ?x bn = 0" using bn by (simp add: blk_of_def)
  have sb: "same_bits ?q V' V'" by (simp add: same_bits_def)
  have "file_ok (the_log s) ?q V' x'"
    by (rule attach_data(1) [OF u(5,9) _ u(11) bn'(1) z sb blk ind]) (simp add: u(8,10))
  moreover have "kept ?q V ?x V' x'" unfolding kept_def
    using u(6,12) own_blk blk u(7) z by (auto simp: x'_def)
  moreover have "itable u ip = ?x" using lframe_fs(2) [OF u(3)] by simp
  then have "bnd (balloc d s) (\<lambda>addr s. ret addr (upd_inode ip (\<lambda>x. x\<lparr>i_addrs := (i_addrs x)(bn := addr)\<rparr>) s)) = ret nb (upd_inode ip (\<lambda>_. x') u)"
    by (simp add: u(1) x'_def upd_inode_def)
  moreover have "lframe (upd_inode ip (\<lambda>_. x') s) (upd_inode ip (\<lambda>_. x') u)" by (rule lframe_upd_inode [OF u(3)])
  ultimately show ?thesis unfolding bmap_post_def
    using u(2,4,9,13) blk by (intro exI [of _ "upd_inode ip (\<lambda>_. x') u"] exI [of _ V'] exI [of _ x']) simp
qed

lemma get32_entry: "j \<noteq> k \<Longrightarrow> get32 (put32 z (4 * k) v) (4 * j) = get32 z (4 * j)"
  by (rule get32_put32_other) arith

text \<open>The second half of \<^verbatim>\<open>bmap\<close>: entry \<open>k\<close> of the indirect block \<open>ib\<close>.\<close>

definition bmap_entry :: "nat \<Rightarrow> nat \<Rightarrow> uint \<Rightarrow> 'a fstate_scheme \<Rightarrow> ('a fstate_scheme, uint) out" where
  "bmap_entry ip k ib s =
     bnd (bread (i_dev (itable s ip)) ib s) (\<lambda>bp s.
       let addr = get32 (b_data (bufs s bp)) (4 * k)
       in bnd (if addr = 0
               then bnd (balloc (i_dev (itable s ip)) s) (\<lambda>addr s.
                    bnd (log_write bp (upd_buf bp (\<lambda>x. x\<lparr>b_data := put32 (b_data x) (4 * k) addr\<rparr>) s)) (\<lambda>_ s.
                    ret addr s))
               else ret addr s) (\<lambda>addr s.
          bnd (brelse bp s) (\<lambda>_ s. ret addr s)))"

lemma bmap_entry_alloc:
  fixes s :: "'a fstate_scheme"
  assumes t: "tx p d V (insert ib {}) s" and at: "buf_at d s ib i" and f: "file_ok (the_log s) (sb s) V x"
    and ib: "i_addrs x NDIRECT = ib" "ib \<noteq> 0" and k: "k < NINDIRECT" "get32 (V ib) (4 * k) = 0"
    and n: "0 < nfree (sb s) V" and room: "3 \<le> log_room s"
  shows "\<exists>nb t V'. bnd (balloc d s) (\<lambda>addr s. bnd (log_write i (upd_buf i (\<lambda>x. x\<lparr>b_data := put32 (b_data x) (4 * k) addr\<rparr>) s)) (\<lambda>_ s.
      ret addr s)) = ret nb t \<and> nb \<noteq> 0 \<and> blk_of V' x (NDIRECT + k) = nb \<and> tx p d V' (insert ib {}) t \<and> buf_at d t ib i \<and> lframe s t \<and>
    file_ok (the_log s) (sb s) V' x \<and> kept (sb s) V x V' x \<and> log_room s - 3 \<le> log_room t \<and> nfree (sb s) V \<le> nfree (sb s) V' + 1"
proof -
  let ?q = "sb s" and ?bn = "NDIRECT + k"
  have bn: "?bn < MAXFILE" "blk_of V x ?bn = 0" using k ib by (simp_all add: MAXFILE_def blk_of_def)
  have oi: "insert ib {} \<subseteq> own V x" using own_ind [of x V] ib by simp
  have r: "2 \<le> log_room s" "int (card (insert ib {})) < log_room s" using room by simp_all
  obtain nb u V1 where u: "balloc d s = ret nb u" "tx p d V1 (insert ib {}) u" "lframe s u" "log_room s - 2 \<le> log_room u"
    "\<And>b' j. buf_at d s b' j \<Longrightarrow> b' \<in> insert ib {} \<Longrightarrow> buf_at d u b' j" "file_ok (the_log s) ?q V1 x" "\<And>c. c \<in> own V x \<Longrightarrow> V1 c = V c"
    "blk_of V1 x = blk_of V x" "own V1 x = own V x" "nb \<noteq> 0" "nb \<notin> own V x" "data_ok (the_log s) ?q (i_inum x) V1 nb"
    "V1 (IBLOCK (i_inum x) ?q) = V (IBLOCK (i_inum x) ?q)" "nfree ?q V1 = nfree ?q V - 1"
    by (rule balloc_file [OF t f oi n r]) (rule that)
  have do: "data_ok (the_log s) ?q (i_inum x) V1 ib" using u(6,9) oi by (simp add: file_ok_def)
  have hu: "home_ok (the_log u) ib" "0 < log_room u"
    using do u(4) room lframe_fs(6,7) [OF u(3)] by (simp_all add: data_ok_def home_ok_def)
  let ?g = "\<lambda>z. put32 z (4 * k) nb"
  define V' where "V' = V1(ib := ?g (V1 ib))"
  obtain t3 where 3: "log_write i (upd_buf i (\<lambda>x. x\<lparr>b_data := ?g (b_data x)\<rparr>) u) = ret () t3" "tx p d V' (insert ib {}) t3"
    "lframe u t3" "log_room u - 1 \<le> log_room t3" "\<And>b' j. buf_at d u b' j \<Longrightarrow> buf_at d t3 b' j"
    by (rule tx_write [OF u(2) u(5) [OF at insertI1] insertI1 hu, where f = ?g, folded V'_def]) (rule that)
  have blk: "blk_of V' x a = (if a = ?bn then nb else blk_of V1 x a)" for a
  proof (cases "a < NDIRECT \<or> a = ?bn")
    case False
    then have "a - NDIRECT \<noteq> k" by auto
    with False show ?thesis using ib by (simp add: blk_of_def V'_def get32_entry)
  qed (use ib in \<open>auto simp: blk_of_def V'_def mem_simps\<close>)
  have sb: "same_bits ?q V1 V'" unfolding V'_def by (rule same_bits_data) (use do in \<open>auto simp: data_ok_def\<close>)
  have "file_ok (the_log s) ?q V' x"
    by (rule attach_data(1) [OF u(6,10) _ u(12) bn(1) _ sb blk]) (use bn in \<open>simp_all add: u(8,9,11)\<close>)
  moreover have "V' (blk_of V x a) = V (blk_of V x a)" if "a < MAXFILE" "blk_of V x a \<noteq> 0" for a
    using f that ib u(7) [OF own_blk [OF that]] by (auto simp: file_ok_def V'_def)
  then have "kept ?q V x V' x" unfolding kept_def using do u(8,13) blk bn(2) by (auto simp: V'_def data_ok_def)
  moreover have "nfree ?q V' = nfree ?q V - 1" using same_bits_ok(3) [OF sb] u(14) by simp
  ultimately show ?thesis using u(1,4,10) 3(1,2,4) blk 3(5) [OF u(5) [OF at insertI1]] lframe_trans [OF u(3) 3(3)]
    by (intro exI [of _ nb] exI [of _ t3] exI [of _ V']) simp
qed

lemma bmap_entry_run:
  fixes s :: "'a fstate_scheme"
  assumes t: "tx p d V {} s" and f: "file_ok (the_log s) (sb s) V (itable s ip)" and d: "i_dev (itable s ip) = d"
    and ib: "i_addrs (itable s ip) NDIRECT = ib" "ib \<noteq> 0" and k: "k < NINDIRECT"
    and n: "0 < nfree (sb s) V" and room: "3 \<le> log_room s"
  shows "bmap_post p d ip (NDIRECT + k) V 3 1 s (bmap_entry ip k ib s)"
proof -
  let ?x = "itable s ip" and ?q = "sb s" and ?bn = "NDIRECT + k"
  have blk0: "blk_of V ?x ?bn = get32 (V ib) (4 * k)" using ib by (simp add: blk_of_def)
  obtain i t1 where 1: "bread d ib s = ret i t1" "tx p d V (insert ib {}) t1" "buf_at d t1 ib i" "b_data (bufs t1 i) = V ib"
    "lframe s t1" "the_log t1 = the_log s" by (rule tx_bread [OF t _ tx_room0 [OF t]]) (auto intro: that)
  note fr1 = lframe_fs [OF 1(5)]
  let ?alloc = "if get32 (V ib) (4 * k) = 0
    then bnd (balloc d t1) (\<lambda>addr s. bnd (log_write i (upd_buf i (\<lambda>x. x\<lparr>b_data := put32 (b_data x) (4 * k) addr\<rparr>) s)) (\<lambda>_ s. ret addr s))
    else ret (get32 (V ib) (4 * k)) t1"
  have "\<exists>nb t V'. ?alloc = ret nb t \<and> nb \<noteq> 0 \<and> blk_of V' ?x ?bn = nb \<and> tx p d V' (insert ib {}) t \<and> buf_at d t ib i \<and> lframe t1 t \<and>
      file_ok (the_log t1) (sb t1) V' ?x \<and> kept (sb t1) V ?x V' ?x \<and> log_room t1 - 3 \<le> log_room t \<and> nfree (sb t1) V \<le> nfree (sb t1) V' + 1"
  proof (cases "get32 (V ib) (4 * k) = 0")
    case True
    show ?thesis unfolding if_P [OF True]
      by (rule bmap_entry_alloc [OF 1(2,3) _ ib k True]) (use f n room 1(6) fr1 in \<open>simp_all add: log_room_def\<close>)
  next
    case False
    then show ?thesis using 1(2,3,6) f fr1 blk0 by (intro exI [of _ "get32 (V ib) (4 * k)"] exI [of _ t1] exI [of _ V]) simp
  qed
  then obtain nb t2 V' where 2: "?alloc = ret nb t2" "nb \<noteq> 0" "blk_of V' ?x ?bn = nb" "tx p d V' (insert ib {}) t2" "buf_at d t2 ib i"
    "lframe t1 t2" "file_ok (the_log s) ?q V' ?x" "kept ?q V ?x V' ?x" "log_room s - 3 \<le> log_room t2" "nfree ?q V \<le> nfree ?q V' + 1"
    using 1(6) fr1 by (auto simp: log_room_def)
  obtain t4 where 4: "brelse i t2 = ret () t4" "tx p d V' (insert ib {} - {ib}) t4" "lframe t2 t4" "the_log t4 = the_log t2"
    by (rule tx_brelse [OF 2(4,5) insertI1]) (rule that)
  have "bmap_entry ip k ib s = ret nb t4"
    using 1(1,4) 2(1) 4(1) fr1 d by (cases "get32 (V ib) (4 * k) = 0") (simp_all add: bmap_entry_def Let_def)
  moreover have "lframe s t4" by (rule lframe_trans [OF 1(5) lframe_trans [OF 2(6) 4(3)]])
  ultimately show ?thesis unfolding bmap_post_def using 2 4(2,4)
    by (intro exI [of _ t4] exI [of _ V'] exI [of _ ?x]) (simp add: upd_inode_const log_room_def)
qed

lemma bmap_eq:
  "bn < NDIRECT \<Longrightarrow> bmap ip bn s = (if i_addrs (itable s ip) bn = 0
     then bnd (balloc (i_dev (itable s ip)) s) (\<lambda>addr s. ret addr (upd_inode ip (\<lambda>x. x\<lparr>i_addrs := (i_addrs x)(bn := addr)\<rparr>) s))
     else ret (i_addrs (itable s ip) bn) s)"
  "k < NINDIRECT \<Longrightarrow> bmap ip (NDIRECT + k) s =
     bnd (if i_addrs (itable s ip) NDIRECT = 0
          then bnd (balloc (i_dev (itable s ip)) s) (\<lambda>addr s. ret addr (upd_inode ip (\<lambda>x. x\<lparr>i_addrs := (i_addrs x)(NDIRECT := addr)\<rparr>) s))
          else ret (i_addrs (itable s ip) NDIRECT) s) (bmap_entry ip k)"
  by (simp_all add: bmap_def bmap_entry_def [abs_def])

lemma bmap_post_mono: "bmap_post p d ip bn V k j s r \<Longrightarrow> k \<le> k' \<Longrightarrow> j \<le> j' \<Longrightarrow> bmap_post p d ip bn V k' j' s r"
  unfolding bmap_post_def by fastforce

text \<open>The step that allocates the indirect block.\<close>

lemma bmap_indirect:
  fixes s :: "'a fstate_scheme"
  assumes t: "tx p d V {} s" and f: "file_ok (the_log s) (sb s) V (itable s ip)" and d: "i_dev (itable s ip) = d"
    and ib: "i_addrs (itable s ip) NDIRECT = 0" and k: "k < NINDIRECT" and n: "2 \<le> nfree (sb s) V" and room: "5 \<le> log_room s"
  shows "bmap_post p d ip (NDIRECT + k) V 5 2 s (bmap ip (NDIRECT + k) s)"
proof -
  let ?x = "itable s ip" and ?q = "sb s"
  obtain nb u V1 where u: "balloc d s = ret nb u" "tx p d V1 {} u" "lframe s u" "log_room s - 2 \<le> log_room u"
    "file_ok (the_log s) ?q V1 ?x" "\<And>c. c \<in> own V ?x \<Longrightarrow> V1 c = V c"
    "blk_of V1 ?x = blk_of V ?x" "own V1 ?x = own V ?x" "nb \<noteq> 0" "nb \<notin> own V ?x" "data_ok (the_log s) ?q (i_inum ?x) V1 nb"
    "\<And>i. i < BSIZE \<Longrightarrow> V1 nb i = 0" "V1 (IBLOCK (i_inum ?x) ?q) = V (IBLOCK (i_inum ?x) ?q)" "nfree ?q V1 = nfree ?q V - 1"
    by (rule balloc_file [OF t f empty_subsetI]) (use room n in \<open>auto intro: that\<close>)
  define x1 where "x1 = ?x\<lparr>i_addrs := (i_addrs ?x)(NDIRECT := nb)\<rparr>"
  define s1 where "s1 = upd_inode ip (\<lambda>_. x1) u"
  have x1: "i_addrs x1 NDIRECT = nb" "i_inum x1 = i_inum ?x" "i_dev x1 = d" using d by (simp_all add: x1_def)
  have blk: "blk_of V1 x1 a = blk_of V1 ?x a" if "a < MAXFILE" for a
    using that get32_zero [OF u(12)] ib u(9) by (auto simp: blk_of_def x1_def MAXFILE_def)
  have f1: "file_ok (the_log s) ?q V1 x1"
    by (rule attach_indirect(1) [OF u(5,9) _ u(11) blk ib x1(1,2)]) (simp add: u(8,10))
  have kp: "kept ?q V ?x V1 x1" unfolding kept_def using u(6,13) own_blk blk u(7) by (auto simp: x1_def)
  have iu: "itable u ip = ?x" using lframe_fs(2) [OF u(3)] by simp
  have s1: "tx p d V1 {} s1" "itable s1 ip = x1" "sb s1 = ?q" "file_ok (the_log s1) ?q V1 x1" "log_room s1 = log_room u"
    using u(2) lframe_fs(1) [OF u(3)] f1 file_ok_lframe [OF u(3)] by (simp_all add: s1_def upd_inode_const)
  have run: "bmap ip (NDIRECT + k) s = bmap_entry ip k nb s1"
    using ib d iu by (simp add: bmap_eq(2) [OF k] u(1) s1_def x1_def upd_inode_def)
  have "bmap_post p d ip (NDIRECT + k) V1 3 1 s1 (bmap_entry ip k nb s1)"
    by (rule bmap_entry_run) (use s1 x1 u(4,9,14) k n room in auto)
  then obtain t V' x' where r: "bmap_entry ip k nb s1 = ret (blk_of V' x' (NDIRECT + k)) t" "blk_of V' x' (NDIRECT + k) \<noteq> 0" "tx p d V' {} t"
    "lframe (upd_inode ip (\<lambda>_. x') s1) t" "file_ok (the_log s1) ?q V' x'" "kept ?q V1 x1 V' x'" "log_room s1 - 3 \<le> log_room t"
    "nfree ?q V1 \<le> nfree ?q V' + 1"
    unfolding bmap_post_def s1 by blast
  have fs1: "file_ok (the_log s1) ?q V' x' = file_ok (the_log s) ?q V' x'" using file_ok_lframe [OF u(3)] by (simp add: s1_def)
  have "upd_inode ip (\<lambda>_. x') s1 = upd_inode ip (\<lambda>_. x') u" by (simp add: s1_def upd_inode_const)
  then have "lframe (upd_inode ip (\<lambda>_. x') s) t" using lframe_trans [OF lframe_upd_inode [OF u(3)] r(4) [unfolded s1_def upd_inode_const]] by simp
  moreover have "kept ?q V ?x V' x'" by (rule kept_trans [OF kp r(6)])
  ultimately show ?thesis unfolding bmap_post_def run
    using r u(4,14) s1(5) fs1 by (intro exI [of _ t] exI [of _ V'] exI [of _ x']) simp
qed

lemma bmap_run:
  fixes s :: "'a fstate_scheme"
  assumes t: "tx p d V {} s" and f: "file_ok (the_log s) (sb s) V (itable s ip)" and d: "i_dev (itable s ip) = d"
    and bn: "bn < MAXFILE" and n: "2 \<le> nfree (sb s) V" and room: "5 \<le> log_room s"
  shows "bmap_post p d ip bn V 5 2 s (bmap ip bn s)"
proof (cases "bn < NDIRECT")
  case True
  show ?thesis
  proof (cases "i_addrs (itable s ip) bn = 0")
    case a: True
    have "bmap_post p d ip bn V 2 1 s (bmap ip bn s)" unfolding bmap_eq(1) [OF True] if_P [OF a] d
      by (rule bmap_direct [OF t f True a]) (use n room in auto)
    then show ?thesis by (rule bmap_post_mono) simp_all
  next
    case False
    then show ?thesis using t f True unfolding bmap_post_def bmap_eq(1) [OF True]
      by (intro exI [of _ s] exI [of _ V] exI [of _ "itable s ip"]) (simp add: blk_of_def upd_inode_const)
  qed
next
  case False
  define k where "k = bn - NDIRECT"
  have k: "bn = NDIRECT + k" "k < NINDIRECT" using False bn by (simp_all add: k_def MAXFILE_def)
  show ?thesis
  proof (cases "i_addrs (itable s ip) NDIRECT = 0")
    case True
    show ?thesis unfolding k(1) by (rule bmap_indirect [OF t f d True k(2) n room])
  next
    case False
    have "bmap_post p d ip bn V 3 1 s (bmap ip bn s)" unfolding k(1) bmap_eq(2) [OF k(2)]
      using bmap_entry_run [OF t f d refl False k(2)] n room False by simp
    then show ?thesis by (rule bmap_post_mono) simp_all
  qed
qed

section \<open>Writing\<close>

text \<open>The bytes \<open>bs\<close> are in the file from \<open>o1\<close> on, and all other bytes that it had are as before.\<close>

definition written :: "superblock \<Rightarrow> (uint \<Rightarrow> cptr) \<Rightarrow> inode \<Rightarrow> nat \<Rightarrow> uchar list \<Rightarrow> (uint \<Rightarrow> cptr) \<Rightarrow> inode \<Rightarrow> bool" where
  "written q V x o1 bs V' x' \<longleftrightarrow> x' = x\<lparr>i_addrs := i_addrs x'\<rparr> \<and> V' (IBLOCK (i_inum x) q) = V (IBLOCK (i_inum x) q) \<and>
     (\<forall>a < MAXFILE. blk_of V x a \<noteq> 0 \<longrightarrow> blk_of V' x' a = blk_of V x a) \<and>
     (\<forall>j < length bs. blk_of V' x' ((o1 + j) div BSIZE) \<noteq> 0 \<and> file_byte V' x' (o1 + j) = bs ! j) \<and>
     (\<forall>i. i div BSIZE < MAXFILE \<longrightarrow> blk_of V x (i div BSIZE) \<noteq> 0 \<longrightarrow> \<not> (o1 \<le> i \<and> i < o1 + length bs) \<longrightarrow>
        file_byte V' x' i = file_byte V x i)"

lemma written_Nil [simp]: "written q V x o1 [] V x"
  by (simp add: written_def)

lemma addrs_trans: "x1 = x\<lparr>i_addrs := i_addrs x1\<rparr> \<Longrightarrow> x2 = x1\<lparr>i_addrs := i_addrs x2\<rparr> \<Longrightarrow> x2 = x\<lparr>i_addrs := i_addrs x2\<rparr> \<and> i_inum x1 = i_inum x"
  by (metis inode.select_convs(2) inode.surjective inode.update_convs(11))

lemma written_append:
  assumes w: "written q V x o1 bs V1 x1" "written q V1 x1 (o1 + length bs) cs V2 x2" and mx: "o1 + length bs + length cs \<le> MAXFILE * BSIZE"
  shows "written q V x o1 (bs @ cs) V2 x2"
proof -
  have x: "x2 = x\<lparr>i_addrs := i_addrs x2\<rparr>" "i_inum x1 = i_inum x" using w addrs_trans unfolding written_def by blast+
  have blk: "blk_of V2 x2 a = blk_of V x a" "blk_of V1 x1 a = blk_of V x a" if "a < MAXFILE" "blk_of V x a \<noteq> 0" for a
    using w that unfolding written_def by auto
  have lt: "i div BSIZE < MAXFILE" if "i < o1 + length bs + length cs" for i
    using that mx by (simp add: less_mult_imp_div_less order_less_le_trans)
  have "blk_of V2 x2 ((o1 + j) div BSIZE) \<noteq> 0 \<and> file_byte V2 x2 (o1 + j) = (bs @ cs) ! j" if j: "j < length (bs @ cs)" for j
  proof (cases "j < length bs")
    case True
    then have "blk_of V1 x1 ((o1 + j) div BSIZE) \<noteq> 0" "file_byte V1 x1 (o1 + j) = bs ! j" using w(1) by (auto simp: written_def)
    with True lt [of "o1 + j"] j w(2) show ?thesis by (auto simp: written_def nth_append)
  next
    case False
    then obtain i where "j = length bs + i" "i < length cs" using j by (metis add_diff_inverse_nat length_append nat_add_left_cancel_less)
    with w(2) show ?thesis by (auto simp: written_def nth_append add.assoc)
  qed
  moreover have "file_byte V2 x2 i = file_byte V x i"
    if i: "i div BSIZE < MAXFILE" "blk_of V x (i div BSIZE) \<noteq> 0" "\<not> (o1 \<le> i \<and> i < o1 + length (bs @ cs))" for i
  proof -
    have "file_byte V1 x1 i = file_byte V x i" using w(1) i by (auto simp: written_def)
    moreover have "blk_of V1 x1 (i div BSIZE) \<noteq> 0" using blk(2) [OF i(1,2)] i(2) by simp
    then have "file_byte V2 x2 i = file_byte V1 x1 i" using w(2) i by (auto simp: written_def)
    ultimately show ?thesis by simp
  qed
  ultimately show ?thesis using x blk(1) w unfolding written_def by simp
qed

lemma write_data:
  fixes z :: cptr
  assumes f: "file_ok l q V x" and bn: "bn < MAXFILE" "blk_of V x bn \<noteq> 0"
  defines "V' \<equiv> V(blk_of V x bn := z)"
  shows "blk_of V' x = blk_of V x" "file_ok l q V' x" "nfree q V' = nfree q V" "V' (IBLOCK (i_inum x) q) = V (IBLOCK (i_inum x) q)"
proof -
  have o: "blk_of V x bn \<in> own V x" by (rule own_blk [OF bn])
  have d: "data_ok l q (i_inum x) V (blk_of V x bn)" using f o by (simp add: file_ok_def)
  have ni: "blk_of V x bn \<noteq> i_addrs x NDIRECT" using f bn by (simp add: file_ok_def)
  show blk: "blk_of V' x = blk_of V x" by (rule blk_of_cong) (use ni in \<open>simp add: V'_def\<close>)
  have own: "own V' x = own V x" by (simp add: own_def blk)
  have sb: "same_bits q V V'" unfolding V'_def by (rule same_bits_data) (use d in \<open>auto simp: data_ok_def\<close>)
  show "nfree q V' = nfree q V" by (rule same_bits_ok(3) [OF sb])
  show "file_ok l q V' x" using f same_bits_ok(1,2) [OF sb] sb unfolding file_ok_def own blk by (auto simp: same_bits_def)
  show "V' (IBLOCK (i_inum x) q) = V (IBLOCK (i_inum x) q)" using d by (auto simp: V'_def data_ok_def)
qed

text \<open>One round of the loop: \<open>bmap\<close>, then the bytes inside one block.\<close>

lemma written_chunk:
  fixes bs :: "uchar list"
  assumes k: "kept q V x V1 x1" and f: "file_ok l q V1 x1" and bn: "o1 div BSIZE < MAXFILE" "blk_of V1 x1 (o1 div BSIZE) \<noteq> 0"
    and c: "o1 mod BSIZE + length bs \<le> BSIZE"
  defines "b \<equiv> blk_of V1 x1 (o1 div BSIZE)"
  shows "written q V x o1 bs (V1(b := put_bytes (V1 b) (o1 mod BSIZE) bs)) x1"
proof -
  define V2 where "V2 = V1(b := put_bytes (V1 b) (o1 mod BSIZE) bs)"
  note w = write_data [OF f bn, of "put_bytes (V1 b) (o1 mod BSIZE) bs", folded b_def, folded V2_def]
  have inj: "a = o1 div BSIZE" if "a < MAXFILE" "blk_of V1 x1 a = b" for a using f bn that unfolding file_ok_def b_def by metis
  have x: "i_inum x1 = i_inum x" "x1 = x\<lparr>i_addrs := i_addrs x1\<rparr>" using k addrs_trans [of x1 x x1] by (auto simp: kept_def)
  have "file_byte V2 x1 (o1 + j) = bs ! j" if "j < length bs" for j
    using that by (simp add: file_byte_def w(1) same_block [OF c that]) (simp add: V2_def b_def [symmetric] put_bytes_def)
  moreover have "blk_of V2 x1 ((o1 + j) div BSIZE) \<noteq> 0" if "j < length bs" for j
    using bn by (simp add: w(1) same_block [OF c that])
  moreover have "file_byte V2 x1 i = file_byte V x i"
    if i: "i div BSIZE < MAXFILE" "blk_of V x (i div BSIZE) \<noteq> 0" "\<not> (o1 \<le> i \<and> i < o1 + length bs)" for i
  proof -
    have kb: "blk_of V1 x1 (i div BSIZE) = blk_of V x (i div BSIZE)" "V1 (blk_of V x (i div BSIZE)) = V (blk_of V x (i div BSIZE))"
      using k i by (auto simp: kept_def)
    show ?thesis
    proof (cases "blk_of V x (i div BSIZE) = b")
      case False
      then show ?thesis unfolding file_byte_def w(1) using kb by (simp add: V2_def)
    next
      case True
      then have e: "i div BSIZE = o1 div BSIZE" using inj [OF i(1)] kb(1) by simp
      have "\<not> (o1 mod BSIZE \<le> i mod BSIZE \<and> i mod BSIZE < o1 mod BSIZE + length bs)"
        using i(3) div_mult_mod_eq [of i BSIZE, unfolded e] div_mult_mod_eq [of o1 BSIZE] by linarith
      then show ?thesis unfolding file_byte_def w(1) using kb True by (auto simp: V2_def put_bytes_def)
    qed
  qed
  ultimately show ?thesis using x k w(1,4) unfolding written_def V2_def [symmetric] by (auto simp: kept_def)
qed

lemma unat_chunk: "unat (chunk lft off) = min (unat lft) (BSIZE - unat off mod BSIZE)"
proof -
  have "unat (of_nat BSIZE - off mod of_nat BSIZE :: uint) = BSIZE - unat off mod BSIZE"
    by (simp add: BSIZE_def unat_sub word_le_nat_alt unat_mod_distrib)
  then show ?thesis by (simp add: chunk_def min_def word_le_nat_alt)
qed

lemma chunk_count:
  assumes "m = min r (BSIZE - o1 mod BSIZE)" "r + o1 mod BSIZE \<le> k * BSIZE" "0 < r"
  shows "r - m = 0 \<or> (r - m) + (o1 + m) mod BSIZE \<le> (k - 1) * BSIZE"
proof (cases "r \<le> BSIZE - o1 mod BSIZE")
  case False
  have lt: "o1 mod BSIZE < BSIZE" by simp
  have m: "m = BSIZE - o1 mod BSIZE" using False assms(1) by simp
  have "(o1 div BSIZE + 1) * BSIZE = o1 div BSIZE * BSIZE + BSIZE" by simp
  then have "o1 + m = (o1 div BSIZE + 1) * BSIZE" using m lt div_mult_mod_eq [of o1 BSIZE] by linarith
  then have "(o1 + m) mod BSIZE = 0" by simp
  moreover have "r - m \<le> (k - 1) * BSIZE" using assms(2) m lt by (simp add: diff_mult_distrib)
  ultimately show ?thesis by simp
qed (use assms(1) in simp)

lemma writei_round:
  fixes s :: "'a fstate_scheme"
  assumes t: "tx p d V {} s" and f: "file_ok (the_log s) (sb s) V (itable s ip)" and d: "i_dev (itable s ip) = d" and n: "tot < n"
    and len: "length bs = unat (n - tot)" and mx: "unat off + unat (n - tot) \<le> MAXFILE * BSIZE"
    and free: "2 \<le> nfree (sb s) V" and room: "6 \<le> log_room s"
  defines "m \<equiv> chunk (n - tot) off"
  shows "\<exists>t V' x'. writei_loop ip (S_local bs) off n tot s = writei_loop ip (S_local (drop (unat m) bs)) (off + m) n (tot + m) t \<and>
    tx p d V' {} t \<and> lframe (upd_inode ip (\<lambda>_. x') s) t \<and> file_ok (the_log s) (sb s) V' x' \<and> log_room s - 6 \<le> log_room t \<and>
    nfree (sb s) V \<le> nfree (sb s) V' + 2 \<and> written (sb s) V (itable s ip) (unat off) (take (unat m) bs) V' x'"
proof -
  let ?x = "itable s ip" and ?q = "sb s" and ?bn = "unat off div BSIZE" and ?cs = "take (unat m) bs"
  have "MAXFILE * BSIZE < 2 ^ 32" by (simp add: MAXFILE_def NDIRECT_def NINDIRECT_def BSIZE_def)
  then have lt: "unat off + unat (n - tot) < 2 ^ 32" using mx by linarith
  note c = chunk_facts [OF n lt, folded m_def]
  have bn: "?bn < MAXFILE" using mx c(1,2) by (simp add: less_mult_imp_div_less)
  have cs: "unat off mod BSIZE + length ?cs \<le> BSIZE" using c(2,3) len by simp
  have "bmap_post p d ip ?bn V 5 2 s (bmap ip ?bn s)" by (rule bmap_run [OF t f d bn free]) (use room in simp)
  then obtain t1 V1 x1 where 1: "bmap ip ?bn s = ret (blk_of V1 x1 ?bn) t1" "blk_of V1 x1 ?bn \<noteq> 0" "tx p d V1 {} t1"
    "lframe (upd_inode ip (\<lambda>_. x1) s) t1" "file_ok (the_log s) ?q V1 x1" "kept ?q V ?x V1 x1" "log_room s - 5 \<le> log_room t1"
    "nfree ?q V \<le> nfree ?q V1 + 2" unfolding bmap_post_def by blast
  define b where "b = blk_of V1 x1 ?bn"
  have x1: "itable t1 ip = x1" "i_dev x1 = d"
    using lframe_fs(2) [OF 1(4)] 1(6) d by (simp_all add: upd_inode_const kept_def) (metis inode.select_convs(1) inode.surjective inode.update_convs(11))
  obtain j t2 where 2: "bread d b t1 = ret j t2" "tx p d V1 (insert b {}) t2" "buf_at d t2 b j" "lframe t1 t2" "the_log t2 = the_log t1"
    by (rule tx_bread [OF 1(3) _ tx_room0 [OF 1(3)]]) (auto intro: that)
  have l2: "lframe (upd_inode ip (\<lambda>_. x1) s) t2" by (rule lframe_trans [OF 1(4) 2(4)])
  have "data_ok (the_log s) ?q (i_inum x1) V1 b" using 1(5) own_blk [OF bn 1(2)] by (simp add: file_ok_def b_def)
  then have h2: "home_ok (the_log t2) b" "0 < log_room t2"
    using lframe_fs(6,7) [OF l2] 1(7) 2(5) room by (simp_all add: data_ok_def home_ok_def log_room_def)
  let ?g = "\<lambda>z. put_bytes z (unat off mod BSIZE) ?cs"
  obtain t3 where 3: "log_write j (upd_buf j (\<lambda>x. x\<lparr>b_data := ?g (b_data x)\<rparr>) t2) = ret () t3" "tx p d (V1(b := ?g (V1 b))) (insert b {}) t3"
    "lframe t2 t3" "log_room t2 - 1 \<le> log_room t3" "\<And>b' j. buf_at d t2 b' j \<Longrightarrow> buf_at d t3 b' j"
    by (rule tx_write [OF 2(2,3) insertI1 h2, where f = ?g]) (rule that)
  obtain t4 where 4: "brelse j t3 = ret () t4" "tx p d (V1(b := ?g (V1 b))) (insert b {} - {b}) t4" "lframe t3 t4" "the_log t4 = the_log t3"
    by (rule tx_brelse [OF 3(2) 3(5) [OF 2(3)] insertI1]) (rule that)
  note w = write_data [OF 1(5) bn 1(2), of "?g (V1 b)", folded b_def] written_chunk [OF 1(6,5) bn 1(2) cs, folded b_def]
  have "writei_loop ip (S_local bs) off n tot s = writei_loop ip (S_local (drop (unat m) bs)) (off + m) n (tot + m) t4"
    using n 1(1) 2(1) 3(1) 4(1) tx_copy(2) [OF 2(2)] x1
    by (subst writei_loop.simps) (simp add: unat_BSIZE m_def [symmetric] b_def [symmetric] src_add_def)
  moreover have "log_room s - 6 \<le> log_room t4" using 1(7) 2(5) 3(4) 4(4) by (simp add: log_room_def)
  ultimately show ?thesis using w(2,3,5) 4(2) 1(8) lframe_trans [OF l2 lframe_trans [OF 3(3) 4(3)]]
    by (intro exI [of _ t4] exI [of _ "V1(b := ?g (V1 b))"] exI [of _ x1]) simp
qed

text \<open>\<open>k\<close> blocks are touched: two may be allocated for each, and six blocks of the log used.\<close>

lemma writei_loop_run:
  fixes s :: "'a fstate_scheme"
  shows "tx p d V {} s \<Longrightarrow> file_ok (the_log s) (sb s) V (itable s ip) \<Longrightarrow> i_dev (itable s ip) = d \<Longrightarrow> tot \<le> n \<Longrightarrow>
    length bs = unat (n - tot) \<Longrightarrow> unat off + unat (n - tot) \<le> MAXFILE * BSIZE \<Longrightarrow>
    unat (n - tot) = 0 \<or> unat (n - tot) + unat off mod BSIZE \<le> k * BSIZE \<Longrightarrow> 2 * k \<le> nfree (sb s) V \<Longrightarrow> 6 * int k \<le> log_room s \<Longrightarrow>
    \<exists>t V' x'. writei_loop ip (S_local bs) off n tot s = ret (n, off + (n - tot)) t \<and> tx p d V' {} t \<and>
      lframe (upd_inode ip (\<lambda>_. x') s) t \<and> file_ok (the_log s) (sb s) V' x' \<and> log_room s - 6 * int k \<le> log_room t \<and>
      written (sb s) V (itable s ip) (unat off) bs V' x'"
proof (induction "unat (n - tot)" arbitrary: s V off tot bs k rule: less_induct)
  case less
  let ?x = "itable s ip" and ?q = "sb s"
  show ?case
  proof (cases "tot < n")
    case False
    then have "tot = n" using less.prems(4) by simp
    then show ?thesis using less.prems
      by (intro exI [of _ s] exI [of _ V] exI [of _ ?x]) (simp add: writei_loop.simps upd_inode_const)
  next
    case True
    let ?m = "chunk (n - tot) off"
    have "MAXFILE * BSIZE < 2 ^ 32" by (simp add: MAXFILE_def NDIRECT_def NINDIRECT_def BSIZE_def)
    then have lt: "unat off + unat (n - tot) < 2 ^ 32" using less.prems(6) by linarith
    note c = chunk_facts [OF True lt]
    have r0: "0 < unat (n - tot)" using c(1,2) by simp
    have k: "1 \<le> k" "unat (n - tot) + unat off mod BSIZE \<le> k * BSIZE" using less.prems(7) r0 by (cases k, auto)
    have kn: "2 \<le> nfree ?q V" "6 \<le> log_room s" using less.prems(8,9) k(1) by linarith+
    obtain t1 V1 x1 where 1: "writei_loop ip (S_local bs) off n tot s = writei_loop ip (S_local (drop (unat ?m) bs)) (off + ?m) n (tot + ?m) t1"
      "tx p d V1 {} t1" "lframe (upd_inode ip (\<lambda>_. x1) s) t1" "file_ok (the_log s) ?q V1 x1" "log_room s - 6 \<le> log_room t1"
      "nfree ?q V \<le> nfree ?q V1 + 2" "written ?q V ?x (unat off) (take (unat ?m) bs) V1 x1"
      using writei_round [OF less.prems(1-3) True less.prems(5,6) kn] by blast
    note fr = lframe_fs [OF 1(3), simplified upd_inode_const tx_upd_inode]
    have fo: "file_ok (the_log t1) ?q W y = file_ok (the_log s) ?q W y" for W y using file_ok_lframe [OF 1(3)] by simp
    have x1: "i_dev x1 = d" using 1(7) less.prems(3) unfolding written_def
      by (metis inode.select_convs(1) inode.surjective inode.update_convs(11))
    have it1: "itable t1 ip = x1" "sb t1 = ?q" using fr by (simp_all add: upd_inode_const)
    have cnt: "unat (n - tot) - unat ?m = 0 \<or> unat (n - tot) - unat ?m + (unat off + unat ?m) mod BSIZE \<le> (k - 1) * BSIZE"
      by (rule chunk_count [OF unat_chunk k(2) r0])
    have bounds: "unat (n - (tot + ?m)) < unat (n - tot)" "length (drop (unat ?m) bs) = unat (n - (tot + ?m))"
      "unat (off + ?m) + unat (n - (tot + ?m)) \<le> MAXFILE * BSIZE" "2 * (k - 1) \<le> nfree ?q V1" "6 * int (k - 1) \<le> log_room t1"
      using c less.prems(5,6,8,9) 1(5,6) k(1) by simp_all
    obtain t V' x' where t: "writei_loop ip (S_local (drop (unat ?m) bs)) (off + ?m) n (tot + ?m) t1 = ret (n, off + ?m + (n - (tot + ?m))) t"
      "tx p d V' {} t" "lframe (upd_inode ip (\<lambda>_. x') t1) t" "file_ok (the_log t1) ?q V' x'" "log_room t1 - 6 * int (k - 1) \<le> log_room t"
      "written ?q V1 x1 (unat (off + ?m)) (drop (unat ?m) bs) V' x'"
      using less.hyps [OF bounds(1) 1(2), unfolded it1 fo, OF 1(4) x1 c(6) bounds(2,3) _ bounds(4,5)] cnt c by (auto simp: fo)
    have lm: "length (take (unat ?m) bs) = unat ?m" using c(2) less.prems(5) by simp
    have "written ?q V ?x (unat off) (take (unat ?m) bs @ drop (unat ?m) bs) V' x'"
      by (rule written_append [OF 1(7)]) (use t(6) c less.prems(5,6) lm in simp_all)
    then have w: "written ?q V ?x (unat off) bs V' x'" by simp
    have "upd_inode ip (\<lambda>_. x') (upd_inode ip (\<lambda>_. x1) s) = upd_inode ip (\<lambda>_. x') s" by (simp add: upd_inode_const)
    then have "lframe (upd_inode ip (\<lambda>_. x') s) t" using lframe_trans [OF lframe_upd_inode [OF 1(3)] t(3)] by simp
    moreover have "log_room s - 6 * int k \<le> log_room t" using 1(5) t(5) k(1) by linarith
    ultimately show ?thesis using 1(1) t(1,2,4) w fo by (intro exI [of _ t] exI [of _ V'] exI [of _ x']) simp
  qed
qed

section \<open>The inode on the disk\<close>

lemma iupdate_run:
  fixes s :: "'a fstate_scheme"
  assumes t: "tx p d V {} s" and x: "itable s ip = x" "i_dev x = d" and h: "home_ok (the_log s) (IBLOCK (i_inum x) (sb s))" "0 < log_room s"
  defines "ib \<equiv> IBLOCK (i_inum x) (sb s)"
  obtains t where "iupdate ip s = ret () t" "tx p d (V(ib := dinode_store (dip (i_inum x)) x (V ib))) {} t" "lframe s t"
    "log_room s - 1 \<le> log_room t"
proof -
  obtain j t2 where 2: "bread d ib s = ret j t2" "tx p d V (insert ib {}) t2" "buf_at d t2 ib j" "lframe s t2" "the_log t2 = the_log s"
    by (rule tx_bread [OF t _ tx_room0 [OF t]]) (auto intro: that)
  have h2: "home_ok (the_log t2) ib" "0 < log_room t2" using h 2(5) by (simp_all add: ib_def log_room_def)
  let ?g = "dinode_store (dip (i_inum x)) x"
  obtain t3 where 3: "log_write j (upd_buf j (\<lambda>x. x\<lparr>b_data := ?g (b_data x)\<rparr>) t2) = ret () t3" "tx p d (V(ib := ?g (V ib))) (insert ib {}) t3"
    "lframe t2 t3" "log_room t2 - 1 \<le> log_room t3" "\<And>b' j. buf_at d t2 b' j \<Longrightarrow> buf_at d t3 b' j"
    by (rule tx_write [OF 2(2,3) insertI1 h2, where f = ?g]) (rule that)
  obtain t4 where 4: "brelse j t3 = ret () t4" "tx p d (V(ib := ?g (V ib))) (insert ib {} - {ib}) t4" "lframe t3 t4" "the_log t4 = the_log t3"
    by (rule tx_brelse [OF 3(2) 3(5) [OF 2(3)] insertI1]) (rule that)
  have "itable t2 ip = x" using lframe_fs(2) [OF 2(4)] x(1) by simp
  then have "iupdate ip s = ret () t4" using 2(1) 3(1) 4(1) x by (simp add: iupdate_def ib_def)
  with that [of t4] 4(2) lframe_trans [OF 2(4) lframe_trans [OF 3(3) 4(3)]] 3(4) 4(4) 2(5) show ?thesis by (simp add: log_room_def)
qed

lemma put32_fold_before:
  "off + 2 \<le> o1 \<Longrightarrow> get16 (fold (\<lambda>k d. put32 d (o1 + 4 * k) (f k)) ks d) off = get16 d off"
  "off + 4 \<le> o1 \<Longrightarrow> get32 (fold (\<lambda>k d. put32 d (o1 + 4 * k) (f k)) ks d) off = get32 d off"
  by (induction ks arbitrary: d) (simp_all add: get16_put32_other get32_put32_other)

lemma put32_fold_other:
  "j \<notin> set ks \<Longrightarrow> get32 (fold (\<lambda>k d. put32 d (o1 + 4 * k) (f k)) ks d) (o1 + 4 * j) = get32 d (o1 + 4 * j)"
proof (induction ks arbitrary: d)
  case (Cons k ks)
  have "o1 + 4 * j + 4 \<le> o1 + 4 * k \<or> o1 + 4 * k + 4 \<le> o1 + 4 * j" using Cons.prems by auto
  with Cons show ?case by (auto simp: get32_put32_other)
qed simp

lemma put32_fold_get:
  "distinct ks \<Longrightarrow> j \<in> set ks \<Longrightarrow> get32 (fold (\<lambda>k d. put32 d (o1 + 4 * k) (f k)) ks d) (o1 + 4 * j) = f j"
  by (induction ks arbitrary: d) (auto simp: put32_fold_other get32_put32)

lemma dinode_load_store:
  assumes "\<And>k. NDIRECT < k \<Longrightarrow> i_addrs y k = i_addrs x k"
  shows "dinode_load (dinode_store o1 x d) o1 y = y\<lparr>i_type := i_type x, i_major := i_major x, i_minor := i_minor x,
    i_nlink := i_nlink x, i_size := i_size x, i_addrs := i_addrs x\<rparr>"
proof -
  have "(\<lambda>k. if k < NDIRECT + 1 then get32 (dinode_store o1 x d) (o1 + 12 + 4 * k) else i_addrs y k) = i_addrs x"
    using assms by (auto simp: dinode_store_def fun_eq_iff put32_fold_get simp del: upt_Suc)
  then show ?thesis unfolding dinode_load_def
    by (simp add: dinode_store_def put32_fold_before mem_simps del: upt_Suc)
qed

text \<open>Storing the inode leaves the file alone.\<close>

lemma store_inode:
  fixes w :: cptr
  assumes f: "file_ok l q V x" and y: "y = x\<lparr>i_size := z\<rparr>"
  defines "V' \<equiv> V(IBLOCK (i_inum x) q := w)"
  shows "file_ok l q V' y" "blk_of V' y = blk_of V x" "\<And>i. i div BSIZE < MAXFILE \<Longrightarrow> blk_of V x (i div BSIZE) \<noteq> 0 \<Longrightarrow> file_byte V' y i = file_byte V x i"
proof -
  have nin: "b \<noteq> IBLOCK (i_inum x) q" if "b \<in> own V x" for b using f that by (auto simp: file_ok_def data_ok_def)
  have "blk_of V' x = blk_of V x" by (rule blk_of_cong) (use nin own_ind in \<open>auto simp: V'_def\<close>)
  moreover have "blk_of V' y = blk_of V' x" by (rule ext) (simp add: blk_of_def y)
  ultimately show blk: "blk_of V' y = blk_of V x" by simp
  have own: "own V' y = own V x" unfolding own_def blk by (simp add: y)
  have sb: "same_bits q V V'" unfolding V'_def by (rule same_bits_data) (use f in \<open>auto simp: file_ok_def inode_ok_def\<close>)
  show "file_ok l q V' y" using f same_bits_ok(1,2) [OF sb] sb unfolding file_ok_def own blk by (auto simp: same_bits_def y)
  show "file_byte V' y i = file_byte V x i" if "i div BSIZE < MAXFILE" "blk_of V x (i div BSIZE) \<noteq> 0" for i
    unfolding file_byte_def blk using nin [OF own_blk [OF that]] by (simp add: V'_def)
qed

definition in_range :: "nat \<Rightarrow> nat \<Rightarrow> nat \<Rightarrow> bool" where
  "in_range a k i \<longleftrightarrow> a \<le> i \<and> i < a + k"

text \<open>The file after \<^verbatim>\<open>writei\<close> of \<open>bs\<close> at \<open>o1\<close>, which is not past the end of the file.\<close>

lemma written_file:
  assumes m: "mapped V x" and w: "written q V x o1 bs V1 x1" and o: "o1 \<le> unat (i_size x)" "o1 + length bs \<le> MAXFILE * BSIZE"
    and y: "unat (i_size y) = max (unat (i_size x)) (o1 + length bs)"
    and blk: "blk_of V2 y = blk_of V1 x1" and byte: "\<And>i. i div BSIZE < MAXFILE \<Longrightarrow> blk_of V1 x1 (i div BSIZE) \<noteq> 0 \<Longrightarrow> file_byte V2 y i = file_byte V1 x1 i"
  shows "mapped V2 y" "\<And>i. i < unat (i_size y) \<Longrightarrow> file_byte V2 y i = (if in_range o1 (length bs) i then bs ! (i - o1) else file_byte V x i)"
proof -
  have old: "i div BSIZE < MAXFILE \<and> blk_of V x (i div BSIZE) \<noteq> 0 \<and> blk_of V1 x1 (i div BSIZE) \<noteq> 0" if "i < unat (i_size x)" for i
  proof -
    have "i div BSIZE * BSIZE < unat (i_size x)" using that div_times_less_eq_dividend [of i BSIZE] by linarith
    with m w show ?thesis by (auto simp: mapped_def written_def)
  qed
  have new: "i div BSIZE < MAXFILE \<and> blk_of V1 x1 (i div BSIZE) \<noteq> 0 \<and> file_byte V1 x1 i = bs ! (i - o1)" if "in_range o1 (length bs) i" for i
  proof -
    define j where "j = i - o1"
    have j: "i = o1 + j" "j < length bs" using that by (auto simp: in_range_def j_def)
    then have "i div BSIZE < MAXFILE" using o(2) by (simp add: less_mult_imp_div_less)
    with j w show ?thesis by (auto simp: written_def)
  qed
  have all: "i < unat (i_size x) \<or> in_range o1 (length bs) i" if "i < unat (i_size y)" for i using that y o(1) by (auto simp: in_range_def)
  show "mapped V2 y" unfolding mapped_def blk
  proof (intro allI impI)
    fix bn assume "bn * BSIZE < unat (i_size y)"
    from all [OF this] old [of "bn * BSIZE"] new [of "bn * BSIZE"] show "bn < MAXFILE \<and> blk_of V1 x1 bn \<noteq> 0" by auto
  qed
  show "file_byte V2 y i = (if in_range o1 (length bs) i then bs ! (i - o1) else file_byte V x i)" if "i < unat (i_size y)" for i
  proof (cases "in_range o1 (length bs) i")
    case True
    with new [OF True] byte show ?thesis by auto
  next
    case False
    then have l: "i < unat (i_size x)" using all [OF that] by simp
    then have "file_byte V1 x1 i = file_byte V x i" using old [OF l] w False by (auto simp: written_def in_range_def)
    with False byte old [OF l] show ?thesis by simp
  qed
qed

lemma writei_bounds:
  fixes off n sz :: uint
  shows "unat off \<le> unat sz \<and> unat off + unat n \<le> MAXFILE * BSIZE \<longleftrightarrow> \<not> (off > sz \<or> off + n < off) \<and> \<not> off + n > of_nat (MAXFILE * BSIZE)"
    "unat off + unat n \<le> MAXFILE * BSIZE \<Longrightarrow> unat (off + n) = unat off + unat n"
proof -
  have mf: "MAXFILE * BSIZE < 2 ^ 32" "unat (of_nat (MAXFILE * BSIZE) :: uint) = MAXFILE * BSIZE"
    by (simp_all add: MAXFILE_def NDIRECT_def NINDIRECT_def BSIZE_def)
  have wrap: "off + n < off \<longleftrightarrow> \<not> unat off + unat n < 2 ^ 32"
    using unsigned_less [of n, where ?'a = nat] unsigned_less [of off, where ?'a = nat]
    by (auto simp: word_less_nat_alt unat_word_ariths mod_if)
  have un: "unat off + unat n < 2 ^ 32 \<Longrightarrow> unat (off + n) = unat off + unat n" by (simp add: unat_word_ariths)
  show "unat off \<le> unat sz \<and> unat off + unat n \<le> MAXFILE * BSIZE \<longleftrightarrow> \<not> (off > sz \<or> off + n < off) \<and> \<not> off + n > of_nat (MAXFILE * BSIZE)"
    using wrap un mf by (auto simp: word_less_nat_alt not_le)
  show "unat off + unat n \<le> MAXFILE * BSIZE \<Longrightarrow> unat (off + n) = unat off + unat n" using un mf(1) by linarith
qed

text \<open>The end of \<^verbatim>\<open>writei\<close>: the size is adjusted and the inode stored.\<close>

lemma writei_end:
  fixes s :: "'a fstate_scheme" and e :: uint
  assumes t: "tx p d V {} s" and f: "file_ok (the_log s) (sb s) V x" and x: "itable s ip = x" "i_dev x = d" and r: "0 < log_room s"
  defines "y \<equiv> if e > i_size x then x\<lparr>i_size := e\<rparr> else x" and "b \<equiv> IBLOCK (i_inum x) (sb s)"
  obtains t V' where "iupdate ip (if e > i_size (itable s ip) then upd_inode ip (\<lambda>x. x\<lparr>i_size := e\<rparr>) s else s) = ret () t" "tx p d V' {} t"
    "itable t ip = y" "lframe (upd_inode ip (\<lambda>_. y) s) t" "file_ok (the_log s) (sb s) V' y" "blk_of V' y = blk_of V x"
    "\<And>i. i div BSIZE < MAXFILE \<Longrightarrow> blk_of V x (i div BSIZE) \<noteq> 0 \<Longrightarrow> file_byte V' y i = file_byte V x i" "dinode_load (V' b) (dip (i_inum x)) y = y"
proof -
  define s1 where "s1 = upd_inode ip (\<lambda>_. y) s"
  define V' where "V' = V(b := dinode_store (dip (i_inum x)) y (V b))"
  have y: "y = x\<lparr>i_size := i_size y\<rparr>" "i_inum y = i_inum x" "i_dev y = d" using x by (simp_all add: y_def)
  have s1: "tx p d V {} s1" "itable s1 ip = y" "sb s1 = sb s" using t by (simp_all add: s1_def upd_inode_const)
  have h: "home_ok (the_log s1) (IBLOCK (i_inum y) (sb s1))" "0 < log_room s1"
    using f r y(2) by (simp_all add: s1_def file_ok_def inode_ok_def)
  obtain t2 where 2: "iupdate ip s1 = ret () t2" "tx p d V' {} t2" "lframe s1 t2"
    using iupdate_run [OF s1(1,2) y(3) h] y(2) s1(3) unfolding V'_def b_def by metis
  have "(if e > i_size (itable s ip) then upd_inode ip (\<lambda>x. x\<lparr>i_size := e\<rparr>) s else s) = s1"
    using x(1) by (auto simp: s1_def y_def upd_inode_def)
  moreover note st = store_inode [OF f y(1), where w = "dinode_store (dip (i_inum x)) y (V b)", folded b_def, folded V'_def]
  moreover have "itable t2 ip = y" using lframe_fs(2) [OF 2(3)] s1(2) by simp
  moreover have "dinode_load (V' b) (dip (i_inum x)) y = y" by (simp add: V'_def dinode_load_store)
  ultimately show ?thesis using that [of t2 V'] 2 by (simp add: s1_def)
qed

text \<open>
  C3. \<^verbatim>\<open>writei\<close> from a kernel buffer to a file without holes, not past its end and within the largest file size, with
  enough free blocks and room in the log for the \<open>k\<close> blocks that it touches: it returns the number of bytes;
  the file has these bytes at the offset and all its other bytes as before, is extended when necessary, has no
  holes and a well-formed block map, and its inode is stored. Outside these bounds it returns -1 and does nothing.
\<close>

theorem writei_correct:
  fixes s :: "'a fstate_scheme" and off n :: uint
  assumes t: "tx p d V {} s" and f: "file_ok (the_log s) (sb s) V x" and x: "itable s ip = x" "i_dev x = d" and m: "mapped V x"
    and len: "length bs = unat n" and k: "unat n + unat off mod BSIZE \<le> k * BSIZE" "2 * k \<le> nfree (sb s) V" "6 * int k < log_room s"
  shows "if unat off \<le> unat (i_size x) \<and> unat off + unat n \<le> MAXFILE * BSIZE
    then \<exists>t V' x'. writei ip (S_local bs) off n s = ret (sint n) t \<and> tx p d V' {} t \<and> itable t ip = x' \<and>
      file_ok (the_log t) (sb t) V' x' \<and> mapped V' x' \<and> unat (i_size x') = max (unat (i_size x)) (unat off + unat n) \<and>
      (\<forall>i < unat (i_size x'). file_byte V' x' i = (if in_range (unat off) (unat n) i then bs ! (i - unat off) else file_byte V x i)) \<and>
      dinode_load (V' (IBLOCK (i_inum x) (sb s))) (dip (i_inum x)) x' = x' \<and> lframe (upd_inode ip (\<lambda>_. x') s) t
    else writei ip (S_local bs) off n s = ret (-1) s"
proof (cases "unat off \<le> unat (i_size x) \<and> unat off + unat n \<le> MAXFILE * BSIZE")
  case False
  then show ?thesis unfolding writei_bounds(1) using x(1) by (auto simp: writei_def)
next
  case True
  let ?q = "sb s"
  obtain t1 V1 x1 where 1: "writei_loop ip (S_local bs) off n 0 s = ret (n, off + (n - 0)) t1" "tx p d V1 {} t1"
    "lframe (upd_inode ip (\<lambda>_. x1) s) t1" "file_ok (the_log s) ?q V1 x1" "log_room s - 6 * int k \<le> log_room t1" "written ?q V x (unat off) bs V1 x1"
    using writei_loop_run [OF t, of ip 0 n bs off k] f x len k True by auto
  have x1: "i_inum x1 = i_inum x" "i_dev x1 = d" "i_size x1 = i_size x" using 1(6) x(2) unfolding written_def
    by (metis inode.select_convs(1,2,10) inode.surjective inode.update_convs(11))+
  have ix: "itable t1 ip = x1" "sb t1 = ?q" using lframe_fs(1,2) [OF 1(3)] by (simp_all add: upd_inode_const)
  have f1: "file_ok (the_log t1) (sb t1) V1 x1" "0 < log_room t1" using 1(4,5) k(3) file_ok_lframe [OF 1(3)] ix(2) by simp_all
  define y where "y = (if off + n > i_size x1 then x1\<lparr>i_size := off + n\<rparr> else x1)"
  obtain t2 V2 where 2: "iupdate ip (if off + n > i_size (itable t1 ip) then upd_inode ip (\<lambda>x. x\<lparr>i_size := off + n\<rparr>) t1 else t1) = ret () t2"
    "tx p d V2 {} t2" "itable t2 ip = y" "lframe (upd_inode ip (\<lambda>_. y) t1) t2" "file_ok (the_log t1) ?q V2 y" "blk_of V2 y = blk_of V1 x1"
    "\<And>i. i div BSIZE < MAXFILE \<Longrightarrow> blk_of V1 x1 (i div BSIZE) \<noteq> 0 \<Longrightarrow> file_byte V2 y i = file_byte V1 x1 i"
    "dinode_load (V2 (IBLOCK (i_inum x) ?q)) (dip (i_inum x)) y = y"
    by (rule writei_end [OF 1(2) f1(1) ix(1) x1(2) f1(2), of "off + n", folded y_def, unfolded x1(1) ix(2)]) (rule that)
  have sz: "unat (i_size y) = max (unat (i_size x)) (unat off + length bs)"
    using writei_bounds(2) [of off n] True by (simp add: y_def x1 len word_less_nat_alt)
  note wf = written_file [OF m 1(6) _ _ sz 2(6,7), unfolded len]
  have fr: "lframe (upd_inode ip (\<lambda>_. y) s) t2" using lframe_trans [OF lframe_upd_inode [OF 1(3), of ip "\<lambda>_. y"] 2(4)] by (simp add: upd_inode_const)
  have "file_ok (the_log t2) (sb t2) V2 y" using 2(5) file_ok_lframe [OF 1(3)] file_ok_lframe [OF fr] lframe_fs(1) [OF fr] by simp
  moreover have "writei ip (S_local bs) off n s = ret (sint n) t2"
    using True 1(1) 2(1) x(1) unfolding writei_bounds(1) writei_def by (simp only: if_False Let_def bnd_ret prod.case diff_zero)
  ultimately show ?thesis unfolding if_P [OF True]
    using True 2(2,3,8) wf sz len fr by (intro exI [of _ t2] exI [of _ V2] exI [of _ y]) simp
qed

section \<open>Appending to a small file\<close>

lemma file_free: "x < 1000 \<Longrightarrow> free_bit demo_sb file_disk x \<longleftrightarrow> 40 \<le> x"
  using demo_free [of x] by (simp add: free_bit_def demo_BBLOCK file_disk_def)

lemma demo_size: "unat (sb_size demo_sb) = 1000"
  by (simp add: demo_sb_def)

lemma demo_iblock: "IBLOCK (i_inum demo_file) demo_sb = 32"
  by (simp add: IBLOCK_def IPB_def BSIZE_def demo_file_def demo_sb_def)

lemma demo_nfree: "nfree demo_sb file_disk = 960"
proof -
  have "{b. b < 1000 \<and> free_bit demo_sb file_disk b} = {40..<1000}" using file_free by auto
  then show ?thesis by (simp add: nfree_def demo_size)
qed

lemma demo_file_ok: "file_ok log0 demo_sb file_disk demo_file"
proof -
  have own: "own file_disk demo_file = {35}"
    by (auto simp: own_def demo_blk MAXFILE_def NDIRECT_def) (simp_all add: demo_file_def NDIRECT_def)
  have ne: "(of_nat b :: uint) \<noteq> 32" if "40 \<le> b" "b < 1000" for b
    using that by (auto simp: unat_of_nat take_bit_nat_eq_self dest!: arg_cong [where f = unat])
  have bm: "bitmap_ok log0 demo_sb file_disk {}"
    using demo_bitmap by (simp add: bitmap_ok_def demo_size file_free demo_free)
  have "inode_ok log0 demo_sb (i_inum demo_file)" "data_ok log0 demo_sb (i_inum demo_file) file_disk 35"
    using demo_home [of 32] demo_home [of 35] file_free [of 35]
    by (simp_all add: inode_ok_def data_ok_def demo_iblock demo_size demo_BBLOCK)
  with bm ne show ?thesis
    by (auto simp: file_ok_def own demo_size file_free demo_iblock demo_blk) (simp_all add: demo_file_def NDIRECT_def)
qed

theorem writei_correct_witness:
  "\<exists>t V' x'. writei 0 (S_local [1, 2]) 3 2 file_state = ret 2 t \<and> tx 1 1 V' {} t \<and> itable t 0 = x' \<and> unat (i_size x') = 5 \<and>
     file_byte V' x' 2 = 9 \<and> file_byte V' x' 3 = 1 \<and> file_byte V' x' 4 = 2"
proof -
  have d: "i_dev demo_file = 1" "unat (i_size demo_file) = 3" by (simp_all add: demo_file_def)
  have l: "log_room file_state = 29" by (simp add: log_room_def file_state_simps log0_def)
  have f: "file_ok (the_log file_state) (sb file_state) file_disk demo_file" using demo_file_ok by (simp add: file_state_simps)
  have b: "file_byte file_disk demo_file 2 = 9" by (simp add: file_byte_def demo_blk file_disk_def BSIZE_def)
  obtain t V' x' where w: "writei 0 (S_local [1, 2]) 3 2 file_state = ret 2 t" "tx 1 1 V' {} t" "itable t 0 = x'" "unat (i_size x') = 5"
    "\<And>i. i < 5 \<Longrightarrow> file_byte V' x' i = (if in_range 3 2 i then [1, 2] ! (i - 3) else file_byte file_disk demo_file i)"
    using writei_correct [OF file_state_tx f file_state_simps(1) d(1) demo_file_mapped, of "[1, 2]" 2 3 1] demo_nfree l d(2)
    by (auto simp: BSIZE_def MAXFILE_def NDIRECT_def NINDIRECT_def file_state_simps)
  from w(5) [of 2] w(5) [of 3] w(5) [of 4] b have "file_byte V' x' 2 = 9" "file_byte V' x' 3 = 1" "file_byte V' x' 4 = 2"
    by (simp_all add: in_range_def)
  with w show ?thesis by blast
qed

end
