(* ===== verification/MkfsSpec.thy ===== *)
theory MkfsSpec
  imports Mkfs FsWrite
begin

text \<open>
  Correctness of the image builder, against the kernel's view of a disk: the super block decodes, the block bitmap
  is exact, and every file and the root directory have the contents that they should have, in the sense of
  \<open>blk_of\<close> and \<open>file_byte\<close> (theory \<open>FsFile\<close>), in blocks that belong to no other file.
\<close>

section \<open>Files on the image\<close>

text \<open>The inode \<open>x\<close> maps exactly the blocks below \<open>M\<close>; they hold the bytes \<open>bs\<close> and zeros after them.\<close>

definition holds :: "(uint \<Rightarrow> cptr) \<Rightarrow> inode \<Rightarrow> uchar list \<Rightarrow> nat \<Rightarrow> bool" where
  "holds V x bs M \<longleftrightarrow> length bs \<le> M * BSIZE \<and> M \<le> MAXFILE \<and> (\<forall>a < MAXFILE. blk_of V x a \<noteq> 0 \<longleftrightarrow> a < M) \<and>
     (i_addrs x NDIRECT \<noteq> 0 \<longleftrightarrow> NDIRECT < M) \<and> (\<forall>a < M. \<forall>b < M. blk_of V x a = blk_of V x b \<longrightarrow> a = b) \<and>
     (\<forall>a < M. blk_of V x a \<noteq> i_addrs x NDIRECT) \<and>
     (\<forall>j < M * BSIZE. file_byte V x j = (if j < length bs then bs ! j else 0))"

lemma holdsD:
  assumes "holds V x bs M"
  shows "length bs \<le> M * BSIZE" "M \<le> MAXFILE" "\<And>a. a < MAXFILE \<Longrightarrow> blk_of V x a \<noteq> 0 \<longleftrightarrow> a < M" "i_addrs x NDIRECT \<noteq> 0 \<longleftrightarrow> NDIRECT < M"
    "\<And>a b. a < M \<Longrightarrow> b < M \<Longrightarrow> blk_of V x a = blk_of V x b \<Longrightarrow> a = b" "\<And>a. a < M \<Longrightarrow> blk_of V x a \<noteq> i_addrs x NDIRECT"
    "\<And>j. j < M * BSIZE \<Longrightarrow> file_byte V x j = (if j < length bs then bs ! j else 0)"
  using assms unfolding holds_def by blast+

lemma holdsI:
  assumes "length bs \<le> M * BSIZE" "M \<le> MAXFILE" "\<And>a. a < MAXFILE \<Longrightarrow> blk_of V x a \<noteq> 0 \<longleftrightarrow> a < M" "i_addrs x NDIRECT \<noteq> 0 \<longleftrightarrow> NDIRECT < M"
    "\<And>a b. a < M \<Longrightarrow> b < M \<Longrightarrow> blk_of V x a = blk_of V x b \<Longrightarrow> a = b" "\<And>a. a < M \<Longrightarrow> blk_of V x a \<noteq> i_addrs x NDIRECT"
    "\<And>j. j < M * BSIZE \<Longrightarrow> file_byte V x j = (if j < length bs then bs ! j else 0)"
  shows "holds V x bs M"
  unfolding holds_def by (intro conjI allI impI assms) assumption+

lemma holds_own: "holds V x bs M \<Longrightarrow> a < M \<Longrightarrow> blk_of V x a \<in> own V x"
  using holdsD(2,3) [of V x bs M] by (intro own_blk) auto

lemma div_less_M: "j < M * BSIZE \<Longrightarrow> j div BSIZE < M"
  by (simp add: BSIZE_def div_less_iff_less_mult)

text \<open>A file is left alone by changes outside its blocks.\<close>

lemma holds_cong:
  assumes h: "holds V x bs M" and V: "\<And>b. b \<in> own V x \<Longrightarrow> V' b = V b" and x: "i_addrs x' = i_addrs x"
  shows "holds V' x' bs M" "own V' x' = own V x"
proof -
  have blk: "blk_of V' x' = blk_of V x"
    by (rule ext) (simp add: blk_of_def x V [OF own_ind])
  show "own V' x' = own V x" unfolding own_def blk x by simp
  have "file_byte V' x' j = file_byte V x j" if "j < M * BSIZE" for j
    unfolding file_byte_def blk using V [OF holds_own [OF h div_less_M [OF that]]] by simp
  then show "holds V' x' bs M" using h unfolding holds_def blk x by simp
qed

text \<open>A new direct block.\<close>

lemma holds_direct:
  assumes h: "holds V x bs M" and M: "M < NDIRECT" and n: "n \<notin> own V x" "n \<noteq> 0" "\<And>i. V n i = 0"
  defines "x' \<equiv> x\<lparr>i_addrs := (i_addrs x)(M := n)\<rparr>"
  shows "holds V x' bs (Suc M)" "own V x' = insert n (own V x)" "blk_of V x' M = n"
proof -
  note d = holdsD [OF h]
  have i0: "i_addrs x NDIRECT = 0" using d(4) M by auto
  have blk: "blk_of V x' = (blk_of V x)(M := n)" using M by (auto simp: fun_eq_iff blk_of_def x'_def)
  then show "blk_of V x' M = n" by simp
  have Mx: "M < MAXFILE" using M by (simp add: MAXFILE_def)
  have "blk_of V x M = 0" using d(3) [OF Mx] by simp
  then have "insert 0 (blk_of V x ` {0..<MAXFILE} \<union> {n}) = insert 0 (((blk_of V x)(M := n)) ` {0..<MAXFILE} \<union> {n})" by (auto simp: image_iff)
  then show "own V x' = insert n (own V x)"
    using n(2) M i0 Mx unfolding own_def blk by (auto simp: x'_def)
  have new: "blk_of V x a \<noteq> n" "n \<noteq> blk_of V x a" if "a < M" for a using holds_own [OF h that] n(1) by auto
  have "file_byte V x' j = (if j < length bs then bs ! j else 0)" if "j < Suc M * BSIZE" for j
  proof (cases "j div BSIZE = M")
    case True
    have "M * BSIZE \<le> j" using True by (metis div_times_less_eq_dividend)
    then show ?thesis using True d(1) n(3) by (simp add: file_byte_def blk)
  next
    case False
    then have "j div BSIZE < M" using div_less_M [OF that] by simp
    then have "j < M * BSIZE" by (simp add: div_less_iff_less_mult)
    with d(7) [OF this] False show ?thesis by (simp add: file_byte_def blk)
  qed
  then show "holds V x' bs (Suc M)"
    using d Mx M n(2) i0 new unfolding holds_def blk by (auto simp: x'_def less_Suc_eq)
qed

text \<open>A new block behind the indirect block, which is new itself for the first of them.\<close>

lemma holds_indirect:
  assumes h: "holds V x bs M" and M: "NDIRECT \<le> M" "M < MAXFILE"
    and n1: "if M = NDIRECT then n1 \<notin> own V x \<and> (\<forall>i. V n1 i = 0) else n1 = i_addrs x NDIRECT" "n1 \<noteq> 0"
    and n2: "n2 \<notin> own V x" "n2 \<noteq> 0" "n2 \<noteq> n1" "\<And>i. V n2 i = 0"
  defines "x' \<equiv> x\<lparr>i_addrs := (i_addrs x)(NDIRECT := n1)\<rparr>" and "V' \<equiv> V(n1 := put32 (V n1) (4 * (M - NDIRECT)) n2)"
  shows "holds V' x' bs (Suc M)" "own V' x' = insert n1 (insert n2 (own V x))" "blk_of V' x' M = n2"
proof -
  note d = holdsD [OF h]
  have i0: "i_addrs x NDIRECT = (if M = NDIRECT then 0 else n1)" using d(4) M n1(1) by auto
  have old: "get32 (V n1) (4 * (a - NDIRECT)) = blk_of V x a" if "NDIRECT \<le> a" "a < MAXFILE" for a
  proof (cases "M = NDIRECT")
    case True
    have "get32 (V n1) (4 * (a - NDIRECT)) = 0" using True n1(1) that by (intro get32_zero) (auto simp: MAXFILE_def)
    then show ?thesis using True i0 that by (simp add: blk_of_def)
  qed (use i0 n1(2) that in \<open>simp add: blk_of_def\<close>)
  have blk: "blk_of V' x' a = (if a = M then n2 else blk_of V x a)" if "a < MAXFILE" for a
  proof (cases "a < NDIRECT")
    case True
    then show ?thesis using M(1) by (simp add: blk_of_def x'_def)
  next
    case False
    then have "blk_of V' x' a = get32 (put32 (V n1) (4 * (M - NDIRECT)) n2) (4 * (a - NDIRECT))" using n1(2) by (simp add: blk_of_def x'_def V'_def)
    also have "\<dots> = (if a = M then n2 else get32 (V n1) (4 * (a - NDIRECT)))"
      using get32_entry [of "a - NDIRECT" "M - NDIRECT" "V n1" n2] False M(1) by (auto simp: get32_put32)
    finally show ?thesis using old [of a] False that by simp
  qed
  then show "blk_of V' x' M = n2" using M(2) by simp
  have bM: "blk_of V x M = 0" using d(3) [OF M(2)] by simp
  have im: "blk_of V' x' ` {0..<MAXFILE} - {0} = insert n2 (blk_of V x ` {0..<MAXFILE} - {0})"
    using blk M(2) bM n2(2) by (auto simp: image_iff)
  show "own V' x' = insert n1 (insert n2 (own V x))"
    using im n1(2) i0 unfolding own_def by (auto simp: x'_def)
  have new: "blk_of V x a \<noteq> n2" "n2 \<noteq> blk_of V x a" "blk_of V x a \<noteq> n1" if "a < M" for a
    using holds_own [OF h that] n2(1) n1(1) d(6) [OF that] by (auto, cases "M = NDIRECT", auto)
  have bytes: "file_byte V' x' j = (if j < length bs then bs ! j else 0)" if "j < Suc M * BSIZE" for j
  proof (cases "j div BSIZE = M")
    case True
    have "M * BSIZE \<le> j" using True by (metis div_times_less_eq_dividend)
    moreover have "file_byte V' x' j = V' n2 (j mod BSIZE)" unfolding file_byte_def True using blk [OF M(2)] by simp
    ultimately show ?thesis using d(1) n2(3,4) by (simp add: V'_def)
  next
    case False
    then have lt: "j div BSIZE < M" using div_less_M [OF that] by simp
    then have j: "j < M * BSIZE" by (simp add: div_less_iff_less_mult)
    have "file_byte V' x' j = V' (blk_of V x (j div BSIZE)) (j mod BSIZE)"
      unfolding file_byte_def using blk [of "j div BSIZE"] lt M(2) by simp
    also have "\<dots> = file_byte V x j" using new(3) [OF lt] by (simp add: file_byte_def V'_def)
    finally show ?thesis using d(7) [OF j] by simp
  qed
  have ind: "i_addrs x' NDIRECT = n1" by (simp add: x'_def)
  show "holds V' x' bs (Suc M)"
  proof (rule holdsI [OF _ _ _ _ _ _ bytes])
    show "blk_of V' x' a \<noteq> i_addrs x' NDIRECT" if "a < Suc M" for a
      using that blk [of a] M(2) n2(3) new(3) [of a] unfolding ind by (cases "a = M") auto
    show "a = b" if ab: "a < Suc M" "b < Suc M" "blk_of V' x' a = blk_of V' x' b" for a b
    proof -
      have e: "(if a = M then n2 else blk_of V x a) = (if b = M then n2 else blk_of V x b)" using ab blk [of a] blk [of b] M(2) by simp
      consider "a = M" "b = M" | "a = M" "b < M" | "a < M" "b = M" | "a < M" "b < M" using ab(1,2) by (auto simp: less_Suc_eq)
      then show ?thesis using e new(1,2) d(5) [of a b] by cases (simp_all split: if_splits)
    qed
    show "blk_of V' x' a \<noteq> 0 \<longleftrightarrow> a < Suc M" if "a < MAXFILE" for a
      using blk [OF that] d(3) [OF that] n2(2) by auto
  qed (use d(1) M n1(2) ind in auto)
qed

text \<open>Bytes that follow the contents, inside one block.\<close>

lemma holds_write:
  assumes h: "holds V x bs M" and c: "c \<noteq> []" "length bs mod BSIZE + length c \<le> BSIZE" "length bs + length c \<le> M * BSIZE"
  defines "b \<equiv> blk_of V x (length bs div BSIZE)"
  defines "V' \<equiv> V(b := put_bytes (V b) (length bs mod BSIZE) c)"
  shows "holds V' x (bs @ c) M" "own V' x = own V x" "b \<in> own V x"
proof -
  note d = holdsD [OF h]
  let ?o = "length bs"
  have lt: "?o div BSIZE < M" using c(1,3) by (intro div_less_M) (cases c, auto)
  then show b: "b \<in> own V x" using holds_own [OF h] by (simp add: b_def)
  have bi: "b \<noteq> i_addrs x NDIRECT" using d(6) [OF lt] by (simp add: b_def)
  have blk: "blk_of V' x = blk_of V x" by (rule ext) (use bi in \<open>auto simp: blk_of_def V'_def\<close>)
  then show "own V' x = own V x" by (simp add: own_def)
  have "file_byte V' x j = (if j < length (bs @ c) then (bs @ c) ! j else 0)" if "j < M * BSIZE" for j
  proof (cases "?o \<le> j \<and> j < ?o + length c")
    case True
    then have "j div BSIZE = ?o div BSIZE" "j mod BSIZE = ?o mod BSIZE + (j - ?o)"
      using same_block [OF c(2), of "j - ?o"] by auto
    then have "file_byte V' x j = V' b (?o mod BSIZE + (j - ?o))" unfolding file_byte_def blk by (simp add: b_def)
    also have "\<dots> = c ! (j - ?o)" using True by (auto simp: V'_def put_bytes_def)
    finally show ?thesis using True by (simp add: nth_append)
  next
    case False
    have "V' (blk_of V x (j div BSIZE)) (j mod BSIZE) = V (blk_of V x (j div BSIZE)) (j mod BSIZE)"
    proof (cases "blk_of V x (j div BSIZE) = b")
      case True
      then have e: "j div BSIZE = ?o div BSIZE" using d(5) [OF div_less_M [OF that] lt] by (simp add: b_def)
      then have "j mod BSIZE < ?o mod BSIZE \<or> ?o mod BSIZE + length c \<le> j mod BSIZE"
        using False div_mult_mod_eq [of j BSIZE] div_mult_mod_eq [of ?o BSIZE] unfolding e by linarith
      then show ?thesis using True by (auto simp: V'_def put_bytes_def)
    qed (simp add: V'_def)
    then have "file_byte V' x j = file_byte V x j" unfolding file_byte_def blk .
    then show ?thesis using d(7) [OF that] False by (auto simp: nth_append)
  qed
  then show "holds V' x (bs @ c) M" using d c(3) unfolding holds_def blk by simp
qed

section \<open>The layout\<close>

lemma xint_id [simp]: "xint x = x"
proof -
  have "le_bytes 4 x = [ucast x, ucast (drop_bit 8 x), ucast (drop_bit 16 x), ucast (drop_bit 24 x)]"
    by (simp add: numeral_eq_Suc)
  then show ?thesis unfolding xint_def by (metis le_bytes_32)
qed

lemma xshort_id [simp]: "xshort x = x"
proof -
  have "le_bytes 2 x = [ucast x, ucast (drop_bit 8 x)]" by (simp add: numeral_2_eq_2)
  then show ?thesis unfolding xshort_def by (metis le_bytes_16)
qed

lemma sector_id [simp]: "unat b < 2 ^ 22 \<Longrightarrow> sector b = b"
proof -
  assume b: "unat b < 2 ^ 22"
  have "unat (b * 1024) = unat b * 1024" using b by (simp add: unat_word_ariths)
  then have "unat (b * 1024 div 1024) = unat b" by (simp add: unat_div_distrib)
  then show ?thesis by (simp add: sector_def BSIZE_def word_unat_eq_iff)
qed

lemma mk_super_eq: "mk_super = \<lparr>sb_magic = FSMAGIC, sb_size = 1000, sb_nblocks = 954, sb_ninodes = 200, sb_nlog = 30,
    sb_logstart = 2, sb_inodestart = 32, sb_bmapstart = 45\<rparr>"
  by (simp add: mk_super_def Let_def nlog_def LOGSIZE_def MAXOPBLOCKS_def ninodeblocks_def NINODES_def IPB_def BSIZE_def nbitmap_def FSSIZE_def)

text \<open>Blocks below \<open>nmeta\<close> (46) are the boot block, the super block, the log, the inodes and the bitmap.\<close>

lemma mk_iblock:
  assumes "i < 208"
  shows "unat (IBLOCK (of_nat i) mk_super) = 32 + i div 16" "dip (of_nat i) = 64 * (i mod 16)"
proof -
  have u: "unat (of_nat i :: uint) = i" using assms by (simp add: unat_of_nat take_bit_nat_eq_self)
  have "unat (of_nat i div 16 :: uint) = i div 16" by (simp add: unat_div_distrib u)
  then show "unat (IBLOCK (of_nat i) mk_super) = 32 + i div 16"
    using assms by (simp add: IBLOCK_def mk_super_eq IPB_def BSIZE_def unat_word_ariths)
  show "dip (of_nat i) = 64 * (i mod 16)" by (simp add: dip_def IPB_def BSIZE_def u)
qed

section \<open>The image\<close>

definition bcount :: "nat \<Rightarrow> nat" where
  "bcount m = (if NDIRECT < m then Suc m else m)"

definition image_ok :: "nat \<Rightarrow> nat \<Rightarrow> (nat \<Rightarrow> uchar list) \<Rightarrow> (nat \<Rightarrow> nat) \<Rightarrow> (nat \<Rightarrow> inode) \<Rightarrow> (uint \<Rightarrow> cptr) \<Rightarrow> bool" where
  "image_ok n nf F M X V \<longleftrightarrow>
     (\<forall>i\<in>{1..<n}. holds V (X i) (F i) (M i) \<and> own V (X i) \<subseteq> {b. 46 \<le> unat b \<and> unat b < nf}) \<and>
     (\<forall>i\<in>{1..<n}. \<forall>j\<in>{1..<n}. i \<noteq> j \<longrightarrow> own V (X i) \<inter> own V (X j) = {}) \<and>
     (\<forall>b. nf \<le> unat b \<longrightarrow> V b = (\<lambda>_. 0))"

lemma image_upd:
  assumes im: "image_ok n nf F M X V" and k: "k \<in> {1..<n}" and h: "holds V' x' bs m"
    and own: "own V' x' \<subseteq> own V (X k) \<union> {b. nf \<le> unat b \<and> unat b < nf'}" and V: "\<And>b. b \<notin> own V' x' \<Longrightarrow> V' b = V b"
    and nf: "nf \<le> nf'" "46 \<le> nf"
  shows "image_ok n nf' (F(k := bs)) (M(k := m)) (X(k := x')) V'"
proof -
  have old: "holds V (X i) (F i) (M i)" "\<And>b. b \<in> own V (X i) \<Longrightarrow> 46 \<le> unat b \<and> unat b < nf" if "i \<in> {1..<n}" for i
    using im that unfolding image_ok_def by blast+
  have dis: "own V (X i) \<inter> own V (X j) = {}" if "i \<in> {1..<n}" "j \<in> {1..<n}" "i \<noteq> j" for i j
    using im that unfolding image_ok_def by blast
  have z: "V b = (\<lambda>_. 0)" if "nf \<le> unat b" for b using im that unfolding image_ok_def by blast
  have out: "b \<notin> own V' x'" if "i \<in> {1..<n}" "i \<noteq> k" "b \<in> own V (X i)" for i b
    using own dis [OF that(1) k that(2)] that(3) old(2) [OF that(1,3)] by auto
  have keep: "holds V' (X i) (F i) (M i)" "own V' (X i) = own V (X i)" if "i \<in> {1..<n}" "i \<noteq> k" for i
    using holds_cong [OF old(1) [OF that(1)], of V' "X i"] V out [OF that] by auto
  have k': "b \<in> own V' x' \<Longrightarrow> 46 \<le> unat b \<and> unat b < nf'" for b using own old(2) [OF k, of b] nf by auto
  show ?thesis
    unfolding image_ok_def
  proof (intro conjI ballI allI impI)
    fix i assume i: "i \<in> {1..<n}"
    show "holds V' ((X(k := x')) i) ((F(k := bs)) i) ((M(k := m)) i)" using h keep(1) [OF i] by auto
    show "own V' ((X(k := x')) i) \<subseteq> {b. 46 \<le> unat b \<and> unat b < nf'}"
      using k' keep(2) [OF i] old(2) [OF i] nf by (cases "i = k") (auto intro: less_le_trans)
    fix j assume j: "j \<in> {1..<n}" and ij: "i \<noteq> j"
    show "own V' ((X(k := x')) i) \<inter> own V' ((X(k := x')) j) = {}"
      using keep(2) [OF i] keep(2) [OF j] out [OF i] out [OF j] dis [OF i j ij] ij by auto
  next
    fix b :: uint assume b: "nf' \<le> unat b"
    then show "V' b = (\<lambda>_. 0)" using V [of b] z [of b] k' [of b] nf by (cases "b \<in> own V' x'") auto
  qed
qed

definition used :: "nat \<Rightarrow> (nat \<Rightarrow> nat) \<Rightarrow> nat" where
  "used n M = 46 + (\<Sum>i\<in>{1..<n}. bcount (M i))"

lemma used_upd: "k \<in> {1..<n} \<Longrightarrow> used n (M(k := m)) + bcount (M k) = used n M + bcount m"
proof -
  assume k: "k \<in> {1..<n}"
  have "(\<Sum>i\<in>{1..<n}. bcount ((M(k := m)) i)) = bcount m + (\<Sum>i\<in>{1..<n} - {k}. bcount (M i))"
    by (subst sum.remove [OF _ k]) (auto intro!: sum.cong)
  moreover have "(\<Sum>i\<in>{1..<n}. bcount (M i)) = bcount (M k) + (\<Sum>i\<in>{1..<n} - {k}. bcount (M i))"
    by (rule sum.remove [OF _ k]) simp
  ultimately show ?thesis by (simp add: used_def del: fun_upd_apply)
qed

definition mk_ok :: "nat \<Rightarrow> (nat \<Rightarrow> uchar list) \<Rightarrow> (nat \<Rightarrow> nat) \<Rightarrow> (nat \<Rightarrow> inode) \<Rightarrow> mkfs \<Rightarrow> bool" where
  "mk_ok n F M X s \<longleftrightarrow> mk_sb s = mk_super \<and> nsect s = FSSIZE \<and> freeinode s = of_nat n \<and> 1 \<le> n \<and> n \<le> 208 \<and>
     freeblock s = of_nat (used n M) \<and> used n M \<le> FSSIZE \<and> image_ok n (used n M) F M X (img s)"

text \<open>What the data blocks are written to leaves the first blocks alone.\<close>

definition meta_same :: "mkfs \<Rightarrow> mkfs \<Rightarrow> bool" where
  "meta_same s t \<longleftrightarrow> (\<forall>b. unat b < 46 \<longrightarrow> img t b = img s b)"

lemma unat_small: "m \<le> FSSIZE \<Longrightarrow> unat (of_nat m :: uint) = m"
  by (simp add: FSSIZE_def unat_of_nat take_bit_nat_eq_self)

lemma sect_rw:
  assumes "nsect t = FSSIZE" "unat b < FSSIZE"
  shows "rsect b t = ret (img t b) t" "wsect b z t = ret () (t\<lparr>img := (img t)(b := z)\<rparr>)"
proof -
  have "sector b = b" using assms(2) by (intro sector_id) (simp add: FSSIZE_def)
  then show "rsect b t = ret (img t b) t" "wsect b z t = ret () (t\<lparr>img := (img t)(b := z)\<rparr>)"
    using assms by (simp_all add: rsect_def wsect_def max_def)
qed

lemma mk_ok_own:
  assumes "mk_ok n F M X s" "k \<in> {1..<n}" "b \<in> own (img s) (X k)"
  shows "46 \<le> unat b" "unat b < used n M" "rsect b s = ret (img s b) s" "\<And>z. wsect b z s = ret () (s\<lparr>img := (img s)(b := z)\<rparr>)"
proof -
  show b: "46 \<le> unat b" "unat b < used n M" using assms unfolding mk_ok_def image_ok_def by blast+
  have "nsect s = FSSIZE" "unat b < FSSIZE" using b assms(1) by (auto simp: mk_ok_def)
  then show "rsect b s = ret (img s b) s" "\<And>z. wsect b z s = ret () (s\<lparr>img := (img s)(b := z)\<rparr>)" by (rule sect_rw)+
qed

text \<open>A block that the file has already.\<close>

lemma iappend_block_old:
  assumes ok: "mk_ok n F M X s" and k: "k \<in> {1..<n}" "fbn < M k"
  shows "iappend_block (X k) fbn s = ret (blk_of (img s) (X k) fbn, X k) s"
proof -
  have h: "holds (img s) (X k) (F k) (M k)" using ok k(1) unfolding mk_ok_def image_ok_def by blast
  note d = holdsD [OF h]
  have ne: "blk_of (img s) (X k) fbn \<noteq> 0" using d(2,3) k(2) by (meson less_le_trans)
  show ?thesis
  proof (cases "fbn < NDIRECT")
    case True
    then show ?thesis using ne by (simp add: iappend_block_def blk_of_def)
  next
    case False
    have i: "i_addrs (X k) NDIRECT \<noteq> 0" using d(4) False k(2) by simp
    show ?thesis using False ne i mk_ok_own(3) [OF ok k(1) own_ind [OF i]] by (simp add: iappend_block_def blk_of_def)
  qed
qed

text \<open>A new block.\<close>

lemma iappend_block_new:
  assumes ok: "mk_ok n F M X s" and k: "k \<in> {1..<n}" "M k < MAXFILE" and cap: "used n (M(k := Suc (M k))) \<le> FSSIZE"
  obtains x' s' where "iappend_block (X k) (M k) s = ret (blk_of (img s') x' (M k), x') s'"
    "mk_ok n F (M(k := Suc (M k))) (X(k := x')) s'" "x' = (X k)\<lparr>i_addrs := i_addrs x'\<rparr>" "\<And>a. NDIRECT < a \<Longrightarrow> i_addrs x' a = i_addrs (X k) a"
    "meta_same s s'"
proof -
  let ?m = "M k" and ?x = "X k" and ?nf = "used n M" and ?nf' = "used n (M(k := Suc (M k)))"
  have im: "image_ok n ?nf F M X (img s)" and fb: "freeblock s = of_nat ?nf" "?nf \<le> FSSIZE" using ok by (auto simp: mk_ok_def)
  have h: "holds (img s) ?x (F k) ?m" using im k(1) unfolding image_ok_def by blast
  have ge: "46 \<le> ?nf" by (simp add: used_def)
  have nf': "?nf' = ?nf + (if ?m = NDIRECT then 2 else 1)"
    using used_upd [OF k(1), of M "Suc ?m"] by (cases "?m = NDIRECT") (auto simp: bcount_def split: if_splits)
  define b where "b = (of_nat ?nf :: uint)"
  have b: "unat b = ?nf" using unat_small [OF fb(2)] by (simp add: b_def)
  have new: "c \<notin> own (img s) ?x" "c \<noteq> 0" "img s c = (\<lambda>_. 0)" if "?nf \<le> unat c" for c :: uint
  proof -
    show "c \<notin> own (img s) ?x" using mk_ok_own(2) [OF ok k(1), of c] that by auto
    show "c \<noteq> 0" using that ge by auto
    show "img s c = (\<lambda>_. 0)" using im that by (simp add: image_ok_def)
  qed
  note nb = new [of b, unfolded b, OF order_refl]
  show thesis
  proof (cases "?m < NDIRECT")
    case True
    let ?x' = "?x\<lparr>i_addrs := (i_addrs ?x)(?m := b)\<rparr>" and ?s' = "s\<lparr>freeblock := b + 1\<rparr>"
    have d: "holds (img s) ?x' (F k) (Suc ?m)" "own (img s) ?x' = insert b (own (img s) ?x)" "blk_of (img s) ?x' ?m = b"
      using holds_direct [OF h True nb(1,2)] nb(3) by simp_all
    have z: "i_addrs ?x ?m = 0" using holdsD(3) [OF h k(2)] True by (simp add: blk_of_def)
    have b1: "b + 1 = of_nat ?nf'" using nf' True by (simp add: b_def)
    have "image_ok n ?nf' (F(k := F k)) (M(k := Suc ?m)) (X(k := ?x')) (img s)"
      using d(2) b nf' True ge by (intro image_upd [OF im k(1) d(1)]) auto
    then have ok': "mk_ok n F (M(k := Suc ?m)) (X(k := ?x')) ?s'"
      using ok cap b1 by (simp add: mk_ok_def)
    have run: "iappend_block ?x ?m s = ret (blk_of (img ?s') ?x' ?m, ?x') ?s'"
      using True z d(3) by (simp add: iappend_block_def fb(1) b_def [symmetric])
    show thesis by (rule that [OF run ok']) (use True in \<open>auto simp: meta_same_def\<close>)
  next
    case False
    define n1 where "n1 = (if ?m = NDIRECT then b else i_addrs ?x NDIRECT)"
    define n2 where "n2 = (if ?m = NDIRECT then b + 1 else b)"
    have b1: "unat (b + 1) = Suc ?nf" using b fb(2) by (simp add: unat_word_ariths FSSIZE_def)
    have n2: "unat n2 = ?nf' - 1" "?nf \<le> unat n2" using b b1 nf' by (auto simp: n2_def)
    have i0: "i_addrs ?x NDIRECT = 0 \<longleftrightarrow> ?m = NDIRECT" using holdsD(4) [OF h] False by auto
    have n1: "if ?m = NDIRECT then n1 \<notin> own (img s) ?x \<and> (\<forall>i. img s n1 i = 0) else n1 = i_addrs ?x NDIRECT" "n1 \<noteq> 0"
      using nb i0 by (auto simp: n1_def)
    have ne: "n2 \<noteq> n1" using n2(2) b b1 new(1) [OF n2(2)] own_ind [of ?x "img s"] i0 by (auto simp: n1_def n2_def)
    let ?x' = "?x\<lparr>i_addrs := (i_addrs ?x)(NDIRECT := n1)\<rparr>" and ?V = "(img s)(n1 := put32 (img s n1) (4 * (?m - NDIRECT)) n2)"
    let ?s' = "s\<lparr>img := ?V, freeblock := n2 + 1\<rparr>"
    have d: "holds ?V ?x' (F k) (Suc ?m)" "own ?V ?x' = insert n1 (insert n2 (own (img s) ?x))" "blk_of ?V ?x' ?m = n2"
      using holds_indirect [OF h _ k(2) n1 new(1,2) [OF n2(2)] ne] new(3) [OF n2(2)] False by simp_all
    have n1b: "n1 = b \<or> n1 \<in> own (img s) ?x" using own_ind [of ?x "img s"] i0 by (auto simp: n1_def)
    have im': "image_ok n ?nf' (F(k := F k)) (M(k := Suc ?m)) (X(k := ?x')) ?V"
      using d(2) n1b b b1 nf' ge n2 by (intro image_upd [OF im k(1) d(1)]) (auto simp: n2_def)
    have "n2 + 1 = of_nat ?nf'" using nf' by (simp add: n2_def b_def)
    with ok cap im' have ok': "mk_ok n F (M(k := Suc ?m)) (X(k := ?x')) ?s'" by (simp add: mk_ok_def)
    have l1: "unat n1 < FSSIZE" "46 \<le> unat n1"
      using n1b b nf' cap ge mk_ok_own(1,2) [OF ok k(1), of n1] fb(2) by (auto split: if_splits)
    have run: "iappend_block ?x ?m s = ret (blk_of (img ?s') ?x' ?m, ?x') ?s'"
    proof (cases "?m = NDIRECT")
      case True
      have g: "get32 (img s b) 0 = 0" using get32_zero [of "img s b" 0] nb(3) by (simp add: NINDIRECT_def BSIZE_def)
      have "rsect b (s\<lparr>freeblock := b + 1\<rparr>) = ret (img s b) (s\<lparr>freeblock := b + 1\<rparr>)"
        "\<And>z. wsect b z (s\<lparr>freeblock := b + 1 + 1\<rparr>) = ret () (s\<lparr>img := (img s)(b := z), freeblock := b + 1 + 1\<rparr>)"
        using sect_rw [of "s\<lparr>freeblock := _\<rparr>" b] ok l1(1) True by (auto simp: mk_ok_def n1_def)
      then show ?thesis using True i0 g d(3)
        by (simp add: iappend_block_def n1_def n2_def fb(1) b_def [symmetric] get32_put32 add.assoc)
    next
      case F: False
      have g: "get32 (img s n1) (4 * (?m - NDIRECT)) = 0"
        using holdsD(3) [OF h k(2)] False F i0 by (simp add: blk_of_def n1_def)
      have "rsect n1 s = ret (img s n1) s"
        "\<And>z. wsect n1 z (s\<lparr>freeblock := b + 1\<rparr>) = ret () (s\<lparr>img := (img s)(n1 := z), freeblock := b + 1\<rparr>)"
        using sect_rw [of s n1] sect_rw [of "s\<lparr>freeblock := b + 1\<rparr>" n1] ok l1(1) by (auto simp: mk_ok_def)
      then show ?thesis using False F i0 g d(3)
        by (simp add: iappend_block_def n1_def n2_def fb(1) b_def [symmetric] get32_put32)
    qed
    show thesis by (rule that [OF run ok']) (use l1 in \<open>auto simp: meta_same_def\<close>)
  qed
qed

section \<open>Appending\<close>

definition nblk :: "nat \<Rightarrow> nat" where
  "nblk l = (l + BSIZE - 1) div BSIZE"

lemma nblk_mono: "a \<le> b \<Longrightarrow> nblk a \<le> nblk b"
  unfolding nblk_def by (intro div_le_mono) simp

lemma nblk_eq: "l mod BSIZE = 0 \<Longrightarrow> nblk l = l div BSIZE" "l mod BSIZE \<noteq> 0 \<Longrightarrow> nblk l = Suc (l div BSIZE)"
  "0 < k \<Longrightarrow> l mod BSIZE + k \<le> BSIZE \<Longrightarrow> nblk (l + k) = Suc (l div BSIZE)"
proof -
  have l: "l = l div BSIZE * BSIZE + l mod BSIZE" by simp
  have d: "(q * BSIZE + r) div BSIZE = q" if "r < BSIZE" for q r using that by simp
  have B: "0 < BSIZE" by simp
  show "nblk l = l div BSIZE" if "l mod BSIZE = 0"
    using d [of "BSIZE - 1" "l div BSIZE"] l that B unfolding nblk_def by (metis Nat.add_diff_assoc One_nat_def Suc_leI add_0_right diff_Suc_less)
  have g: "nblk (l + k) = Suc (l div BSIZE)" if "0 < l mod BSIZE + k" "l mod BSIZE + k \<le> BSIZE" for k
  proof -
    have "l + k + BSIZE - 1 = Suc (l div BSIZE) * BSIZE + (l mod BSIZE + k - 1)" 
      using l that(1) mult_Suc [of "l div BSIZE" BSIZE] by linarith
    moreover have "l mod BSIZE + k - 1 < BSIZE" using that by linarith
    ultimately show ?thesis unfolding nblk_def by (simp only: d)
  qed
  show "nblk l = Suc (l div BSIZE)" if "l mod BSIZE \<noteq> 0" using g [of 0] that by (simp add: less_imp_le)
  show "nblk (l + k) = Suc (l div BSIZE)" if "0 < k" "l mod BSIZE + k \<le> BSIZE" using g [of k] that by simp
qed

lemma used_mono: "k \<in> {1..<n} \<Longrightarrow> a \<le> b \<Longrightarrow> used n (M(k := a)) \<le> used n (M(k := b))"
  using used_upd [of k n M a] used_upd [of k n M b] by (auto simp: bcount_def split: if_splits)

lemma meta_same_trans: "meta_same s t \<Longrightarrow> meta_same t u \<Longrightarrow> meta_same s u"
  by (simp add: meta_same_def)

text \<open>One round of the loop, after the block has been found.\<close>

lemma iappend_write:
  assumes ok: "mk_ok n F M X s" and k: "k \<in> {1..<n}" and c: "c \<noteq> []" "length (F k) mod BSIZE + length c \<le> BSIZE" "length (F k) + length c \<le> M k * BSIZE"
  defines "b \<equiv> blk_of (img s) (X k) (length (F k) div BSIZE)"
  defines "s' \<equiv> s\<lparr>img := (img s)(b := put_bytes (img s b) (length (F k) mod BSIZE) c)\<rparr>"
  shows "rsect b s = ret (img s b) s" "wsect b (put_bytes (img s b) (length (F k) mod BSIZE) c) s = ret () s'"
    "mk_ok n (F(k := F k @ c)) M X s'" "meta_same s s'"
proof -
  have im: "image_ok n (used n M) F M X (img s)" using ok by (simp add: mk_ok_def)
  have h: "holds (img s) (X k) (F k) (M k)" using im k unfolding image_ok_def by blast
  note w = holds_write [OF h c, folded b_def]
  note o = mk_ok_own [OF ok k w(3)]
  show "rsect b s = ret (img s b) s" "wsect b (put_bytes (img s b) (length (F k) mod BSIZE) c) s = ret () s'"
    using o(3,4) by (simp_all add: s'_def)
  have "image_ok n (used n M) (F(k := F k @ c)) (M(k := M k)) (X(k := X k)) (img s')"
    unfolding s'_def using w by (intro image_upd [OF im k]) (auto simp: used_def)
  then show "mk_ok n (F(k := F k @ c)) M X s'" using ok by (simp add: mk_ok_def s'_def)
  show "meta_same s s'" using o(1) by (auto simp: meta_same_def s'_def)
qed

lemma iappend_find:
  assumes ok: "mk_ok n F M X s" and k: "k \<in> {1..<n}" "M k = nblk (length (F k))" and l: "length (F k) div BSIZE < MAXFILE"
    and cap: "used n (M(k := Suc (length (F k) div BSIZE))) \<le> FSSIZE"
  obtains x' s' where "iappend_block (X k) (length (F k) div BSIZE) s = ret (blk_of (img s') x' (length (F k) div BSIZE), x') s'"
    "mk_ok n F (M(k := Suc (length (F k) div BSIZE))) (X(k := x')) s'" "x' = (X k)\<lparr>i_addrs := i_addrs x'\<rparr>"
    "\<And>a. NDIRECT < a \<Longrightarrow> i_addrs x' a = i_addrs (X k) a" "meta_same s s'"
proof (cases "length (F k) mod BSIZE = 0")
  case True
  then have m: "M k = length (F k) div BSIZE" using nblk_eq(1) k(2) by simp
  show thesis using iappend_block_new [OF ok k(1)] l cap that unfolding m [symmetric] by metis
next
  case False
  then have m: "M k = Suc (length (F k) div BSIZE)" using nblk_eq(2) k(2) by simp
  show thesis using that [of s "X k"] iappend_block_old [OF ok k(1)] ok m [symmetric] by (simp add: meta_same_def)
qed

lemma iappend_loop_ok:
  assumes "mk_ok n F M X s" "k \<in> {1..<n}" "M k = nblk (length (F k))" "length (F k) + length p \<le> MAXFILE * BSIZE"
    "used n (M(k := nblk (length (F k) + length p))) \<le> FSSIZE"
  shows "\<exists>x' s'. iappend_loop (X k) (of_nat (length (F k))) p s = ret (x', of_nat (length (F k) + length p)) s' \<and>
    mk_ok n (F(k := F k @ p)) (M(k := nblk (length (F k) + length p))) (X(k := x')) s' \<and> x' = (X k)\<lparr>i_addrs := i_addrs x'\<rparr> \<and>
    (\<forall>a. NDIRECT < a \<longrightarrow> i_addrs x' a = i_addrs (X k) a) \<and> meta_same s s'"
  using assms
proof (induction "length p" arbitrary: F M X s p rule: less_induct)
  case less
  note ok = less.prems(1) and k = less.prems(2,3)
  let ?l = "length (F k)"
  show ?case
  proof (cases "p = []")
    case True
    then show ?thesis using ok k(2) [symmetric] by (subst iappend_loop.simps) (simp add: meta_same_def)
  next
    case False
    define off where "off = (of_nat ?l :: uint)"
    have uo: "unat off = ?l" using less.prems(4) by (simp add: off_def unat_of_nat take_bit_nat_eq_self MAXFILE_def NDIRECT_def NINDIRECT_def BSIZE_def)
    have fb: "unat (off div of_nat BSIZE) = ?l div BSIZE" using unat_BSIZE(1) [of off] uo by simp
    have om: "unat (off - off div of_nat BSIZE * of_nat BSIZE) = ?l mod BSIZE"
      unfolding minus_div_mult_eq_mod using unat_BSIZE(2) [of off] uo by simp
    define m where "m = min (length p) (BSIZE - ?l mod BSIZE)"
    have lt: "?l mod BSIZE < BSIZE" by simp
    have m: "0 < m" "?l mod BSIZE + m \<le> BSIZE" "m \<le> length p" using False lt unfolding m_def by (simp, linarith, simp)
    have nm: "nblk (?l + m) = Suc (?l div BSIZE)" using nblk_eq(3) [OF m(1,2)] .
    have l: "?l div BSIZE < MAXFILE" using less.prems(4) False by (intro div_less_M) (cases p, auto)
    have cap: "used n (M(k := Suc (?l div BSIZE))) \<le> FSSIZE"
      using used_mono [OF k(1), of "Suc (?l div BSIZE)" "nblk (?l + length p)" M] nm nblk_mono [of "?l + m" "?l + length p"] m(3) less.prems(5) by simp
    obtain x1 s1 where 1: "iappend_block (X k) (?l div BSIZE) s = ret (blk_of (img s1) x1 (?l div BSIZE), x1) s1"
      "mk_ok n F (M(k := Suc (?l div BSIZE))) (X(k := x1)) s1" "x1 = (X k)\<lparr>i_addrs := i_addrs x1\<rparr>"
      "\<And>a. NDIRECT < a \<Longrightarrow> i_addrs x1 a = i_addrs (X k) a" "meta_same s s1"
      by (rule iappend_find [OF ok k l cap]) (rule that; assumption)
    let ?c = "take m p" and ?b = "blk_of (img s1) x1 (?l div BSIZE)" and ?M = "M(k := Suc (?l div BSIZE))"
    have "?l + m \<le> BSIZE + ?l div BSIZE * BSIZE" using m(2) mod_div_mult_eq [of ?l BSIZE] by linarith
    then have c: "?c \<noteq> []" "?l mod BSIZE + length ?c \<le> BSIZE" "?l + length ?c \<le> (M(k := Suc (?l div BSIZE))) k * BSIZE"
      using m False by auto
    note w = iappend_write [OF 1(2) k(1) c(1-3), unfolded fun_upd_same]
    let ?s2 = "s1\<lparr>img := (img s1)(?b := put_bytes (img s1 ?b) (?l mod BSIZE) ?c)\<rparr>"
    have ok2: "mk_ok n (F(k := F k @ ?c)) ?M (X(k := x1)) ?s2" using w(3) .
    have run: "iappend_loop (X k) off p s = iappend_loop x1 (off + of_nat m) (drop m p) ?s2"
      using False l 1(1) w(1,2) by (subst iappend_loop.simps) (simp add: Let_def fb om left_in_block uo m_def [symmetric])
    have l2: "length (drop m p) < length p" "length ((F(k := F k @ ?c)) k) = ?l + m" using m by auto
    have sum: "?l + m + length (drop m p) = ?l + length p" using m(3) by simp
    obtain x' s' where 2: "iappend_loop x1 (of_nat (?l + m)) (drop m p) ?s2 = ret (x', of_nat (?l + length p)) s'"
      "mk_ok n ((F(k := F k @ ?c))(k := (F k @ ?c) @ drop m p)) (?M(k := nblk (?l + length p))) ((X(k := x1))(k := x')) s'"
      "x' = x1\<lparr>i_addrs := i_addrs x'\<rparr>" "\<forall>a. NDIRECT < a \<longrightarrow> i_addrs x' a = i_addrs x1 a" "meta_same ?s2 s'"
      using less.hyps [OF l2(1) ok2 k(1)] l2(2) nm less.prems(4,5) unfolding l2(2) sum by auto
    have "x' = (X k)\<lparr>i_addrs := i_addrs x'\<rparr>" using 1(3) 2(3) addrs_trans by blast
    moreover have "meta_same s s'" using meta_same_trans [OF 1(5) meta_same_trans [OF w(4) 2(5)]] .
    moreover have "iappend_loop (X k) (of_nat ?l) p s = ret (x', of_nat (?l + length p)) s'" using run 2(1) by (simp add: off_def)
    moreover have "mk_ok n (F(k := F k @ p)) (M(k := nblk (?l + length p))) (X(k := x')) s'" using 2(2) by simp
    moreover have "\<forall>a. NDIRECT < a \<longrightarrow> i_addrs x' a = i_addrs (X k) a" using 2(4) 1(4) by simp
    ultimately show ?thesis by blast
  qed
qed

section \<open>Inodes on the image\<close>

definition disk_inode :: "(uint \<Rightarrow> cptr) \<Rightarrow> nat \<Rightarrow> inode" where
  "disk_inode V i = dinode_load (V (IBLOCK (of_nat i) mk_super)) (dip (of_nat i)) din0"

definition fs_inode :: "ushort \<Rightarrow> uchar list \<Rightarrow> (nat \<Rightarrow> uint) \<Rightarrow> inode" where
  "fs_inode ty bs ad = din0\<lparr>i_type := ty, i_nlink := 1, i_size := of_nat (length bs), i_addrs := ad\<rparr>"

lemma put32_fold_apply:
  "i < o1 \<or> o1 + 4 * m \<le> i \<Longrightarrow> set ks \<subseteq> {..<m} \<Longrightarrow> fold (\<lambda>k d. put32 d (o1 + 4 * k) (f k)) ks d i = d i"
  by (induction ks arbitrary: d) (auto simp: put32_def put_bytes_def)

lemma dinode_store_apply: "i < o1 \<or> o1 + 64 \<le> i \<Longrightarrow> dinode_store o1 x d i = d i"
  unfolding dinode_store_def
  by (subst put32_fold_apply [where m = "NDIRECT + 1"]) (auto simp: NDIRECT_def put32_def put16_def put_bytes_def)

lemma get_bytes_cong: "(\<And>i. off \<le> i \<Longrightarrow> i < off + n \<Longrightarrow> d i = e i) \<Longrightarrow> get_bytes d off n = get_bytes e off n"
  by (rule nth_equalityI) simp_all

lemma dinode_load_other:
  assumes "o1 + 64 \<le> o2 \<or> o2 + 64 \<le> o1"
  shows "dinode_load (dinode_store o1 x d) o2 y = dinode_load d o2 y"
proof -
  have g: "get_bytes (dinode_store o1 x d) off n = get_bytes d off n" if "o2 \<le> off" "off + n \<le> o2 + 64" for off n
    using that assms by (intro get_bytes_cong dinode_store_apply) auto
  show ?thesis unfolding dinode_load_def get16_def get32_def
    by (rule inode.equality) (auto simp: g NDIRECT_def fun_eq_iff)
qed

lemma mk_dip_apart:
  assumes "i < 208" "j < 208" "i \<noteq> j" "IBLOCK (of_nat i) mk_super = IBLOCK (of_nat j) mk_super"
  shows "dip (of_nat i) + 64 \<le> dip (of_nat j) \<or> dip (of_nat j) + 64 \<le> dip (of_nat i)"
proof -
  have "i div 16 = j div 16" using mk_iblock(1) [OF assms(1)] mk_iblock(1) [OF assms(2)] assms(4) by simp
  then have "i mod 16 \<noteq> j mod 16" using assms(3) by (metis div_mult_mod_eq)
  then show ?thesis using mk_iblock(2) [OF assms(1)] mk_iblock(2) [OF assms(2)] by auto
qed

lemma image_meta:
  assumes im: "image_ok n nf F M X V" and V: "\<And>b. 46 \<le> unat b \<Longrightarrow> V' b = V b" and nf: "46 \<le> nf" and X: "\<And>i. i \<in> {1..<n} \<Longrightarrow> i_addrs (X' i) = i_addrs (X i)"
  shows "image_ok n nf F M X' V'"
proof -
  have "holds V' (X' i) (F i) (M i)" "own V' (X' i) = own V (X i)" if "i \<in> {1..<n}" for i
    using holds_cong [of V "X i" "F i" "M i" V' "X' i"] im that V X unfolding image_ok_def by blast+
  then show ?thesis using im V nf unfolding image_ok_def by auto
qed

lemma winode_run:
  assumes s: "nsect s = FSSIZE" "mk_sb s = mk_super" and k: "k < 208" and x: "x = fs_inode ty bs ad" "\<And>a. NDIRECT < a \<Longrightarrow> ad a = 0"
  obtains s' where "winode (of_nat k) x s = ret () s'" "s' = s\<lparr>img := img s'\<rparr>" "disk_inode (img s') k = x"
    "\<And>j. j < 208 \<Longrightarrow> j \<noteq> k \<Longrightarrow> disk_inode (img s') j = disk_inode (img s) j"
    "\<And>b. unat b < 32 \<or> 45 \<le> unat b \<Longrightarrow> img s' b = img s b"
proof -
  let ?b = "IBLOCK (of_nat k) mk_super"
  let ?s = "s\<lparr>img := (img s)(?b := dinode_store (dip (of_nat k)) x (img s ?b))\<rparr>"
  have ub: "unat ?b = 32 + k div 16" using mk_iblock(1) [OF k] .
  have kd: "k div 16 < 13" using k by (simp add: div_less_iff_less_mult)
  have b: "unat ?b < FSSIZE" "32 \<le> unat ?b" "unat ?b < 45" unfolding ub using kd by (auto simp: FSSIZE_def)
  have run: "winode (of_nat k) x s = ret () ?s" using sect_rw [OF s(1) b(1)] s(2) by (simp add: winode_def Let_def)
  have "disk_inode (img ?s) k = x"
    using x by (simp add: disk_inode_def dinode_load_store din0_def fs_inode_def)
  moreover have "disk_inode (img ?s) j = disk_inode (img s) j" if "j < 208" "j \<noteq> k" for j
    using mk_dip_apart [OF k that(1) that(2) [symmetric]] by (auto simp: disk_inode_def dinode_load_other)
  moreover have "img ?s c = img s c" if "unat c < 32 \<or> 45 \<le> unat c" for c using that b(2,3) by auto
  ultimately show thesis using run by (intro that [of ?s]) simp_all
qed

text \<open>
  Between two operations, the inodes are on the image: inode \<open>i\<close> has the type \<open>T i\<close> and the contents \<open>F i\<close>, and inodes from \<open>n\<close>
  on are free.
\<close>

definition sizes :: "(nat \<Rightarrow> uchar list) \<Rightarrow> nat \<Rightarrow> nat" where
  "sizes F i = nblk (length (F i))"

definition mk_sync :: "nat \<Rightarrow> (nat \<Rightarrow> ushort) \<Rightarrow> (nat \<Rightarrow> uchar list) \<Rightarrow> mkfs \<Rightarrow> bool" where
  "mk_sync n T F s \<longleftrightarrow> mk_ok n F (sizes F) (disk_inode (img s)) s \<and>
     (\<forall>i\<in>{1..<n}. disk_inode (img s) i = fs_inode (T i) (F i) (i_addrs (disk_inode (img s) i))) \<and>
     (\<forall>i\<in>{n..<208}. disk_inode (img s) i = din0)"

definition fixed_same :: "mkfs \<Rightarrow> mkfs \<Rightarrow> bool" where
  "fixed_same s t \<longleftrightarrow> (\<forall>b. unat b < 32 \<or> unat b = 45 \<longrightarrow> img t b = img s b)"

lemma fixed_same_trans: "fixed_same s t \<Longrightarrow> fixed_same t u \<Longrightarrow> fixed_same s u"
  by (simp add: fixed_same_def)

lemma sizes_upd: "sizes (F(k := bs)) = (sizes F)(k := nblk (length bs))"
  by (auto simp: sizes_def)

lemma disk_inode_beyond: "NDIRECT < a \<Longrightarrow> i_addrs (disk_inode V i) a = 0"
  by (simp add: disk_inode_def dinode_load_def din0_def)

lemma disk_inode_meta:
  assumes "i < 208" "\<And>b. unat b < 46 \<Longrightarrow> V' b = V b"
  shows "disk_inode V' i = disk_inode V i"
proof -
  have "i div 16 < 13" using assms(1) by (simp add: div_less_iff_less_mult)
  then show ?thesis using mk_iblock(1) [OF assms(1)] assms(2) by (simp add: disk_inode_def)
qed

lemma iappend_ok:
  assumes sy: "mk_sync n T F s" and k: "k \<in> {1..<n}" and len: "length (F k) + length p \<le> MAXFILE * BSIZE"
    and cap: "used n (sizes (F(k := F k @ p))) \<le> FSSIZE"
  obtains s' where "iappend (of_nat k) p s = ret () s'" "mk_sync n T (F(k := F k @ p)) s'" "fixed_same s s'"
proof -
  let ?D = "disk_inode (img s)" and ?F = "F(k := F k @ p)" and ?l = "length (F k) + length p"
  have ok: "mk_ok n F (sizes F) ?D s" and ino: "\<And>i. i \<in> {1..<n} \<Longrightarrow> ?D i = fs_inode (T i) (F i) (i_addrs (?D i))"
    and fr: "\<And>i. i \<in> {n..<208} \<Longrightarrow> ?D i = din0" using sy unfolding mk_sync_def by blast+
  have n: "n \<le> 208" "nsect s = FSSIZE" "mk_sb s = mk_super" using ok by (auto simp: mk_ok_def)
  have k208: "k < 208" using k n by simp
  have kd: "k div 16 < 13" using k208 by (simp add: div_less_iff_less_mult)
  have ib: "unat (IBLOCK (of_nat k) mk_super) < FSSIZE" unfolding mk_iblock(1) [OF k208] using kd by (simp add: FSSIZE_def)
  have rd: "rinode (of_nat k) s = ret (?D k) s" using sect_rw(1) [OF n(2) ib] n(3) by (simp add: rinode_def disk_inode_def)
  have sz: "i_size (?D k) = of_nat (length (F k))" using arg_cong [OF ino [OF k], of i_size] by (simp add: fs_inode_def)
  have cap': "used n ((sizes F)(k := nblk ?l)) \<le> FSSIZE" using cap by (simp add: sizes_upd)
  obtain x1 s1 where 1: "iappend_loop (?D k) (of_nat (length (F k))) p s = ret (x1, of_nat ?l) s1"
    "mk_ok n ?F ((sizes F)(k := nblk ?l)) (?D(k := x1)) s1" "x1 = (?D k)\<lparr>i_addrs := i_addrs x1\<rparr>"
    "\<forall>a. NDIRECT < a \<longrightarrow> i_addrs x1 a = i_addrs (?D k) a" "meta_same s s1"
    using iappend_loop_ok [OF ok k sizes_def len cap'] by blast
  let ?x = "x1\<lparr>i_size := of_nat ?l\<rparr>"
  have x: "?x = fs_inode (T k) (F k @ p) (i_addrs x1)"
    by (subst 1(3), subst ino [OF k]) (simp add: fs_inode_def)
  have n1: "nsect s1 = FSSIZE" "mk_sb s1 = mk_super" using 1(2) by (auto simp: mk_ok_def)
  have ad: "i_addrs x1 a = 0" if "NDIRECT < a" for a using 1(4) that disk_inode_beyond by simp
  obtain s2 where 2: "winode (of_nat k) ?x s1 = ret () s2" "s2 = s1\<lparr>img := img s2\<rparr>" "disk_inode (img s2) k = ?x"
    "\<And>j. j < 208 \<Longrightarrow> j \<noteq> k \<Longrightarrow> disk_inode (img s2) j = disk_inode (img s1) j" "\<And>b. unat b < 32 \<or> 45 \<le> unat b \<Longrightarrow> img s2 b = img s1 b"
    using winode_run [OF n1 k208 x ad] by blast
  have D2: "disk_inode (img s2) j = (?D(k := ?x)) j" if "j < 208" for j
    using that 2(3,4) disk_inode_meta [of j "img s1" "img s"] 1(5) by (auto simp: meta_same_def)
  have "sizes ?F = (sizes F)(k := nblk ?l)" by (simp add: sizes_upd)
  then have ok1: "mk_ok n ?F (sizes ?F) (?D(k := x1)) s1" using 1(2) by simp
  have "image_ok n (used n (sizes ?F)) ?F (sizes ?F) (disk_inode (img s2)) (img s2)"
  proof (rule image_meta [where X = "?D(k := x1)" and V = "img s1"])
    show "image_ok n (used n (sizes ?F)) ?F (sizes ?F) (?D(k := x1)) (img s1)" using ok1 unfolding mk_ok_def by blast
    show "i_addrs (disk_inode (img s2) i) = i_addrs ((?D(k := x1)) i)" if "i \<in> {1..<n}" for i
      using D2 [of i] that n(1) by (cases "i = k") simp_all
  qed (use 2(5) in \<open>simp_all add: used_def\<close>)
  moreover have "nsect s2 = nsect s1" "mk_sb s2 = mk_sb s1" "freeinode s2 = freeinode s1" "freeblock s2 = freeblock s1" by (subst 2(2), simp)+
  ultimately have "mk_ok n ?F (sizes ?F) (disk_inode (img s2)) s2" using ok1 unfolding mk_ok_def by simp
  moreover have "disk_inode (img s2) i = fs_inode (T i) (?F i) (i_addrs (disk_inode (img s2) i))" if "i \<in> {1..<n}" for i
  proof (cases "i = k")
    case True
    then show ?thesis using 2(3) x by (simp add: fs_inode_def)
  next
    case False
    then show ?thesis using D2 [of i] ino [OF that] that n(1) by simp
  qed
  moreover have "disk_inode (img s2) i = din0" if "i \<in> {n..<208}" for i using D2 [of i] fr [OF that] that k by auto
  ultimately have "mk_sync n T ?F s2" unfolding mk_sync_def by blast
  moreover have "iappend (of_nat k) p s = ret () s2" using rd 1(1) 2(1) sz by (simp add: iappend_def)
  moreover have "fixed_same s s2" using 1(5) 2(5) by (auto simp: fixed_same_def meta_same_def)
  ultimately show thesis using that by blast
qed

lemma holds_empty: "i_addrs x = (\<lambda>_. 0) \<Longrightarrow> holds V x [] 0 \<and> own V x = {}"
  by (auto simp: holds_def own_def blk_of_def)

lemma used_Suc: "1 \<le> n \<Longrightarrow> used (Suc n) M = used n M + bcount (M n)"
  by (simp add: used_def)

lemma used_cong: "(\<And>i. i \<in> {1..<n} \<Longrightarrow> M' i = M i) \<Longrightarrow> used n M' = used n M"
  by (simp add: used_def)

lemma mk_ialloc_ok:
  assumes sy: "mk_sync n T F s" and n: "n < 208"
  obtains s' where "mk_ialloc ty s = ret (of_nat n) s'" "mk_sync (Suc n) (T(n := ty)) (F(n := [])) s'" "fixed_same s s'"
proof -
  let ?D = "disk_inode (img s)" and ?F = "F(n := [])" and ?x = "fs_inode ty [] (\<lambda>_. 0)" and ?s = "s\<lparr>freeinode := freeinode s + 1\<rparr>"
  have ok: "mk_ok n F (sizes F) ?D s" and ino: "\<And>i. i \<in> {1..<n} \<Longrightarrow> ?D i = fs_inode (T i) (F i) (i_addrs (?D i))"
    and fr: "\<And>i. i \<in> {n..<208} \<Longrightarrow> ?D i = din0" using sy unfolding mk_sync_def by blast+
  have c: "nsect ?s = FSSIZE" "mk_sb ?s = mk_super" "freeinode s = of_nat n" "1 \<le> n" using ok by (auto simp: mk_ok_def)
  obtain s2 where 2: "winode (of_nat n) ?x ?s = ret () s2" "s2 = ?s\<lparr>img := img s2\<rparr>" "disk_inode (img s2) n = ?x"
    "\<And>j. j < 208 \<Longrightarrow> j \<noteq> n \<Longrightarrow> disk_inode (img s2) j = disk_inode (img ?s) j" "\<And>b. unat b < 32 \<or> 45 \<le> unat b \<Longrightarrow> img s2 b = img ?s b"
    by (rule winode_run [where ty = ty and bs = "[]" and ad = "\<lambda>_. 0", OF c(1,2) n refl refl]) (rule that; assumption)
  have D2: "disk_inode (img s2) j = (?D(n := ?x)) j" if "j < 208" for j using that 2(3,4) by auto
  have u: "used (Suc n) (sizes ?F) = used n (sizes F)"
    using used_Suc [OF c(4), of "sizes ?F"] used_cong [of n "sizes ?F" "sizes F"] by (simp add: sizes_upd nblk_def bcount_def)
  have im: "image_ok n (used n (sizes F)) F (sizes F) (disk_inode (img s2)) (img s2)"
  proof (rule image_meta [where X = ?D and V = "img s"])
    show "image_ok n (used n (sizes F)) F (sizes F) ?D (img s)" using ok unfolding mk_ok_def by blast
    show "i_addrs (disk_inode (img s2) i) = i_addrs (?D i)" if "i \<in> {1..<n}" for i using D2 [of i] that n by simp
  qed (use 2(5) in \<open>simp_all add: used_def\<close>)
  have old: "holds (img s2) (disk_inode (img s2) i) (F i) (sizes F i)" "own (img s2) (disk_inode (img s2) i) \<subseteq> {b. 46 \<le> unat b \<and> unat b < used n (sizes F)}"
    if "i \<in> {1..<n}" for i using im that unfolding image_ok_def by blast+
  have dis: "own (img s2) (disk_inode (img s2) i) \<inter> own (img s2) (disk_inode (img s2) j) = {}" if "i \<in> {1..<n}" "j \<in> {1..<n}" "i \<noteq> j" for i j
    using im that unfolding image_ok_def by blast
  have e: "holds (img s2) (disk_inode (img s2) n) [] 0" "own (img s2) (disk_inode (img s2) n) = {}"
    using holds_empty [of ?x "img s2"] 2(3) by (auto simp: fs_inode_def)
  have sz: "sizes ?F n = 0" "\<And>i. i \<noteq> n \<Longrightarrow> sizes ?F i = sizes F i" by (simp_all add: sizes_def nblk_def)
  have split: "i \<in> {1..<Suc n} \<Longrightarrow> i = n \<or> i \<in> {1..<n} \<and> i \<noteq> n" for i by auto
  have "image_ok (Suc n) (used n (sizes F)) ?F (sizes ?F) (disk_inode (img s2)) (img s2)"
    unfolding image_ok_def
  proof (intro conjI ballI allI impI)
    fix i assume i: "i \<in> {1..<Suc n}"
    show "holds (img s2) (disk_inode (img s2) i) (?F i) (sizes ?F i)" using split [OF i] old(1) [of i] e(1) sz by auto
    show "own (img s2) (disk_inode (img s2) i) \<subseteq> {b. 46 \<le> unat b \<and> unat b < used n (sizes F)}"
      using split [OF i] old(2) [of i] e(2) by (elim disjE) simp_all
    fix j assume "j \<in> {1..<Suc n}" "i \<noteq> j"
    then show "own (img s2) (disk_inode (img s2) i) \<inter> own (img s2) (disk_inode (img s2) j) = {}"
      using split [OF i] split [of j] dis [of i j] e(2) by (cases "i = n"; cases "j = n") simp_all
  qed (use im in \<open>simp add: image_ok_def\<close>)
  moreover have "nsect s2 = FSSIZE" "mk_sb s2 = mk_super" "freeinode s2 = of_nat (Suc n)" "freeblock s2 = freeblock s"
    using c by (subst 2(2), simp)+
  ultimately have "mk_ok (Suc n) ?F (sizes ?F) (disk_inode (img s2)) s2" using ok n u unfolding mk_ok_def by simp
  moreover have "disk_inode (img s2) i = fs_inode ((T(n := ty)) i) (?F i) (i_addrs (disk_inode (img s2) i))" if "i \<in> {1..<Suc n}" for i
  proof (cases "i = n")
    case True
    then show ?thesis using 2(3) by (simp add: fs_inode_def)
  next
    case False
    then show ?thesis using D2 [of i] ino [of i] that n by auto
  qed
  moreover have "disk_inode (img s2) i = din0" if "i \<in> {Suc n..<208}" for i using D2 [of i] fr [of i] that by auto
  ultimately have "mk_sync (Suc n) (T(n := ty)) ?F s2" unfolding mk_sync_def by blast
  moreover have "mk_ialloc ty s = ret (of_nat n) s2"
    using 2(1) c(3) by (simp add: mk_ialloc_def Let_def fs_inode_def din0_def)
  moreover have "fixed_same s s2" using 2(5) by (auto simp: fixed_same_def)
  ultimately show thesis using that by blast
qed

end
