(* ===== verification/MkfsRun.thy ===== *)
theory MkfsRun
  imports MkfsSpec
begin

text \<open>
  The whole run of the image builder: the files that it is given, the root directory with their names, the bitmap,
  and the super block, as the kernel reads them from the image.
\<close>

section \<open>Files\<close>

text \<open>The bytes that the calls of \<^verbatim>\<open>read\<close> deliver, and the directory entry of a file.\<close>

definition content :: "(uchar list \<Rightarrow> uchar list list option) \<Rightarrow> uchar list \<Rightarrow> uchar list" where
  "content host arg = concat (takeWhile (\<lambda>b. b \<noteq> []) (the (host arg)))"

definition dirent :: "nat \<Rightarrow> uchar list \<Rightarrow> uchar list" where
  "dirent i nm = de_encode (of_nat i) (de_name_of nm)"

definition file_name :: "uchar list \<Rightarrow> uchar list" where
  "file_name arg = strip_underscore (shortname arg)"

lemma length_dirent [simp]: "length (dirent i nm) = 16"
  by (simp add: dirent_def de_encode_def DIRSIZ_def)

lemma ucast_of_nat: "i < 208 \<Longrightarrow> (ucast (of_nat i :: uint) :: ushort) = of_nat i"
  by (simp add: word_unat_eq_iff unsigned_ucast_eq unat_of_nat take_bit_nat_eq_self)

lemma sizes_le:
  assumes "n \<le> n'" "\<And>i. i \<in> {1..<n} \<Longrightarrow> length (F i) \<le> length (F' i)"
  shows "used n (sizes F) \<le> used n' (sizes F')"
proof -
  have "(\<Sum>i\<in>{1..<n}. bcount (sizes F i)) \<le> (\<Sum>i\<in>{1..<n}. bcount (sizes F' i))"
  proof (rule sum_mono)
    fix i assume "i \<in> {1..<n}"
    then have "sizes F i \<le> sizes F' i" using assms(2) by (simp add: sizes_def nblk_mono)
    then show "bcount (sizes F i) \<le> bcount (sizes F' i)" by (auto simp: bcount_def)
  qed
  also have "\<dots> \<le> (\<Sum>i\<in>{1..<n'}. bcount (sizes F' i))" using assms(1) by (intro sum_mono2) auto
  finally show ?thesis by (simp add: used_def)
qed

lemma mk_dirent_ok:
  assumes sy: "mk_sync n T F s" and i: "i < 208" "1 < n" and len: "length (F 1) + 16 \<le> MAXFILE * BSIZE"
    and cap: "used n (sizes (F(1 := F 1 @ dirent i nm))) \<le> FSSIZE"
  obtains s' where "mk_dirent (of_nat i) nm s = ret () s'" "mk_sync n T (F(1 := F 1 @ dirent i nm)) s'" "fixed_same s s'"
proof -
  obtain s' where "iappend (of_nat 1) (dirent i nm) s = ret () s'" "mk_sync n T (F(1 := F 1 @ dirent i nm)) s'" "fixed_same s s'"
    using iappend_ok [OF sy _ _ cap] i len by auto
  then show thesis using that i by (simp add: mk_dirent_def ROOTINO_def ucast_of_nat dirent_def)
qed

lemma mk_copy_ok:
  assumes "mk_sync n T F s" "k \<in> {1..<n}" "length (F k) + length (concat (takeWhile (\<lambda>b. b \<noteq> []) reads)) \<le> MAXFILE * BSIZE"
    "used n (sizes (F(k := F k @ concat (takeWhile (\<lambda>b. b \<noteq> []) reads)))) \<le> FSSIZE"
  shows "\<exists>s'. mk_copy (of_nat k) reads s = ret () s' \<and> mk_sync n T (F(k := F k @ concat (takeWhile (\<lambda>b. b \<noteq> []) reads))) s' \<and> fixed_same s s'"
  using assms
proof (induction reads arbitrary: F s)
  case (Cons b reads)
  show ?case
  proof (cases "b = []")
    case True
    then show ?thesis using Cons.prems by (simp add: fixed_same_def)
  next
    case False
    let ?r = "concat (takeWhile (\<lambda>b. b \<noteq> []) reads)" and ?F = "F(k := F k @ b)"
    have cap: "used n (sizes ?F) \<le> FSSIZE" by (rule order_trans [OF sizes_le Cons.prems(4)]) (auto simp: False)
    have len: "length (F k) + length b \<le> MAXFILE * BSIZE" using Cons.prems(3) False by simp
    obtain s1 where 1: "iappend (of_nat k) b s = ret () s1" "mk_sync n T ?F s1" "fixed_same s s1"
      by (rule iappend_ok [OF Cons.prems(1,2) len cap])
    have e: "?F(k := ?F k @ ?r) = F(k := F k @ concat (takeWhile (\<lambda>b. b \<noteq> []) (b # reads)))" using False by (simp add: fun_upd_upd)
    have "\<exists>s'. mk_copy (of_nat k) reads s1 = ret () s' \<and> mk_sync n T (?F(k := ?F k @ ?r)) s' \<and> fixed_same s1 s'"
      using Cons.prems(3) False by (intro Cons.IH [OF 1(2) Cons.prems(2)]) (simp, unfold e, rule Cons.prems(4))
    then obtain s' where 2: "mk_copy (of_nat k) reads s1 = ret () s'" "mk_sync n T (?F(k := ?F k @ ?r)) s'" "fixed_same s1 s'" by blast
    have "mk_copy (of_nat k) (b # reads) s = ret () s'" using 1(1) 2(1) False by simp
    then show ?thesis using 2(2) [unfolded e] fixed_same_trans [OF 1(3) 2(3)] by blast
  qed
qed (simp add: fixed_same_def)

text \<open>One file of the command line.\<close>

definition good_arg :: "(uchar list \<Rightarrow> uchar list list option) \<Rightarrow> uchar list \<Rightarrow> bool" where
  "good_arg host arg \<longleftrightarrow> host arg \<noteq> None \<and> slash \<notin> set (shortname arg) \<and> length (content host arg) \<le> MAXFILE * BSIZE"

definition with_file :: "(uchar list \<Rightarrow> uchar list list option) \<Rightarrow> nat \<Rightarrow> uchar list \<Rightarrow> (nat \<Rightarrow> uchar list) \<Rightarrow> nat \<Rightarrow> uchar list" where
  "with_file host n arg F = F(1 := F 1 @ dirent n (file_name arg), n := content host arg)"

lemma mk_file_ok:
  assumes sy: "mk_sync n T F s" and n: "1 < n" "n < 208" and arg: "good_arg host arg" and len: "length (F 1) + 16 \<le> MAXFILE * BSIZE"
    and cap: "used (Suc n) (sizes (with_file host n arg F)) \<le> FSSIZE"
  obtains s' where "mk_file host arg s = ret () s'" "mk_sync (Suc n) (T(n := T_FILE)) (with_file host n arg F) s'" "fixed_same s s'"
proof -
  obtain reads where r: "host arg = Some reads" using arg by (auto simp: good_arg_def)
  let ?T = "T(n := T_FILE)" and ?F0 = "F(n := [])" and ?nm = "file_name arg" and ?c = "concat (takeWhile (\<lambda>b. b \<noteq> []) reads)"
  let ?F1 = "?F0(1 := ?F0 1 @ dirent n ?nm)"
  have F: "with_file host n arg F = ?F1(n := ?F1 n @ ?c)" using n r by (auto simp: with_file_def content_def fun_eq_iff)
  obtain s1 where 1: "mk_ialloc T_FILE s = ret (of_nat n) s1" "mk_sync (Suc n) ?T ?F0 s1" "fixed_same s s1"
    using mk_ialloc_ok [OF sy n(2), of T_FILE] by blast
  have cap1: "used (Suc n) (sizes ?F1) \<le> FSSIZE"
    by (rule order_trans [OF sizes_le cap]) (use n in \<open>auto simp: with_file_def\<close>)
  obtain s2 where 2: "mk_dirent (of_nat n) ?nm s1 = ret () s2" "mk_sync (Suc n) ?T ?F1 s2" "fixed_same s1 s2"
    using mk_dirent_ok [OF 1(2) n(2) _ _ cap1] n len by auto
  have "\<exists>s'. mk_copy (of_nat n) reads s2 = ret () s' \<and> mk_sync (Suc n) ?T (?F1(n := ?F1 n @ ?c)) s' \<and> fixed_same s2 s'"
    using n arg r cap unfolding F by (intro mk_copy_ok [OF 2(2)]) (auto simp: good_arg_def content_def)
  then obtain s3 where 3: "mk_copy (of_nat n) reads s2 = ret () s3" "mk_sync (Suc n) ?T (with_file host n arg F) s3" "fixed_same s2 s3"
    unfolding F by blast
  have "mk_file host arg s = ret () s3"
    using arg r 1(1) 2(1) 3(1) by (simp add: mk_file_def good_arg_def file_name_def Let_def)
  then show thesis using that 3(2) fixed_same_trans [OF 1(3) fixed_same_trans [OF 2(3) 3(3)]] by blast
qed

text \<open>The files of the command line, from inode \<open>n\<close> on.\<close>

fun with_files :: "(uchar list \<Rightarrow> uchar list list option) \<Rightarrow> nat \<Rightarrow> uchar list list \<Rightarrow> (nat \<Rightarrow> uchar list) \<Rightarrow> nat \<Rightarrow> uchar list" where
  "with_files host n [] F = F"
| "with_files host n (arg # args) F = with_files host (Suc n) args (with_file host n arg F)"

definition file_types :: "nat \<Rightarrow> nat \<Rightarrow> (nat \<Rightarrow> ushort) \<Rightarrow> nat \<Rightarrow> ushort" where
  "file_types n m T i = (if n \<le> i \<and> i < n + m then T_FILE else T i)"

lemma with_files_old: "1 < i \<Longrightarrow> i < n \<Longrightarrow> with_files host n args F i = F i"
  by (induction args arbitrary: n F) (simp_all add: with_file_def)

lemma with_files_new: "1 < n \<Longrightarrow> i < length args \<Longrightarrow> with_files host n args F (n + i) = content host (args ! i)"
proof (induction args arbitrary: n F i)
  case (Cons a args)
  show ?case
  proof (cases i)
    case 0
    then show ?thesis using Cons.prems(1) with_files_old [of n "Suc n" host args] by (simp add: with_file_def)
  next
    case (Suc j)
    then show ?thesis using Cons.IH [of "Suc n" j] Cons.prems by simp
  qed
qed simp

lemma with_files_root:
  "1 < n \<Longrightarrow> with_files host n args F 1 = F 1 @ concat (map (\<lambda>i. dirent (n + i) (file_name (args ! i))) [0..<length args])"
proof (induction args arbitrary: n F)
  case (Cons a args)
  have u: "[0..<length (a # args)] = 0 # map Suc [0..<length args]" by (simp add: upt_conv_Cons map_Suc_upt del: upt_Suc)
  have "with_files host n (a # args) F 1 =
      with_file host n a F 1 @ concat (map (\<lambda>i. dirent (Suc n + i) (file_name (args ! i))) [0..<length args])"
    using Cons.IH [of "Suc n" "with_file host n a F"] Cons.prems by simp
  then show ?case using Cons.prems unfolding u by (simp add: with_file_def comp_def)
qed simp

lemma with_files_grow:
  assumes "1 < n" "i \<in> {1..<n}"
  shows "length (F i) \<le> length (with_files host n args F i)"
  using with_files_root [OF assms(1), of host args F] with_files_old [of i n host args F] assms by (cases "i = 1") auto

lemma mk_files_ok:
  assumes "mk_sync n T F s" "1 < n" "n + length args \<le> 208" "\<forall>arg\<in>set args. good_arg host arg" "length (F 1) = 16 * n"
    "used (n + length args) (sizes (with_files host n args F)) \<le> FSSIZE"
  shows "\<exists>s'. mk_files host args s = ret () s' \<and> mk_sync (n + length args) (file_types n (length args) T) (with_files host n args F) s' \<and> fixed_same s s'"
  using assms
proof (induction args arbitrary: n T F s)
  case Nil
  have "file_types n 0 T = T" by (auto simp: file_types_def fun_eq_iff)
  with Nil show ?case by (simp add: fixed_same_def)
next
  case (Cons a args)
  let ?F = "with_file host n a F" and ?T = "T(n := T_FILE)"
  have len: "length (F 1) + 16 \<le> MAXFILE * BSIZE" using Cons.prems(3,5) by (simp add: MAXFILE_def NDIRECT_def NINDIRECT_def BSIZE_def)
  have cap: "used (Suc n) (sizes ?F) \<le> FSSIZE"
    using with_files_grow [of "Suc n" _ ?F host args] Cons.prems(2) by (intro order_trans [OF sizes_le Cons.prems(6)]) auto
  obtain s1 where 1: "mk_file host a s = ret () s1" "mk_sync (Suc n) ?T ?F s1" "fixed_same s s1"
    using mk_file_ok [OF Cons.prems(1,2) _ _ len cap] Cons.prems(3,4) by auto
  have "length (?F 1) = 16 * Suc n" using Cons.prems(2,5) by (simp add: with_file_def)
  then have "\<exists>s'. mk_files host args s1 = ret () s' \<and> mk_sync (Suc n + length args) (file_types (Suc n) (length args) ?T) (with_files host (Suc n) args ?F) s' \<and>
      fixed_same s1 s'"
    using Cons.prems by (intro Cons.IH [OF 1(2)]) simp_all
  moreover have "file_types (Suc n) (length args) ?T = file_types n (length (a # args)) T" by (auto simp: file_types_def fun_eq_iff)
  ultimately show ?case using 1(1) fixed_same_trans [OF 1(3)] by auto
qed

section \<open>The start\<close>

lemma wsects_zero:
  assumes "img s = (\<lambda>_ _. 0)" "m \<le> FSSIZE" "nsect s \<le> i" "i \<le> m" "0 < m"
  shows "wsects [i..<m] (\<lambda>_. 0) s = ret () (if i < m then s\<lparr>nsect := m\<rparr> else s)"
  using assms
proof (induction "m - i" arbitrary: i s)
  case (Suc d)
  have i: "i < m" using Suc.hyps(2) by simp
  have u: "unat (of_nat i :: uint) = i" using i Suc.prems(2) by (intro unat_small) simp
  have sec: "sector (of_nat i) = of_nat i" using u i Suc.prems(2) by (intro sector_id) (simp add: FSSIZE_def)
  let ?s = "s\<lparr>nsect := Suc i\<rparr>"
  have w: "wsect (of_nat i) (\<lambda>_. 0) s = ret () ?s"
    unfolding wsect_def sec u using Suc.prems(1,3) by (simp add: max_def fun_upd_idem)
  have "wsects [Suc i..<m] (\<lambda>_. 0) ?s = ret () (if Suc i < m then ?s\<lparr>nsect := m\<rparr> else ?s)"
    using Suc.hyps(2) Suc.prems i by (intro Suc.hyps(1)) simp_all
  moreover have "[i..<m] = i # [Suc i..<m]" using i by (rule upt_conv_Cons)
  moreover have "(if Suc i < m then ?s\<lparr>nsect := m\<rparr> else ?s) = s\<lparr>nsect := m\<rparr>" using i by (auto simp: not_less le_Suc_eq)
  ultimately show ?case using w i by simp
qed simp

lemma sb_decode_encode: "sb_decode (sb_encode q) = q"
  by (simp add: sb_decode_def sb_encode_def mem_simps)

lemma disk_inode_zero:
  assumes "V (IBLOCK (of_nat i) mk_super) = (\<lambda>_. 0)"
  shows "disk_inode V i = din0"
proof -
  have g: "get_bytes (\<lambda>_. 0) off n = replicate n 0" for off n by (rule nth_equalityI) simp_all
  show ?thesis unfolding disk_inode_def assms dinode_load_def get16_def get32_def g by (auto simp: din0_def fun_eq_iff)
qed

text \<open>After the super block has been written.\<close>

definition mk_blank :: mkfs where
  "mk_blank = mk_start\<lparr>nsect := FSSIZE, img := (img mk_start)(1 := sb_encode mk_super)\<rparr>"

lemma mk_blank_run:
  "bnd (wsects [0..<FSSIZE] (\<lambda>_. 0) mk_start) (\<lambda>_ s. bnd (wsect 1 (sb_encode (mk_sb s)) s) f) = f () mk_blank"
proof -
  have "wsects [0..<FSSIZE] (\<lambda>_. 0) mk_start = ret () (mk_start\<lparr>nsect := FSSIZE\<rparr>)"
    using wsects_zero [of mk_start FSSIZE 0] by (simp add: mk_start_def FSSIZE_def)
  moreover have "wsect 1 z (mk_start\<lparr>nsect := FSSIZE\<rparr>) = ret () (mk_start\<lparr>nsect := FSSIZE, img := (img mk_start)(1 := z)\<rparr>)" for z
    using sect_rw(2) [of "mk_start\<lparr>nsect := FSSIZE\<rparr>" 1 z] by (simp add: FSSIZE_def)
  ultimately show ?thesis by (simp add: mk_blank_def mk_start_def)
qed

lemma mk_blank_sync: "mk_sync 1 T F mk_blank"
proof -
  have u: "used 1 M = 46" "used (Suc 0) M = 46" for M by (simp_all add: used_def)
  have z: "img mk_blank b = (\<lambda>_. 0)" if "b \<noteq> 1" for b using that by (simp add: mk_blank_def mk_start_def)
  have fb: "freeblock mk_blank = 46"
    by (simp add: mk_blank_def mk_start_def nlog_def LOGSIZE_def MAXOPBLOCKS_def ninodeblocks_def NINODES_def IPB_def BSIZE_def nbitmap_def FSSIZE_def)
  have "b \<noteq> 1" if "46 \<le> unat b" for b :: uint using that by auto
  then have "image_ok 1 46 F M X (img mk_blank)" for M X using z by (simp add: image_ok_def)
  then have "mk_ok 1 F (sizes F) (disk_inode (img mk_blank)) mk_blank"
    using fb by (simp add: mk_ok_def u FSSIZE_def) (simp add: mk_blank_def mk_start_def FSSIZE_def)
  moreover have "disk_inode (img mk_blank) i = din0" if "i < 208" for i
  proof (rule disk_inode_zero, rule z)
    show "IBLOCK (of_nat i) mk_super \<noteq> 1" using mk_iblock(1) [OF that] by auto
  qed
  ultimately show ?thesis by (simp add: mk_sync_def)
qed

section \<open>The end\<close>

lemma fold_bit_set: "bit_free (fold bit_set [0..<m] (\<lambda>_. 0)) b \<longleftrightarrow> m \<le> b"
proof (induction m)
  case 0
  then show ?case by (simp add: bit_free_bit)
next
  case (Suc m)
  have "fold bit_set [0..<Suc m] (\<lambda>_. 0) = bit_set m (fold bit_set [0..<m] (\<lambda>_. 0))" by simp
  then show ?case using Suc by (auto simp: bit_free_set)
qed

lemma mk_bblock: "b < FSSIZE \<Longrightarrow> BBLOCK (of_nat b) mk_super = 45"
  by (simp add: BBLOCK_eq BPB_eq mk_super_eq FSSIZE_def)

lemma mk_balloc_ok:
  assumes s: "nsect s = FSSIZE" "mk_sb s = mk_super" "m \<le> FSSIZE"
  obtains s' where "mk_balloc (int m) s = ret () s'" "s' = s\<lparr>img := img s'\<rparr>" "\<And>b. b \<noteq> 45 \<Longrightarrow> img s' b = img s b"
    "\<And>b. b < FSSIZE \<Longrightarrow> free_bit mk_super (img s') b \<longleftrightarrow> m \<le> b"
proof -
  let ?s = "s\<lparr>img := (img s)(45 := fold bit_set [0..<m] (\<lambda>_. 0))\<rparr>"
  have "mk_balloc (int m) s = ret () ?s"
    using sect_rw(2) [OF s(1), of 45] s(2,3) by (simp add: mk_balloc_def mk_super_eq FSSIZE_def BSIZE_def)
  moreover have "free_bit mk_super (img ?s) b \<longleftrightarrow> m \<le> b" if "b < FSSIZE" for b
    using that by (simp add: free_bit_def mk_bblock fold_bit_set BPB_eq FSSIZE_def)
  ultimately show thesis by (intro that [of ?s]) simp_all
qed

lemma mk_fix_root_ok:
  assumes sy: "mk_sync n T F s" and n: "1 < n"
  defines "sz \<equiv> (length (F 1) div BSIZE + 1) * BSIZE"
  obtains s' where "mk_fix_root s = ret () s'" "s' = s\<lparr>img := img s'\<rparr>" "fixed_same s s'"
    "disk_inode (img s') 1 = (disk_inode (img s) 1)\<lparr>i_size := of_nat sz\<rparr>"
    "\<And>i. i < 208 \<Longrightarrow> i \<noteq> 1 \<Longrightarrow> disk_inode (img s') i = disk_inode (img s) i"
    "image_ok n (used n (sizes F)) F (sizes F) (disk_inode (img s')) (img s')"
proof -
  let ?D = "disk_inode (img s)"
  have ok: "mk_ok n F (sizes F) ?D s" and ino: "?D 1 = fs_inode (T 1) (F 1) (i_addrs (?D 1))" using sy n unfolding mk_sync_def by auto
  have c: "nsect s = FSSIZE" "mk_sb s = mk_super" "n \<le> 208" using ok by (auto simp: mk_ok_def)
  have h: "holds (img s) (?D 1) (F 1) (sizes F 1)" using ok n unfolding mk_ok_def image_ok_def by auto
  have len: "length (F 1) \<le> MAXFILE * BSIZE" using holdsD(1,2) [OF h] by (meson order_trans mult_le_mono1)
  have l32: "length (F 1) < 2 ^ 32" using len by (simp add: MAXFILE_def NDIRECT_def NINDIRECT_def BSIZE_def)
  have u: "unat (of_nat (length (F 1)) :: uint) = length (F 1)" "unat (of_nat (length (F 1) div BSIZE) :: uint) = length (F 1) div BSIZE"
    using l32 le_less_trans [OF div_le_dividend l32, of BSIZE] by (simp_all add: unat_of_nat take_bit_nat_eq_self)
  have off: "((of_nat (length (F 1)) :: uint) div of_nat BSIZE + 1) * of_nat BSIZE = of_nat sz"
  proof -
    have "(of_nat (length (F 1)) :: uint) div of_nat BSIZE = of_nat (length (F 1) div BSIZE)"
      using unat_BSIZE(1) [of "of_nat (length (F 1))"] u by (simp only: word_unat_eq_iff)
    then show ?thesis by (simp add: sz_def distrib_right)
  qed
  have ib: "unat (IBLOCK 1 mk_super) < FSSIZE" using mk_iblock(1) [of 1] by (simp add: FSSIZE_def)
  have rd: "rinode ROOTINO s = ret (?D 1) s" using sect_rw(1) [OF c(1) ib] c(2) by (simp add: rinode_def disk_inode_def ROOTINO_def)
  let ?x = "(?D 1)\<lparr>i_size := of_nat sz\<rparr>"
  have x: "?x = fs_inode (T 1) (replicate sz 0) (i_addrs (?D 1))" by (subst ino) (simp add: fs_inode_def)
  have "(1 :: nat) < 208" by simp
  from winode_run [OF c(1,2) this x disk_inode_beyond]
  obtain s' where 2: "winode (of_nat 1) ?x s = ret () s'" "s' = s\<lparr>img := img s'\<rparr>" "disk_inode (img s') 1 = ?x"
    "\<And>j. j < 208 \<Longrightarrow> j \<noteq> 1 \<Longrightarrow> disk_inode (img s') j = ?D j" "\<And>b. unat b < 32 \<or> 45 \<le> unat b \<Longrightarrow> img s' b = img s b" by blast
  have "image_ok n (used n (sizes F)) F (sizes F) (disk_inode (img s')) (img s')"
  proof (rule image_meta [where X = ?D and V = "img s"])
    show "image_ok n (used n (sizes F)) F (sizes F) ?D (img s)" using ok unfolding mk_ok_def by blast
    show "i_addrs (disk_inode (img s') i) = i_addrs (?D i)" if "i \<in> {1..<n}" for i
      using 2(3) 2(4) [of i] that c(3) by (cases "i = 1") auto
  qed (use 2(5) in \<open>simp_all add: used_def\<close>)
  moreover have "mk_fix_root s = ret () s'"
    using rd 2(1) off arg_cong [OF ino, of i_size] by (simp add: mk_fix_root_def Let_def fs_inode_def ROOTINO_def)
  moreover have "fixed_same s s'" using 2(5) by (auto simp: fixed_same_def)
  ultimately show thesis using 2(2-4) by (intro that [of s']) simp_all
qed

section \<open>The image and the kernel\<close>

text \<open>
  Inode \<open>i\<close> of the image has the type \<open>ty\<close>, the bytes \<open>bs\<close> and zeros up to the end of its last block, and is a well-formed file
  for the kernel (theory \<open>FsWrite\<close>).
\<close>

definition on_image :: "(uint \<Rightarrow> cptr) \<Rightarrow> nat \<Rightarrow> ushort \<Rightarrow> nat \<Rightarrow> uchar list \<Rightarrow> bool" where
  "on_image V i ty sz bs \<longleftrightarrow> (let x = (disk_inode V i)\<lparr>i_inum := of_nat i\<rparr>
     in i_type x = ty \<and> i_nlink x = 1 \<and> i_size x = of_nat sz \<and> file_range V x 0 (length bs) = bs \<and>
        (\<forall>j. length bs \<le> j \<and> j < nblk (length bs) * BSIZE \<longrightarrow> file_byte V x j = 0) \<and> file_ok log0 mk_super V x)"

lemma mk_home:
  assumes "32 \<le> unat b" "unat b < FSSIZE"
  shows "home_ok log0 b"
proof -
  define m where "m = unat b"
  have "uint b = int m" by (simp add: m_def)
  then show ?thesis using assms unfolding m_def [symmetric] home_ok_def by (simp add: log0_def FSSIZE_def)
qed

lemma image_file_ok:
  assumes im: "image_ok n nf F M (disk_inode V) V" and i: "i \<in> {1..<n}" "n \<le> 208" and nf: "46 \<le> nf" "nf \<le> FSSIZE"
    and fb: "\<And>b. b < FSSIZE \<Longrightarrow> free_bit mk_super V b \<longleftrightarrow> nf \<le> b"
  shows "file_ok log0 mk_super V ((disk_inode V i)\<lparr>i_inum := of_nat i\<rparr>)"
proof -
  let ?x = "(disk_inode V i)\<lparr>i_inum := of_nat i\<rparr>" and ?ib = "IBLOCK (of_nat i) mk_super"
  have h0: "holds V (disk_inode V i) (F i) (M i)" and own0: "own V (disk_inode V i) \<subseteq> {b. 46 \<le> unat b \<and> unat b < nf}"
    using im i(1) unfolding image_ok_def by blast+
  have h: "holds V ?x (F i) (M i)" "own V ?x = own V (disk_inode V i)" using holds_cong [OF h0, of V ?x] by simp_all
  note d = holdsD [OF h(1)]
  have i208: "i < 208" "i div 16 < 13" using i by (auto simp: div_less_iff_less_mult)
  have ib: "unat ?ib = 32 + i div 16" using mk_iblock(1) [OF i208(1)] .
  have sz: "unat (sb_size mk_super) = FSSIZE" by (simp add: mk_super_eq FSSIZE_def)
  have sm: "unat (of_nat b :: uint) = b" if "b < FSSIZE" for b using that by (intro unat_small) simp
  have bb: "BBLOCK (of_nat y) mk_super = 45" if "y < FSSIZE" for y using mk_bblock [OF that] .
  have ne: "(45 :: uint) \<noteq> c" if "46 \<le> unat c \<or> unat c < 45" for c using that by auto
  have "bitmap_ok log0 mk_super V {}"
    unfolding bitmap_ok_def sz using nf fb sm ne mk_home by (auto simp: bb FSSIZE_def)
  moreover have "inode_ok log0 mk_super (i_inum ?x)"
    using ib i208(2) ne [of ?ib] mk_home [of ?ib] by (auto simp: inode_ok_def sz bb FSSIZE_def)
  moreover have "b \<noteq> 0 \<and> of_nat b \<noteq> ?ib" if "b < FSSIZE" "free_bit mk_super V b" for b
  proof -
    have "46 \<le> b" using fb [OF that(1)] that(2) nf(1) by linarith
    then show ?thesis using sm [OF that(1)] ib i208(2) by auto
  qed
  moreover have "data_ok log0 mk_super (i_inum ?x) V b" if "b \<in> own V ?x" for b
  proof -
    have b: "46 \<le> unat b" "unat b < nf" using that own0 h(2) by auto
    then have "b \<noteq> ?ib" using ib i208(2) by auto
    then show ?thesis using b nf(2) fb [of "unat b"] mk_home [of b] ne [of b] by (auto simp: data_ok_def sz bb)
  qed
  moreover have "a = b" if "a < MAXFILE" "b < MAXFILE" "blk_of V ?x a = blk_of V ?x b" "blk_of V ?x a \<noteq> 0" for a b
    using that d(3) [OF that(1)] d(3) [OF that(2)] d(5) [of a b] by simp
  moreover have "blk_of V ?x a \<noteq> i_addrs ?x NDIRECT" if "a < MAXFILE" "blk_of V ?x a \<noteq> 0" for a
    using that d(3) [OF that(1)] d(6) [of a] by simp
  ultimately show ?thesis unfolding file_ok_def sz by auto
qed

text \<open>The contents of the inodes, and the sizes that are recorded for them.\<close>

definition root_bytes :: "uchar list list \<Rightarrow> uchar list" where
  "root_bytes args = dirent 1 [46] @ dirent 1 [46, 46] @
     concat (map (\<lambda>i. dirent (2 + i) (file_name (args ! i))) [0..<length args])"

definition image_bytes :: "(uchar list \<Rightarrow> uchar list list option) \<Rightarrow> uchar list list \<Rightarrow> nat \<Rightarrow> uchar list" where
  "image_bytes host args i = (if i = 1 then root_bytes args else content host (args ! (i - 2)))"

definition image_size :: "(uchar list \<Rightarrow> uchar list list option) \<Rightarrow> uchar list list \<Rightarrow> nat \<Rightarrow> nat" where
  "image_size host args i = (if i = 1 then (length (root_bytes args) div BSIZE + 1) * BSIZE else length (image_bytes host args i))"

lemma with_files_image:
  assumes "F 1 = dirent 1 [46] @ dirent 1 [46, 46]" "i \<in> {1..<2 + length args}"
  shows "with_files host 2 args F i = image_bytes host args i"
proof (cases "i = 1")
  case True
  then show ?thesis using with_files_root [of 2 host args F] assms(1) by (simp add: image_bytes_def root_bytes_def)
next
  case False
  then have "i = 2 + (i - 2)" "i - 2 < length args" using assms(2) by auto
  then show ?thesis using with_files_new [of 2 "i - 2" args host F] False by (simp add: image_bytes_def)
qed

lemma used_sizes_cong: "(\<And>i. i \<in> {1..<n} \<Longrightarrow> F i = G i) \<Longrightarrow> used n (sizes F) = used n (sizes G)"
  by (intro used_cong) (simp add: sizes_def)

text \<open>The run up to the files.\<close>

lemma mk_main_files:
  assumes "\<forall>arg\<in>set args. good_arg host arg" "length args + 2 \<le> NINODES" "used (length args + 2) (sizes (image_bytes host args)) \<le> FSSIZE"
  obtains s T F where "mk_main host args = bnd (mk_fix_root s) (\<lambda>_ s. mk_balloc (sint (freeblock s)) s)"
    "mk_sync (2 + length args) T F s" "fixed_same mk_blank s" "\<And>i. i \<in> {1..<2 + length args} \<Longrightarrow> F i = image_bytes host args i"
    "\<And>i. i \<in> {1..<2 + length args} \<Longrightarrow> T i = (if i = 1 then T_DIR else T_FILE)"
proof -
  let ?T = "(\<lambda>_ :: nat. 0)(1 := T_DIR)" and ?A = "(\<lambda>_ :: nat. [])(1 := [])"
  let ?B = "?A(1 := ?A 1 @ dirent 1 [46])"
  let ?C = "?B(1 := ?B 1 @ dirent 1 [46, 46])"
  let ?G = "with_files host 2 args ?C"
  have F: "?G i = image_bytes host args i" if "i \<in> {1..<2 + length args}" for i using that by (intro with_files_image) simp_all
  have cap: "used (2 + length args) (sizes ?G) \<le> FSSIZE"
    using assms(3) used_sizes_cong [of "2 + length args" ?G "image_bytes host args", OF F] by (simp add: add.commute)
  have u: "used 2 (sizes G) \<le> FSSIZE" if "length (G 1) \<le> 32" for G
  proof -
    have "{1..<2::nat} = {1}" by auto
    moreover have "nblk (length (G 1)) \<le> nblk 32" using that by (rule nblk_mono)
    moreover have "nblk 32 = 1" by (simp add: nblk_def BSIZE_def)
    ultimately show ?thesis by (auto simp: used_def sizes_def bcount_def FSSIZE_def NDIRECT_def)
  qed
  have big: "(32 :: nat) \<le> MAXFILE * BSIZE" by (simp add: MAXFILE_def NDIRECT_def NINDIRECT_def BSIZE_def)
  obtain s1 where 1: "mk_ialloc T_DIR mk_blank = ret (of_nat 1) s1" "mk_sync 2 ?T ?A s1" "fixed_same mk_blank s1"
    by (rule mk_ialloc_ok [OF mk_blank_sync [of "\<lambda>_. 0" "\<lambda>_. []"], of T_DIR, unfolded Suc_1]) (simp, (rule that; assumption))
  obtain s2 where 2: "mk_dirent (of_nat 1) [46] s1 = ret () s2" "mk_sync 2 ?T ?B s2" "fixed_same s1 s2"
    by (rule mk_dirent_ok [OF 1(2) _ _ _ u, of 1 "[46]"]) (use big in simp, simp, use big in simp, simp, (rule that; assumption))
  obtain s3 where 3: "mk_dirent (of_nat 1) [46, 46] s2 = ret () s3" "mk_sync 2 ?T ?C s3" "fixed_same s2 s3"
    by (rule mk_dirent_ok [OF 2(2) _ _ _ u, of 1 "[46, 46]"]) (use big in simp, simp, use big in simp, simp, (rule that; assumption))
  have "\<exists>s'. mk_files host args s3 = ret () s' \<and> mk_sync (2 + length args) (file_types 2 (length args) ?T) ?G s' \<and> fixed_same s3 s'"
    using assms(1,2) cap by (intro mk_files_ok [OF 3(2)]) (simp_all add: NINODES_def)
  then obtain s4 where 4: "mk_files host args s3 = ret () s4" "mk_sync (2 + length args) (file_types 2 (length args) ?T) ?G s4" "fixed_same s3 s4"
    by blast
  have "mk_main host args = bnd (mk_fix_root s4) (\<lambda>_ s. mk_balloc (sint (freeblock s)) s)"
    unfolding mk_main_def mk_blank_run using 1(1) 2(1) 3(1) 4(1) by (simp add: ROOTINO_def)
  moreover have "fixed_same mk_blank s4" using 1(3) 2(3) 3(3) 4(3) by (meson fixed_same_trans)
  ultimately show thesis
    by (rule that [OF _ 4(2)]) (use F in \<open>auto simp: file_types_def\<close>)
qed

lemma used_bounds: "46 \<le> used n M"
  by (simp add: used_def)

lemma on_image_intro:
  assumes "image_ok n nf F M (disk_inode V) V" "i \<in> {1..<n}" "n \<le> 208" "46 \<le> nf" "nf \<le> FSSIZE" "M i = nblk (length (F i))"
    and fb: "\<And>b. b < FSSIZE \<Longrightarrow> free_bit mk_super V b \<longleftrightarrow> nf \<le> b"
    and x: "i_type (disk_inode V i) = ty" "i_nlink (disk_inode V i) = 1" "i_size (disk_inode V i) = of_nat sz"
  shows "on_image V i ty sz (F i)"
proof -
  let ?x = "(disk_inode V i)\<lparr>i_inum := of_nat i\<rparr>"
  have h0: "holds V (disk_inode V i) (F i) (M i)" using assms(1,2) unfolding image_ok_def by blast
  have h: "holds V ?x (F i) (M i)" using holds_cong(1) [OF h0, of V ?x] by simp
  have b: "file_byte V ?x j = (if j < length (F i) then F i ! j else 0)" if "j < nblk (length (F i)) * BSIZE" for j
    using holdsD(7) [OF h] that assms(6) by simp
  have l: "length (F i) \<le> nblk (length (F i)) * BSIZE" using holdsD(1) [OF h] assms(6) by simp
  have "file_range V ?x 0 (length (F i)) = F i"
    unfolding file_range_def by (rule nth_equalityI) (use b l in auto)
  then show ?thesis using x b image_file_ok [OF assms(1-5) fb] by (simp add: on_image_def Let_def)
qed

lemma sint_FSSIZE: "m \<le> FSSIZE \<Longrightarrow> sint (of_nat m :: uint) = int m"
  by (simp add: FSSIZE_def signed_of_nat signed_take_bit_int_eq_self)

text \<open>The last two steps.\<close>

lemma mk_main_end:
  assumes sy: "mk_sync n T F s" and n: "1 < n"
  obtains s' where "bnd (mk_fix_root s) (\<lambda>_ s. mk_balloc (sint (freeblock s)) s) = ret () s'"
    "\<And>b. unat b < 32 \<Longrightarrow> img s' b = img s b" "\<And>b. b < FSSIZE \<Longrightarrow> free_bit mk_super (img s') b \<longleftrightarrow> used n (sizes F) \<le> b"
    "disk_inode (img s') 1 = (disk_inode (img s) 1)\<lparr>i_size := of_nat ((length (F 1) div BSIZE + 1) * BSIZE)\<rparr>"
    "\<And>i. i < 208 \<Longrightarrow> i \<noteq> 1 \<Longrightarrow> disk_inode (img s') i = disk_inode (img s) i"
    "image_ok n (used n (sizes F)) F (sizes F) (disk_inode (img s')) (img s')"
proof -
  have ok: "mk_sb s = mk_super" "nsect s = FSSIZE" "freeblock s = of_nat (used n (sizes F))" "used n (sizes F) \<le> FSSIZE" "n \<le> 208"
    using sy unfolding mk_sync_def mk_ok_def by blast+
  obtain s2 where 2: "mk_fix_root s = ret () s2" "s2 = s\<lparr>img := img s2\<rparr>" "fixed_same s s2"
    "disk_inode (img s2) 1 = (disk_inode (img s) 1)\<lparr>i_size := of_nat ((length (F 1) div BSIZE + 1) * BSIZE)\<rparr>"
    "\<And>i. i < 208 \<Longrightarrow> i \<noteq> 1 \<Longrightarrow> disk_inode (img s2) i = disk_inode (img s) i"
    "image_ok n (used n (sizes F)) F (sizes F) (disk_inode (img s2)) (img s2)"
    by (rule mk_fix_root_ok [OF sy n]) (rule that; assumption)
  have f2: "nsect s2 = FSSIZE" "mk_sb s2 = mk_super" "sint (freeblock s2) = int (used n (sizes F))"
    using ok sint_FSSIZE [OF ok(4)] by (subst 2(2), simp)+
  obtain s' where 3: "mk_balloc (int (used n (sizes F))) s2 = ret () s'" "\<And>b. b \<noteq> 45 \<Longrightarrow> img s' b = img s2 b"
    "\<And>b. b < FSSIZE \<Longrightarrow> free_bit mk_super (img s') b \<longleftrightarrow> used n (sizes F) \<le> b"
    by (rule mk_balloc_ok [OF f2(1,2) ok(4)]) (rule that; assumption)
  have D: "disk_inode (img s') i = disk_inode (img s2) i" if "i < 208" for i
  proof -
    have "i div 16 < 13" using that by (simp add: div_less_iff_less_mult)
    then have "IBLOCK (of_nat i) mk_super \<noteq> 45" using mk_iblock(1) [OF that] by auto
    then show ?thesis using 3(2) by (simp add: disk_inode_def)
  qed
  have "bnd (mk_fix_root s) (\<lambda>_ s. mk_balloc (sint (freeblock s)) s) = ret () s'" using 2(1) f2(3) 3(1) by simp
  moreover have "img s' b = img s b" if "unat b < 32" for b
  proof -
    have "b \<noteq> 45" using that by auto
    then show ?thesis using 3(2) 2(3) that by (simp add: fixed_same_def)
  qed
  moreover have "image_ok n (used n (sizes F)) F (sizes F) (disk_inode (img s')) (img s')"
  proof (rule image_meta [OF 2(6)])
    fix b :: uint
    assume "46 \<le> unat b"
    then have "b \<noteq> 45" by auto
    then show "img s' b = img s2 b" by (rule 3(2))
  next
    show "i_addrs (disk_inode (img s') i) = i_addrs (disk_inode (img s2) i)" if "i \<in> {1..<n}" for i using D that ok(5) by simp
  qed (rule used_bounds)
  ultimately show thesis using 3(3) 2(4,5) D by (intro that [of s']) simp_all
qed


definition demo_host :: "uchar list \<Rightarrow> uchar list list option" where
  "demo_host arg = (if arg = user_prefix @ [95, 97] then Some [[1, 2], [3], []] else None)"


end
