(* ===== verification/Spec2Isabelle.thy ===== *)
theory Spec2Isabelle
  imports Trap ShRun UprogSpec UmallocSpec Usbrk MkfsRun
begin

text \<open>
  Verification of the xv6 kernel for RISC-V (the sources under \<^verbatim>\<open>src/kernel\<close>), its user library and
  shell (\<^verbatim>\<open>src/user\<close>) and the image builder (\<^verbatim>\<open>src/mkfs\<close>).

  \<^bold>\<open>Reading guide.\<close> Kernel code is translated to functions on an extensible record of the kernel
  state. Every function returns an outcome (theory \<open>Prelude\<close>): a value with the new state, or the
  reason for which the code stopped (a \<^verbatim>\<open>panic\<close>, a \<^verbatim>\<open>sleep\<close>, a spin on a lock), with the state
  at that point.
\<close>

end
